(* ===== verification/Prelude.thy ===== *)
theory Prelude
  imports Main "HOL-Library.Word"
begin

unbundle bit_operations_syntax

text \<open>
  Shared vocabulary of the development: the machine types, the faults a kernel routine can end
  in, the state-and-fault monad in which the routines are written, its weakest preconditions,
  and the generic lemmas that the component theories use.
\<close>

section \<open>Machine types and faults\<close>

type_synonym u8 = "8 word"
type_synonym u16 = "16 word"
type_synonym u32 = "32 word"

text \<open>The modes of \<open>open\<close> (fcntl.h), which the kernel and the programs share.\<close>

definition O_RDONLY :: u32 where "O_RDONLY = 0x000"
definition O_WRONLY :: u32 where "O_WRONLY = 0x001"
definition O_RDWR :: u32 where "O_RDWR = 0x002"
definition O_CREATE :: u32 where "O_CREATE = 0x200"

text \<open>
  What a routine can do other than return: call \<open>panic\<close> with a message, follow a null or dangling
  pointer, index an array out of range, go to sleep in a run where nobody else is scheduled, or
  exhaust the bound put on a loop that may not end.
\<close>

datatype fault =
    Panic string
  | NullDeref
  | OutOfBounds
  | Blocked
  | Diverges

section \<open>The state-and-fault monad\<close>

type_synonym ('s, 'a) km = "'s \<Rightarrow> fault + 'a \<times> 's"

definition ret :: "'a \<Rightarrow> ('s, 'a) km" where
  "ret x = (\<lambda>s. Inr (x, s))"

definition bnd :: "('s, 'a) km \<Rightarrow> ('a \<Rightarrow> ('s, 'b) km) \<Rightarrow> ('s, 'b) km" where
  "bnd m f = (\<lambda>s. case m s of Inl e \<Rightarrow> Inl e | Inr (x, t) \<Rightarrow> f x t)"

definition sq :: "('s, 'a) km \<Rightarrow> ('s, 'b) km \<Rightarrow> ('s, 'b) km" where
  "sq m n = bnd m (\<lambda>_. n)"

definition fail :: "fault \<Rightarrow> ('s, 'a) km" where
  "fail e = (\<lambda>s. Inl e)"

definition panic :: "string \<Rightarrow> ('s, 'a) km" where
  "panic msg = fail (Panic msg)"

definition gets :: "('s \<Rightarrow> 'a) \<Rightarrow> ('s, 'a) km" where
  "gets f = (\<lambda>s. Inr (f s, s))"

definition modify :: "('s \<Rightarrow> 's) \<Rightarrow> ('s, unit) km" where
  "modify f = (\<lambda>s. Inr ((), f s))"

text \<open>Following a pointer that may be null.\<close>

definition deref :: "'a option \<Rightarrow> ('s, 'a) km" where
  "deref p = (case p of None \<Rightarrow> fail NullDeref | Some i \<Rightarrow> ret i)"

text \<open>Running a component's routine on its part of a larger state.\<close>

definition zoom :: "('s \<Rightarrow> 't) \<Rightarrow> ('t \<Rightarrow> 's \<Rightarrow> 's) \<Rightarrow> ('t, 'a) km \<Rightarrow> ('s, 'a) km" where
  "zoom get put m = (\<lambda>s. case m (get s) of Inl e \<Rightarrow> Inl e | Inr (x, t) \<Rightarrow> Inr (x, put t s))"

text \<open>
  The view of a spin lock that one CPU has of its own critical sections: \<open>acquire\<close> panics on a lock
  this CPU already holds and \<open>release\<close> panics on one it does not hold (spinlock.c). The lock
  itself, with its contenders, is the subject of the theory \<open>Spinlock\<close>.
\<close>

definition acquire :: "('s \<Rightarrow> bool) \<Rightarrow> ((bool \<Rightarrow> bool) \<Rightarrow> 's \<Rightarrow> 's) \<Rightarrow> ('s, unit) km" where
  "acquire lk upd = (\<lambda>s. if lk s then Inl (Panic ''acquire'') else Inr ((), upd (\<lambda>_. True) s))"

definition release :: "('s \<Rightarrow> bool) \<Rightarrow> ((bool \<Rightarrow> bool) \<Rightarrow> 's \<Rightarrow> 's) \<Rightarrow> ('s, unit) km" where
  "release lk upd = (\<lambda>s. if lk s then Inr ((), upd (\<lambda>_. False) s) else Inl (Panic ''release''))"

text \<open>Running a routine a fixed number of times, and running it once for each item of a list.\<close>

fun times :: "nat \<Rightarrow> ('s, 'a) km \<Rightarrow> ('s, 'a list) km" where
  "times 0 m = ret []"
| "times (Suc n) m = bnd m (\<lambda>x. bnd (times n m) (\<lambda>xs. ret (x # xs)))"

fun for_each :: "('a \<Rightarrow> ('s, unit) km) \<Rightarrow> 'a list \<Rightarrow> ('s, unit) km" where
  "for_each f [] = ret ()"
| "for_each f (x # xs) = sq (f x) (for_each f xs)"

section \<open>Weakest preconditions\<close>

text \<open>
  \<open>wp m Q s\<close>: from \<open>s\<close> the routine \<open>m\<close> returns without a fault, and its result and final state
  satisfy \<open>Q\<close>. Total correctness: a panic, a null dereference or an exhausted loop bound
  falsifies it.
\<close>

definition wp :: "('s, 'a) km \<Rightarrow> ('a \<Rightarrow> 's \<Rightarrow> bool) \<Rightarrow> 's \<Rightarrow> bool" where
  "wp m Q s = (case m s of Inl e \<Rightarrow> False | Inr (x, t) \<Rightarrow> Q x t)"

named_theorems wp_rules \<open>weakest preconditions of the monad's combinators and of component routines\<close>

named_theorems run_simps \<open>one-step evaluation of the monad's combinators\<close>

lemma ret_run [run_simps]: "ret x s = Inr (x, s)"
  by (simp add: ret_def)

lemma bnd_run [run_simps]: "bnd m f s = (case m s of Inl e \<Rightarrow> Inl e | Inr (x, t) \<Rightarrow> f x t)"
  by (simp add: bnd_def)

lemma sq_run [run_simps]: "sq m n s = (case m s of Inl e \<Rightarrow> Inl e | Inr (x, t) \<Rightarrow> n t)"
  by (simp add: sq_def bnd_def)

lemma fail_run [run_simps]: "fail e s = Inl e"
  by (simp add: fail_def)

lemma panic_run [run_simps]: "panic msg s = Inl (Panic msg)"
  by (simp add: panic_def fail_def)

lemma gets_run [run_simps]: "gets f s = Inr (f s, s)"
  by (simp add: gets_def)

lemma modify_run [run_simps]: "modify f s = Inr ((), f s)"
  by (simp add: modify_def)

lemma deref_None_run [run_simps]: "deref None s = Inl NullDeref"
  by (simp add: deref_def fail_def)

lemma deref_Some_run [run_simps]: "deref (Some i) s = Inr (i, s)"
  by (simp add: deref_def ret_def)

lemma acquire_run [run_simps]:
  "acquire lk upd s = (if lk s then Inl (Panic ''acquire'') else Inr ((), upd (\<lambda>_. True) s))"
  by (simp add: acquire_def)

lemma release_run [run_simps]:
  "release lk upd s = (if lk s then Inr ((), upd (\<lambda>_. False) s) else Inl (Panic ''release''))"
  by (simp add: release_def)

lemma zoom_run [run_simps]:
  "zoom get put m s = (case m (get s) of Inl e \<Rightarrow> Inl e | Inr (x, t) \<Rightarrow> Inr (x, put t s))"
  by (simp add: zoom_def)

lemma wp_ret [wp_rules]: "wp (ret x) Q s = Q x s"
  by (simp add: wp_def ret_def)

lemma wp_bnd [wp_rules]: "wp (bnd m f) Q s = wp m (\<lambda>x t. wp (f x) Q t) s"
  by (auto simp: wp_def bnd_def split: sum.splits prod.splits)

lemma wp_sq [wp_rules]: "wp (sq m n) Q s = wp m (\<lambda>_ t. wp n Q t) s"
  by (simp add: sq_def wp_bnd)

lemma wp_fail [wp_rules]: "wp (fail e) Q s = False"
  by (simp add: wp_def fail_def)

lemma wp_panic [wp_rules]: "wp (panic msg) Q s = False"
  by (simp add: panic_def wp_fail)

lemma wp_gets [wp_rules]: "wp (gets f) Q s = Q (f s) s"
  by (simp add: wp_def gets_def)

lemma wp_modify [wp_rules]: "wp (modify f) Q s = Q () (f s)"
  by (simp add: wp_def modify_def)

lemma wp_deref [wp_rules]: "wp (deref p) Q s = (\<exists>i. p = Some i \<and> Q i s)"
  by (cases p) (simp_all add: deref_def wp_fail wp_ret)

lemma wp_acquire [wp_rules]: "wp (acquire lk upd) Q s = (\<not> lk s \<and> Q () (upd (\<lambda>_. True) s))"
  by (simp add: wp_def acquire_def)

lemma wp_release [wp_rules]: "wp (release lk upd) Q s = (lk s \<and> Q () (upd (\<lambda>_. False) s))"
  by (simp add: wp_def release_def)

lemma wp_zoom [wp_rules]: "wp (zoom get put m) Q s = wp m (\<lambda>x t. Q x (put t s)) (get s)"
  by (auto simp: wp_def zoom_def split: sum.splits prod.splits)

lemma wp_if [wp_rules]: "wp (if b then m else n) Q s = (if b then wp m Q s else wp n Q s)"
  by simp

lemma wp_mono: "wp m P s \<Longrightarrow> (\<And>x t. P x t \<Longrightarrow> Q x t) \<Longrightarrow> wp m Q s"
  by (auto simp: wp_def split: sum.splits)

lemma wp_conj: "wp m P s \<Longrightarrow> wp m Q s \<Longrightarrow> wp m (\<lambda>x t. P x t \<and> Q x t) s"
  by (auto simp: wp_def split: sum.splits)

lemma wp_iff_run: "wp m Q s \<longleftrightarrow> (\<exists>x t. m s = Inr (x, t) \<and> Q x t)"
  by (auto simp: wp_def split: sum.splits)

lemma wp_run: "m s = Inr (x, t) \<Longrightarrow> wp m Q s = Q x t"
  by (simp add: wp_def)

lemma wpI: "m s = Inr (x, t) \<Longrightarrow> Q x t \<Longrightarrow> wp m Q s"
  by (simp add: wp_def)

lemma wpE:
  assumes "wp m Q s"
  obtains x t where "m s = Inr (x, t)" "Q x t"
  using assms by (auto simp: wp_iff_run)

lemma for_each_snoc: "for_each f (xs @ [x]) = sq (for_each f xs) (f x)"
  by (induction xs) (auto simp: fun_eq_iff run_simps split: sum.splits)

text \<open>The rule for loops over an index range: an invariant that each round carries one step further.\<close>

lemma wp_for_each:
  assumes "I 0 s" and "\<And>k t. k < n \<Longrightarrow> I k t \<Longrightarrow> wp (f k) (\<lambda>_ u. I (Suc k) u) t"
  shows "wp (for_each f [0 ..< n]) (\<lambda>_ t. I n t) s"
  using assms
proof (induction n)
  case (Suc n)
  then have "wp (for_each f [0 ..< n]) (\<lambda>_ t. I n t) s" by simp
  then have "wp (for_each f [0 ..< n]) (\<lambda>_ t. wp (f n) (\<lambda>_ u. I (Suc n) u) t) s"
    by (rule wp_mono) (rule Suc.prems(2), simp)
  then show ?case by (simp add: for_each_snoc wp_sq)
qed (simp add: wp_ret)

text \<open>The final state of a run that returns; used to build concrete states step by step.\<close>

definition final :: "('s, 'a) km \<Rightarrow> 's \<Rightarrow> 's" where
  "final m s = (case m s of Inl e \<Rightarrow> s | Inr (x, t) \<Rightarrow> t)"

lemma wp_final: "wp m Q s \<Longrightarrow> \<exists>x. Q x (final m s)"
  by (auto simp: wp_def final_def split: sum.splits)

section \<open>Linear scans of an array\<close>

text \<open>The least index in \<open>[i, n)\<close> that satisfies \<open>p\<close>: the shape of every search for a free slot.\<close>

function scan_from :: "(nat \<Rightarrow> bool) \<Rightarrow> nat \<Rightarrow> nat \<Rightarrow> nat option" where
  "scan_from p i n = (if i < n then (if p i then Some i else scan_from p (Suc i) n) else None)"
  by pat_completeness auto
termination
  by (relation "measure (\<lambda>(p, i, n). n - i)") auto

declare scan_from.simps [simp del]

lemma scan_from_Some:
  "scan_from p i n = Some k \<Longrightarrow> i \<le> k \<and> k < n \<and> p k \<and> (\<forall>j. i \<le> j \<and> j < k \<longrightarrow> \<not> p j)"
proof (induction p i n rule: scan_from.induct)
  case (1 p i n)
  show ?case
  proof (cases "i < n \<and> \<not> p i")
    case True
    with "1.prems" have "scan_from p (Suc i) n = Some k"
      by (simp add: scan_from.simps [of p i n])
    with True "1.IH" have ih: "Suc i \<le> k \<and> k < n \<and> p k \<and> (\<forall>j. Suc i \<le> j \<and> j < k \<longrightarrow> \<not> p j)"
      by blast
    have "\<not> p j" if "i \<le> j" "j < k" for j
      using ih True that by (cases "j = i") auto
    with ih show ?thesis by auto
  next
    case False
    with "1.prems" show ?thesis by (auto simp: scan_from.simps [of p i n] split: if_splits)
  qed
qed

lemma scan_from_None: "scan_from p i n = None \<longleftrightarrow> (\<forall>j. i \<le> j \<and> j < n \<longrightarrow> \<not> p j)"
proof (induction p i n rule: scan_from.induct)
  case (1 p i n)
  show ?case
  proof (cases "i < n \<and> \<not> p i")
    case True
    with "1.IH" have "scan_from p i n = None \<longleftrightarrow> (\<forall>j. Suc i \<le> j \<and> j < n \<longrightarrow> \<not> p j)"
      by (simp add: scan_from.simps [of p i n])
    also have "\<dots> \<longleftrightarrow> (\<forall>j. i \<le> j \<and> j < n \<longrightarrow> \<not> p j)"
      using True by (metis le_eq_less_or_eq Suc_leI less_imp_le_nat Suc_le_lessD)
    finally show ?thesis .
  next
    case False
    then show ?thesis by (auto simp: scan_from.simps [of p i n])
  qed
qed

lemma scan_from_cong:
  "(\<And>j. i \<le> j \<Longrightarrow> j < n \<Longrightarrow> p j = q j) \<Longrightarrow> scan_from p i n = scan_from q i n"
proof (induction p i n rule: scan_from.induct)
  case (1 p i n)
  then show ?case
    by (simp add: scan_from.simps [of p i n] scan_from.simps [of q i n])
qed

end
