(* ===== verification/Cyclic.thy ===== *)
theory Cyclic
  imports Main
begin

text \<open>
  Circular doubly linked lists: the consecutive pairs of a list, those of the list closed on its
  first element, and the predicate that two link fields agree with them. The list of resident
  pages and the list of disk buffers are both of this form.
\<close>

section \<open>Consecutive pairs\<close>

definition pairs :: "'a list \<Rightarrow> ('a \<times> 'a) set" where
  "pairs xs = set (zip xs (tl xs))"

definition cyc :: "'a list \<Rightarrow> ('a \<times> 'a) set" where
  "cyc xs = pairs (xs @ [hd xs])"

lemma pairs_simps [simp]:
  "pairs [] = {}" "pairs [x] = {}" "pairs (x # y # zs) = insert (x, y) (pairs (y # zs))"
  by (simp_all add: pairs_def)

lemma pairs_append: "pairs (xs @ y # zs) = pairs (xs @ [y]) \<union> pairs (y # zs)"
proof (induction xs)
  case Nil
  show ?case by simp
next
  case (Cons x xs)
  then show ?case by (cases xs) auto
qed

lemma pairs_snoc: "xs \<noteq> [] \<Longrightarrow> pairs (xs @ [y]) = insert (last xs, y) (pairs xs)"
proof (induction xs)
  case Nil
  then show ?case by simp
next
  case (Cons x xs)
  then show ?case by (cases xs) auto
qed

lemma pairs_in_set: "(a, b) \<in> pairs xs \<Longrightarrow> a \<in> set xs \<and> b \<in> set xs"
proof (induction xs)
  case Nil
  then show ?case by simp
next
  case (Cons x xs)
  then show ?case by (cases xs) auto
qed

lemma pairs_distinct: "(a, b) \<in> pairs xs \<Longrightarrow> distinct xs \<Longrightarrow> a \<noteq> last xs \<and> b \<noteq> hd xs"
proof (induction xs)
  case Nil
  then show ?case by simp
next
  case (Cons x xs)
  then show ?case by (cases xs) (auto dest: pairs_in_set)
qed

lemma cyc_Nil [simp]: "cyc [] = {}"
  by (simp add: cyc_def)

lemma cyc_single [simp]: "cyc [x] = {(x, x)}"
  by (simp add: cyc_def)

lemma cyc_nonempty: "xs \<noteq> [] \<Longrightarrow> cyc xs = insert (last xs, hd xs) (pairs xs)"
  by (simp add: cyc_def pairs_snoc)

lemma cyc_Cons: "zs \<noteq> [] \<Longrightarrow> cyc (c # zs) = insert (c, hd zs) (insert (last zs, c) (pairs zs))"
  by (cases zs) (auto simp: cyc_nonempty)

lemma cyc_snoc: "xs \<noteq> [] \<Longrightarrow> cyc (xs @ [n]) = insert (n, hd xs) (insert (last xs, n) (pairs xs))"
  by (auto simp: cyc_nonempty pairs_snoc)

lemma cyc_rotate: "cyc (as @ bs) = cyc (bs @ as)"
proof (cases "as = [] \<or> bs = []")
  case True
  then show ?thesis by auto
next
  case False
  then obtain a as' b bs' where "as = a # as'" "bs = b # bs'"
    by (auto simp: neq_Nil_conv)
  then show ?thesis
    using pairs_append [of "a # as'" b "bs' @ [a]"] pairs_append [of "b # bs'" a "as' @ [b]"]
    by (simp add: cyc_def Un_commute)
qed

section \<open>Rings\<close>

definition dring :: "('a \<Rightarrow> 'a option) \<Rightarrow> ('a \<Rightarrow> 'a option) \<Rightarrow> 'a list \<Rightarrow> bool" where
  "dring nx pv xs \<longleftrightarrow> (\<forall>(a, b) \<in> cyc xs. nx a = Some b \<and> pv b = Some a)"

lemma dring_rotate: "dring nx pv (as @ bs) = dring nx pv (bs @ as)"
  by (simp add: dring_def cyc_rotate [of as bs])

lemma dring_Nil [simp]: "dring nx pv []"
  by (simp add: dring_def)

lemma dring_Cons:
  "zs \<noteq> [] \<Longrightarrow> dring nx pv (c # zs) \<longleftrightarrow>
     nx c = Some (hd zs) \<and> pv (hd zs) = Some c \<and> nx (last zs) = Some c \<and> pv c = Some (last zs) \<and>
     (\<forall>(a, b) \<in> pairs zs. nx a = Some b \<and> pv b = Some a)"
  by (auto simp: dring_def cyc_Cons)

lemma dring_insert:
  assumes ring: "dring nx pv xs" and ne: "xs \<noteq> []" and dist: "distinct xs"
    and links: "nx' n = Some (hd xs)" "pv' n = Some (last xs)" "pv' (hd xs) = Some n" "nx' (last xs) = Some n"
    and same: "\<And>a. a \<in> set xs \<Longrightarrow> a \<noteq> last xs \<Longrightarrow> nx' a = nx a"
      "\<And>b. b \<in> set xs \<Longrightarrow> b \<noteq> hd xs \<Longrightarrow> pv' b = pv b"
  shows "dring nx' pv' (xs @ [n])"
proof -
  have "nx' a = Some b \<and> pv' b = Some a" if "(a, b) \<in> pairs xs" for a b
    using that ring ne pairs_distinct [OF that dist] pairs_in_set [OF that] same [of a] same(2) [of b]
    by (auto simp: dring_def cyc_nonempty)
  with ne links show ?thesis by (auto simp: dring_def cyc_snoc)
qed

lemma dring_remove:
  assumes ring: "dring nx pv (c # zs)" and ne: "zs \<noteq> []" and dist: "distinct (c # zs)"
    and links: "nx' (last zs) = Some (hd zs)" "pv' (hd zs) = Some (last zs)"
    and same: "\<And>a. a \<in> set zs \<Longrightarrow> a \<noteq> last zs \<Longrightarrow> nx' a = nx a"
      "\<And>b. b \<in> set zs \<Longrightarrow> b \<noteq> hd zs \<Longrightarrow> pv' b = pv b"
  shows "dring nx' pv' zs"
proof -
  from dist have dz: "distinct zs" by simp
  have "nx' a = Some b \<and> pv' b = Some a" if "(a, b) \<in> pairs zs" for a b
    using that ring ne pairs_distinct [OF that dz] pairs_in_set [OF that] same [of a] same(2) [of b]
    by (auto simp: dring_Cons)
  with ne links show ?thesis by (auto simp: dring_def cyc_nonempty)
qed

end
