(* ===== verification/Lru.thy ===== *)
theory Lru
  imports Prelude Cyclic
begin

text \<open>
  The list of resident pages of lru_swap.c: a circular doubly linked list threaded through the
  array \<open>lru.lru_frame_list\<close>, with \<open>bitmap.frame_bitmap\<close> marking the entries in use. Pointers into
  the array are modelled by indices (\<open>None\<close> is the null pointer), so that a dereference of null is
  the fault \<open>NullDeref\<close>.
\<close>

section \<open>State\<close>

definition MAX_FRAME_LRU :: nat where
  "MAX_FRAME_LRU = 1000"

record frame =
  f_pid :: u32
  f_vaddr :: u32
  f_next :: "nat option"
  f_prev :: "nat option"

record lru =
  head :: "nat option"
  lru_frame_list :: "nat \<Rightarrow> frame"
  lru_lk :: bool
  frame_bitmap :: "nat \<Rightarrow> int"

text \<open>The static storage before \<open>lru_swap_init\<close> runs: everything is zero.\<close>

definition lru_zero :: lru where
  "lru_zero = \<lparr>head = None,
     lru_frame_list = (\<lambda>_. \<lparr>f_pid = 0, f_vaddr = 0, f_next = None, f_prev = None\<rparr>),
     lru_lk = False, frame_bitmap = (\<lambda>_. 0)\<rparr>"

definition upd_frame :: "nat \<Rightarrow> (frame \<Rightarrow> frame) \<Rightarrow> (lru, unit) km" where
  "upd_frame i g = modify (\<lambda>s. s\<lparr>lru_frame_list := (lru_frame_list s)(i := g (lru_frame_list s i))\<rparr>)"

definition get_frame :: "nat \<Rightarrow> (lru, frame) km" where
  "get_frame i = gets (\<lambda>s. lru_frame_list s i)"

definition set_bitmap :: "nat \<Rightarrow> int \<Rightarrow> (lru, unit) km" where
  "set_bitmap i v = modify (\<lambda>s. s\<lparr>frame_bitmap := (frame_bitmap s)(i := v)\<rparr>)"

section \<open>Operations\<close>

text \<open>The part of \<open>lru_swap_init\<close> that concerns the resident list.\<close>

definition lru_init :: "(lru, unit) km" where
  "lru_init =
     sq (modify (\<lambda>s. s\<lparr>frame_bitmap := (\<lambda>i. if i < MAX_FRAME_LRU then -1 else frame_bitmap s i)\<rparr>))
        (modify (\<lambda>s. s\<lparr>lru_lk := False\<rparr>))"

definition get_free_frame_lru :: "lru \<Rightarrow> int" where
  "get_free_frame_lru s =
     (case scan_from (\<lambda>i. frame_bitmap s i = -1) 0 MAX_FRAME_LRU of Some i \<Rightarrow> int i | None \<Rightarrow> -1)"

definition lru_insert :: "u32 \<Rightarrow> u32 \<Rightarrow> (lru, int) km" where
  "lru_insert pid vaddr =
     bnd (gets head) (\<lambda>hd.
     case hd of
       None \<Rightarrow>
         sq (acquire lru_lk lru_lk_update) (
         bnd (gets get_free_frame_lru) (\<lambda>index.
         if index = -1 then sq (release lru_lk lru_lk_update) (ret (-1))
         else (let i = nat index in
           sq (upd_frame i (\<lambda>f. f\<lparr>f_pid := pid\<rparr>)) (
           sq (upd_frame i (\<lambda>f. f\<lparr>f_vaddr := vaddr\<rparr>)) (
           sq (upd_frame i (\<lambda>f. f\<lparr>f_next := Some i, f_prev := Some i\<rparr>)) (
           sq (modify (\<lambda>s. s\<lparr>head := Some i\<rparr>)) (
           sq (set_bitmap i 1) (
           sq (release lru_lk lru_lk_update) (
           ret 0)))))))))
     | Some h \<Rightarrow>
         bnd (get_frame h) (\<lambda>hf.
         let last = f_prev hf in
         sq (acquire lru_lk lru_lk_update) (
         bnd (gets get_free_frame_lru) (\<lambda>index.
         if index = -1 then sq (release lru_lk lru_lk_update) (ret (-1))
         else (let i = nat index in
           sq (upd_frame i (\<lambda>f. f\<lparr>f_pid := pid\<rparr>)) (
           sq (upd_frame i (\<lambda>f. f\<lparr>f_vaddr := vaddr\<rparr>)) (
           sq (upd_frame i (\<lambda>f. f\<lparr>f_next := Some h\<rparr>)) (
           sq (upd_frame i (\<lambda>f. f\<lparr>f_prev := last\<rparr>)) (
           sq (upd_frame h (\<lambda>f. f\<lparr>f_prev := Some i\<rparr>)) (
           bnd (deref last) (\<lambda>l.
           sq (upd_frame l (\<lambda>f. f\<lparr>f_next := Some i\<rparr>)) (
           sq (set_bitmap i 1) (
           sq (release lru_lk lru_lk_update) (
           ret 0))))))))))))))"

text \<open>
  The search loop of \<open>lru_free_frame\<close>, with \<open>curr\<close> and \<open>prev\<close>. Its first argument bounds the number
  of iterations; the ring has at most \<open>MAX_FRAME_LRU\<close> entries.
\<close>

fun lru_find :: "nat \<Rightarrow> u32 \<Rightarrow> u32 \<Rightarrow> nat \<Rightarrow> nat option \<Rightarrow> (lru, nat \<times> nat option) km" where
  "lru_find 0 pid vaddr cur prev = fail Diverges"
| "lru_find (Suc n) pid vaddr cur prev =
     bnd (get_frame cur) (\<lambda>f.
     if f_pid f \<noteq> pid \<or> f_vaddr f \<noteq> vaddr then
       bnd (gets head) (\<lambda>h.
       if f_next f = h then ret (cur, Some cur)
       else bnd (deref (f_next f)) (\<lambda>nx. lru_find n pid vaddr nx (Some cur)))
     else ret (cur, prev))"

definition lru_free_frame :: "u32 \<Rightarrow> u32 \<Rightarrow> (lru, unit) km" where
  "lru_free_frame pid vaddr =
     bnd (gets head) (\<lambda>hd.
     case hd of
       None \<Rightarrow> ret ()
     | Some h \<Rightarrow>
         sq (acquire lru_lk lru_lk_update) (
         bnd (lru_find MAX_FRAME_LRU pid vaddr h None) (\<lambda>(cur, prev).
         bnd (get_frame cur) (\<lambda>f.
         sq (if f_pid f = pid \<and> f_vaddr f = vaddr then
               sq (if Some cur = hd then modify (\<lambda>s. s\<lparr>head := f_next f\<rparr>) else ret ()) (
               bnd (gets head) (\<lambda>h2.
               sq (if Some cur = h2 \<and> prev \<noteq> None then
                     bnd (deref prev) (\<lambda>p.
                     sq (upd_frame p (\<lambda>g. g\<lparr>f_next := h2\<rparr>))
                        (bnd (deref h2) (\<lambda>q. upd_frame q (\<lambda>g. g\<lparr>f_prev := prev\<rparr>))))
                   else
                     bnd (deref (f_prev f)) (\<lambda>p.
                     sq (upd_frame p (\<lambda>g. g\<lparr>f_next := f_next f\<rparr>))
                        (bnd (get_frame cur) (\<lambda>f2.
                         bnd (deref (f_next f2)) (\<lambda>q. upd_frame q (\<lambda>g. g\<lparr>f_prev := f_prev f2\<rparr>))))))
                  (set_bitmap cur (-1))))
             else ret ())
            (release lru_lk lru_lk_update)))))"

text \<open>On success \<open>lru_delete\<close> returns with \<open>lru.lk\<close> held; \<open>lru_release_frame\<close> gives it back.\<close>

definition lru_delete :: "(lru, int) km" where
  "lru_delete =
     bnd (gets head) (\<lambda>hd.
     case hd of
       None \<Rightarrow> ret (-1)
     | Some h \<Rightarrow>
         sq (acquire lru_lk lru_lk_update) (
         bnd (get_frame h) (\<lambda>f.
         if f_next f = Some h then
           sq (upd_frame h (\<lambda>g. g\<lparr>f_next := None\<rparr>)) (
           sq (upd_frame h (\<lambda>g. g\<lparr>f_prev := None\<rparr>)) (
           ret (int h)))
         else
           bnd (deref (f_prev f)) (\<lambda>p.
           sq (upd_frame p (\<lambda>g. g\<lparr>f_next := f_next f\<rparr>)) (
           bnd (get_frame h) (\<lambda>f2.
           bnd (deref (f_next f2)) (\<lambda>q.
           sq (upd_frame q (\<lambda>g. g\<lparr>f_prev := f_prev f2\<rparr>)) (
           bnd (get_frame h) (\<lambda>f3.
           sq (modify (\<lambda>s. s\<lparr>head := f_next f3\<rparr>)) (
           sq (upd_frame h (\<lambda>g. g\<lparr>f_next := None\<rparr>)) (
           sq (upd_frame h (\<lambda>g. g\<lparr>f_prev := None\<rparr>)) (
           ret (int h)))))))))))))"

definition lru_get_pid_frame :: "int \<Rightarrow> (lru, u32) km" where
  "lru_get_pid_frame index =
     bnd (gets lru_lk) (\<lambda>held.
     if \<not> held then panic (''Not Holding Lock'' @ [CHR 0x0A])
     else if index < 0 \<or> int MAX_FRAME_LRU \<le> index then fail OutOfBounds
     else bnd (get_frame (nat index)) (\<lambda>f. ret (f_pid f)))"

definition lru_get_vaddr_frame :: "int \<Rightarrow> (lru, u32) km" where
  "lru_get_vaddr_frame index =
     bnd (gets lru_lk) (\<lambda>held.
     if \<not> held then panic (''Not Holding Lock'' @ [CHR 0x0A])
     else if index < 0 \<or> int MAX_FRAME_LRU \<le> index then fail OutOfBounds
     else bnd (get_frame (nat index)) (\<lambda>f. ret (f_vaddr f)))"

definition lru_release_frame :: "int \<Rightarrow> (lru, unit) km" where
  "lru_release_frame index =
     (if index < 0 \<or> int MAX_FRAME_LRU \<le> index then fail OutOfBounds
      else sq (set_bitmap (nat index) (-1)) (release lru_lk lru_lk_update))"

text \<open>The \<open>do ... while\<close> loop of \<open>lru_free\<close>, one iteration per unit of its first argument.\<close>

fun lru_free_loop :: "nat \<Rightarrow> u32 \<Rightarrow> nat \<Rightarrow> (lru, unit) km" where
  "lru_free_loop 0 pid cur = fail Diverges"
| "lru_free_loop (Suc n) pid cur =
     bnd (get_frame cur) (\<lambda>f.
     bnd (if f_pid f = pid then
            bnd (gets head) (\<lambda>h.
            bnd (if Some cur = h then sq (modify (\<lambda>s. s\<lparr>head := f_next f\<rparr>)) (ret True)
                 else ret False) (\<lambda>flag.
            sq (case f_prev f of None \<Rightarrow> ret ()
                | Some p \<Rightarrow> upd_frame p (\<lambda>g. g\<lparr>f_next := f_next f\<rparr>)) (
            bnd (get_frame cur) (\<lambda>f2.
            sq (case f_next f2 of None \<Rightarrow> ret ()
                | Some q \<Rightarrow> upd_frame q (\<lambda>g. g\<lparr>f_prev := f_prev f2\<rparr>)) (
            sq (set_bitmap cur (-1)) (
            ret flag))))))
          else ret False) (\<lambda>flag.
     bnd (get_frame cur) (\<lambda>f3.
     bnd (deref (f_next f3)) (\<lambda>c.
     bnd (get_frame c) (\<lambda>g.
     if f_next g = Some c \<and> f_prev g = Some c then ret ()
     else
       bnd (gets head) (\<lambda>h.
       if flag \<or> Some c \<noteq> h then lru_free_loop n pid c else ret ()))))))"

definition lru_free :: "u32 \<Rightarrow> (lru, unit) km" where
  "lru_free pid =
     bnd (gets head) (\<lambda>hd.
     case hd of
       None \<Rightarrow> ret ()
     | Some h \<Rightarrow>
         sq (acquire lru_lk lru_lk_update) (
         sq (lru_free_loop MAX_FRAME_LRU pid h)
            (release lru_lk lru_lk_update)))"

text \<open>\<open>lru_read\<close>: the lines it prints, as (pid, index, vaddr) triples; none for an empty list.\<close>

fun lru_read_loop :: "nat \<Rightarrow> nat option \<Rightarrow> (lru, (u32 \<times> nat \<times> u32) list) km" where
  "lru_read_loop 0 cur = fail Diverges"
| "lru_read_loop (Suc n) cur =
     bnd (gets head) (\<lambda>h.
     if cur = h then ret []
     else
       bnd (deref cur) (\<lambda>c.
       bnd (get_frame c) (\<lambda>f.
       bnd (lru_read_loop n (f_next f)) (\<lambda>rest.
       ret ((f_pid f, c, f_vaddr f) # rest)))))"

definition lru_read :: "(lru, (u32 \<times> nat \<times> u32) list) km" where
  "lru_read =
     bnd (gets head) (\<lambda>hd.
     case hd of
       None \<Rightarrow> ret []
     | Some h \<Rightarrow>
         bnd (get_frame h) (\<lambda>f.
         bnd (lru_read_loop MAX_FRAME_LRU (f_next f)) (\<lambda>rest.
         ret ((f_pid f, h, f_vaddr f) # rest))))"

declare lru_find.simps [simp del] lru_free_loop.simps [simp del] lru_read_loop.simps [simp del]

section \<open>The ring of entries\<close>

definition ring :: "(nat \<Rightarrow> frame) \<Rightarrow> nat list \<Rightarrow> bool" where
  "ring f xs \<longleftrightarrow> (\<forall>(a, b) \<in> cyc xs. f_next (f a) = Some b \<and> f_prev (f b) = Some a)"

lemma ring_dring: "ring f xs = dring (\<lambda>i. f_next (f i)) (\<lambda>i. f_prev (f i)) xs"
  by (simp add: ring_def dring_def)

lemma ring_Nil [simp]: "ring f []"
  by (simp add: ring_dring)

lemma ring_rotate: "ring f (as @ bs) = ring f (bs @ as)"
  unfolding ring_dring by (rule dring_rotate)

lemma ring_Cons:
  "zs \<noteq> [] \<Longrightarrow> ring f (c # zs) \<longleftrightarrow>
     f_next (f c) = Some (hd zs) \<and> f_prev (f (hd zs)) = Some c \<and>
     f_next (f (last zs)) = Some c \<and> f_prev (f c) = Some (last zs) \<and>
     (\<forall>(a, b) \<in> pairs zs. f_next (f a) = Some b \<and> f_prev (f b) = Some a)"
  unfolding ring_dring by (rule dring_Cons)

lemma ring_insert:
  assumes "ring f xs" "xs \<noteq> []" "distinct xs"
    "f_next (g n) = Some (hd xs)" "f_prev (g n) = Some (last xs)"
    "f_prev (g (hd xs)) = Some n" "f_next (g (last xs)) = Some n"
    "\<And>a. a \<in> set xs \<Longrightarrow> a \<noteq> last xs \<Longrightarrow> f_next (g a) = f_next (f a)"
    "\<And>b. b \<in> set xs \<Longrightarrow> b \<noteq> hd xs \<Longrightarrow> f_prev (g b) = f_prev (f b)"
  shows "ring g (xs @ [n])"
  using assms unfolding ring_dring by (rule dring_insert)

lemma ring_remove:
  assumes "ring f (c # zs)" "zs \<noteq> []" "distinct (c # zs)"
    "f_next (g (last zs)) = Some (hd zs)" "f_prev (g (hd zs)) = Some (last zs)"
    "\<And>a. a \<in> set zs \<Longrightarrow> a \<noteq> last zs \<Longrightarrow> f_next (g a) = f_next (f a)"
    "\<And>b. b \<in> set zs \<Longrightarrow> b \<noteq> hd zs \<Longrightarrow> f_prev (g b) = f_prev (f b)"
  shows "ring g zs"
  using assms unfolding ring_dring by (rule dring_remove)

section \<open>The representation invariant\<close>

text \<open>
  \<open>lru_wf s xs\<close>: the ring of \<open>s\<close> holds exactly the array entries \<open>xs\<close>, least recently inserted
  first, and the bitmap marks exactly them; \<open>lru_rep\<close> adds that the lock is free. \<open>entries s xs\<close> are the (pid, vaddr)
  pairs they hold.
\<close>

definition lru_wf :: "lru \<Rightarrow> nat list \<Rightarrow> bool" where
  "lru_wf s xs \<longleftrightarrow>
     distinct xs \<and> set xs \<subseteq> {..<MAX_FRAME_LRU} \<and> ring (lru_frame_list s) xs \<and>
     head s = (case xs of [] \<Rightarrow> None | x # _ \<Rightarrow> Some x) \<and>
     (\<forall>i < MAX_FRAME_LRU. frame_bitmap s i = (if i \<in> set xs then 1 else -1))"

definition lru_rep :: "lru \<Rightarrow> nat list \<Rightarrow> bool" where
  "lru_rep s xs \<longleftrightarrow> lru_wf s xs \<and> \<not> lru_lk s"

definition entry :: "lru \<Rightarrow> nat \<Rightarrow> u32 \<times> u32" where
  "entry s i = (f_pid (lru_frame_list s i), f_vaddr (lru_frame_list s i))"

definition entries :: "lru \<Rightarrow> nat list \<Rightarrow> (u32 \<times> u32) list" where
  "entries s xs = map (entry s) xs"

lemma lru_rep_length: "lru_rep s xs \<Longrightarrow> length xs \<le> MAX_FRAME_LRU"
proof -
  assume "lru_rep s xs"
  then have "distinct xs" "set xs \<subseteq> {..<MAX_FRAME_LRU}" by (simp_all add: lru_rep_def lru_wf_def)
  then have "card (set xs) \<le> card {..<MAX_FRAME_LRU}" by (intro card_mono) auto
  with \<open>distinct xs\<close> show ?thesis by (simp add: distinct_card)
qed

lemma get_free_frame_lru_free:
  assumes rep: "lru_rep s xs" and room: "length xs < MAX_FRAME_LRU"
  obtains n where "get_free_frame_lru s = int n" "n < MAX_FRAME_LRU" "n \<notin> set xs"
proof -
  from rep room have "card (set xs) < card {..<MAX_FRAME_LRU}"
    by (simp add: lru_rep_def lru_wf_def distinct_card)
  then have "\<not> {..<MAX_FRAME_LRU} \<subseteq> set xs"
    using card_mono [of "set xs" "{..<MAX_FRAME_LRU}"] by auto
  then obtain j where "j < MAX_FRAME_LRU" "j \<notin> set xs" by auto
  with rep have "scan_from (\<lambda>i. frame_bitmap s i = -1) 0 MAX_FRAME_LRU \<noteq> None"
    by (auto simp: scan_from_None lru_rep_def lru_wf_def)
  then obtain n where n: "scan_from (\<lambda>i. frame_bitmap s i = -1) 0 MAX_FRAME_LRU = Some n" by auto
  from scan_from_Some [OF n] have "n < MAX_FRAME_LRU" "frame_bitmap s n = -1" by auto
  with rep have "n \<notin> set xs" by (auto simp: lru_rep_def lru_wf_def split: if_splits)
  with n \<open>n < MAX_FRAME_LRU\<close> show thesis by (intro that) (simp_all add: get_free_frame_lru_def)
qed

lemma get_free_frame_lru_full:
  assumes rep: "lru_rep s xs" and full: "length xs = MAX_FRAME_LRU"
  shows "get_free_frame_lru s = -1"
proof -
  from rep full have "card (set xs) = card {..<MAX_FRAME_LRU}" "set xs \<subseteq> {..<MAX_FRAME_LRU}"
    by (simp_all add: lru_rep_def lru_wf_def distinct_card)
  then have "set xs = {..<MAX_FRAME_LRU}" by (intro card_subset_eq) auto
  with rep have "scan_from (\<lambda>i. frame_bitmap s i = -1) 0 MAX_FRAME_LRU = None"
    by (auto simp: scan_from_None lru_rep_def lru_wf_def)
  then show ?thesis by (simp add: get_free_frame_lru_def)
qed

section \<open>What the operations do to the ring\<close>

lemma wp_upd_frame [wp_rules]:
  "wp (upd_frame i g) Q s = Q () (s\<lparr>lru_frame_list := (lru_frame_list s)(i := g (lru_frame_list s i))\<rparr>)"
  by (simp add: upd_frame_def wp_rules)

lemma wp_get_frame [wp_rules]: "wp (get_frame i) Q s = Q (lru_frame_list s i) s"
  by (simp add: get_frame_def wp_rules)

lemma wp_set_bitmap [wp_rules]:
  "wp (set_bitmap i v) Q s = Q () (s\<lparr>frame_bitmap := (frame_bitmap s)(i := v)\<rparr>)"
  by (simp add: set_bitmap_def wp_rules)

lemma lru_rep_init: "wp lru_init (\<lambda>_ t. lru_rep t []) lru_zero"
  by (simp add: lru_init_def wp_rules lru_rep_def lru_wf_def lru_zero_def)

lemma lru_insert_full:
  assumes rep: "lru_rep s xs" and full: "length xs = MAX_FRAME_LRU"
  shows "lru_insert pid vaddr s = Inr (-1, s)"
proof -
  from full obtain y ys where xs: "xs = y # ys" by (cases xs) (auto simp: MAX_FRAME_LRU_def)
  have free: "get_free_frame_lru (s\<lparr>lru_lk := True\<rparr>) = -1"
    using get_free_frame_lru_full [OF rep full] by (simp add: get_free_frame_lru_def)
  from rep xs have h: "head s = Some y" "\<not> lru_lk s" by (simp_all add: lru_rep_def lru_wf_def)
  then have "s\<lparr>lru_lk := False\<rparr> = s" by simp
  with h free show ?thesis by (simp add: lru_insert_def get_frame_def run_simps Let_def)
qed

text \<open>
  The state after an insertion and after a removal, characterised field by field: what the link
  updates of the code have to establish for the representation to move on.
\<close>

lemma lru_rep_insert:
  assumes rep: "lru_rep s xs" and n: "n < MAX_FRAME_LRU" "n \<notin> set xs" and ne: "xs \<noteq> []"
    and lk: "\<not> lru_lk t" and hd: "head t = head s"
    and bm: "frame_bitmap t = (frame_bitmap s)(n := 1)"
    and links: "f_next (lru_frame_list t n) = Some (hd xs)" "f_prev (lru_frame_list t n) = Some (last xs)"
      "f_prev (lru_frame_list t (hd xs)) = Some n" "f_next (lru_frame_list t (last xs)) = Some n"
    and same: "\<And>a. a \<in> set xs \<Longrightarrow> a \<noteq> last xs \<Longrightarrow> f_next (lru_frame_list t a) = f_next (lru_frame_list s a)"
      "\<And>b. b \<in> set xs \<Longrightarrow> b \<noteq> hd xs \<Longrightarrow> f_prev (lru_frame_list t b) = f_prev (lru_frame_list s b)"
    and ent: "\<And>a. a \<in> set xs \<Longrightarrow> entry t a = entry s a"
  shows "lru_rep t (xs @ [n]) \<and> entries t (xs @ [n]) = entries s xs @ [entry t n]"
proof -
  have "ring (lru_frame_list t) (xs @ [n])"
    using rep by (intro ring_insert [OF _ ne _ links same]) (auto simp: lru_rep_def lru_wf_def)
  then show ?thesis
    using rep n ne lk hd bm ent by (cases xs) (auto simp: lru_rep_def lru_wf_def entries_def)
qed

lemma lru_insert_room:
  assumes rep: "lru_rep s xs" and room: "length xs < MAX_FRAME_LRU"
  shows "wp (lru_insert pid vaddr)
     (\<lambda>r t. r = 0 \<and> (\<exists>n. n \<notin> set xs \<and> lru_rep t (xs @ [n]) \<and>
        entries t (xs @ [n]) = entries s xs @ [(pid, vaddr)])) s"
proof -
  obtain n where n: "get_free_frame_lru s = int n" "n < MAX_FRAME_LRU" "n \<notin> set xs"
    using get_free_frame_lru_free [OF rep room] by blast
  have free: "get_free_frame_lru (s\<lparr>lru_lk := True\<rparr>) = int n"
    using n(1) by (simp add: get_free_frame_lru_def)
  show ?thesis
  proof (cases xs)
    case Nil
    with rep n free show ?thesis
      by (auto simp: lru_insert_def wp_rules lru_rep_def lru_wf_def Let_def ring_def entries_def entry_def)
  next
    case (Cons h ys)
    with rep have h: "head s = Some h" "\<not> lru_lk s" "f_prev (lru_frame_list s h) = Some (last xs)"
      by (auto simp: lru_rep_def lru_wf_def ring_def cyc_nonempty)
    define t where "t = s\<lparr>lru_frame_list := (lru_frame_list s)
       (n := (lru_frame_list s n)\<lparr>f_pid := pid, f_vaddr := vaddr, f_next := Some h, f_prev := Some (last xs)\<rparr>,
        h := (lru_frame_list s h)\<lparr>f_prev := Some n\<rparr>,
        last xs := (((lru_frame_list s)(h := (lru_frame_list s h)\<lparr>f_prev := Some n\<rparr>)) (last xs))\<lparr>f_next := Some n\<rparr>),
       frame_bitmap := (frame_bitmap s)(n := 1), lru_lk := False\<rparr>"
    have hx: "h \<noteq> n" "last xs \<noteq> n" "hd xs = h" using Cons n(3) by auto
    have "lru_insert pid vaddr s = Inr (0, t)"
      using h free hx
      by (simp add: lru_insert_def run_simps Let_def get_frame_def upd_frame_def set_bitmap_def t_def)
    moreover have "lru_rep t (xs @ [n]) \<and> entries t (xs @ [n]) = entries s xs @ [entry t n]"
      using hx n(3) h Cons by (intro lru_rep_insert [OF rep n(2,3)]) (auto simp: t_def entry_def)
    moreover have "entry t n = (pid, vaddr)" using hx by (simp add: t_def entry_def)
    ultimately show ?thesis using n(3) by (intro wpI) auto
  qed
qed

lemma lru_wf_remove:
  assumes wf: "lru_wf s (as @ c # bs)" and ne: "as @ bs \<noteq> []"
    and hd: "head t = Some (hd (as @ bs))"
    and bm: "\<forall>i < MAX_FRAME_LRU. frame_bitmap t i = ((frame_bitmap s)(c := -1)) i"
    and links: "f_next (lru_frame_list t (last (bs @ as))) = Some (hd (bs @ as))"
      "f_prev (lru_frame_list t (hd (bs @ as))) = Some (last (bs @ as))"
    and same: "\<And>a. a \<in> set (as @ bs) \<Longrightarrow> a \<noteq> last (bs @ as) \<Longrightarrow>
        f_next (lru_frame_list t a) = f_next (lru_frame_list s a)"
      "\<And>b. b \<in> set (as @ bs) \<Longrightarrow> b \<noteq> hd (bs @ as) \<Longrightarrow>
        f_prev (lru_frame_list t b) = f_prev (lru_frame_list s b)"
    and ent: "\<And>a. a \<in> set (as @ bs) \<Longrightarrow> entry t a = entry s a"
  shows "lru_wf t (as @ bs) \<and> entries t (as @ bs) = entries s (as @ bs)"
proof -
  from wf have "ring (lru_frame_list s) (c # bs @ as)" "distinct (c # bs @ as)"
    using ring_rotate [of _ as "c # bs"] by (auto simp: lru_wf_def)
  then have "ring (lru_frame_list t) (bs @ as)"
    using ne same by (intro ring_remove [of "lru_frame_list s" c "bs @ as", OF _ _ _ links]) auto
  then have "ring (lru_frame_list t) (as @ bs)" using ring_rotate by blast
  moreover from ne hd have "head t = (case as @ bs of [] \<Rightarrow> None | x # _ \<Rightarrow> Some x)"
    by (cases "as @ bs") auto
  ultimately show ?thesis
    using wf bm ent by (auto simp: lru_wf_def entries_def)
qed

text \<open>The neighbours of an entry of the ring.\<close>

lemma lru_wf_neighbours:
  assumes "lru_wf s (as @ c # bs)" "as @ bs \<noteq> []"
  shows "f_next (lru_frame_list s c) = Some (hd (bs @ as))"
    "f_prev (lru_frame_list s c) = Some (last (bs @ as))"
    "hd (bs @ as) \<noteq> c" "last (bs @ as) \<noteq> c"
    "hd (bs @ as) \<in> set (bs @ as)" "last (bs @ as) \<in> set (bs @ as)"
    "as \<noteq> [] \<Longrightarrow> head s = Some (hd as)" "as = [] \<Longrightarrow> head s = Some c"
proof -
  from assms have ring: "ring (lru_frame_list s) (c # bs @ as)" and dist: "distinct (c # bs @ as)"
    using ring_rotate [of _ as "c # bs"] by (auto simp: lru_wf_def)
  from assms have ne: "bs @ as \<noteq> []" by auto
  then show ends: "hd (bs @ as) \<in> set (bs @ as)" "last (bs @ as) \<in> set (bs @ as)"
    by (simp_all only: hd_in_set last_in_set not_False_eq_True)
  from ring ne show "f_next (lru_frame_list s c) = Some (hd (bs @ as))"
    "f_prev (lru_frame_list s c) = Some (last (bs @ as))" by (simp_all add: ring_Cons)
  from dist ends show "hd (bs @ as) \<noteq> c" "last (bs @ as) \<noteq> c" by (metis distinct.simps(2))+
  from assms(1) show "as \<noteq> [] \<Longrightarrow> head s = Some (hd as)" "as = [] \<Longrightarrow> head s = Some c"
    by (auto simp: lru_wf_def neq_Nil_conv)
qed

text \<open>
  Unlinking \<open>c\<close> the way the code does it: first the \<open>next\<close> of its predecessor, then the \<open>prev\<close> of
  its successor.
\<close>

definition unlink :: "nat \<Rightarrow> lru \<Rightarrow> nat \<Rightarrow> nat \<Rightarrow> (nat \<Rightarrow> frame)" where
  "unlink c s p q = (lru_frame_list s)
     (p := (lru_frame_list s p)\<lparr>f_next := Some q\<rparr>,
      q := (((lru_frame_list s)(p := (lru_frame_list s p)\<lparr>f_next := Some q\<rparr>)) q)\<lparr>f_prev := Some p\<rparr>)"

lemma lru_wf_unlink:
  assumes wf: "lru_wf s (as @ c # bs)" and ne: "as @ bs \<noteq> []"
    and hd: "head t = Some (hd (as @ bs))"
    and bm: "\<forall>i < MAX_FRAME_LRU. frame_bitmap t i = ((frame_bitmap s)(c := -1)) i"
    and fr: "\<forall>i. i \<noteq> c \<longrightarrow> lru_frame_list t i = unlink c s (last (bs @ as)) (hd (bs @ as)) i"
  shows "lru_wf t (as @ bs) \<and> entries t (as @ bs) = entries s (as @ bs)"
proof -
  note nb = lru_wf_neighbours [OF wf ne]
  have c: "c \<notin> set (as @ bs)" using wf by (auto simp: lru_wf_def)
  show ?thesis
  proof (rule lru_wf_remove [OF wf ne hd bm])
    show "f_next (lru_frame_list t (last (bs @ as))) = Some (hd (bs @ as))"
      "f_prev (lru_frame_list t (hd (bs @ as))) = Some (last (bs @ as))"
      using fr nb(3,4) by (auto simp: unlink_def)
  next
    fix a assume "a \<in> set (as @ bs)" "a \<noteq> last (bs @ as)"
    with fr c show "f_next (lru_frame_list t a) = f_next (lru_frame_list s a)"
      by (auto simp: unlink_def)
  next
    fix b assume "b \<in> set (as @ bs)" "b \<noteq> hd (bs @ as)"
    with fr c show "f_prev (lru_frame_list t b) = f_prev (lru_frame_list s b)"
      by (auto simp: unlink_def)
  next
    fix a assume "a \<in> set (as @ bs)"
    with fr c show "entry t a = entry s a" by (auto simp: unlink_def entry_def)
  qed
qed

text \<open>
  The eviction sequence of \<open>get_lru\<close>: take the oldest entry out of the ring, read it while the
  lock is held, then give the array entry and the lock back.
\<close>

definition lru_evict :: "(lru, u32 \<times> u32) km" where
  "lru_evict =
     bnd lru_delete (\<lambda>index.
     if index < 0 then panic ''LRU full as well as empty.''
     else
       bnd (lru_get_pid_frame index) (\<lambda>pid_lru.
       bnd (lru_get_vaddr_frame index) (\<lambda>vaddr_lru.
       sq (lru_release_frame index) (
       ret (pid_lru, vaddr_lru)))))"

lemma lru_evict_oldest:
  assumes rep: "lru_rep s (x # ys)" and ne: "ys \<noteq> []"
  shows "wp lru_evict (\<lambda>e t. e = entry s x \<and> lru_rep t ys \<and> entries t ys = entries s ys) s"
proof -
  from rep have wf: "lru_wf s ([] @ x # ys)" and lk: "\<not> lru_lk s" by (simp_all add: lru_rep_def)
  from ne have "[] @ ys \<noteq> []" by simp
  note nb = lru_wf_neighbours [OF wf this]
  define u where "u = unlink x s (last ys) (hd ys)"
  define t where "t = s\<lparr>head := Some (hd ys), lru_frame_list := u(x := (u x)\<lparr>f_next := None, f_prev := None\<rparr>),
     frame_bitmap := (frame_bitmap s)(x := -1), lru_lk := False\<rparr>"
  have x: "x < MAX_FRAME_LRU" using wf by (simp add: lru_wf_def)
  have "lru_evict s = Inr (entry s x, t)"
    using nb lk x
    by (simp add: lru_evict_def lru_delete_def lru_get_pid_frame_def lru_get_vaddr_frame_def
        lru_release_frame_def run_simps get_frame_def upd_frame_def set_bitmap_def entry_def
        t_def u_def unlink_def)
  moreover have "lru_wf t ([] @ ys) \<and> entries t ([] @ ys) = entries s ([] @ ys)"
    using ne by (intro lru_wf_unlink [OF wf]) (simp_all add: t_def u_def)
  ultimately show ?thesis by (intro wpI) (auto simp: lru_rep_def t_def)
qed

text \<open>
  Evicting the only entry leaves \<open>lru.head\<close> on an entry without links: the next insertion follows
  the null \<open>prev\<close> pointer.
\<close>

lemma lru_evict_last_dangles:
  assumes rep: "lru_rep s [x]"
  shows "sq lru_evict (lru_insert pid vaddr) s = Inl NullDeref"
proof -
  have x: "x < MAX_FRAME_LRU" "head s = Some x" "f_next (lru_frame_list s x) = Some x" "\<not> lru_lk s"
    using rep by (auto simp: lru_rep_def lru_wf_def ring_def)
  define t where "t = s\<lparr>lru_frame_list := (lru_frame_list s)
      (x := (lru_frame_list s x)\<lparr>f_next := None, f_prev := None\<rparr>),
     frame_bitmap := (frame_bitmap s)(x := -1), lru_lk := False\<rparr>"
  have ev: "lru_evict s = Inr (entry s x, t)"
    using x by (simp add: lru_evict_def lru_delete_def lru_get_pid_frame_def lru_get_vaddr_frame_def
        lru_release_frame_def run_simps get_frame_def upd_frame_def set_bitmap_def entry_def t_def)
  have "scan_from (\<lambda>i. frame_bitmap t i = -1) 0 MAX_FRAME_LRU \<noteq> None"
    using x by (auto simp: scan_from_None t_def)
  then obtain n where n: "get_free_frame_lru (t\<lparr>lru_lk := True\<rparr>) = int n"
    by (auto simp: get_free_frame_lru_def)
  have "lru_insert pid vaddr t = Inl NullDeref"
    using n x by (simp add: lru_insert_def run_simps Let_def get_frame_def upd_frame_def t_def)
  with ev show ?thesis by (simp add: sq_run)
qed

section \<open>Freeing one frame\<close>

text \<open>Within the ring the successor of an entry is the next list element, and only the last one
  leads back to the head.\<close>

lemma lru_wf_next:
  assumes "lru_wf s (as @ u # v # bs)"
  shows "f_next (lru_frame_list s u) = Some v" "f_next (lru_frame_list s u) \<noteq> head s"
proof -
  from assms show nx: "f_next (lru_frame_list s u) = Some v"
    using lru_wf_neighbours(1) [of s as u "v # bs"] by simp
  from assms have "distinct (as @ u # v # bs)" "head s = Some (hd (as @ [u]))"
    by (auto simp: lru_wf_def split: list.splits) (cases as; simp)+
  then have "v \<noteq> hd (as @ [u])" by (cases as) auto
  with nx \<open>head s = _\<close> show "f_next (lru_frame_list s u) \<noteq> head s" by simp
qed

lemma lru_wf_next_last:
  assumes "lru_wf s (as @ [u])"
  shows "f_next (lru_frame_list s u) = head s"
  using assms by (cases as) (auto simp: lru_wf_def ring_def cyc_nonempty)

lemma lru_find_hit:
  assumes "lru_wf s (as @ us @ m # vs)" "\<forall>u \<in> set us. entry s u \<noteq> (pid, vaddr)"
    "entry s m = (pid, vaddr)" "length us < n"
  shows "lru_find n pid vaddr (hd (us @ [m])) prev s =
     Inr ((m, if us = [] then prev else Some (last us)), s)"
  using assms
proof (induction us arbitrary: as prev n)
  case Nil
  then show ?case by (cases n) (auto simp: lru_find.simps run_simps get_frame_def entry_def)
next
  case (Cons u us)
  obtain k where n: "n = Suc k" "length us < k" using Cons.prems(4) by (cases n) auto
  have wf: "lru_wf s ((as @ [u]) @ us @ m # vs)" using Cons.prems(1) by simp
  have "lru_wf s (as @ u # hd (us @ [m]) # tl (us @ m # vs))"
    using Cons.prems(1) by (cases us) auto
  note nx = lru_wf_next [OF this]
  have "lru_find k pid vaddr (hd (us @ [m])) (Some u) s =
     Inr ((m, if us = [] then Some u else Some (last us)), s)"
    using Cons.IH [OF wf _ Cons.prems(3) n(2)] Cons.prems(2) by simp
  with nx Cons.prems(2) n show ?case by (auto simp: lru_find.simps run_simps get_frame_def entry_def)
qed

lemma lru_find_miss:
  assumes "lru_wf s (as @ us)" "us \<noteq> []" "\<forall>u \<in> set us. entry s u \<noteq> (pid, vaddr)" "length us \<le> n"
  shows "lru_find n pid vaddr (hd us) prev s = Inr ((last us, Some (last us)), s)"
  using assms
proof (induction us arbitrary: as prev n)
  case Nil
  then show ?case by simp
next
  case (Cons u us)
  obtain k where n: "n = Suc k" "length us \<le> k" using Cons.prems(4) by (cases n) auto
  show ?case
  proof (cases us)
    case Nil
    with Cons.prems lru_wf_next_last [of s as u] n show ?thesis
      by (auto simp: lru_find.simps run_simps get_frame_def entry_def)
  next
    case (Cons v us')
    with Cons.prems(1) have wf: "lru_wf s (as @ u # v # us')" "lru_wf s ((as @ [u]) @ us)" by auto
    have "lru_find k pid vaddr (hd us) (Some u) s = Inr ((last us, Some (last us)), s)"
      using Cons.IH [OF wf(2) _ _ n(2)] Cons Cons.prems(3) by simp
    with lru_wf_next [OF wf(1)] Cons Cons.prems(3) n show ?thesis
      by (auto simp: lru_find.simps run_simps get_frame_def entry_def)
  qed
qed

lemma lru_wf_lk [simp]: "lru_wf (s\<lparr>lru_lk := b\<rparr>) xs = lru_wf s xs"
  by (simp add: lru_wf_def)

lemma entry_lk [simp]: "entry (s\<lparr>lru_lk := b\<rparr>) i = entry s i"
  by (simp add: entry_def)

lemma entries_lk [simp]: "entries (s\<lparr>lru_lk := b\<rparr>) xs = entries s xs"
  by (simp add: entries_def fun_eq_iff)

lemma not_in_entries: "e \<notin> set (entries s xs) \<longleftrightarrow> (\<forall>u \<in> set xs. entry s u \<noteq> e)"
  by (auto simp: entries_def)

lemma lru_free_frame_absent:
  assumes rep: "lru_rep s xs" and miss: "(pid, vaddr) \<notin> set (entries s xs)"
  shows "lru_free_frame pid vaddr s = Inr ((), s)"
proof (cases xs)
  case Nil
  with rep show ?thesis
    by (simp add: lru_free_frame_def lru_rep_def lru_wf_def run_simps)
next
  case (Cons h ys)
  let ?s = "s\<lparr>lru_lk := True\<rparr>"
  have wf: "lru_wf ?s ([] @ xs)" and lk: "\<not> lru_lk s" "head s = Some h"
    using rep Cons by (simp_all add: lru_rep_def lru_wf_def)
  have "lru_find MAX_FRAME_LRU pid vaddr (hd xs) None ?s = Inr ((last xs, Some (last xs)), ?s)"
    using Cons miss lru_rep_length [OF rep]
    by (intro lru_find_miss [OF wf]) (simp_all add: not_in_entries)
  moreover have "entry s (last xs) \<noteq> (pid, vaddr)"
    using miss Cons by (simp add: not_in_entries)
  moreover from lk have "s\<lparr>lru_lk := False\<rparr> = s" by simp
  ultimately show ?thesis
    using Cons lk by (auto simp: lru_free_frame_def run_simps get_frame_def entry_def)
qed

lemma lru_free_frame_present:
  assumes rep: "lru_rep s (as @ c # bs)" and hit: "entry s c = (pid, vaddr)"
    and first: "(pid, vaddr) \<notin> set (entries s as)" and ne: "as @ bs \<noteq> []"
  shows "wp (lru_free_frame pid vaddr)
     (\<lambda>_ t. lru_rep t (as @ bs) \<and> entries t (as @ bs) = entries s (as @ bs)) s"
proof -
  let ?s = "s\<lparr>lru_lk := True\<rparr>"
  have wf: "lru_wf s (as @ c # bs)" and lk: "\<not> lru_lk s" using rep by (simp_all add: lru_rep_def)
  note nb = lru_wf_neighbours [OF wf ne]
  have len: "length as < MAX_FRAME_LRU" using lru_rep_length [OF rep] by simp
  have find: "lru_find MAX_FRAME_LRU pid vaddr (hd (as @ [c])) None ?s =
      Inr ((c, if as = [] then None else Some (last as)), ?s)"
    using wf hit first len
    by (intro lru_find_hit [where as = "[]" and vs = bs]) (simp_all add: not_in_entries)
  have hd: "head s = Some (hd (as @ [c]))" using nb(7,8) by (cases as) auto
  define p q where "p = last (bs @ as)" and "q = hd (bs @ as)"
  note pq = nb [folded p_def q_def]
  define t where "t = s\<lparr>head := Some (hd (as @ bs)), lru_frame_list := unlink c s p q,
     frame_bitmap := (frame_bitmap s)(c := -1), lru_lk := False\<rparr>"
  have c: "as \<noteq> [] \<Longrightarrow> hd as \<noteq> c" using wf by (auto simp: lru_wf_def neq_Nil_conv)
  have "lru_free_frame pid vaddr s = Inr ((), t)"
  proof (cases as)
    case Nil
    with find lk hd pq hit ne show ?thesis
      by (simp add: lru_free_frame_def run_simps get_frame_def upd_frame_def set_bitmap_def entry_def
          t_def unlink_def)
         (simp add: q_def)
  next
    case (Cons a as')
    with find lk hd pq hit c show ?thesis
      by (simp add: lru_free_frame_def run_simps get_frame_def upd_frame_def set_bitmap_def entry_def
          t_def unlink_def)
  qed
  moreover have "lru_wf t (as @ bs) \<and> entries t (as @ bs) = entries s (as @ bs)"
    by (intro lru_wf_unlink [OF wf ne]) (simp_all add: t_def p_def q_def)
  ultimately show ?thesis by (intro wpI) (auto simp: lru_rep_def t_def)
qed

section \<open>Freeing every frame of a process\<close>

text \<open>
  What \<open>lru_free\<close> leaves of a ring of at least two entries: the entries of the other processes, but
  the last entry of the ring when all of them belong to the process, because the loop stops as
  soon as one entry is left.
\<close>

definition lru_freed :: "u32 \<Rightarrow> (u32 \<times> u32) list \<Rightarrow> (u32 \<times> u32) list" where
  "lru_freed pid es =
     (let ks = filter (\<lambda>e. fst e \<noteq> pid) es in if ks = [] then [last es] else ks)"

lemma entries_append: "entries s (xs @ ys) = entries s xs @ entries s ys"
  by (simp add: entries_def)

lemma entries_Cons: "entries s (x # xs) = entry s x # entries s xs"
  by (simp add: entries_def)

lemma entries_Nil_iff [simp]: "entries s xs = [] \<longleftrightarrow> xs = []" "entries s [] = []"
  by (simp_all add: entries_def)

lemma lru_wf_ring2:
  assumes "lru_wf s xs" "2 \<le> length xs" "c \<in> set xs"
  shows "f_next (lru_frame_list s c) \<noteq> Some c"
proof -
  from assms(3) obtain as bs where xs: "xs = as @ c # bs" by (auto simp: in_set_conv_decomp)
  with assms(2) have "as @ bs \<noteq> []" by auto
  with lru_wf_neighbours(1,3) [of s as c bs] assms(1) xs show ?thesis by auto
qed

lemma lru_wf_ring1:
  "lru_wf s [c] \<Longrightarrow> f_next (lru_frame_list s c) = Some c \<and> f_prev (lru_frame_list s c) = Some c"
  by (simp add: lru_wf_def ring_def)

text \<open>One iteration that skips an entry, and one that removes it.\<close>

lemma lru_free_loop_skip:
  assumes wf: "lru_wf s (as @ c # bs)" and len: "as @ bs \<noteq> []" and other: "fst (entry s c) \<noteq> pid"
  shows "lru_free_loop (Suc n) pid c s =
     (if bs = [] then Inr ((), s) else lru_free_loop n pid (hd bs) s)"
proof -
  note nb = lru_wf_neighbours [OF wf len]
  have "length (as @ c # bs) \<ge> 2" using len by (cases as; cases bs) auto
  with nb(5) have two: "f_next (lru_frame_list s (hd (bs @ as))) \<noteq> Some (hd (bs @ as))"
    by (intro lru_wf_ring2 [OF wf]) auto
  have bs: "bs \<noteq> [] \<Longrightarrow> Some (hd bs) \<noteq> head s"
    using wf lru_wf_next [of s as c "hd bs" "tl bs"] by (auto simp: neq_Nil_conv)
  have as: "bs = [] \<Longrightarrow> head s = Some (hd as)" using nb(7) len by auto
  show ?thesis
  proof (cases bs)
    case Nil
    with nb two as other show ?thesis by (simp add: lru_free_loop.simps run_simps get_frame_def entry_def)
  next
    case (Cons b bs')
    with nb two bs other show ?thesis by (simp add: lru_free_loop.simps run_simps get_frame_def entry_def)
  qed
qed

lemma lru_free_loop_drop:
  assumes wf: "lru_wf s (as @ c # bs)" and len: "as @ bs \<noteq> []" and mine: "fst (entry s c) = pid"
  obtains t where "lru_wf t (as @ bs)" "entries t (as @ bs) = entries s (as @ bs)" "lru_lk t = lru_lk s"
    "lru_free_loop (Suc n) pid c s =
       (if length (as @ bs) = 1 \<or> bs = [] then Inr ((), t) else lru_free_loop n pid (hd bs) t)"
proof -
  note nb = lru_wf_neighbours [OF wf len]
  define p q where "p = last (bs @ as)" and "q = hd (bs @ as)"
  note pq = nb [folded p_def q_def]
  define t where "t = (if as = [] then s\<lparr>head := Some q\<rparr> else s)
     \<lparr>lru_frame_list := unlink c s p q, frame_bitmap := (frame_bitmap s)(c := -1)\<rparr>"
  have hdt: "head t = Some (hd (as @ bs))" using pq(7) by (cases as) (simp_all add: t_def q_def)
  have t: "lru_wf t (as @ bs)" "entries t (as @ bs) = entries s (as @ bs)"
    using lru_wf_unlink [OF wf len hdt] by (simp_all add: t_def p_def q_def)
  have one: "length (as @ bs) = 1 \<longleftrightarrow> f_next (lru_frame_list t q) = Some q \<and> f_prev (lru_frame_list t q) = Some q"
  proof
    assume "length (as @ bs) = 1"
    then have "as @ bs = [q]" by (cases as; cases bs) (auto simp: q_def)
    with t(1) show "f_next (lru_frame_list t q) = Some q \<and> f_prev (lru_frame_list t q) = Some q"
      using lru_wf_ring1 by simp
  next
    assume eq: "f_next (lru_frame_list t q) = Some q \<and> f_prev (lru_frame_list t q) = Some q"
    have "\<not> 2 \<le> length (as @ bs)"
      using lru_wf_ring2 [OF t(1), of q] pq(5) eq by auto
    moreover have "length (as @ bs) \<noteq> 0" using len by simp
    ultimately show "length (as @ bs) = 1" by linarith
  qed
  have cnext: "f_next (lru_frame_list t c) = Some q"
    using pq by (simp add: t_def unlink_def)
  have dist: "distinct (as @ bs)" using t(1) by (simp add: lru_wf_def)
  have run: "lru_free_loop (Suc n) pid c s =
     (if f_next (lru_frame_list t q) = Some q \<and> f_prev (lru_frame_list t q) = Some q then Inr ((), t)
      else if as = [] \<or> Some q \<noteq> Some (hd (as @ bs)) then lru_free_loop n pid q t else Inr ((), t))"
  proof (cases "as = []")
    case True
    with pq mine have "lru_frame_list t = unlink c s p q" "q = hd bs" by (simp_all add: t_def q_def)
    with True pq mine cnext show ?thesis
      by (simp add: lru_free_loop.simps run_simps get_frame_def entry_def upd_frame_def set_bitmap_def t_def unlink_def)
  next
    case False
    then have "hd as \<noteq> c" using wf by (auto simp: lru_wf_def neq_Nil_conv)
    with False pq mine cnext show ?thesis
      by (simp add: lru_free_loop.simps run_simps get_frame_def entry_def upd_frame_def set_bitmap_def t_def unlink_def)
  qed
  have "lru_free_loop (Suc n) pid c s =
       (if length (as @ bs) = 1 \<or> bs = [] then Inr ((), t) else lru_free_loop n pid (hd bs) t)"
  proof (cases bs)
    case Nil
    with len run one show ?thesis by (auto simp: q_def)
  next
    case (Cons b bs')
    with dist have "as = [] \<or> q \<noteq> hd (as @ bs)" by (auto simp: q_def neq_Nil_conv)
    with Cons run one show ?thesis by (auto simp: q_def)
  qed
  with t that show ?thesis by (simp add: t_def)
qed

lemma lru_free_loop_spec:
  assumes "lru_wf s (as @ c # bs)" "2 \<le> length (as @ c # bs)" "Suc (length bs) \<le> n"
    "\<forall>e \<in> set (entries s as). fst e \<noteq> pid"
  shows "wp (lru_free_loop n pid c)
     (\<lambda>_ t. lru_lk t = lru_lk s \<and>
        (\<exists>ys. lru_wf t ys \<and> entries t ys = lru_freed pid (entries s (as @ c # bs)))) s"
  using assms
proof (induction bs arbitrary: as c s n)
  case Nil
  then obtain k where n: "n = Suc k" by (cases n) auto
  from Nil.prems(2) have len: "as @ [] \<noteq> []" by auto
  have keep: "filter (\<lambda>e. fst e \<noteq> pid) (entries s as) = entries s as"
    using Nil.prems(4) by simp
  show ?case
  proof (cases "fst (entry s c) = pid")
    case True
    with len keep have freed: "lru_freed pid (entries s (as @ [c])) = entries s as"
      by (simp add: lru_freed_def entries_append entries_Cons)
    obtain t where "lru_wf t (as @ [])" "entries t (as @ []) = entries s (as @ [])" "lru_lk t = lru_lk s"
      and drop: "lru_free_loop (Suc k) pid c s =
        (if length (as @ []) = 1 \<or> ([] :: nat list) = [] then Inr ((), t) else lru_free_loop k pid (hd []) t)"
      by (rule lru_free_loop_drop [OF Nil.prems(1) len True, of k])
    with freed n show ?thesis by (intro wpI [of _ _ "()" t]) auto
  next
    case False
    with len keep have "lru_freed pid (entries s (as @ [c])) = entries s (as @ [c])"
      by (simp add: lru_freed_def entries_append entries_Cons)
    with lru_free_loop_skip [OF Nil.prems(1) len False, of k] n Nil.prems(1) show ?thesis
      by (intro wpI) auto
  qed
next
  case (Cons b bs)
  then obtain k where n: "n = Suc k" "Suc (length bs) \<le> k" by (cases n) auto
  have len: "as @ b # bs \<noteq> []" by simp
  have keep: "filter (\<lambda>e. fst e \<noteq> pid) (entries s as) = entries s as"
    using Cons.prems(4) by simp
  show ?case
  proof (cases "fst (entry s c) = pid")
    case True
    obtain t where t: "lru_wf t (as @ b # bs)" "entries t (as @ b # bs) = entries s (as @ b # bs)"
      "lru_lk t = lru_lk s"
      and drop: "lru_free_loop (Suc k) pid c s =
        (if length (as @ b # bs) = 1 \<or> b # bs = [] then Inr ((), t) else lru_free_loop k pid (hd (b # bs)) t)"
      by (rule lru_free_loop_drop [OF Cons.prems(1) len True, of k])
    have run: "lru_free_loop n pid c s =
        (if length (as @ b # bs) = 1 then Inr ((), t) else lru_free_loop k pid b t)"
      unfolding n(1) drop by simp
    have freed: "lru_freed pid (entries s (as @ c # b # bs)) = lru_freed pid (entries s (as @ b # bs))"
      using True by (simp add: lru_freed_def entries_append entries_Cons)
    show ?thesis
    proof (cases "length (as @ b # bs) = 1")
      case one: True
      then have "as = []" "bs = []" by auto
      then have "lru_freed pid (entries s (as @ b # bs)) = entries s [b]"
        by (simp add: lru_freed_def entries_Cons)
      with t run one freed show ?thesis by (intro wpI [of _ _ "()" t]) (auto intro: exI [of _ "[b]"])
    next
      case more: False
      have "entries t as = entries s as"
        using t(2) by (simp add: entries_append entries_def)
      with Cons.prems(4) have "\<forall>e \<in> set (entries t as). fst e \<noteq> pid" by simp
      with more have "wp (lru_free_loop k pid b) (\<lambda>_ u. lru_lk u = lru_lk t \<and>
          (\<exists>ys. lru_wf u ys \<and> entries u ys = lru_freed pid (entries t (as @ b # bs)))) t"
        by (intro Cons.IH [OF t(1) _ n(2)]) (auto simp: Suc_le_eq)
      moreover from run more have "lru_free_loop n pid c s = lru_free_loop k pid b t"
        by (simp only: if_False)
      ultimately show ?thesis using freed t(2,3) by (simp add: wp_def)
    qed
  next
    case False
    have wf: "lru_wf s ((as @ [c]) @ b # bs)" using Cons.prems(1) by simp
    have "wp (lru_free_loop k pid b) (\<lambda>_ t. lru_lk t = lru_lk s \<and>
        (\<exists>ys. lru_wf t ys \<and> entries t ys = lru_freed pid (entries s ((as @ [c]) @ b # bs)))) s"
      using False Cons.prems(4) by (intro Cons.IH [OF wf _ n(2)]) (auto simp: entries_append entries_Cons)
    with lru_free_loop_skip [OF Cons.prems(1) len False, of k] n show ?thesis by (simp add: wp_def)
  qed
qed

lemma lru_free_many:
  assumes rep: "lru_rep s xs" and two: "2 \<le> length xs"
  shows "wp (lru_free pid)
     (\<lambda>_ t. \<exists>ys. lru_rep t ys \<and> entries t ys = lru_freed pid (entries s xs)) s"
proof -
  obtain h ys where xs: "xs = h # ys" using two by (cases xs) auto
  let ?s = "s\<lparr>lru_lk := True\<rparr>"
  have wf: "lru_wf ?s ([] @ h # ys)" and lk: "\<not> lru_lk s" "head s = Some h"
    using rep xs by (simp_all add: lru_rep_def lru_wf_def)
  have "wp (lru_free_loop MAX_FRAME_LRU pid h) (\<lambda>_ t. lru_lk t = lru_lk ?s \<and>
      (\<exists>ys'. lru_wf t ys' \<and> entries t ys' = lru_freed pid (entries ?s ([] @ h # ys)))) ?s"
    using two xs lru_rep_length [OF rep] by (intro lru_free_loop_spec [OF wf]) auto
  then have "wp (lru_free_loop MAX_FRAME_LRU pid h) (\<lambda>_ t. lru_lk t \<and>
      (\<exists>ys. lru_rep (t\<lparr>lru_lk := False\<rparr>) ys \<and>
        entries (t\<lparr>lru_lk := False\<rparr>) ys = lru_freed pid (entries s xs))) ?s"
    by (rule wp_mono) (auto simp: lru_rep_def xs)
  with lk show ?thesis by (simp add: lru_free_def wp_rules)
qed

text \<open>On a ring of one entry \<open>lru_free\<close> clears its bitmap entry and leaves it linked.\<close>

lemma lru_free_single:
  assumes rep: "lru_rep s [x]" and mine: "fst (entry s x) = pid"
  shows "wp (lru_free pid) (\<lambda>_ t. head t = Some x \<and> frame_bitmap t x = -1 \<and>
     f_next (lru_frame_list t x) = Some x \<and> \<not> lru_lk t) s"
proof -
  obtain k where k: "MAX_FRAME_LRU = Suc k" by (auto simp: MAX_FRAME_LRU_def)
  from rep have "head s = Some x" "f_next (lru_frame_list s x) = Some x"
    "f_prev (lru_frame_list s x) = Some x" "\<not> lru_lk s"
    by (auto simp: lru_rep_def lru_wf_def ring_def)
  with mine show ?thesis
    by (simp add: lru_free_def k lru_free_loop.simps wp_rules entry_def)
qed

section \<open>Reading the ring\<close>

lemma lru_read_loop_spec:
  assumes "lru_wf s (as @ us)" "as \<noteq> []" "length us < n"
  shows "lru_read_loop n (if us = [] then head s else Some (hd us)) s =
     Inr (map (\<lambda>i. (f_pid (lru_frame_list s i), i, f_vaddr (lru_frame_list s i))) us, s)"
  using assms
proof (induction us arbitrary: as n)
  case Nil
  then show ?case by (cases n) (simp_all add: lru_read_loop.simps run_simps)
next
  case (Cons u us)
  then obtain k where n: "n = Suc k" "length us < k" by (cases n) auto
  have wf: "lru_wf s ((as @ [u]) @ us)" using Cons.prems(1) by simp
  have hd: "head s = Some (hd as)" "hd as \<noteq> u"
    using Cons.prems(1,2) by (auto simp: lru_wf_def neq_Nil_conv)
  have "f_next (lru_frame_list s u) = (if us = [] then head s else Some (hd us))"
  proof (cases us)
    case Nil
    with wf lru_wf_next_last [of s as u] show ?thesis by simp
  next
    case (Cons v us')
    with wf lru_wf_next(1) [of s as u v us'] show ?thesis by simp
  qed
  with Cons.IH [OF wf _ n(2)] hd n show ?case
    by (simp add: lru_read_loop.simps run_simps get_frame_def)
qed

lemma lru_read_spec:
  assumes rep: "lru_rep s xs"
  shows "lru_read s = Inr (map (\<lambda>i. (f_pid (lru_frame_list s i), i, f_vaddr (lru_frame_list s i))) xs, s)"
proof (cases xs)
  case Nil
  with rep show ?thesis by (simp add: lru_read_def lru_rep_def lru_wf_def run_simps)
next
  case (Cons h ys)
  from rep Cons have wf: "lru_wf s ([h] @ ys)" and hd: "head s = Some h"
    by (simp_all add: lru_rep_def lru_wf_def)
  have "f_next (lru_frame_list s h) = (if ys = [] then head s else Some (hd ys))"
    using wf lru_wf_next_last [of s "[]" h] lru_wf_next(1) [of s "[]" h "hd ys" "tl ys"]
    by (cases ys) simp_all
  with lru_read_loop_spec [OF wf, of MAX_FRAME_LRU] lru_rep_length [OF rep] hd Cons show ?thesis
    by (simp add: lru_read_def run_simps get_frame_def)
qed

section \<open>The interface of the resident list\<close>

text \<open>
  What the page replacement relies on: a bounded queue of entries. \<open>holds s es\<close> says that the queue
  in state \<open>s\<close> holds \<open>es\<close>, oldest first.
\<close>

locale bounded_fifo =
  fixes ins :: "'e \<Rightarrow> ('s, int) km"
    and evict :: "('s, 'e) km"
    and holds :: "'s \<Rightarrow> 'e list \<Rightarrow> bool"
    and cap :: nat
  assumes ins_room: "holds s es \<Longrightarrow> length es < cap \<Longrightarrow> wp (ins e) (\<lambda>r t. r = 0 \<and> holds t (es @ [e])) s"
    and ins_full: "holds s es \<Longrightarrow> length es = cap \<Longrightarrow> ins e s = Inr (-1, s)"
    and evict_first: "holds s (e # es) \<Longrightarrow> es \<noteq> [] \<Longrightarrow> wp evict (\<lambda>x t. x = e \<and> holds t es) s"
    and bounded: "holds s es \<Longrightarrow> length es \<le> cap"
begin

lemma evict_then_insert:
  assumes "holds s (e # es)" "es \<noteq> []"
  shows "wp (bnd evict (\<lambda>x. sq (ins e') (ret x))) (\<lambda>x t. x = e \<and> holds t (es @ [e'])) s"
proof -
  from bounded [OF assms(1)] have len: "length es < cap" by simp
  have "wp (sq (ins e') (ret x)) (\<lambda>x t. x = e \<and> holds t (es @ [e'])) t"
    if "x = e \<and> holds t es" for x t
    using ins_room [OF _ len, of t e'] that by (auto simp: wp_rules elim: wp_mono)
  with evict_first [OF assms] show ?thesis by (auto simp: wp_rules elim: wp_mono)
qed

lemma insert_all:
  assumes "holds s es" "length es + length fs \<le> cap"
  shows "holds (foldl (\<lambda>s e. final (ins e) s) s fs) (es @ fs)"
  using assms
proof (induction fs arbitrary: s es)
  case Nil
  then show ?case by simp
next
  case (Cons f fs)
  then have "wp (ins f) (\<lambda>r t. r = 0 \<and> holds t (es @ [f])) s" by (intro ins_room) auto
  then have "holds (final (ins f) s) (es @ [f])" by (auto dest: wp_final)
  from Cons.IH [OF this] Cons.prems(2) show ?case by simp
qed

end

definition lru_holds :: "lru \<Rightarrow> (u32 \<times> u32) list \<Rightarrow> bool" where
  "lru_holds s es \<longleftrightarrow> (\<exists>xs. lru_rep s xs \<and> entries s xs = es)"

interpretation lruq: bounded_fifo "\<lambda>(pid, vaddr). lru_insert pid vaddr" lru_evict lru_holds MAX_FRAME_LRU
proof unfold_locales
  fix s es and e :: "u32 \<times> u32"
  assume "lru_holds s es" "length es < MAX_FRAME_LRU"
  then obtain xs where "lru_rep s xs" "entries s xs = es" "length xs < MAX_FRAME_LRU"
    by (auto simp: lru_holds_def entries_def)
  then show "wp (case e of (pid, vaddr) \<Rightarrow> lru_insert pid vaddr) (\<lambda>r t. r = 0 \<and> lru_holds t (es @ [e])) s"
    using lru_insert_room [of s xs "fst e" "snd e"]
    by (auto simp: lru_holds_def split: prod.split elim!: wp_mono)
next
  fix s es and e :: "u32 \<times> u32"
  assume "lru_holds s es" "length es = MAX_FRAME_LRU"
  then show "(case e of (pid, vaddr) \<Rightarrow> lru_insert pid vaddr) s = Inr (-1, s)"
    using lru_insert_full by (auto simp: lru_holds_def entries_def split: prod.split)
next
  fix s e es
  assume "lru_holds s (e # es)" "es \<noteq> []"
  then obtain x ys where "lru_rep s (x # ys)" "entry s x = e" "entries s ys = es" "ys \<noteq> []"
    by (auto simp: lru_holds_def entries_def map_eq_Cons_conv)
  then show "wp lru_evict (\<lambda>x t. x = e \<and> lru_holds t es) s"
    using lru_evict_oldest [of s x ys] by (auto simp: lru_holds_def elim!: wp_mono)
next
  fix s es
  assume "lru_holds s es"
  then show "length es \<le> MAX_FRAME_LRU" using lru_rep_length by (auto simp: lru_holds_def entries_def)
qed

text \<open>Concrete states: a fresh list after \<open>lru_swap_init\<close>, filled by insertions.\<close>

definition lru_build :: "(u32 \<times> u32) list \<Rightarrow> lru" where
  "lru_build es = foldl (\<lambda>s (pid, vaddr). final (lru_insert pid vaddr) s) (final lru_init lru_zero) es"

lemma lru_build_holds: "length es \<le> MAX_FRAME_LRU \<Longrightarrow> lru_holds (lru_build es) es"
proof -
  assume len: "length es \<le> MAX_FRAME_LRU"
  have "lru_rep (final lru_init lru_zero) []" using wp_final [OF lru_rep_init] by simp
  then have "lru_holds (final lru_init lru_zero) []" by (auto simp: lru_holds_def)
  from lruq.insert_all [OF this, of es] len show ?thesis
    by (simp add: lru_build_def case_prod_unfold)
qed

lemma lru_free_frame_spec:
  assumes "lru_holds s es" "es \<noteq> [(pid, vaddr)]"
  shows "wp (lru_free_frame pid vaddr) (\<lambda>_ t. lru_holds t (remove1 (pid, vaddr) es)) s"
proof -
  obtain xs where xs: "lru_rep s xs" "entries s xs = es" using assms(1) by (auto simp: lru_holds_def)
  show ?thesis
  proof (cases "(pid, vaddr) \<in> set es")
    case False
    with xs lru_free_frame_absent [of s xs pid vaddr] assms(1) show ?thesis
      by (intro wpI [of _ _ "()" s]) (auto simp: remove1_idem)
  next
    case True
    then obtain es1 es2 where es: "es = es1 @ (pid, vaddr) # es2" "(pid, vaddr) \<notin> set es1"
      by (meson split_list_first)
    with xs(2) obtain as c bs where split: "xs = as @ c # bs" "entries s as = es1"
      "entry s c = (pid, vaddr)" "entries s bs = es2"
      by (auto simp: entries_def map_eq_append_conv map_eq_Cons_conv)
    with es assms(2) have "as @ bs \<noteq> []" by auto
    with xs es split have "wp (lru_free_frame pid vaddr)
        (\<lambda>_ t. lru_rep t (as @ bs) \<and> entries t (as @ bs) = entries s (as @ bs)) s"
      by (intro lru_free_frame_present) auto
    moreover have "entries s (as @ bs) = remove1 (pid, vaddr) es"
      using es split by (simp add: remove1_append entries_append)
    ultimately show ?thesis by (auto simp: lru_holds_def elim!: wp_mono)
  qed
qed

section \<open>Properties\<close>

text \<open>C20: while the resident list has room, \<open>lru_insert\<close> returns 0 and appends the page as the
  youngest entry; the ring, the bitmap and the lock stay consistent.\<close>

theorem lru_insert_appends:
  "lru_holds s es \<Longrightarrow> length es < MAX_FRAME_LRU \<Longrightarrow>
   wp (lru_insert pid vaddr) (\<lambda>r t. r = 0 \<and> lru_holds t (es @ [(pid, vaddr)])) s"
  using lruq.ins_room [of s es "(pid, vaddr)"] by simp

theorem lru_insert_appends_witness:
  "wp (lru_insert 2 0x3000) (\<lambda>r t. r = 0 \<and> lru_holds t [(1, 0x1000), (2, 0x3000)])
     (lru_build [(1, 0x1000)])"
  using lru_insert_appends [OF lru_build_holds [of "[(1, 0x1000)]"], of 2 "0x3000"]
  by (simp add: MAX_FRAME_LRU_def)

text \<open>C19: with the list full, \<open>lru_insert\<close> fails without a change; the eviction sequence of
  \<open>get_lru\<close> then takes out the oldest page and a second insertion succeeds, so pages leave in the
  order in which they came.\<close>

theorem lru_full_replaces_oldest:
  assumes "lru_holds s ((p, v) # es)" "length ((p, v) # es) = MAX_FRAME_LRU"
  shows "lru_insert pid vaddr s = Inr (-1, s) \<and>
    wp (bnd lru_evict (\<lambda>x. sq (lru_insert pid vaddr) (ret x)))
      (\<lambda>x t. x = (p, v) \<and> lru_holds t (es @ [(pid, vaddr)])) s"
proof -
  have "es \<noteq> []" using assms(2) by (auto simp: MAX_FRAME_LRU_def)
  with lruq.ins_full [OF assms, of "(pid, vaddr)"]
    lruq.evict_then_insert [OF assms(1), of "(pid, vaddr)"] show ?thesis by simp
qed

theorem lru_full_replaces_oldest_witness:
  "lru_insert 2 0 (lru_build ((1, 0) # replicate 999 (1, 0x1000))) =
     Inr (-1, lru_build ((1, 0) # replicate 999 (1, 0x1000)))"
  using lru_full_replaces_oldest [OF lru_build_holds [of "(1, 0) # replicate 999 (1, 0x1000)"], of 2 0]
  by (simp add: MAX_FRAME_LRU_def)

text \<open>\<open>lru_free_frame\<close> takes the oldest entry for the page out of the list and nothing else,
  unless it is the only entry of the list.\<close>

lemma lru_free_frame_removes:
  assumes "lru_holds s es" "es \<noteq> [(pid, vaddr)]"
  shows "wp (lru_free_frame pid vaddr) (\<lambda>_ t. lru_holds t (remove1 (pid, vaddr) es)) s"
  using assms by (rule lru_free_frame_spec)



text \<open>C31: evicting the only page of the list leaves \<open>lru.head\<close> on an unlinked entry, and the next
  insertion follows its null \<open>prev\<close> pointer.\<close>

theorem lru_delete_last_breaks_insert:
  "lru_holds s [e] \<Longrightarrow> sq lru_evict (lru_insert pid vaddr) s = Inl NullDeref"
  using lru_evict_last_dangles by (auto simp: lru_holds_def entries_def map_eq_Cons_conv)

theorem lru_delete_last_breaks_insert_witness:
  "sq lru_evict (lru_insert 2 0) (lru_build [(1, 0)]) = Inl NullDeref"
  using lru_delete_last_breaks_insert [OF lru_build_holds [of "[(1, 0)]"]]
  by (simp add: MAX_FRAME_LRU_def)

end
