(* ===== verification/Swap.thy ===== *)
theory Swap
  imports Prelude
begin

text \<open>
  The bookkeeping of swapped-out pages in lru_swap.c: the array \<open>swap.swap_frame_list\<close> of disk
  frames, the bitmap of frames in use, and the per-process list of frames that starts at
  \<open>p->swap_list\<close> and is linked by array indices, with -1 at its end. The routines take the list
  head of the process as an argument and return the new one; the transfer of the page itself is
  in the theory \<open>Paging\<close>.
\<close>

section \<open>State\<close>

definition MAX_FRAME_SWAP :: nat where
  "MAX_FRAME_SWAP = 2560"

record disk_frame =
  d_vaddr :: u32
  d_next :: int
  d_swap :: int
  d_count :: int

record swap =
  swap_frame_list :: "nat \<Rightarrow> disk_frame"
  swap_lk :: bool
  swap_bitmap :: "nat \<Rightarrow> int"

definition swap_zero :: swap where
  "swap_zero = \<lparr>swap_frame_list = (\<lambda>_. \<lparr>d_vaddr = 0, d_next = 0, d_swap = 0, d_count = 0\<rparr>),
     swap_lk = False, swap_bitmap = (\<lambda>_. 0)\<rparr>"

definition get_df :: "nat \<Rightarrow> (swap, disk_frame) km" where
  "get_df i = gets (\<lambda>s. swap_frame_list s i)"

definition upd_df :: "nat \<Rightarrow> (disk_frame \<Rightarrow> disk_frame) \<Rightarrow> (swap, unit) km" where
  "upd_df i g = modify (\<lambda>s. s\<lparr>swap_frame_list := (swap_frame_list s)(i := g (swap_frame_list s i))\<rparr>)"

definition set_swap_bitmap :: "nat \<Rightarrow> int \<Rightarrow> (swap, unit) km" where
  "set_swap_bitmap i v = modify (\<lambda>s. s\<lparr>swap_bitmap := (swap_bitmap s)(i := v)\<rparr>)"

text \<open>The address \<open>&(swap.swap_frame_list[j])\<close> for a stored index.\<close>

definition df_at :: "int \<Rightarrow> (swap, nat) km" where
  "df_at j = (if j < 0 \<or> int MAX_FRAME_SWAP \<le> j then fail OutOfBounds else ret (nat j))"

section \<open>Operations\<close>

text \<open>The part of \<open>lru_swap_init\<close> that concerns the swap frames.\<close>

definition swap_init :: "(swap, unit) km" where
  "swap_init =
     sq (modify (\<lambda>s. s\<lparr>swap_bitmap := (\<lambda>i. if i < MAX_FRAME_SWAP then -1 else swap_bitmap s i)\<rparr>))
        (modify (\<lambda>s. s\<lparr>swap_lk := False\<rparr>))"

definition swap_get_free_frame :: "(swap, int) km" where
  "swap_get_free_frame =
     bnd (gets (\<lambda>s. scan_from (\<lambda>i. swap_bitmap s i = -1) 0 MAX_FRAME_SWAP)) (\<lambda>r.
     case r of
       None \<Rightarrow> ret (-1)
     | Some i \<Rightarrow> sq (set_swap_bitmap i 1) (ret (int i)))"

text \<open>The loop \<open>while (curr->next != -1)\<close> that \<open>swap_out\<close> uses to reach the end of the list.\<close>

fun swap_last :: "nat \<Rightarrow> nat \<Rightarrow> (swap, nat) km" where
  "swap_last 0 cur = fail Diverges"
| "swap_last (Suc n) cur =
     bnd (get_df cur) (\<lambda>d.
     if d_next d \<noteq> -1 then bnd (df_at (d_next d)) (\<lambda>c. swap_last n c) else ret cur)"

text \<open>
  The list part shared by \<open>swap_out\<close>, \<open>swap_out_stack\<close> and \<open>swap_out_heap\<close>, which differ in the swap
  space number they store. \<open>None\<close> is the early return -1, which leaves \<open>swap.lk\<close> held; otherwise
  the index of the frame and the new list head are returned.
\<close>

definition swap_append :: "int \<Rightarrow> u32 \<Rightarrow> nat option \<Rightarrow> (swap, (nat \<times> nat option) option) km" where
  "swap_append space vaddr swap_list =
     (case swap_list of
        None \<Rightarrow>
          sq (acquire swap_lk swap_lk_update) (
          bnd swap_get_free_frame (\<lambda>findex.
          if findex < 0 then ret None
          else (let i = nat findex in
            sq (upd_df i (\<lambda>d. d\<lparr>d_next := -1\<rparr>)) (
            sq (upd_df i (\<lambda>d. d\<lparr>d_vaddr := vaddr\<rparr>)) (
            sq (upd_df i (\<lambda>d. d\<lparr>d_swap := space\<rparr>)) (
            sq (upd_df i (\<lambda>d. d\<lparr>d_count := 1\<rparr>)) (
            sq (release swap_lk swap_lk_update) (
            ret (Some (i, Some i))))))))))
      | Some first \<Rightarrow>
          bnd (swap_last MAX_FRAME_SWAP first) (\<lambda>cur.
          sq (acquire swap_lk swap_lk_update) (
          bnd swap_get_free_frame (\<lambda>findex.
          if findex < 0 then ret None
          else (let i = nat findex in
            sq (upd_df cur (\<lambda>d. d\<lparr>d_next := findex\<rparr>)) (
            sq (upd_df i (\<lambda>d. d\<lparr>d_next := -1\<rparr>)) (
            sq (upd_df i (\<lambda>d. d\<lparr>d_vaddr := vaddr\<rparr>)) (
            sq (upd_df i (\<lambda>d. d\<lparr>d_swap := space\<rparr>)) (
            sq (upd_df i (\<lambda>d. d\<lparr>d_count := 1\<rparr>)) (
            sq (release swap_lk swap_lk_update) (
            ret (Some (i, swap_list)))))))))))))"

text \<open>The search loop of \<open>swap_in\<close>; its result is (curr, prev).\<close>

fun swap_find :: "nat \<Rightarrow> u32 \<Rightarrow> nat \<Rightarrow> nat option \<Rightarrow> (swap, nat \<times> nat option) km" where
  "swap_find 0 vaddr cur prev = fail Diverges"
| "swap_find (Suc n) vaddr cur prev =
     bnd (get_df cur) (\<lambda>d.
     if d_next d \<noteq> -1 then
       if d_vaddr d = vaddr then ret (cur, prev)
       else bnd (df_at (d_next d)) (\<lambda>c. swap_find n vaddr c (Some cur))
     else ret (cur, prev))"

text \<open>
  The list part shared by \<open>swap_in\<close>, \<open>swap_in_stack\<close> and \<open>swap_in_heap\<close>: \<open>None\<close> is the return -1 of a
  page that is not in the list, otherwise the index of the frame and the new list head.
\<close>

definition swap_take :: "u32 \<Rightarrow> nat option \<Rightarrow> (swap, (nat \<times> nat option) option) km" where
  "swap_take vaddr swap_list =
     (case swap_list of
        None \<Rightarrow> ret None
      | Some first \<Rightarrow>
          sq (acquire swap_lk swap_lk_update) (
          bnd (swap_find MAX_FRAME_SWAP vaddr first None) (\<lambda>(cur, prev).
          bnd (get_df cur) (\<lambda>d.
          if d_vaddr d \<noteq> vaddr then sq (release swap_lk swap_lk_update) (ret None)
          else
            sq (upd_df cur (\<lambda>d. d\<lparr>d_count := d_count d - 1\<rparr>)) (
            bnd (get_df cur) (\<lambda>d.
            bnd (if d_count d = 0 then
                   bnd (if cur = first then
                          (if d_next d = -1 then ret None
                           else bnd (df_at (d_next d)) (\<lambda>c. ret (Some c)))
                        else
                          bnd (deref prev) (\<lambda>p.
                          sq (upd_df p (\<lambda>e. e\<lparr>d_next := d_next d\<rparr>)) (
                          ret swap_list))) (\<lambda>l.
                   sq (set_swap_bitmap cur (-1)) (ret l))
                 else ret swap_list) (\<lambda>l.
            sq (release swap_lk swap_lk_update) (
            ret (Some (cur, l))))))))))"

text \<open>\<open>swap_check\<close>: the swap space that holds the page, or -1.\<close>

fun swap_check_loop :: "nat \<Rightarrow> u32 \<Rightarrow> nat \<Rightarrow> (swap, int) km" where
  "swap_check_loop 0 vaddr df = fail Diverges"
| "swap_check_loop (Suc n) vaddr df =
     bnd (get_df df) (\<lambda>d.
     if d_next d \<noteq> -1 then
       if d_vaddr d = vaddr then sq (release swap_lk swap_lk_update) (ret (d_swap d))
       else
         bnd (df_at (d_next d)) (\<lambda>df2.
         bnd (get_df df2) (\<lambda>d2.
         if d_next d2 = -1 \<and> d_vaddr d2 = vaddr
         then sq (release swap_lk swap_lk_update) (ret (d_swap d2))
         else swap_check_loop n vaddr df2))
     else sq (release swap_lk swap_lk_update) (ret (-1)))"

definition swap_check :: "u32 \<Rightarrow> nat option \<Rightarrow> (swap, int) km" where
  "swap_check vaddr swap_list =
     (case swap_list of
        None \<Rightarrow> ret (-1)
      | Some df \<Rightarrow>
          sq (acquire swap_lk swap_lk_update) (
          bnd (get_df df) (\<lambda>d.
          if d_next d = -1 \<and> d_vaddr d = vaddr
          then sq (release swap_lk swap_lk_update) (ret (d_swap d))
          else swap_check_loop MAX_FRAME_SWAP vaddr df)))"

text \<open>\<open>swap_free\<close> once the process is found: \<open>forked\<close> and the list head, returning the new head.\<close>

fun swap_free_loop :: "nat \<Rightarrow> nat \<Rightarrow> (swap, unit) km" where
  "swap_free_loop 0 cur = fail Diverges"
| "swap_free_loop (Suc n) cur =
     bnd (get_df cur) (\<lambda>d.
     if d_next d \<noteq> -1 then
       sq (set_swap_bitmap cur (-1)) (
       bnd (df_at (d_next d)) (\<lambda>c.
       bnd (get_df c) (\<lambda>e.
       sq (if d_next e = -1 then set_swap_bitmap c (-1) else ret ())
          (swap_free_loop n c))))
     else ret ())"

definition swap_free_list :: "bool \<Rightarrow> nat option \<Rightarrow> (swap, nat option) km" where
  "swap_free_list forked swap_list =
     (if \<not> forked then
        sq (acquire swap_lk swap_lk_update) (
        case swap_list of
          None \<Rightarrow> sq (release swap_lk swap_lk_update) (ret swap_list)
        | Some cur \<Rightarrow>
            bnd (get_df cur) (\<lambda>d.
            if d_next d = -1 then
              sq (set_swap_bitmap cur (-1)) (
              sq (release swap_lk swap_lk_update) (
              ret swap_list))
            else
              sq (swap_free_loop MAX_FRAME_SWAP cur) (
              sq (release swap_lk swap_lk_update) (
              ret None))))
      else ret None)"

text \<open>\<open>swap_fork\<close>: one more process shares every frame of the list.\<close>

fun swap_fork_loop :: "nat \<Rightarrow> nat \<Rightarrow> (swap, unit) km" where
  "swap_fork_loop 0 cur = fail Diverges"
| "swap_fork_loop (Suc n) cur =
     bnd (get_df cur) (\<lambda>d.
     if d_next d \<noteq> -1 then
       sq (upd_df cur (\<lambda>e. e\<lparr>d_count := d_count e + 1\<rparr>)) (
       bnd (df_at (d_next d)) (\<lambda>c.
       bnd (get_df c) (\<lambda>e.
       sq (if d_next e = -1 then upd_df c (\<lambda>e. e\<lparr>d_count := d_count e + 1\<rparr>) else ret ())
          (swap_fork_loop n c))))
     else ret ())"

definition swap_fork :: "nat option \<Rightarrow> (swap, unit) km" where
  "swap_fork swap_list =
     (case swap_list of
        None \<Rightarrow> ret ()
      | Some cur \<Rightarrow>
          bnd (get_df cur) (\<lambda>d.
          if d_next d = -1 then upd_df cur (\<lambda>e. e\<lparr>d_count := d_count e + 1\<rparr>)
          else swap_fork_loop MAX_FRAME_SWAP cur))"

text \<open>\<open>swap_read\<close>: the lines it prints, as (index, vaddr, count, swap).\<close>

fun swap_read_loop :: "nat \<Rightarrow> nat \<Rightarrow> (swap, (nat \<times> u32 \<times> int \<times> int) list) km" where
  "swap_read_loop 0 df = fail Diverges"
| "swap_read_loop (Suc n) df =
     bnd (get_df df) (\<lambda>d.
     if d_next d \<noteq> -1 then
       bnd (df_at (d_next d)) (\<lambda>c.
       bnd (swap_read_loop n c) (\<lambda>rest.
       ret ((df, d_vaddr d, d_count d, d_swap d) # rest)))
     else ret [(df, d_vaddr d, d_count d, d_swap d)])"

definition swap_read :: "nat option \<Rightarrow> (swap, (nat \<times> u32 \<times> int \<times> int) list) km" where
  "swap_read swap_list =
     (case swap_list of None \<Rightarrow> ret [] | Some df \<Rightarrow> swap_read_loop MAX_FRAME_SWAP df)"

declare swap_last.simps [simp del] swap_find.simps [simp del] swap_check_loop.simps [simp del]
  swap_free_loop.simps [simp del] swap_fork_loop.simps [simp del] swap_read_loop.simps [simp del]

section \<open>Where the frames lie on disk\<close>

definition SWAP1_START :: nat where "SWAP1_START = 1000"
definition SWAP2_START :: nat where "SWAP2_START = 3000"
definition SWAP3_START :: nat where "SWAP3_START = 3280"

text \<open>The first of the eight disk blocks of frame \<open>findex\<close> in each of the three swap spaces.\<close>

definition swap_block :: "int \<Rightarrow> nat \<Rightarrow> nat" where
  "swap_block space findex =
     (if space = 0 then SWAP1_START + findex * 8
      else if space = 1 then SWAP2_START + findex * 8
      else SWAP3_START + findex * 8)"

section \<open>The list of a process\<close>

text \<open>\<open>spath f j ns k\<close>: following \<open>next\<close> from index \<open>j\<close> visits \<open>ns\<close> and ends at index \<open>k\<close>.\<close>

fun spath :: "(nat \<Rightarrow> disk_frame) \<Rightarrow> int \<Rightarrow> nat list \<Rightarrow> int \<Rightarrow> bool" where
  "spath f j [] k \<longleftrightarrow> j = k"
| "spath f j (n # ns) k \<longleftrightarrow> j = int n \<and> n < MAX_FRAME_SWAP \<and> spath f (d_next (f n)) ns k"

definition hdp :: "nat option \<Rightarrow> int" where
  "hdp l = (case l of None \<Rightarrow> -1 | Some i \<Rightarrow> int i)"

text \<open>
  \<open>swap_wf s l ns\<close>: the list with head pointer \<open>l\<close> consists of the distinct frames \<open>ns\<close>, all marked in
  use; \<open>swap_rep\<close> adds that the lock is free.
\<close>

definition swap_wf :: "swap \<Rightarrow> nat option \<Rightarrow> nat list \<Rightarrow> bool" where
  "swap_wf s l ns \<longleftrightarrow>
     spath (swap_frame_list s) (hdp l) ns (-1) \<and> distinct ns \<and> (\<forall>n \<in> set ns. swap_bitmap s n = 1)"

definition swap_rep :: "swap \<Rightarrow> nat option \<Rightarrow> nat list \<Rightarrow> bool" where
  "swap_rep s l ns \<longleftrightarrow> swap_wf s l ns \<and> \<not> swap_lk s"

text \<open>What a frame records: virtual address, swap space and number of sharers.\<close>

definition slot :: "swap \<Rightarrow> nat \<Rightarrow> u32 \<times> int \<times> int" where
  "slot s n = (d_vaddr (swap_frame_list s n), d_swap (swap_frame_list s n), d_count (swap_frame_list s n))"

lemma hdp_simps [simp]: "hdp None = -1" "hdp (Some i) = int i"
  by (simp_all add: hdp_def)

lemma hdp_inj: "hdp l = hdp l' \<longleftrightarrow> l = l'"
  by (auto simp: hdp_def split: option.splits)

lemma spath_append: "spath f j (ns @ ms) k \<longleftrightarrow> (\<exists>i. spath f j ns i \<and> spath f i ms k)"
  by (induction ns arbitrary: j) auto

lemma spath_cong:
  "(\<And>n. n \<in> set ns \<Longrightarrow> d_next (f n) = d_next (g n)) \<Longrightarrow> spath f j ns k = spath g j ns k"
  by (induction ns arbitrary: j) auto

lemma spath_bound: "spath f j ns k \<Longrightarrow> n \<in> set ns \<Longrightarrow> n < MAX_FRAME_SWAP"
  by (induction ns arbitrary: j) auto

lemma spath_length:
  assumes "spath f j ns k" "distinct ns"
  shows "length ns \<le> MAX_FRAME_SWAP"
proof -
  from assms(1) have "set ns \<subseteq> {..<MAX_FRAME_SWAP}" by (auto dest: spath_bound)
  then have "card (set ns) \<le> card {..<MAX_FRAME_SWAP}" by (intro card_mono) auto
  with assms(2) show ?thesis by (simp add: distinct_card)
qed

lemma spath_snoc: "spath f j (ns @ [m]) k \<longleftrightarrow> spath f j ns (int m) \<and> m < MAX_FRAME_SWAP \<and> d_next (f m) = k"
  by (auto simp: spath_append)

lemma spath_end:
  assumes "spath f j (us @ m # vs) (-1)"
  shows "d_next (f m) = -1 \<longleftrightarrow> vs = []"
    "vs \<noteq> [] \<Longrightarrow> d_next (f m) = int (hd vs) \<and> hd vs < MAX_FRAME_SWAP"
  using assms by (cases vs; auto simp: spath_append)+

lemma wp_get_df [wp_rules]: "wp (get_df i) Q s = Q (swap_frame_list s i) s"
  by (simp add: get_df_def wp_rules)

lemma wp_upd_df [wp_rules]:
  "wp (upd_df i g) Q s = Q () (s\<lparr>swap_frame_list := (swap_frame_list s)(i := g (swap_frame_list s i))\<rparr>)"
  by (simp add: upd_df_def wp_rules)

lemma wp_set_swap_bitmap [wp_rules]:
  "wp (set_swap_bitmap i v) Q s = Q () (s\<lparr>swap_bitmap := (swap_bitmap s)(i := v)\<rparr>)"
  by (simp add: set_swap_bitmap_def wp_rules)

lemma df_at_run: "n < MAX_FRAME_SWAP \<Longrightarrow> df_at (int n) s = Inr (n, s)"
  by (simp add: df_at_def ret_run)

lemma swap_wf_lk [simp]: "swap_wf (s\<lparr>swap_lk := b\<rparr>) l ns = swap_wf s l ns"
  by (simp add: swap_wf_def)

lemma slot_lk [simp]: "slot (s\<lparr>swap_lk := b\<rparr>) n = slot s n"
  by (simp add: slot_def)

lemma swap_wf_length: "swap_wf s l ns \<Longrightarrow> length ns \<le> MAX_FRAME_SWAP"
  by (auto simp: swap_wf_def dest: spath_length)

text \<open>The loops walk the list; each has enough iterations for any list without repetition.\<close>

lemma swap_last_spec:
  assumes "spath (swap_frame_list s) (int c) ns (-1)" "length ns \<le> n" "ns \<noteq> []"
  shows "swap_last n c s = Inr (last ns, s)"
  using assms
proof (induction ns arbitrary: c n)
  case Nil
  then show ?case by simp
next
  case (Cons m ns)
  then obtain k where n: "n = Suc k" "length ns \<le> k" by (cases n) auto
  show ?case
  proof (cases ns)
    case Nil
    with Cons.prems n show ?thesis by (simp add: swap_last.simps run_simps get_df_def)
  next
    case ms: (Cons w ms)
    with Cons.prems(1) have path: "spath (swap_frame_list s) (int w) ns (-1)" by simp
    have "swap_last k w s = Inr (last ns, s)" using Cons.IH [OF path n(2)] ms by simp
    with Cons.prems(1) n(1) ms show ?thesis
      by (simp add: swap_last.simps run_simps get_df_def df_at_run)
  qed
qed

lemma swap_find_spec:
  assumes "spath (swap_frame_list s) (int c) (us @ m # vs) (-1)" "length us < n"
    "\<forall>u \<in> set us. d_vaddr (swap_frame_list s u) \<noteq> vaddr"
    "d_vaddr (swap_frame_list s m) = vaddr \<or> vs = []"
  shows "swap_find n vaddr c prev s = Inr ((m, if us = [] then prev else Some (last us)), s)"
  using assms
proof (induction us arbitrary: c n prev)
  case Nil
  then obtain k where "n = Suc k" by (cases n) auto
  with Nil show ?case by (cases vs) (auto simp: swap_find.simps run_simps get_df_def)
next
  case (Cons u us)
  then obtain k where n: "n = Suc k" "length us < k" by (cases n) auto
  obtain w ws where w: "us @ m # vs = w # ws" by (cases us) auto
  with Cons.prems(1) have nx: "c = u" "d_next (swap_frame_list s u) = int w" "w < MAX_FRAME_SWAP"
    and path: "spath (swap_frame_list s) (int w) (us @ m # vs) (-1)" by auto
  have "swap_find k vaddr w (Some u) s = Inr ((m, if us = [] then Some u else Some (last us)), s)"
    using Cons.IH [OF path n(2) _ Cons.prems(4)] Cons.prems(3) by simp
  with nx n(1) Cons.prems(3) show ?case
    by (simp add: swap_find.simps run_simps get_df_def df_at_run)
qed

text \<open>The first frame of a list that holds a given page.\<close>

definition find_slot :: "swap \<Rightarrow> u32 \<Rightarrow> nat list \<Rightarrow> nat option" where
  "find_slot s vaddr ns = List.find (\<lambda>n. d_vaddr (swap_frame_list s n) = vaddr) ns"

lemma find_slot_simps [simp]:
  "find_slot s vaddr [] = None"
  "find_slot s vaddr (n # ns) =
     (if d_vaddr (swap_frame_list s n) = vaddr then Some n else find_slot s vaddr ns)"
  by (simp_all add: find_slot_def)

lemma find_slot_Some:
  assumes "find_slot s vaddr ns = Some m"
  obtains us vs where "ns = us @ m # vs" "d_vaddr (swap_frame_list s m) = vaddr"
    "\<forall>u \<in> set us. d_vaddr (swap_frame_list s u) \<noteq> vaddr"
proof -
  have "\<exists>us vs. ns = us @ m # vs \<and> d_vaddr (swap_frame_list s m) = vaddr \<and>
     (\<forall>u \<in> set us. d_vaddr (swap_frame_list s u) \<noteq> vaddr)"
    using assms
  proof (induction ns)
    case (Cons n ns)
    show ?case
    proof (cases "d_vaddr (swap_frame_list s n) = vaddr")
      case True
      with Cons.prems show ?thesis by (intro exI [of _ "[]"] exI [of _ ns]) simp
    next
      case False
      with Cons obtain us vs where "ns = us @ m # vs" "d_vaddr (swap_frame_list s m) = vaddr"
        "\<forall>u \<in> set us. d_vaddr (swap_frame_list s u) \<noteq> vaddr" by auto
      with False show ?thesis by (intro exI [of _ "n # us"] exI [of _ vs]) simp
    qed
  qed simp
  with that show thesis by blast
qed

lemma find_slot_None:
  "find_slot s vaddr ns = None \<longleftrightarrow> (\<forall>n \<in> set ns. d_vaddr (swap_frame_list s n) \<noteq> vaddr)"
  by (induction ns) auto

lemma find_slot_lk [simp]: "find_slot (s\<lparr>swap_lk := b\<rparr>) vaddr ns = find_slot s vaddr ns"
  by (simp add: find_slot_def)

definition slot_space :: "swap \<Rightarrow> nat option \<Rightarrow> int" where
  "slot_space s r = (case r of None \<Rightarrow> -1 | Some n \<Rightarrow> d_swap (swap_frame_list s n))"

lemma slot_space_lk [simp]: "slot_space (s\<lparr>swap_lk := b\<rparr>) r = slot_space s r"
  by (simp add: slot_space_def split: option.split)

lemma swap_check_loop_spec:
  assumes "spath (swap_frame_list s) (int c) (c # ns) (-1)" "length ns < n" "swap_lk s"
    "ns = [] \<longrightarrow> d_vaddr (swap_frame_list s c) \<noteq> vaddr"
  shows "swap_check_loop n vaddr c s =
     Inr (slot_space s (find_slot s vaddr (c # ns)), s\<lparr>swap_lk := False\<rparr>)"
  using assms
proof (induction ns arbitrary: c n)
  case Nil
  then obtain k where "n = Suc k" by (cases n) auto
  with Nil show ?case by (simp add: swap_check_loop.simps run_simps get_df_def slot_space_def)
next
  case (Cons m ns)
  then obtain k where n: "n = Suc k" "length ns < k" by (cases n) auto
  from Cons.prems(1) have nx: "d_next (swap_frame_list s c) = int m" "m < MAX_FRAME_SWAP"
    and path: "spath (swap_frame_list s) (int m) (m # ns) (-1)" by auto
  from path have "d_next (swap_frame_list s m) = -1 \<longleftrightarrow> ns = []"
    using spath_end(1) [of _ _ "[]" m ns] by simp
  with Cons.IH [OF path n(2) Cons.prems(3)] nx n(1) Cons.prems(3) show ?case
    by (auto simp: swap_check_loop.simps(2) [of k vaddr c] run_simps get_df_def df_at_run slot_space_def)
qed

text \<open>\<open>swap_check\<close> finds the first frame for the page.\<close>

lemma swap_check_spec:
  assumes rep: "swap_rep s l ns"
  shows "swap_check vaddr l s = Inr (slot_space s (find_slot s vaddr ns), s)"
proof (cases l)
  case None
  with rep show ?thesis
    by (cases ns) (auto simp: swap_check_def swap_rep_def swap_wf_def run_simps slot_space_def)
next
  case (Some c)
  with rep obtain ms where ns: "ns = c # ms" by (cases ns) (auto simp: swap_rep_def swap_wf_def)
  let ?s = "s\<lparr>swap_lk := True\<rparr>"
  from rep have lk: "\<not> swap_lk s" by (simp add: swap_rep_def)
  then have same: "s\<lparr>swap_lk := False\<rparr> = s" by simp
  from rep Some ns have path: "spath (swap_frame_list ?s) (int c) (c # ms) (-1)"
    by (simp add: swap_rep_def swap_wf_def)
  then have nxt: "d_next (swap_frame_list s c) = -1 \<longleftrightarrow> ms = []"
    using spath_end(1) [of _ _ "[]" c ms] by simp
  have len: "length ms < MAX_FRAME_SWAP"
    using swap_wf_length [of s l ns] rep ns by (simp add: swap_rep_def)
  have loop: "ms = [] \<longrightarrow> d_vaddr (swap_frame_list s c) \<noteq> vaddr \<Longrightarrow>
      swap_check_loop MAX_FRAME_SWAP vaddr c ?s = Inr (slot_space s (find_slot s vaddr (c # ms)), s)"
    using swap_check_loop_spec [OF path len, of vaddr] same by simp
  show ?thesis
  proof (cases "ms = [] \<and> d_vaddr (swap_frame_list s c) = vaddr")
    case True
    with Some ns lk same nxt show ?thesis
      by (simp add: swap_check_def run_simps get_df_def slot_space_def)
  next
    case False
    with Some ns lk loop nxt show ?thesis by (auto simp: swap_check_def run_simps get_df_def)
  qed
qed

section \<open>Entering and taking out a frame\<close>

text \<open>A step on the list \<open>ns\<close> leaves every list of another process, disjoint from it, as it was.\<close>

definition others_kept :: "swap \<Rightarrow> swap \<Rightarrow> nat list \<Rightarrow> bool" where
  "others_kept s t ns \<longleftrightarrow>
     (\<forall>l ms. swap_wf s l ms \<and> set ms \<inter> set ns = {} \<longrightarrow>
        swap_wf t l ms \<and> (\<forall>n \<in> set ms. slot t n = slot s n))"

lemma others_keptI:
  assumes "\<And>n. n \<notin> set ns \<Longrightarrow> swap_bitmap s n = 1 \<Longrightarrow>
     swap_frame_list t n = swap_frame_list s n \<and> swap_bitmap t n = 1"
  shows "others_kept s t ns"
  unfolding others_kept_def
proof (intro allI impI)
  fix l ms
  assume wf: "swap_wf s l ms \<and> set ms \<inter> set ns = {}"
  then have same: "swap_frame_list t n = swap_frame_list s n \<and> swap_bitmap t n = 1" if "n \<in> set ms" for n
    using that assms [of n] by (auto simp: swap_wf_def)
  then have "spath (swap_frame_list t) (hdp l) ms (-1) = spath (swap_frame_list s) (hdp l) ms (-1)"
    by (intro spath_cong) auto
  with wf same show "swap_wf t l ms \<and> (\<forall>n \<in> set ms. slot t n = slot s n)"
    by (auto simp: swap_wf_def slot_def)
qed

lemma swap_get_free_frame_free:
  assumes "\<exists>i < MAX_FRAME_SWAP. swap_bitmap s i = -1"
  obtains n where "n < MAX_FRAME_SWAP" "swap_bitmap s n = -1"
    "swap_get_free_frame s = Inr (int n, s\<lparr>swap_bitmap := (swap_bitmap s)(n := 1)\<rparr>)"
proof -
  from assms have "scan_from (\<lambda>i. swap_bitmap s i = -1) 0 MAX_FRAME_SWAP \<noteq> None"
    by (simp add: scan_from_None)
  then obtain n where n: "scan_from (\<lambda>i. swap_bitmap s i = -1) 0 MAX_FRAME_SWAP = Some n" by auto
  with scan_from_Some [OF n] that show thesis
    by (simp add: swap_get_free_frame_def set_swap_bitmap_def run_simps)
qed

lemma swap_get_free_frame_full:
  "\<forall>i < MAX_FRAME_SWAP. swap_bitmap s i \<noteq> -1 \<Longrightarrow> swap_get_free_frame s = Inr (-1, s)"
proof -
  assume "\<forall>i < MAX_FRAME_SWAP. swap_bitmap s i \<noteq> -1"
  then have "scan_from (\<lambda>i. swap_bitmap s i = -1) 0 MAX_FRAME_SWAP = None"
    by (simp add: scan_from_None)
  then show ?thesis by (simp add: swap_get_free_frame_def run_simps)
qed

lemma swap_append_full:
  assumes rep: "swap_rep s l ns" and full: "\<forall>i < MAX_FRAME_SWAP. swap_bitmap s i \<noteq> -1"
  shows "swap_append space vaddr l s = Inr (None, s\<lparr>swap_lk := True\<rparr>)"
proof -
  have free: "swap_get_free_frame (s\<lparr>swap_lk := True\<rparr>) = Inr (-1, s\<lparr>swap_lk := True\<rparr>)"
    using full by (intro swap_get_free_frame_full) simp
  from rep have lk: "\<not> swap_lk s" by (simp add: swap_rep_def)
  show ?thesis
  proof (cases l)
    case None
    with free lk show ?thesis by (simp add: swap_append_def run_simps)
  next
    case (Some c)
    with rep have "swap_last MAX_FRAME_SWAP c s = Inr (last ns, s)"
      by (intro swap_last_spec) (auto simp: swap_rep_def dest: swap_wf_length, auto simp: swap_wf_def)
    with Some free lk show ?thesis by (simp add: swap_append_def run_simps)
  qed
qed

lemma swap_append_room:
  assumes rep: "swap_rep s l ns" and room: "\<exists>i < MAX_FRAME_SWAP. swap_bitmap s i = -1"
  shows "wp (swap_append space vaddr l) (\<lambda>r t. \<exists>n l'. r = Some (n, l') \<and> n < MAX_FRAME_SWAP \<and>
     swap_bitmap s n = -1 \<and> swap_rep t l' (ns @ [n]) \<and> slot t n = (vaddr, space, 1) \<and>
     (\<forall>m \<in> set ns. slot t m = slot s m) \<and> others_kept s t ns) s"
proof -
  let ?s = "s\<lparr>swap_lk := True\<rparr>"
  obtain n where n: "n < MAX_FRAME_SWAP" "swap_bitmap s n = -1"
    and free: "swap_get_free_frame ?s = Inr (int n, ?s\<lparr>swap_bitmap := (swap_bitmap s)(n := 1)\<rparr>)"
    using room swap_get_free_frame_free [of ?s] by auto
  from rep have lk: "\<not> swap_lk s" and wf: "swap_wf s l ns" by (simp_all add: swap_rep_def)
  then have new: "n \<notin> set ns" using n by (auto simp: swap_wf_def)
  show ?thesis
  proof (cases l)
    case None
    with wf have ns: "ns = []" by (cases ns) (auto simp: swap_wf_def)
    define t where "t = s\<lparr>swap_frame_list := (swap_frame_list s)(n := (swap_frame_list s n)
        \<lparr>d_next := -1, d_vaddr := vaddr, d_swap := space, d_count := 1\<rparr>),
       swap_bitmap := (swap_bitmap s)(n := 1), swap_lk := False\<rparr>"
    have "swap_append space vaddr l s = Inr (Some (n, Some n), t)"
      using None free lk by (simp add: swap_append_def run_simps upd_df_def Let_def t_def)
    moreover have "others_kept s t ns" using n by (intro others_keptI) (auto simp: t_def)
    ultimately show ?thesis
      using ns n by (intro wpI) (auto simp: swap_rep_def swap_wf_def slot_def t_def)
  next
    case (Some c)
    with wf have ne: "ns \<noteq> []" by (auto simp: swap_wf_def)
    with new have last: "last ns \<noteq> n" by auto
    have walk: "swap_last MAX_FRAME_SWAP c s = Inr (last ns, s)"
      using wf Some ne swap_wf_length [OF wf] by (intro swap_last_spec) (auto simp: swap_wf_def)
    define t where "t = s\<lparr>swap_frame_list := (swap_frame_list s)
       (last ns := (swap_frame_list s (last ns))\<lparr>d_next := int n\<rparr>,
        n := (swap_frame_list s n)\<lparr>d_next := -1, d_vaddr := vaddr, d_swap := space, d_count := 1\<rparr>),
       swap_bitmap := (swap_bitmap s)(n := 1), swap_lk := False\<rparr>"
    have run: "swap_append space vaddr l s = Inr (Some (n, l), t)"
      using Some walk free lk last by (simp add: swap_append_def run_simps upd_df_def Let_def t_def)
    have path: "spath (swap_frame_list t) (hdp l) (ns @ [n]) (-1)"
    proof -
      obtain ms m where ms: "ns = ms @ [m]" using ne by (cases ns rule: rev_cases) auto
      with wf have "spath (swap_frame_list s) (hdp l) ms (int m)" "m < MAX_FRAME_SWAP" "m \<notin> set ms"
        by (auto simp: swap_wf_def spath_snoc)
      moreover have "spath (swap_frame_list t) (hdp l) ms (int m) = spath (swap_frame_list s) (hdp l) ms (int m)"
        using ms new \<open>m \<notin> set ms\<close> by (intro spath_cong) (auto simp: t_def)
      ultimately show ?thesis using n last ms by (auto simp: spath_append t_def)
    qed
    have "others_kept s t ns" using n ne by (intro others_keptI) (auto simp: t_def)
    with run path n new wf last show ?thesis
      by (intro wpI) (auto simp: swap_rep_def swap_wf_def slot_def t_def)
  qed
qed

lemma swap_take_absent:
  assumes rep: "swap_rep s l ns" and miss: "find_slot s vaddr ns = None"
  shows "swap_take vaddr l s = Inr (None, s)"
proof (cases l)
  case None
  then show ?thesis by (simp add: swap_take_def run_simps)
next
  case (Some c)
  from rep have lk: "\<not> swap_lk s" and wf: "swap_wf s l ns" by (simp_all add: swap_rep_def)
  then have same: "s\<lparr>swap_lk := False\<rparr> = s" by simp
  from wf Some have "ns \<noteq> []" by (auto simp: swap_wf_def)
  then obtain us m where ns: "ns = us @ [m]" by (cases ns rule: rev_cases) auto
  have "swap_find MAX_FRAME_SWAP vaddr c None (s\<lparr>swap_lk := True\<rparr>) =
     Inr ((m, if us = [] then None else Some (last us)), s\<lparr>swap_lk := True\<rparr>)"
    using wf Some ns miss swap_wf_length [OF wf]
    by (intro swap_find_spec [where vs = "[]"]) (auto simp: swap_wf_def find_slot_None)
  with Some lk same ns miss show ?thesis
    by (simp add: swap_take_def run_simps get_df_def find_slot_None)
qed

text \<open>The last sharer takes the frame out of the list and frees it; an earlier one only leaves.\<close>

lemma swap_take_unshared:
  assumes rep: "swap_rep s l (us @ m # vs)" and m: "find_slot s vaddr (us @ m # vs) = Some m"
    and one: "d_count (swap_frame_list s m) = 1"
    and first: "\<forall>u \<in> set us. d_vaddr (swap_frame_list s u) \<noteq> vaddr"
  shows "wp (swap_take vaddr l) (\<lambda>r t. \<exists>l'. r = Some (m, l') \<and> swap_rep t l' (us @ vs) \<and>
     swap_bitmap t m = -1 \<and> (\<forall>n \<in> set (us @ vs). slot t n = slot s n) \<and>
     others_kept s t (us @ m # vs)) s"
proof -
  let ?ns = "us @ m # vs"
  from rep have lk: "\<not> swap_lk s" and wf: "swap_wf s l ?ns" by (simp_all add: swap_rep_def)
  from m have vm: "d_vaddr (swap_frame_list s m) = vaddr" by (auto elim: find_slot_Some)
  from wf obtain c where c: "l = Some c" "c = hd ?ns"
    by (cases l; cases us) (auto simp: swap_wf_def)
  have path: "spath (swap_frame_list s) (int c) ?ns (-1)" using wf c by (simp add: swap_wf_def)
  have dist: "distinct ?ns" "m < MAX_FRAME_SWAP" using wf by (auto simp: swap_wf_def spath_append)
  note nx = spath_end [OF path]
  have find: "swap_find MAX_FRAME_SWAP vaddr c None (s\<lparr>swap_lk := True\<rparr>) =
     Inr ((m, if us = [] then None else Some (last us)), s\<lparr>swap_lk := True\<rparr>)"
    using path vm first swap_wf_length [OF wf] by (intro swap_find_spec [where vs = vs]) auto
  let ?f = "(swap_frame_list s)(m := (swap_frame_list s m)\<lparr>d_count := 0\<rparr>)"
  show ?thesis
  proof (cases us rule: rev_cases)
    case Nil
    define t where "t = s\<lparr>swap_frame_list := ?f, swap_bitmap := (swap_bitmap s)(m := -1), swap_lk := False\<rparr>"
    let ?l = "if vs = [] then None else Some (hd vs)"
    have "swap_take vaddr l s = Inr (Some (m, ?l), t)"
      using c Nil find lk vm one nx df_at_run [of "hd vs"]
      by (cases vs) (auto simp: swap_take_def run_simps get_df_def upd_df_def set_swap_bitmap_def t_def)
    moreover have "spath (swap_frame_list t) (hdp ?l) vs (-1)"
    proof -
      have "spath (swap_frame_list t) (hdp ?l) vs (-1) = spath (swap_frame_list s) (hdp ?l) vs (-1)"
        using dist by (intro spath_cong) (auto simp: t_def)
      then show ?thesis using path Nil nx by (cases vs) auto
    qed
    moreover have "others_kept s t ?ns" by (intro others_keptI) (auto simp: t_def)
    ultimately show ?thesis
      using Nil dist wf by (intro wpI) (auto simp: swap_rep_def swap_wf_def slot_def t_def)
  next
    case (snoc ws w)
    let ?g = "?f(w := (swap_frame_list s w)\<lparr>d_next := d_next (swap_frame_list s m)\<rparr>)"
    define t where "t = s\<lparr>swap_frame_list := ?g, swap_bitmap := (swap_bitmap s)(m := -1), swap_lk := False\<rparr>"
    have wm: "w \<noteq> m" "m \<noteq> c" using dist snoc c by (auto simp: hd_append split: if_splits)
    have "swap_take vaddr l s = Inr (Some (m, l), t)"
      using c snoc find lk vm one wm
      by (simp add: swap_take_def run_simps get_df_def upd_df_def set_swap_bitmap_def t_def)
    moreover have "spath (swap_frame_list t) (hdp l) (us @ vs) (-1)"
    proof -
      from path snoc have "spath (swap_frame_list s) (int c) ws (int w)" "w < MAX_FRAME_SWAP"
        "spath (swap_frame_list s) (d_next (swap_frame_list s m)) vs (-1)"
        by (auto simp: spath_append)
      moreover have "spath (swap_frame_list t) (int c) ws (int w) = spath (swap_frame_list s) (int c) ws (int w)"
        "spath (swap_frame_list t) (d_next (swap_frame_list s m)) vs (-1) =
           spath (swap_frame_list s) (d_next (swap_frame_list s m)) vs (-1)"
        using dist snoc by (intro spath_cong; auto simp: t_def)+
      ultimately show ?thesis using snoc c wm by (auto simp: spath_append t_def)
    qed
    moreover have "others_kept s t ?ns" using snoc by (intro others_keptI) (auto simp: t_def)
    ultimately show ?thesis
      using snoc dist wf by (intro wpI) (auto simp: swap_rep_def swap_wf_def slot_def t_def)
  qed
qed

lemma swap_take_shared:
  assumes rep: "swap_rep s l ns" and m: "find_slot s vaddr ns = Some m"
    and more: "d_count (swap_frame_list s m) \<noteq> 1"
  shows "wp (swap_take vaddr l) (\<lambda>r t. r = Some (m, l) \<and> swap_rep t l ns \<and>
     slot t m = (vaddr, d_swap (swap_frame_list s m), d_count (swap_frame_list s m) - 1) \<and>
     (\<forall>n \<in> set ns - {m}. slot t n = slot s n) \<and> others_kept s t ns) s"
proof -
  obtain us vs where ns: "ns = us @ m # vs" and vm: "d_vaddr (swap_frame_list s m) = vaddr"
    and first: "\<forall>u \<in> set us. d_vaddr (swap_frame_list s u) \<noteq> vaddr"
    using find_slot_Some [OF m] by blast
  from rep have lk: "\<not> swap_lk s" and wf: "swap_wf s l ns" by (simp_all add: swap_rep_def)
  from wf ns obtain c where c: "l = Some c" by (cases l; cases us) (auto simp: swap_wf_def)
  have find: "swap_find MAX_FRAME_SWAP vaddr c None (s\<lparr>swap_lk := True\<rparr>) =
     Inr ((m, if us = [] then None else Some (last us)), s\<lparr>swap_lk := True\<rparr>)"
    using wf c ns vm first swap_wf_length [OF wf]
    by (intro swap_find_spec [where vs = vs]) (auto simp: swap_wf_def)
  define t where "t = s\<lparr>swap_frame_list := (swap_frame_list s)
     (m := (swap_frame_list s m)\<lparr>d_count := d_count (swap_frame_list s m) - 1\<rparr>), swap_lk := False\<rparr>"
  have "swap_take vaddr l s = Inr (Some (m, l), t)"
    using c find lk vm more by (simp add: swap_take_def run_simps get_df_def upd_df_def t_def)
  moreover have "spath (swap_frame_list t) (hdp l) ns (-1) = spath (swap_frame_list s) (hdp l) ns (-1)"
    by (intro spath_cong) (auto simp: t_def)
  moreover have "others_kept s t ns" using ns by (intro others_keptI) (auto simp: t_def)
  ultimately show ?thesis
    using wf vm by (intro wpI) (auto simp: swap_rep_def swap_wf_def slot_def t_def)
qed

section \<open>Freeing and sharing a list\<close>

definition clear_bits :: "nat set \<Rightarrow> swap \<Rightarrow> swap" where
  "clear_bits A s = s\<lparr>swap_bitmap := (\<lambda>i. if i \<in> A then -1 else swap_bitmap s i)\<rparr>"

definition bump_counts :: "nat set \<Rightarrow> swap \<Rightarrow> swap" where
  "bump_counts A s = s\<lparr>swap_frame_list := (\<lambda>i. if i \<in> A
     then (swap_frame_list s i)\<lparr>d_count := d_count (swap_frame_list s i) + 1\<rparr> else swap_frame_list s i)\<rparr>"

lemma swap_free_loop_spec:
  assumes "spath (swap_frame_list s) (int c) (c # ns) (-1)" "length ns < n"
  shows "swap_free_loop n c s = Inr ((), if ns = [] then s else clear_bits (set (c # ns)) s)"
  using assms
proof (induction ns arbitrary: c n s)
  case Nil
  then obtain k where "n = Suc k" by (cases n) auto
  with Nil show ?case by (simp add: swap_free_loop.simps run_simps get_df_def)
next
  case (Cons m ns)
  then obtain k where n: "n = Suc k" "length ns < k" by (cases n) auto
  from Cons.prems(1) have nx: "d_next (swap_frame_list s c) = int m" "m < MAX_FRAME_SWAP"
    "spath (swap_frame_list s) (int m) (m # ns) (-1)" by auto
  have last: "d_next (swap_frame_list s m) = -1 \<longleftrightarrow> ns = []"
    using nx(3) spath_end(1) [of _ _ "[]" m ns] by simp
  let ?s = "s\<lparr>swap_bitmap := (swap_bitmap s)(c := -1)\<rparr>"
  let ?t = "if ns = [] then ?s\<lparr>swap_bitmap := (swap_bitmap ?s)(m := -1)\<rparr> else ?s"
  have "swap_free_loop k m ?t = Inr ((), if ns = [] then ?t else clear_bits (set (m # ns)) ?t)"
    using nx(3) by (intro Cons.IH [OF _ n(2)]) auto
  moreover have "(if ns = [] then ?t else clear_bits (set (m # ns)) ?t) = clear_bits (set (c # m # ns)) s"
    by (auto simp: clear_bits_def fun_eq_iff)
  ultimately show ?case using nx last n(1)
    by (simp add: swap_free_loop.simps(2) run_simps get_df_def df_at_run set_swap_bitmap_def split: if_splits)
qed

lemma swap_free_list_spec:
  assumes rep: "swap_rep s l ns"
  shows "swap_free_list False l s = Inr (if length ns = 1 then l else None, clear_bits (set ns) s)"
proof -
  from rep have lk: "\<not> swap_lk s" and wf: "swap_wf s l ns" by (simp_all add: swap_rep_def)
  have undo: "(clear_bits A (s\<lparr>swap_lk := True\<rparr>))\<lparr>swap_lk := False\<rparr> = clear_bits A s" for A
    using lk by (intro swap.equality) (auto simp: clear_bits_def)
  show ?thesis
  proof (cases l)
    case None
    with wf have "ns = []" by (cases ns) (auto simp: swap_wf_def)
    with None lk show ?thesis by (simp add: swap_free_list_def run_simps clear_bits_def)
  next
    case (Some c)
    with wf obtain ms where ns: "ns = c # ms" by (cases ns) (auto simp: swap_wf_def)
    have path: "spath (swap_frame_list (s\<lparr>swap_lk := True\<rparr>)) (int c) (c # ms) (-1)"
      using wf Some ns by (simp add: swap_wf_def)
    have len: "length ms < MAX_FRAME_SWAP" using swap_wf_length [OF wf] ns by simp
    have last: "d_next (swap_frame_list s c) = -1 \<longleftrightarrow> ms = []"
      using path spath_end(1) [of _ _ "[]" c ms] by simp
    show ?thesis
    proof (cases "ms = []")
      case True
      moreover have "s\<lparr>swap_lk := True, swap_bitmap := (swap_bitmap s)(c := -1), swap_lk := False\<rparr> =
          clear_bits {c} s"
        using lk by (intro swap.equality) (auto simp: clear_bits_def)
      ultimately show ?thesis using Some ns lk last
        by (simp add: swap_free_list_def run_simps get_df_def set_swap_bitmap_def)
    next
      case False
      moreover have "swap_lk (clear_bits A (s\<lparr>swap_lk := True\<rparr>))" for A by (simp add: clear_bits_def)
      ultimately show ?thesis using Some ns lk last swap_free_loop_spec [OF path len] undo
        by (simp add: swap_free_list_def run_simps get_df_def)
    qed
  qed
qed

lemma bump_counts_next [simp]: "d_next (swap_frame_list (bump_counts A s) n) = d_next (swap_frame_list s n)"
  by (simp add: bump_counts_def)

lemma spath_bump [simp]: "spath (swap_frame_list (bump_counts A s)) j ns k = spath (swap_frame_list s) j ns k"
  by (intro spath_cong) simp

lemma upd_df_count: "upd_df c (\<lambda>e. e\<lparr>d_count := d_count e + 1\<rparr>) s = Inr ((), bump_counts {c} s)"
  by (simp add: upd_df_def run_simps bump_counts_def fun_eq_iff)

lemma bump_counts_Un: "A \<inter> B = {} \<Longrightarrow> bump_counts A (bump_counts B s) = bump_counts (A \<union> B) s"
  by (rule swap.equality) (auto simp: bump_counts_def fun_eq_iff)

lemma swap_fork_loop_spec:
  assumes "spath (swap_frame_list s) (int c) (c # ns) (-1)" "length ns < n" "distinct (c # ns)"
  shows "swap_fork_loop n c s = Inr ((), if ns = [] then s else bump_counts (set (c # ns)) s)"
  using assms
proof (induction ns arbitrary: c n s)
  case Nil
  then obtain k where "n = Suc k" by (cases n) auto
  with Nil show ?case by (simp add: swap_fork_loop.simps run_simps get_df_def)
next
  case (Cons m ns)
  then obtain k where n: "n = Suc k" "length ns < k" by (cases n) auto
  from Cons.prems(1) have nx: "d_next (swap_frame_list s c) = int m" "m < MAX_FRAME_SWAP"
    "spath (swap_frame_list s) (int m) (m # ns) (-1)" by auto
  have last: "d_next (swap_frame_list s m) = -1 \<longleftrightarrow> ns = []"
    using nx(3) spath_end(1) [of _ _ "[]" m ns] by simp
  let ?t = "if ns = [] then bump_counts {m} (bump_counts {c} s) else bump_counts {c} s"
  have "swap_fork_loop k m ?t = Inr ((), if ns = [] then ?t else bump_counts (set (m # ns)) ?t)"
    using nx(3) Cons.prems(3) by (intro Cons.IH [OF _ n(2)]) auto
  moreover have "(if ns = [] then ?t else bump_counts (set (m # ns)) ?t) = bump_counts (set (c # m # ns)) s"
    using Cons.prems(3) by (auto simp: bump_counts_Un insert_commute)
  ultimately show ?case using nx last n(1)
    by (simp add: swap_fork_loop.simps(2) run_simps get_df_def df_at_run upd_df_count split: if_splits)
qed

lemma swap_fork_spec:
  assumes rep: "swap_rep s l ns"
  shows "swap_fork l s = Inr ((), bump_counts (set ns) s)"
proof (cases l)
  case None
  with rep have "ns = []" by (cases ns) (auto simp: swap_rep_def swap_wf_def)
  with None show ?thesis by (simp add: swap_fork_def run_simps bump_counts_def)
next
  case (Some c)
  from rep have wf: "swap_wf s l ns" by (simp add: swap_rep_def)
  with Some obtain ms where ns: "ns = c # ms" by (cases ns) (auto simp: swap_wf_def)
  have path: "spath (swap_frame_list s) (int c) (c # ms) (-1)" "distinct (c # ms)"
    using wf Some ns by (simp_all add: swap_wf_def)
  have last: "d_next (swap_frame_list s c) = -1 \<longleftrightarrow> ms = []"
    using path spath_end(1) [of _ _ "[]" c ms] by simp
  have "length ms < MAX_FRAME_SWAP" using swap_wf_length [OF wf] ns by simp
  from swap_fork_loop_spec [OF path(1) this path(2)] last Some ns show ?thesis
    by (auto simp: swap_fork_def run_simps get_df_def upd_df_count)
qed

lemma swap_read_loop_spec:
  assumes "spath (swap_frame_list s) (int c) (c # ns) (-1)" "length ns < n"
  shows "swap_read_loop n c s = Inr (map (\<lambda>m. (m, d_vaddr (swap_frame_list s m),
     d_count (swap_frame_list s m), d_swap (swap_frame_list s m))) (c # ns), s)"
  using assms
proof (induction ns arbitrary: c n)
  case Nil
  then obtain k where "n = Suc k" by (cases n) auto
  with Nil show ?case by (simp add: swap_read_loop.simps run_simps get_df_def)
next
  case (Cons m ns)
  then obtain k where n: "n = Suc k" "length ns < k" by (cases n) auto
  from Cons.prems(1) have nx: "d_next (swap_frame_list s c) = int m" "m < MAX_FRAME_SWAP"
    "spath (swap_frame_list s) (int m) (m # ns) (-1)" by auto
  from Cons.IH [OF nx(3) n(2)] nx(1,2) n(1) show ?case
    by (simp add: swap_read_loop.simps(2) run_simps get_df_def df_at_run)
qed

lemma swap_read_spec:
  assumes rep: "swap_rep s l ns"
  shows "swap_read l s = Inr (map (\<lambda>m. (m, d_vaddr (swap_frame_list s m),
     d_count (swap_frame_list s m), d_swap (swap_frame_list s m))) ns, s)"
proof (cases l)
  case None
  with rep have "ns = []" by (cases ns) (auto simp: swap_rep_def swap_wf_def)
  with None show ?thesis by (simp add: swap_read_def run_simps)
next
  case (Some c)
  from rep have wf: "swap_wf s l ns" by (simp add: swap_rep_def)
  with Some obtain ms where ns: "ns = c # ms" by (cases ns) (auto simp: swap_wf_def)
  with wf Some swap_wf_length [OF wf] swap_read_loop_spec [of s c ms MAX_FRAME_SWAP] show ?thesis
    by (simp add: swap_read_def swap_wf_def)
qed

section \<open>The interface of the swap bookkeeping\<close>

text \<open>
  What the page fault handler relies on. A list holds triples (page, swap space, frame): entering a
  page appends a triple, checking returns the space of its first triple, taking it out returns the
  frame of that triple.
\<close>

locale page_list =
  fixes enter :: "int \<Rightarrow> u32 \<Rightarrow> 'l \<Rightarrow> ('s, ('n \<times> 'l) option) km"
    and take_out :: "u32 \<Rightarrow> 'l \<Rightarrow> ('s, ('n \<times> 'l) option) km"
    and check :: "u32 \<Rightarrow> 'l \<Rightarrow> ('s, int) km"
    and holds :: "'s \<Rightarrow> 'l \<Rightarrow> (u32 \<times> int \<times> 'n) list \<Rightarrow> bool"
    and room :: "'s \<Rightarrow> bool"
  assumes enter_law: "holds s l es \<Longrightarrow> room s \<Longrightarrow>
      wp (enter sp va l) (\<lambda>r t. \<exists>n l'. r = Some (n, l') \<and> holds t l' (es @ [(va, sp, n)])) s"
    and check_hit: "holds s l (es1 @ (va, sp, n) # es2) \<Longrightarrow> va \<notin> fst ` set es1 \<Longrightarrow> check va l s = Inr (sp, s)"
    and check_miss: "holds s l es \<Longrightarrow> va \<notin> fst ` set es \<Longrightarrow> check va l s = Inr (-1, s)"
    and take_law: "holds s l (es1 @ (va, sp, n) # es2) \<Longrightarrow> va \<notin> fst ` set es1 \<Longrightarrow>
      wp (take_out va l) (\<lambda>r t. \<exists>l'. r = Some (n, l') \<and> holds t l' (es1 @ es2)) s"
begin

text \<open>A page that is entered, found and taken out leaves the list as it was.\<close>

lemma round_trip:
  assumes "holds s l es" "room s" "va \<notin> fst ` set es"
  shows "wp (bnd (enter sp va l) (\<lambda>r. bnd (deref r) (\<lambda>(n, l1).
      bnd (check va l1) (\<lambda>c. bnd (take_out va l1) (\<lambda>q. bnd (deref q) (\<lambda>(n', l2).
      ret (c, n, n', l2)))))))
    (\<lambda>(c, n, n', l2) t. c = sp \<and> n' = n \<and> holds t l2 es) s"
proof -
  have "wp (bnd (check va l1) (\<lambda>c. bnd (take_out va l1) (\<lambda>q. bnd (deref q) (\<lambda>(n', l2).
      ret (c, n, n', l2)))))
    (\<lambda>(c, n, n', l2) t. c = sp \<and> n' = n \<and> holds t l2 es) t"
    if "holds t l1 (es @ [(va, sp, n)])" for n l1 t
    using check_hit [OF that assms(3)] take_law [OF that assms(3)]
    by (auto simp: wp_rules wp_run elim!: wp_mono)
  then have "\<exists>n l1. r = Some (n, l1) \<and> holds t l1 (es @ [(va, sp, n)]) \<Longrightarrow>
      wp (bnd (deref r) (\<lambda>(n, l1). bnd (check va l1) (\<lambda>c. bnd (take_out va l1) (\<lambda>q. bnd (deref q) (\<lambda>(n', l2).
      ret (c, n, n', l2)))))) (\<lambda>(c, n, n', l2) t. c = sp \<and> n' = n \<and> holds t l2 es) t" for r t
    by (auto simp: wp_bnd wp_deref)
  with enter_law [OF assms(1,2)] show ?thesis
    unfolding wp_bnd [of "enter sp va l"] by (rule wp_mono)
qed

end

definition swap_holds :: "swap \<Rightarrow> nat option \<Rightarrow> (u32 \<times> int \<times> nat) list \<Rightarrow> bool" where
  "swap_holds s l es \<longleftrightarrow> swap_rep s l (map (\<lambda>(va, sp, n). n) es) \<and>
     (\<forall>(va, sp, n) \<in> set es. slot s n = (va, sp, 1))"

definition swap_room :: "swap \<Rightarrow> bool" where
  "swap_room s \<longleftrightarrow> (\<exists>i < MAX_FRAME_SWAP. swap_bitmap s i = -1)"

lemma swap_holds_find:
  assumes "swap_holds s l (es1 @ (va, sp, n) # es2)" "va \<notin> fst ` set es1"
  shows "find_slot s va (map (\<lambda>(va, sp, n). n) (es1 @ (va, sp, n) # es2)) = Some n"
    "\<forall>u \<in> set (map (\<lambda>(va, sp, n). n) es1). d_vaddr (swap_frame_list s u) \<noteq> va"
    "d_swap (swap_frame_list s n) = sp" "d_count (swap_frame_list s n) = 1"
proof -
  have slots: "slot s m = (w, q, 1)" if "(w, q, m) \<in> set (es1 @ (va, sp, n) # es2)" for w q m
    using assms(1) that by (fastforce simp: swap_holds_def)
  then show sp: "d_swap (swap_frame_list s n) = sp" "d_count (swap_frame_list s n) = 1"
    using slots [of va sp n] by (auto simp: slot_def)
  show first: "\<forall>u \<in> set (map (\<lambda>(va, sp, n). n) es1). d_vaddr (swap_frame_list s u) \<noteq> va"
    using slots assms(2) by (force simp: slot_def)
  then show "find_slot s va (map (\<lambda>(va, sp, n). n) (es1 @ (va, sp, n) # es2)) = Some n"
    using slots [of va sp n] by (induction es1) (auto simp: slot_def)
qed

interpretation swapl: page_list swap_append swap_take swap_check swap_holds swap_room
proof unfold_locales
  fix s l es sp va
  assume h: "swap_holds s l es" and r: "swap_room s"
  have "wp (swap_append sp va l) (\<lambda>r t. \<exists>n l'. r = Some (n, l') \<and> n < MAX_FRAME_SWAP \<and>
     swap_bitmap s n = -1 \<and> swap_rep t l' (map (\<lambda>(va, sp, n). n) es @ [n]) \<and> slot t n = (va, sp, 1) \<and>
     (\<forall>m \<in> set (map (\<lambda>(va, sp, n). n) es). slot t m = slot s m) \<and>
     others_kept s t (map (\<lambda>(va, sp, n). n) es)) s"
    using h r by (intro swap_append_room) (auto simp: swap_holds_def swap_room_def)
  then show "wp (swap_append sp va l)
      (\<lambda>r t. \<exists>n l'. r = Some (n, l') \<and> swap_holds t l' (es @ [(va, sp, n)])) s"
    by (rule wp_mono) (use h in \<open>force simp: swap_holds_def\<close>)
next
  fix s l es1 va sp n es2
  assume h: "swap_holds s l (es1 @ (va, sp, n) # es2)" and f: "va \<notin> fst ` set es1"
  show "swap_check va l s = Inr (sp, s)"
    using swap_check_spec [of s l "map (\<lambda>(va, sp, n). n) (es1 @ (va, sp, n) # es2)" va] h
      swap_holds_find [OF h f]
    by (simp add: swap_holds_def slot_space_def)
next
  fix s l es va
  assume h: "swap_holds s l es" and f: "va \<notin> fst ` set es"
  have "find_slot s va (map (\<lambda>(va, sp, n). n) es) = None"
    using h f by (force simp: swap_holds_def find_slot_None slot_def)
  then show "swap_check va l s = Inr (-1, s)"
    using swap_check_spec [of s l "map (\<lambda>(va, sp, n). n) es" va] h
    by (simp add: swap_holds_def slot_space_def)
next
  fix s l es1 va sp n es2
  assume h: "swap_holds s l (es1 @ (va, sp, n) # es2)" and f: "va \<notin> fst ` set es1"
  let ?n = "map (\<lambda>(va, sp, n). n)"
  have "wp (swap_take va l) (\<lambda>r t. \<exists>l'. r = Some (n, l') \<and> swap_rep t l' (?n es1 @ ?n es2) \<and>
     swap_bitmap t n = -1 \<and> (\<forall>m \<in> set (?n es1 @ ?n es2). slot t m = slot s m) \<and>
     others_kept s t (?n es1 @ n # ?n es2)) s"
    using h swap_holds_find [OF h f] by (intro swap_take_unshared) (auto simp: swap_holds_def)
  then show "wp (swap_take va l) (\<lambda>r t. \<exists>l'. r = Some (n, l') \<and> swap_holds t l' (es1 @ es2)) s"
    by (rule wp_mono) (use h in \<open>force simp: swap_holds_def\<close>)
qed

text \<open>Concrete states: the frames after \<open>lru_swap_init\<close> and the list of one process that has
  swapped out the given pages.\<close>

definition swap_build :: "(int \<times> u32) list \<Rightarrow> swap \<times> nat option" where
  "swap_build es =
     foldl (\<lambda>(s, l) (sp, va). case swap_append sp va l s of Inr (Some (n, l'), t) \<Rightarrow> (t, l') | _ \<Rightarrow> (s, l))
       (final swap_init swap_zero, None) es"

lemma swap_last_end: "0 < n \<Longrightarrow> d_next (swap_frame_list s j) = -1 \<Longrightarrow> swap_last n j s = Inr (j, s)"
  by (cases n) (simp_all add: run_simps get_df_def swap_last.simps)

lemmas swap_eval = swap_build_def swap_append_def swap_get_free_frame_def set_swap_bitmap_def
  upd_df_def get_df_def df_at_def swap_last_end run_simps Let_def final_def swap_init_def swap_zero_def
  scan_from.simps MAX_FRAME_SWAP_def

lemma swap_build_empty: "swap_holds (fst (swap_build [])) None [] \<and> swap_room (fst (swap_build []))"
  by (auto simp: swap_holds_def swap_rep_def swap_wf_def swap_room_def swap_build_def final_def swap_init_def
      swap_zero_def run_simps MAX_FRAME_SWAP_def intro!: exI [of _ 0])

lemma swap_build_two:
  "swap_holds (fst (swap_build [(0, 0x1000), (2, 0x5000)])) (Some 0) [(0x1000, 0, 0), (0x5000, 2, 1)]"
  by (simp add: swap_eval swap_holds_def swap_rep_def swap_wf_def slot_def)

section \<open>Properties\<close>

text \<open>While a disk frame is free, recording a page appends one frame to the list of the process:
  the frame was free, its slot describes the page with one user, the earlier slots are unchanged,
  and every list that shares no frame with this one is untouched.\<close>

lemma swap_append_extends:
  assumes "swap_rep s l ns" "swap_room s"
  shows "wp (swap_append space vaddr l) (\<lambda>r t. \<exists>n l'. r = Some (n, l') \<and>
     n < MAX_FRAME_SWAP \<and> swap_bitmap s n = -1 \<and> swap_rep t l' (ns @ [n]) \<and>
     slot t n = (vaddr, space, 1) \<and> (\<forall>m \<in> set ns. slot t m = slot s m) \<and> others_kept s t ns) s"
  using swap_append_room assms by (simp add: swap_room_def)

text \<open>\<open>swap_check\<close> terminates, changes nothing, and answers with the swap space of the first frame
  of the list that describes the page, or with -1 when no frame does.\<close>

lemma swap_check_finds_page:
  assumes "swap_rep s l ns"
  shows "swap_check vaddr l s = Inr (case find (\<lambda>n. d_vaddr (swap_frame_list s n) = vaddr) ns of
     None \<Rightarrow> -1 | Some n \<Rightarrow> d_swap (swap_frame_list s n), s)"
  using swap_check_spec [OF assms, of vaddr] by (simp add: slot_space_def find_slot_def)

text \<open>C22: a page that is recorded, looked up and taken back is found in the swap space it was put in,
  comes back from the same disk frame, and leaves the list of the process as it was.\<close>

theorem swap_round_trip:
  assumes "swap_holds s l es" "swap_room s" "vaddr \<notin> fst ` set es"
  shows "wp (bnd (swap_append space vaddr l) (\<lambda>r. bnd (deref r) (\<lambda>(n, l1).
      bnd (swap_check vaddr l1) (\<lambda>c. bnd (swap_take vaddr l1) (\<lambda>q. bnd (deref q) (\<lambda>(n', l2).
      ret (c, n, n', l2)))))))
    (\<lambda>(c, n, n', l2) t. c = space \<and> n' = n \<and> swap_holds t l2 es) s"
  using assms by (rule swapl.round_trip)

theorem swap_round_trip_witness:
  "wp (bnd (swap_append 2 0x7000 None) (\<lambda>r. bnd (deref r) (\<lambda>(n, l1).
      bnd (swap_check 0x7000 l1) (\<lambda>c. bnd (swap_take 0x7000 l1) (\<lambda>q. bnd (deref q) (\<lambda>(n', l2).
      ret (c, n, n', l2)))))))
    (\<lambda>(c, n, n', l2) t. c = 2 \<and> n' = n \<and> swap_holds t l2 []) (fst (swap_build []))"
  using swap_round_trip [of "fst (swap_build [])" None "[]" "0x7000" 2] swap_build_empty by simp



text \<open>C33: after \<open>swap_fork\<close> two processes share every frame of the list: taking a page once gives up
  one use and keeps the frame in the list with its bit set.\<close>

theorem swap_fork_shares:
  assumes "swap_holds s l es" "(vaddr, space, n) \<in> set es" "distinct (map fst es)"
  shows "wp (sq (swap_fork l) (swap_take vaddr l)) (\<lambda>r t. r = Some (n, l) \<and>
     swap_rep t l (map (\<lambda>(va, sp, n). n) es) \<and> slot t n = (vaddr, space, 1)) s"
proof -
  let ?ns = "map (\<lambda>(va, sp, n). n) es" let ?t = "bump_counts (set (map (\<lambda>(va, sp, n). n) es)) s"
  obtain es1 es2 where es: "es = es1 @ (vaddr, space, n) # es2" using assms(2) by (meson split_list)
  with assms(3) have f: "vaddr \<notin> fst ` set es1" by auto
  have h: "swap_holds s l (es1 @ (vaddr, space, n) # es2)" using assms(1) es by simp
  have bumped: "d_vaddr (swap_frame_list ?t m) = d_vaddr (swap_frame_list s m)"
    "d_swap (swap_frame_list ?t m) = d_swap (swap_frame_list s m)" for m
    by (simp_all add: bump_counts_def)
  have rep: "swap_rep ?t l ?ns"
    using assms(1) by (simp add: swap_holds_def swap_rep_def swap_wf_def) (simp add: bump_counts_def)
  have find: "find_slot ?t vaddr ?ns = Some n"
    using swap_holds_find(1) [OF h f] bumped es by (simp add: find_slot_def)
  have count: "d_count (swap_frame_list ?t n) = 2" "d_swap (swap_frame_list ?t n) = space"
    using swap_holds_find(3,4) [OF h f] es by (simp_all add: bump_counts_def)
  have "wp (swap_take vaddr l) (\<lambda>r t. r = Some (n, l) \<and> swap_rep t l ?ns \<and>
     slot t n = (vaddr, space, 2 - 1) \<and> (\<forall>m \<in> set ?ns - {n}. slot t m = slot ?t m) \<and> others_kept ?t t ?ns) ?t"
    using swap_take_shared [OF rep find] count by simp
  moreover have "swap_fork l s = Inr ((), ?t)" 
    using swap_fork_spec [of s l ?ns] assms(1) by (simp add: swap_holds_def)
  ultimately show ?thesis by (auto simp: wp_sq wp_run elim!: wp_mono)
qed

theorem swap_fork_shares_witness:
  "wp (sq (swap_fork (Some 0)) (swap_take 0x5000 (Some 0))) (\<lambda>r t. r = Some (1, Some 0) \<and>
     swap_rep t (Some 0) [0, 1] \<and> slot t 1 = (0x5000, 2, 1)) (fst (swap_build [(0, 0x1000), (2, 0x5000)]))"
  using swap_fork_shares [OF swap_build_two, of "0x5000" 2 1] by simp





end
