(* ===== verification/Memory.thy ===== *)
theory Memory
  imports Prelude
begin

unbundle bit_operations_syntax

text \<open>
  The address arithmetic of mmu.h and memlayout.h on 32-bit words, and physical memory as pages of
  bytes: a page frame number and an offset select a byte, and 32-bit values are stored in little
  endian order, as the i386 does. Kernel pointers are 32-bit kernel virtual addresses; the null
  pointer is 0.
\<close>

section \<open>Address arithmetic\<close>

definition PGSIZE :: u32 where "PGSIZE = 4096"
definition KERNBASE :: u32 where "KERNBASE = 0x80000000"
definition EXTMEM :: u32 where "EXTMEM = 0x100000"
definition KERNLINK :: u32 where "KERNLINK = KERNBASE + EXTMEM"
definition PHYSTOP :: u32 where "PHYSTOP = 0xE000000"
definition DEVSPACE :: u32 where "DEVSPACE = 0xFE000000"

definition V2P :: "u32 \<Rightarrow> u32" where "V2P a = a - KERNBASE"
definition P2V :: "u32 \<Rightarrow> u32" where "P2V a = a + KERNBASE"

definition PDX :: "u32 \<Rightarrow> u32" where "PDX va = drop_bit 22 va AND 0x3FF"
definition PTX :: "u32 \<Rightarrow> u32" where "PTX va = drop_bit 12 va AND 0x3FF"
definition PGADDR :: "u32 \<Rightarrow> u32 \<Rightarrow> u32 \<Rightarrow> u32" where
  "PGADDR d t i = push_bit 22 d OR push_bit 12 t OR i"

definition PGROUNDUP :: "u32 \<Rightarrow> u32" where "PGROUNDUP sz = (sz + PGSIZE - 1) AND NOT (PGSIZE - 1)"
definition PGROUNDDOWN :: "u32 \<Rightarrow> u32" where "PGROUNDDOWN a = a AND NOT (PGSIZE - 1)"

definition PTE_P :: u32 where "PTE_P = 1"
definition PTE_W :: u32 where "PTE_W = 2"
definition PTE_U :: u32 where "PTE_U = 4"

definition PTE_ADDR :: "u32 \<Rightarrow> u32" where "PTE_ADDR pte = pte AND NOT 0xFFF"
definition PTE_FLAGS :: "u32 \<Rightarrow> u32" where "PTE_FLAGS pte = pte AND 0xFFF"

lemmas mmu_defs = PGSIZE_def KERNBASE_def EXTMEM_def KERNLINK_def PHYSTOP_def DEVSPACE_def V2P_def P2V_def

lemma mask_12: "(0xFFF :: u32) = mask 12" and mask_10: "(0x3FF :: u32) = mask 10"
  by (simp_all add: mask_eq_exp_minus_1)

lemma P2V_V2P [simp]: "P2V (V2P a) = a" and V2P_P2V [simp]: "V2P (P2V a) = a"
  by (simp_all add: P2V_def V2P_def)

lemma and_not_mask_add: "(a :: u32) = (a AND NOT (mask n)) + (a AND mask n)"
proof -
  have "(a AND NOT (mask n)) + (a AND mask n) = (a AND NOT (mask n)) OR (a AND mask n)"
    by (rule disjunctive_add) (auto simp: bit_simps)
  also have "\<dots> = a" by (rule bit_eqI) (auto simp: bit_simps)
  finally show ?thesis by simp
qed

lemma unat_and_mask: "unat (a AND mask n :: u32) = unat a mod 2 ^ n"
  by (simp only: take_bit_eq_mask [symmetric] unsigned_take_bit_eq) (simp add: take_bit_eq_mod)

lemma unat_and_not_mask: "unat (a AND NOT (mask n) :: u32) = unat a div 2 ^ n * 2 ^ n"
proof -
  have "a AND NOT (mask n) = a - (a AND mask n)"
    using and_not_mask_add [of a n] by (simp add: algebra_simps)
  moreover have "(a AND mask n) \<le> a"
    by (simp add: word_le_nat_alt unat_and_mask)
  ultimately have "unat (a AND NOT (mask n)) = unat a - unat a mod 2 ^ n"
    by (simp add: unat_sub unat_and_mask)
  then show ?thesis by (simp add: minus_mod_eq_div_mult)
qed

lemma unat_bound: "unat (a :: u32) < 4294967296"
proof -
  have "unat a < 2 ^ LENGTH(32)" by (rule unsigned_less)
  then show ?thesis by simp
qed

lemma unat_drop_bit: "unat (drop_bit n (a :: u32)) = unat a div 2 ^ n"
  unfolding unsigned_drop_bit_eq drop_bit_nat_def using unat_bound [of a] by (simp add: take_bit_nat_eq_self)

lemma PGROUNDDOWN_nat: "unat (PGROUNDDOWN a) = unat a div 4096 * 4096"
  using unat_and_not_mask [of a 12] by (simp add: PGROUNDDOWN_def PGSIZE_def mask_12)

lemma PGROUNDUP_nat:
  assumes "unat a \<le> 2 ^ 32 - 4096"
  shows "unat (PGROUNDUP a) = (unat a + 4095) div 4096 * 4096"
proof -
  have "unat (a + 4095) = unat a + 4095"
    using assms by (subst unat_add_lem [THEN iffD1]) simp_all
  then show ?thesis
    using unat_and_not_mask [of "a + 4095" 12]
    by (simp add: PGROUNDUP_def PGSIZE_def flip: mask_12) (simp add: add.commute)
qed

lemma PTE_ADDR_nat: "unat (PTE_ADDR a) = unat a div 4096 * 4096"
  using unat_and_not_mask [of a 12] by (simp add: PTE_ADDR_def mask_12)

lemma PDX_nat: "unat (PDX va) = unat va div 4194304"
proof -
  have "unat va div 4194304 < 1024" using unat_bound [of va] by simp
  then show ?thesis
    using unat_and_mask [of "drop_bit 22 va" 10] unat_drop_bit [of 22 va]
    by (simp add: PDX_def mask_10)
qed

lemma PTX_nat: "unat (PTX va) = unat va div 4096 mod 1024"
  using unat_and_mask [of "drop_bit 12 va" 10] unat_drop_bit [of 12 va] by (simp add: PTX_def mask_10)

lemma PDX_less: "unat (PDX va) < 1024" and PTX_less: "unat (PTX va) < 1024"
  using unat_bound [of va] by (simp_all add: PDX_nat PTX_nat)

lemma bit_mask_32: "bit (0xFFF :: u32) n \<longleftrightarrow> n < 12" "bit (0x3FF :: u32) n \<longleftrightarrow> n < 10"
  unfolding mask_12 mask_10 by (auto simp: bit_simps)

lemma PGADDR_split: "PGADDR (PDX va) (PTX va) (va AND 0xFFF) = va"
proof (rule bit_word_eqI)
  fix n assume "n < LENGTH(32)"
  then consider "n < 12" | "12 \<le> n" "n < 22" | "22 \<le> n" "n < 32" by fastforce
  then show "bit (PGADDR (PDX va) (PTX va) (va AND 0xFFF)) n = bit va n"
    unfolding PGADDR_def PDX_def PTX_def mask_12 mask_10
    by cases (auto simp: bit_simps)
qed

lemma page_eqI:
  assumes "PDX a = PDX b" "PTX a = PTX b"
  shows "PGROUNDDOWN a = PGROUNDDOWN b"
proof -
  have *: "n div 4096 = n div 4194304 * 1024 + n div 4096 mod 1024" for n :: nat
    using div_mult_mod_eq [of "n div 4096" 1024] by (simp add: div_mult2_eq [symmetric])
  have "unat a div 4096 = unat b div 4096"
    using * [of "unat a"] * [of "unat b"] arg_cong [OF assms(1), of unat] arg_cong [OF assms(2), of unat]
    by (simp add: PDX_nat PTX_nat)
  then have "unat (PGROUNDDOWN a) = unat (PGROUNDDOWN b)" by (simp add: PGROUNDDOWN_nat)
  then show ?thesis by (rule unsigned_word_eqI)
qed

section \<open>Pages of bytes\<close>

type_synonym page = "nat \<Rightarrow> u8"
type_synonym physmem = "nat \<Rightarrow> page"

text \<open>The page frame of a physical address, and the kernel address of a frame.\<close>

definition frame_of :: "u32 \<Rightarrow> nat" where "frame_of pa = unat (drop_bit 12 pa)"
definition kva :: "nat \<Rightarrow> u32" where "kva f = P2V (word_of_nat (f * 4096))"

definition ld32 :: "page \<Rightarrow> nat \<Rightarrow> u32" where
  "ld32 p i = ucast (p i) OR push_bit 8 (ucast (p (i + 1))) OR
     push_bit 16 (ucast (p (i + 2))) OR push_bit 24 (ucast (p (i + 3)))"

definition st32 :: "page \<Rightarrow> nat \<Rightarrow> u32 \<Rightarrow> page" where
  "st32 p i v = p(i := ucast v, i + 1 := ucast (drop_bit 8 v), i + 2 := ucast (drop_bit 16 v),
     i + 3 := ucast (drop_bit 24 v))"

lemma frame_of_nat: "frame_of pa = unat pa div 4096"
  unfolding frame_of_def unat_drop_bit by simp

lemma frame_of_kva [simp]: "f < 2 ^ 20 \<Longrightarrow> frame_of (V2P (kva f)) = f"
proof -
  assume f: "f < 2 ^ 20"
  then have "unat (word_of_nat (f * 4096) :: u32) = f * 4096"
    by (simp add: unat_of_nat del: of_nat_mult)
  then show ?thesis by (simp add: frame_of_nat kva_def del: of_nat_mult)
qed

lemma ld32_st32_same [simp]: "ld32 (st32 p i v) i = v"
proof (rule bit_word_eqI)
  fix n assume "n < LENGTH(32)"
  then consider "n < 8" | "8 \<le> n" "n < 16" | "16 \<le> n" "n < 24" | "24 \<le> n" "n < 32" by fastforce
  then show "bit (ld32 (st32 p i v) i) n = bit v n"
    by cases (auto simp: ld32_def st32_def bit_simps)
qed

lemma ld32_st32_other: "i + 4 \<le> j \<or> j + 4 \<le> i \<Longrightarrow> ld32 (st32 p i v) j = ld32 p j"
  by (auto simp: ld32_def st32_def)

lemma ld32_zero [simp]: "ld32 (\<lambda>_. 0) i = 0"
  by (simp add: ld32_def)

end
