(* ===== verification/Kalloc.thy ===== *)
theory Kalloc
  imports Memory
begin

unbundle bit_operations_syntax

text \<open>
  The physical page allocator of kalloc.c. The free list is threaded through the free pages
  themselves: the first word of a free page holds the kernel address of the next one. The symbols
  \<open>end\<close> and \<open>data\<close> that the linker script provides are the fields \<open>kend\<close> and \<open>kdata\<close> of the state.
\<close>

section \<open>State\<close>

record phys =
  pmem :: physmem
  kmem_lock :: bool
  use_lock :: bool
  freelist :: u32
  kend :: u32
  kdata :: u32

text \<open>
  Kernel loads and stores of a 32-bit value, and \<open>memset\<close> of one whole page. An access through an
  address below \<open>KERNBASE\<close>, the null pointer among them, does not reach kernel memory and is a fault.
\<close>

definition at_kaddr :: "u32 \<Rightarrow> (phys, 'a) km \<Rightarrow> (phys, 'a) km" where
  "at_kaddr v m = (if v < KERNBASE then fail NullDeref else m)"

definition kld :: "u32 \<Rightarrow> (phys, u32) km" where
  "kld v = at_kaddr v (gets (\<lambda>s. ld32 (pmem s (frame_of (V2P v))) (unat (v AND 0xFFF))))"

definition kst :: "u32 \<Rightarrow> u32 \<Rightarrow> (phys, unit) km" where
  "kst v x = at_kaddr v (modify (\<lambda>s. s\<lparr>pmem := (pmem s)(frame_of (V2P v) :=
     st32 (pmem s (frame_of (V2P v))) (unat (v AND 0xFFF)) x)\<rparr>))"

definition memset_page :: "u32 \<Rightarrow> u8 \<Rightarrow> (phys, unit) km" where
  "memset_page v c = at_kaddr v (modify (\<lambda>s. s\<lparr>pmem := (pmem s)(frame_of (V2P v) := (\<lambda>_. c))\<rparr>))"

section \<open>Operations\<close>

definition kmem_acquire :: "(phys, unit) km" where
  "kmem_acquire = bnd (gets use_lock) (\<lambda>u. if u then acquire kmem_lock kmem_lock_update else ret ())"

definition kmem_release :: "(phys, unit) km" where
  "kmem_release = bnd (gets use_lock) (\<lambda>u. if u then release kmem_lock kmem_lock_update else ret ())"

definition kfree_bad :: "u32 \<Rightarrow> u32 \<Rightarrow> bool" where
  "kfree_bad e v \<longleftrightarrow> v mod PGSIZE \<noteq> 0 \<or> v < e \<or> PHYSTOP \<le> V2P v"

definition kfree_push :: "u32 \<Rightarrow> (phys, unit) km" where
  "kfree_push v =
     sq (memset_page v 1) (
     sq kmem_acquire (
     bnd (gets freelist) (\<lambda>f.
     sq (kst v f) (
     sq (modify (\<lambda>s. s\<lparr>freelist := v\<rparr>)) (
     kmem_release)))))"

definition kfree :: "u32 \<Rightarrow> (phys, unit) km" where
  "kfree v = bnd (gets kend) (\<lambda>e. if kfree_bad e v then panic ''kfree'' else kfree_push v)"

fun freerange_loop :: "nat \<Rightarrow> u32 \<Rightarrow> u32 \<Rightarrow> (phys, unit) km" where
  "freerange_loop 0 p vend = fail Diverges"
| "freerange_loop (Suc n) p vend =
     (if p + PGSIZE \<le> vend then sq (kfree p) (freerange_loop n (p + PGSIZE) vend) else ret ())"

definition freerange :: "u32 \<Rightarrow> u32 \<Rightarrow> (phys, unit) km" where
  "freerange vstart vend = freerange_loop (2 ^ 20) (PGROUNDUP vstart) vend"

definition kinit1 :: "u32 \<Rightarrow> u32 \<Rightarrow> (phys, unit) km" where
  "kinit1 vstart vend =
     sq (modify (\<lambda>s. s\<lparr>kmem_lock := False\<rparr>)) (
     sq (modify (\<lambda>s. s\<lparr>use_lock := False\<rparr>)) (
     freerange vstart vend))"

definition kinit2 :: "u32 \<Rightarrow> u32 \<Rightarrow> (phys, unit) km" where
  "kinit2 vstart vend = sq (freerange vstart vend) (modify (\<lambda>s. s\<lparr>use_lock := True\<rparr>))"

text \<open>
  \<open>kalloc\<close> up to the call of \<open>get_lru\<close>, with the lock held, and the whole of \<open>kalloc(-1, x)\<close>, which
  makes no such call. \<open>kalloc\<close> with a process and an address is in the theory \<open>Paging\<close>.
\<close>

definition kalloc_take :: "(phys, u32) km" where
  "kalloc_take =
     sq kmem_acquire (
     bnd (gets freelist) (\<lambda>r.
     sq (if r \<noteq> 0 then bnd (kld r) (\<lambda>nx. modify (\<lambda>s. s\<lparr>freelist := nx\<rparr>)) else ret ())
        (ret r)))"

definition kalloc0 :: "(phys, u32) km" where
  "kalloc0 = bnd kalloc_take (\<lambda>r. sq kmem_release (ret r))"

section \<open>The free list as a list of page frames\<close>

definition page_ok :: "u32 \<Rightarrow> nat \<Rightarrow> bool" where
  "page_ok e f \<longleftrightarrow> f < 57344 \<and> e \<le> kva f"

fun fchain :: "physmem \<Rightarrow> u32 \<Rightarrow> nat list \<Rightarrow> bool" where
  "fchain m v [] \<longleftrightarrow> v = 0"
| "fchain m v (f # fs) \<longleftrightarrow> v = kva f \<and> fchain m (ld32 (m f) 0) fs"

definition free_rep :: "phys \<Rightarrow> nat list \<Rightarrow> bool" where
  "free_rep s fs \<longleftrightarrow> \<not> kmem_lock s \<and> fchain (pmem s) (freelist s) fs \<and> distinct fs \<and>
     (\<forall>f \<in> set fs. page_ok (kend s) f)"

lemma kva_nat: "f \<le> 57344 \<Longrightarrow> unat (kva f) = 2147483648 + f * 4096"
proof -
  assume f: "f \<le> 57344"
  then have w: "unat (word_of_nat (f * 4096) :: u32) = f * 4096"
    by (simp add: unat_of_nat del: of_nat_mult)
  have "unat (word_of_nat (f * 4096) + (0x80000000 :: u32)) = f * 4096 + 2147483648"
    unfolding unat_word_ariths(1) w using f by simp
  then show ?thesis by (simp add: kva_def P2V_def KERNBASE_def del: of_nat_mult)
qed

lemma kva_neq_0: "f < 57344 \<Longrightarrow> kva f \<noteq> 0"
  by (metis kva_nat unsigned_0 add_is_0 zero_neq_numeral less_imp_le)

lemma kva_kaddr: "f < 57344 \<Longrightarrow> \<not> kva f < KERNBASE"
  by (simp add: word_less_nat_alt kva_nat KERNBASE_def)

lemma at_kaddr_kva [simp]: "f < 57344 \<Longrightarrow> at_kaddr (kva f) m = m"
  by (simp add: at_kaddr_def kva_kaddr)

lemma kva_offset: "f < 57344 \<Longrightarrow> kva f AND 0xFFF = 0"
proof -
  assume f: "f < 57344"
  have "unat (kva f AND mask 12) = 0"
    unfolding unat_and_mask kva_nat [OF less_imp_le [OF f]] by (simp add: mod_eq_0_iff_dvd)
  then show ?thesis by (simp add: mask_12 unat_eq_0)
qed

lemma kva_inj: "f < 57344 \<Longrightarrow> g < 57344 \<Longrightarrow> kva f = kva g \<longleftrightarrow> f = g"
  by (metis kva_nat add_left_cancel mult_right_cancel zero_neq_numeral less_imp_le)

lemma kva_good: "page_ok e f \<Longrightarrow> \<not> kfree_bad e (kva f)"
proof -
  assume ok: "page_ok e f"
  then have f: "f < 57344" by (simp add: page_ok_def)
  have "unat (kva f mod PGSIZE) = 0"
    using kva_nat [OF less_imp_le [OF f]] by (simp add: unat_mod PGSIZE_def mod_eq_0_iff_dvd)
  then have "kva f mod PGSIZE = 0" by (simp add: unat_eq_0)
  moreover have "V2P (kva f) < PHYSTOP"
    using f by (simp add: kva_def PHYSTOP_def word_less_nat_alt unat_of_nat del: of_nat_mult)
  ultimately show ?thesis using ok by (auto simp: kfree_bad_def page_ok_def)
qed

lemma fchain_cong: "(\<And>f. f \<in> set fs \<Longrightarrow> m f = m' f) \<Longrightarrow> fchain m v fs = fchain m' v fs"
  by (induction fs arbitrary: v) auto

lemma fchain_null: "fchain m v fs \<Longrightarrow> \<forall>f \<in> set fs. f < 57344 \<Longrightarrow> v = 0 \<longleftrightarrow> fs = []"
  by (cases fs) (auto simp: kva_neq_0)

section \<open>What the operations do\<close>

lemma kalloc0_some:
  assumes "free_rep s (f # fs)"
  shows "kalloc0 s = Inr (kva f, s\<lparr>freelist := ld32 (pmem s f) 0\<rparr>)"
proof -
  have f: "f < 57344" and "\<not> kmem_lock s" "freelist s = kva f"
    using assms by (auto simp: free_rep_def page_ok_def)
  moreover have "s\<lparr>kmem_lock := False\<rparr> = s" if "\<not> kmem_lock s" using that by simp
  ultimately show ?thesis
    by (simp add: kalloc0_def kalloc_take_def kmem_acquire_def kmem_release_def kld_def run_simps
        kva_neq_0 kva_offset)
qed

lemma kalloc0_none:
  assumes "free_rep s []"
  shows "kalloc0 s = Inr (0, s)"
  using assms by (simp add: free_rep_def kalloc0_def kalloc_take_def kmem_acquire_def kmem_release_def run_simps)

lemma free_rep_tail: "free_rep s (f # fs) \<Longrightarrow> free_rep (s\<lparr>freelist := ld32 (pmem s f) 0\<rparr>) fs"
  by (auto simp: free_rep_def)

lemma kfree_run:
  assumes "free_rep s fs" "page_ok (kend s) f"
  shows "kfree (kva f) s =
    Inr ((), s\<lparr>pmem := (pmem s)(f := st32 (\<lambda>_. 1) 0 (freelist s)), freelist := kva f\<rparr>)"
proof -
  have f: "f < 57344" using assms(2) by (simp add: page_ok_def)
  show ?thesis
    using assms f kva_good [OF assms(2)]
    by (auto simp: kfree_def kfree_push_def memset_page_def kmem_acquire_def kmem_release_def kst_def
        run_simps kva_offset free_rep_def)
qed

lemma free_rep_push:
  assumes "free_rep s fs" "page_ok (kend s) f" "f \<notin> set fs"
  shows "free_rep (s\<lparr>pmem := (pmem s)(f := st32 (\<lambda>_. 1) 0 (freelist s)), freelist := kva f\<rparr>) (f # fs)"
proof -
  have "fchain ((pmem s)(f := st32 (\<lambda>_. 1) 0 (freelist s))) (freelist s) fs = fchain (pmem s) (freelist s) fs"
    using assms(3) by (intro fchain_cong) auto
  with assms show ?thesis by (simp add: free_rep_def)
qed

lemma kfree_push_spec:
  assumes "free_rep s fs" "page_ok (kend s) f" "f \<notin> set fs"
  shows "wp (kfree (kva f)) (\<lambda>_ t. free_rep t (f # fs) \<and> kend t = kend s \<and> use_lock t = use_lock s \<and>
    (\<forall>g. g \<noteq> f \<longrightarrow> pmem t g = pmem s g)) s"
  using kfree_run [OF assms(1,2)] free_rep_push [OF assms] by (intro wpI) auto

lemma freerange_loop_spec:
  assumes "free_rep s fs" "\<forall>g \<in> {f ..< f + n}. page_ok (kend s) g \<and> g \<notin> set fs"
    "n < k" "f + n \<le> 57344" "vend = kva (f + n)"
  shows "wp (freerange_loop k (kva f) vend) (\<lambda>_ t. free_rep t (rev [f ..< f + n] @ fs) \<and>
    kend t = kend s \<and> use_lock t = use_lock s) s"
  using assms
proof (induction n arbitrary: k f fs s)
  case 0
  have "\<not> kva f + PGSIZE \<le> kva f"
    using 0 kva_nat [of f] by (simp add: word_le_nat_alt unat_word_ariths PGSIZE_def)
  with 0 show ?case by (cases k) (simp_all add: wp_rules)
next
  case (Suc n)
  then obtain k' where k: "k = Suc k'" "n < k'" by (cases k) auto
  have nf: "unat (kva f + PGSIZE) = unat (kva (Suc f))"
    using Suc.prems kva_nat [of f] kva_nat [of "Suc f"] by (simp add: unat_word_ariths PGSIZE_def)
  then have adv: "kva f + PGSIZE = kva (Suc f)" by (rule unsigned_word_eqI)
  have le: "kva f + PGSIZE \<le> vend"
    using Suc.prems kva_nat [of "Suc f"] kva_nat [of "f + Suc n"] by (simp add: adv word_le_nat_alt)
  have "wp (kfree (kva f)) (\<lambda>_ t. free_rep t (f # fs) \<and> kend t = kend s \<and> use_lock t = use_lock s \<and>
    (\<forall>g. g \<noteq> f \<longrightarrow> pmem t g = pmem s g)) s"
    using Suc.prems by (intro kfree_push_spec) auto
  moreover have "wp (freerange_loop k' (kva (Suc f)) vend)
      (\<lambda>_ u. free_rep u (rev [f ..< f + Suc n] @ fs) \<and> kend u = kend s \<and> use_lock u = use_lock s) t"
    if "free_rep t (f # fs)" "kend t = kend s" "use_lock t = use_lock s" for t
  proof -
    have "[f ..< Suc (f + n)] = f # [Suc f ..< Suc (f + n)]" by (rule upt_conv_Cons) simp
    then show ?thesis
      using Suc.IH [of t "f # fs" "Suc f" k'] that Suc.prems k by (auto elim!: wp_mono)
  qed
  ultimately show ?case using le by (auto simp: k(1) wp_rules adv elim!: wp_mono)
qed

lemma kva_frame: "kva (unat e div 4096 - 524288) = e"
  if "e mod PGSIZE = 0" "0x80000000 \<le> e" "e \<le> 0x8E000000" for e
proof -
  have "4096 dvd unat e"
    using arg_cong [OF that(1), of unat] by (simp add: unat_mod PGSIZE_def mod_eq_0_iff_dvd)
  moreover have "2147483648 \<le> unat e" "unat e \<le> 2382364672" using that(2,3) by (simp_all add: word_le_nat_alt)
  ultimately have "unat (kva (unat e div 4096 - 524288)) = unat e"
    by (subst kva_nat) (auto elim!: dvdE)
  then show ?thesis by (rule unsigned_word_eqI)
qed

lemma PGROUNDUP_kva:
  assumes "kva f < e" "e \<le> kva (Suc f)" "f < 57344"
  shows "PGROUNDUP e = kva (Suc f)"
proof -
  have *: "2147483648 + f * 4096 < unat e" "unat e \<le> 2147483648 + Suc f * 4096"
    using assms kva_nat [of f] kva_nat [of "Suc f"] by (auto simp: word_le_nat_alt word_less_nat_alt)
  then have "(unat e + 4095) div 4096 = 524288 + Suc f" by (intro div_nat_eqI) auto
  then have "unat (PGROUNDUP e) = unat (kva (Suc f))"
    using * assms kva_nat [of "Suc f"] by (subst PGROUNDUP_nat) auto
  then show ?thesis by (rule unsigned_word_eqI)
qed

lemma freerange_spec:
  assumes "free_rep s fs" "PGROUNDUP vstart = kva f" "vend = kva g" "f \<le> g" "g \<le> 57344" "kend s \<le> kva f"
    "\<forall>h \<in> set fs. h < f \<or> g \<le> h"
  shows "wp (freerange vstart vend) (\<lambda>_ t. free_rep t (rev [f ..< g] @ fs) \<and>
    kend t = kend s \<and> use_lock t = use_lock s) s"
proof -
  have "page_ok (kend s) h" if "f \<le> h" "h < g" for h
  proof -
    have "kva f \<le> kva h" using that assms(4,5) by (simp add: word_le_nat_alt kva_nat)
    with assms(6) that assms(5) show ?thesis by (auto simp: page_ok_def)
  qed
  with assms have "wp (freerange_loop (2 ^ 20) (kva f) (kva (f + (g - f)))) (\<lambda>_ t. free_rep t (rev [f ..< f + (g - f)] @ fs) \<and>
    kend t = kend s \<and> use_lock t = use_lock s) s"
    by (intro freerange_loop_spec) auto
  with assms show ?thesis by (simp add: freerange_def)
qed

section \<open>The allocator as a pool of pages\<close>

text \<open>
  What the rest of the kernel relies on: pages that are handed out leave the pool, pages that are
  given back enter it, and a page is handed out again only after it was given back.
\<close>

locale page_pool =
  fixes alloc :: "('s, u32) km"
    and free :: "u32 \<Rightarrow> ('s, unit) km"
    and pool :: "'s \<Rightarrow> nat list \<Rightarrow> bool"
    and ok :: "'s \<Rightarrow> nat \<Rightarrow> bool"
  assumes alloc_some: "pool s (f # fs) \<Longrightarrow> wp alloc (\<lambda>v t. v = kva f \<and> pool t fs \<and> ok t = ok s) s"
    and alloc_none: "pool s [] \<Longrightarrow> alloc s = Inr (0, s)"
    and free_law: "pool s fs \<Longrightarrow> ok s f \<Longrightarrow> f \<notin> set fs \<Longrightarrow>
      wp (free (kva f)) (\<lambda>_ t. pool t (f # fs) \<and> ok t = ok s) s"
    and pool_ok: "pool s fs \<Longrightarrow> f \<in> set fs \<Longrightarrow> ok s f"
    and pool_distinct: "pool s fs \<Longrightarrow> distinct fs"
begin

lemma alloc_many:
  "pool s (fs @ gs) \<Longrightarrow> wp (times (length fs) alloc) (\<lambda>vs t. vs = map kva fs \<and> pool t gs \<and> ok t = ok s) s"
proof (induction fs arbitrary: s)
  case (Cons f fs)
  from Cons.prems have "wp alloc (\<lambda>v t. v = kva f \<and> pool t (fs @ gs) \<and> ok t = ok s) s"
    by (simp add: alloc_some)
  moreover have "wp (bnd (times (length fs) alloc) (\<lambda>vs. ret (v # vs))) (\<lambda>vs u. vs = map kva (f # fs) \<and> pool u gs \<and> ok u = ok s) t"
    if "v = kva f \<and> pool t (fs @ gs) \<and> ok t = ok s" for v t
    using Cons.IH [of t] that by (auto simp: wp_rules elim!: wp_mono)
  ultimately show ?case unfolding length_Cons times.simps(2) wp_bnd [of alloc] by (rule wp_mono)
qed (simp add: wp_rules)

lemma free_many:
  "pool s gs \<Longrightarrow> \<forall>f \<in> set fs. ok s f \<Longrightarrow> distinct (fs @ gs) \<Longrightarrow>
   wp (for_each free (map kva fs)) (\<lambda>_ t. pool t (rev fs @ gs)) s"
proof (induction fs arbitrary: s gs)
  case (Cons f fs)
  from Cons.prems have "wp (free (kva f)) (\<lambda>_ t. pool t (f # gs) \<and> ok t = ok s) s"
    by (intro free_law) auto
  with Cons.prems Cons.IH [of _ "f # gs"] show ?case by (auto simp: wp_rules elim!: wp_mono)
qed (simp add: wp_rules)

text \<open>Pages allocated one after the other are distinct; giving them back restores the pool up to order.\<close>

lemma alloc_free_all:
  assumes "pool s (fs @ gs)"
  shows "wp (bnd (times (length fs) alloc) (\<lambda>vs. sq (for_each free vs) (ret vs)))
    (\<lambda>vs t. vs = map kva fs \<and> pool t (rev fs @ gs)) s"
proof -
  have d: "distinct (fs @ gs)" "\<forall>f \<in> set fs. ok s f"
    using pool_distinct [OF assms] pool_ok [OF assms] by auto
  then have "wp (sq (for_each free vs) (ret vs)) (\<lambda>vs u. vs = map kva fs \<and> pool u (rev fs @ gs)) t"
    if "vs = map kva fs \<and> pool t gs \<and> ok t = ok s" for vs t
    using free_many [of t gs fs] that by (auto simp: wp_rules)
  with alloc_many [OF assms] show ?thesis unfolding wp_bnd by (rule wp_mono)
qed

end

interpretation kpool: page_pool kalloc0 kfree free_rep "\<lambda>s. page_ok (kend s)"
proof unfold_locales
  fix s f fs assume "free_rep s (f # fs)"
  then show "wp kalloc0 (\<lambda>v t. v = kva f \<and> free_rep t fs \<and> page_ok (kend t) = page_ok (kend s)) s"
    using kalloc0_some free_rep_tail by (intro wpI) auto
next
  fix s assume "free_rep s []" then show "kalloc0 s = Inr (0, s)" by (rule kalloc0_none)
next
  fix s fs f assume "free_rep s fs" "page_ok (kend s) f" "f \<notin> set fs"
  then show "wp (kfree (kva f)) (\<lambda>_ t. free_rep t (f # fs) \<and> page_ok (kend t) = page_ok (kend s)) s"
    by (rule wp_mono [OF kfree_push_spec]) auto
qed (auto simp: free_rep_def)

section \<open>Properties\<close>

text \<open>C29: after \<open>kinit1\<close> and \<open>kinit2\<close> with the bounds that \<open>main\<close> gives them, the free list holds,
  each exactly once, the pages from the first one after the kernel image up to \<open>PHYSTOP\<close>.\<close>

theorem kinit_frees_all_memory:
  assumes "freelist s = 0" "PGROUNDUP (kend s) = kva f" "kend s \<le> kva f" "f \<le> 1024"
  shows "wp (sq (kinit1 (kend s) (P2V (4 * 1024 * 1024))) (kinit2 (P2V (4 * 1024 * 1024)) (P2V PHYSTOP)))
    (\<lambda>_ t. \<exists>fs. free_rep t fs \<and> distinct fs \<and> set fs = {f ..< 57344} \<and> use_lock t) s"
proof -
  define m n :: nat where "m = 1024" and "n = 57344"
  have mn: "f \<le> m" "m \<le> n" using assms(4) by (simp_all add: m_def n_def)
  let ?s = "s\<lparr>kmem_lock := False, use_lock := False\<rparr>"
  let ?Q = "\<lambda>_ t. \<exists>fs. free_rep t fs \<and> distinct fs \<and> set fs = {f ..< 57344} \<and> use_lock t"
  have lim: "P2V (4 * 1024 * 1024) = kva m" "P2V PHYSTOP = kva n"
    by (simp_all add: kva_def PHYSTOP_def m_def n_def)
  have up: "PGROUNDUP (kva m) = kva m"
    unfolding m_def by (rule PGROUNDUP_kva [of 1023, simplified]) (simp_all add: word_less_nat_alt kva_nat)
  have "kva f \<le> kva m" using assms(4) by (simp add: word_le_nat_alt kva_nat m_def)
  with assms(3) have e: "kend s \<le> kva m" by simp
  have "wp (freerange (kend s) (kva m)) (\<lambda>_ t. free_rep t (rev [f ..< m] @ []) \<and>
      kend t = kend ?s \<and> use_lock t = use_lock ?s) ?s"
    using assms by (intro freerange_spec) (simp_all add: free_rep_def m_def)
  moreover have "wp (kinit2 (kva m) (kva n)) ?Q t"
    if "free_rep t (rev [f ..< m])" "kend t = kend s" for t
  proof -
    have "wp (freerange (kva m) (kva n)) (\<lambda>_ u. free_rep u (rev [m ..< n] @ rev [f ..< m]) \<and>
        kend u = kend t \<and> use_lock u = use_lock t) t"
      using that e up by (intro freerange_spec) (simp_all add: m_def n_def)
    moreover have "?Q () (u\<lparr>use_lock := True\<rparr>)" if "free_rep u (rev [m ..< n] @ rev [f ..< m])" for u
      unfolding n_def [symmetric] using that mn
      by (intro exI [of _ "rev [m ..< n] @ rev [f ..< m]"]) (auto simp: free_rep_def)
    ultimately show ?thesis by (auto simp: kinit2_def wp_rules elim!: wp_mono)
  qed
  ultimately show ?thesis unfolding lim by (auto simp: kinit1_def wp_rules elim!: wp_mono)
qed

definition phys_zero :: phys where
  "phys_zero = \<lparr>pmem = (\<lambda>_ _. 0), kmem_lock = False, use_lock = False, freelist = 0, kend = 0x80120000, kdata = 0x80108000\<rparr>"

theorem kinit_frees_all_memory_witness:
  "wp (sq (kinit1 0x80120000 (P2V (4 * 1024 * 1024))) (kinit2 (P2V (4 * 1024 * 1024)) (P2V PHYSTOP)))
    (\<lambda>_ t. \<exists>fs. free_rep t fs \<and> distinct fs \<and> set fs = {288 ..< 57344} \<and> use_lock t) phys_zero"
  using kinit_frees_all_memory [of phys_zero 288]
  by (simp add: phys_zero_def PGROUNDUP_def PGSIZE_def kva_def P2V_def KERNBASE_def)

text \<open>C10: pages allocated in a row are the head of the free list, hence distinct, and freeing them
  puts all of them back. With an empty list \<open>kalloc\<close> returns 0.\<close>

theorem kalloc_kfree_pool:
  assumes "free_rep s (fs @ gs)"
  shows "wp (bnd (times (length fs) kalloc0) (\<lambda>vs. sq (for_each kfree vs) (ret vs)))
    (\<lambda>vs t. vs = map kva fs \<and> distinct vs \<and> free_rep t (rev fs @ gs)) s \<and>
    (fs @ gs = [] \<longrightarrow> kalloc0 s = Inr (0, s))"
proof -
  have "distinct (map kva fs)"
    using assms by (auto simp: free_rep_def distinct_map page_ok_def kva_inj intro!: inj_onI)
  moreover have "wp (bnd (times (length fs) kalloc0) (\<lambda>vs. sq (for_each kfree vs) (ret vs)))
    (\<lambda>vs t. vs = map kva fs \<and> free_rep t (rev fs @ gs)) s"
    by (rule kpool.alloc_free_all [OF assms])
  moreover have "kalloc0 s = Inr (0, s)" if "fs @ gs = []" using assms that kpool.alloc_none by simp
  ultimately show ?thesis by (auto elim!: wp_mono)
qed

definition phys_two :: phys where
  "phys_two = phys_zero\<lparr>pmem := (\<lambda>_ _. 0)(400 := st32 (\<lambda>_. 1) 0 (kva 300)), freelist := kva 400\<rparr>"

lemma phys_two_rep: "free_rep phys_two [400, 300]"
  by (simp add: free_rep_def phys_two_def phys_zero_def page_ok_def kva_def P2V_def KERNBASE_def)

theorem kalloc_kfree_pool_witness:
  "wp (bnd (times 2 kalloc0) (\<lambda>vs. sq (for_each kfree vs) (ret vs)))
    (\<lambda>vs t. vs = [kva 400, kva 300] \<and> free_rep t [300, 400]) phys_two"
  using kalloc_kfree_pool [of phys_two "[400, 300]" "[]"] phys_two_rep
  by (auto simp: numeral_2_eq_2 elim!: wp_mono)

end
