(* ===== verification/Vm.thy ===== *)
theory Vm
  imports Kalloc
begin

unbundle bit_operations_syntax

text \<open>
  The page tables of vm.c, as they lie in physical memory: a page directory is a page of 1024
  entries, each of which may refer to a page table of 1024 entries. The routines here allocate with
  \<open>kalloc(-1, x)\<close>; \<open>allocuvm\<close>, \<open>copyuvm\<close> and \<open>loaduvm\<close>, which involve the resident list, the process
  table and the file system, are in the theory \<open>Paging\<close>.
\<close>

section \<open>Operations\<close>

definition walkpgdir :: "u32 \<Rightarrow> u32 \<Rightarrow> bool \<Rightarrow> (phys, u32) km" where
  "walkpgdir pgdir va alloc =
     (let pde = pgdir + 4 * PDX va in
      bnd (kld pde) (\<lambda>e.
      if e AND PTE_P \<noteq> 0 then ret (P2V (PTE_ADDR e) + 4 * PTX va)
      else if \<not> alloc then ret 0
      else
        bnd kalloc0 (\<lambda>pgtab.
        if pgtab = 0 then ret 0
        else
          sq (memset_page pgtab 0) (
          sq (kst pde (V2P pgtab OR PTE_P OR PTE_W OR PTE_U)) (
          ret (pgtab + 4 * PTX va))))))"

fun mappages_loop :: "nat \<Rightarrow> u32 \<Rightarrow> u32 \<Rightarrow> u32 \<Rightarrow> u32 \<Rightarrow> u32 \<Rightarrow> u32 \<Rightarrow> (phys, int) km" where
  "mappages_loop 0 pgdir a lst pa perm set_pte = fail Diverges"
| "mappages_loop (Suc n) pgdir a lst pa perm set_pte =
     bnd (walkpgdir pgdir a True) (\<lambda>pte.
     if pte = 0 then ret (-1)
     else
       sq (kst pte (pa OR perm OR set_pte)) (
       if a = lst then ret 0
       else mappages_loop n pgdir (a + PGSIZE) lst (pa + PGSIZE) perm set_pte))"

definition mappages :: "u32 \<Rightarrow> u32 \<Rightarrow> u32 \<Rightarrow> u32 \<Rightarrow> u32 \<Rightarrow> u32 \<Rightarrow> (phys, int) km" where
  "mappages pgdir va sz pa perm set_pte =
     mappages_loop (2 ^ 20) pgdir (PGROUNDDOWN va) (PGROUNDDOWN (va + sz - 1)) pa perm set_pte"

fun deallocuvm_loop :: "nat \<Rightarrow> u32 \<Rightarrow> u32 \<Rightarrow> u32 \<Rightarrow> (phys, unit) km" where
  "deallocuvm_loop 0 pgdir a oldsz = fail Diverges"
| "deallocuvm_loop (Suc n) pgdir a oldsz =
     (if a < oldsz then
        bnd (walkpgdir pgdir a False) (\<lambda>pte.
        if pte = 0 then
          deallocuvm_loop n pgdir (PGADDR (PDX a + 1) 0 0 - PGSIZE + PGSIZE) oldsz
        else
          bnd (kld pte) (\<lambda>e.
          sq (if e AND PTE_P \<noteq> 0 then
                (let pa = PTE_ADDR e in
                 if pa = 0 then panic ''kfree''
                 else sq (kfree (P2V pa)) (kst pte 0))
              else ret ())
             (deallocuvm_loop n pgdir (a + PGSIZE) oldsz)))
      else ret ())"

definition deallocuvm :: "u32 \<Rightarrow> u32 \<Rightarrow> u32 \<Rightarrow> (phys, u32) km" where
  "deallocuvm pgdir oldsz newsz =
     (if oldsz \<le> newsz then ret oldsz
      else sq (deallocuvm_loop (2 ^ 20 + 1) pgdir (PGROUNDUP newsz) oldsz) (ret newsz))"

definition freevm_entry :: "u32 \<Rightarrow> nat \<Rightarrow> (phys, unit) km" where
  "freevm_entry pgdir i =
     bnd (kld (pgdir + 4 * word_of_nat i)) (\<lambda>e.
     if e AND PTE_P \<noteq> 0 then kfree (P2V (PTE_ADDR e)) else ret ())"

definition freevm :: "u32 \<Rightarrow> (phys, unit) km" where
  "freevm pgdir =
     (if pgdir = 0 then panic ''freevm: no pgdir''
      else
        sq (deallocuvm pgdir KERNBASE 0) (
        sq (for_each (freevm_entry pgdir) [0 ..< 1024]) (
        kfree pgdir)))"

text \<open>The table \<open>kmap\<close> and \<open>setupkvm\<close>; the third entry starts at the linker symbol \<open>data\<close>.\<close>

definition kmap :: "u32 \<Rightarrow> (u32 \<times> u32 \<times> u32 \<times> u32) list" where
  "kmap data =
     [(KERNBASE, 0, EXTMEM, PTE_W),
      (KERNLINK, V2P KERNLINK, V2P data, 0),
      (data, V2P data, PHYSTOP, PTE_W),
      (DEVSPACE, DEVSPACE, 0, PTE_W)]"

fun setupkvm_loop :: "u32 \<Rightarrow> (u32 \<times> u32 \<times> u32 \<times> u32) list \<Rightarrow> (phys, u32) km" where
  "setupkvm_loop pgdir [] = ret pgdir"
| "setupkvm_loop pgdir ((virt, phys_start, phys_end, perm) # ks) =
     bnd (mappages pgdir virt (phys_end - phys_start) phys_start perm 1) (\<lambda>r.
     if r < 0 then sq (freevm pgdir) (ret 0) else setupkvm_loop pgdir ks)"

definition setupkvm :: "(phys, u32) km" where
  "setupkvm =
     bnd kalloc0 (\<lambda>pgdir.
     if pgdir = 0 then ret 0
     else
       sq (memset_page pgdir 0) (
       if DEVSPACE < P2V PHYSTOP then panic ''PHYSTOP too high''
       else bnd (gets kdata) (\<lambda>data. setupkvm_loop pgdir (kmap data))))"

text \<open>Byte copies into kernel memory and out of it, one byte at a time.\<close>

definition kldb :: "u32 \<Rightarrow> (phys, u8) km" where
  "kldb v = at_kaddr v (gets (\<lambda>s. pmem s (frame_of (V2P v)) (unat (v AND 0xFFF))))"

definition kstb :: "u32 \<Rightarrow> u8 \<Rightarrow> (phys, unit) km" where
  "kstb v b = at_kaddr v (modify (\<lambda>s. s\<lparr>pmem := (pmem s)(frame_of (V2P v) :=
     (pmem s (frame_of (V2P v)))(unat (v AND 0xFFF) := b))\<rparr>))"

fun kwrite :: "u32 \<Rightarrow> u8 list \<Rightarrow> (phys, unit) km" where
  "kwrite v [] = ret ()"
| "kwrite v (b # bs) = sq (kstb v b) (kwrite (v + 1) bs)"

fun kread :: "u32 \<Rightarrow> nat \<Rightarrow> (phys, u8 list) km" where
  "kread v 0 = ret []"
| "kread v (Suc n) = bnd (kldb v) (\<lambda>b. bnd (kread (v + 1) n) (\<lambda>bs. ret (b # bs)))"

text \<open>\<open>inituvm\<close> does not test the result of \<open>kalloc\<close>: with no free page it writes through a null pointer.\<close>

definition inituvm :: "u32 \<Rightarrow> u8 list \<Rightarrow> (phys, unit) km" where
  "inituvm pgdir init =
     (if 4096 \<le> length init then panic ''inituvm: more than a page''
      else
        bnd kalloc0 (\<lambda>mem.
        sq (memset_page mem 0) (
        sq (mappages pgdir 0 PGSIZE (V2P mem) (PTE_W OR PTE_U) 1) (
        kwrite mem init))))"

definition clearpteu :: "u32 \<Rightarrow> u32 \<Rightarrow> (phys, unit) km" where
  "clearpteu pgdir uva =
     bnd (walkpgdir pgdir uva False) (\<lambda>pte.
     if pte = 0 then panic ''clearpteu''
     else bnd (kld pte) (\<lambda>e. kst pte (e AND NOT PTE_U)))"

definition uva2ka :: "u32 \<Rightarrow> u32 \<Rightarrow> (phys, u32) km" where
  "uva2ka pgdir uva =
     bnd (walkpgdir pgdir uva False) (\<lambda>pte.
     bnd (kld pte) (\<lambda>e.
     if e AND PTE_P = 0 then ret 0
     else if e AND PTE_U = 0 then ret 0
     else ret (P2V (PTE_ADDR e))))"

fun copyout_loop :: "nat \<Rightarrow> u32 \<Rightarrow> u32 \<Rightarrow> u8 list \<Rightarrow> (phys, int) km" where
  "copyout_loop 0 pgdir va buf = fail Diverges"
| "copyout_loop (Suc k) pgdir va buf =
     (if buf \<noteq> [] then
        (let va0 = PGROUNDDOWN va in
         bnd (uva2ka pgdir va0) (\<lambda>pa0.
         if pa0 = 0 then ret (-1)
         else
           (let n = min (unat (PGSIZE - (va - va0))) (length buf) in
            sq (kwrite (pa0 + (va - va0)) (take n buf)) (
            copyout_loop k pgdir (va0 + PGSIZE) (drop n buf)))))
      else ret 0)"

definition copyout :: "u32 \<Rightarrow> u32 \<Rightarrow> u8 list \<Rightarrow> (phys, int) km" where
  "copyout pgdir va buf = copyout_loop (length buf + 1) pgdir va buf"

definition copy_page :: "u32 \<Rightarrow> u32 \<Rightarrow> (phys, unit) km" where
  "copy_page dst src = at_kaddr dst (at_kaddr src (modify (\<lambda>s. s\<lparr>pmem := (pmem s)
     (frame_of (V2P dst) := pmem s (frame_of (V2P src)))\<rparr>)))"

text \<open>
  The three helpers of the paging code. \<open>read_vaddr\<close> tests \<open>*pte && PTE_P\<close>, which holds for every
  non-zero entry, present or not; the page it copies is returned.
\<close>

definition mappages_swap_in :: "u32 \<Rightarrow> u32 \<Rightarrow> u32 \<Rightarrow> (phys, int) km" where
  "mappages_swap_in pgdir mem vaddr =
     bnd (mappages pgdir vaddr PGSIZE (V2P mem) (PTE_W OR PTE_U) 1) (\<lambda>r. if r < 0 then ret (-1) else ret 0)"

definition demappages_swap_out :: "u32 \<Rightarrow> u32 \<Rightarrow> (phys, int) km" where
  "demappages_swap_out pgdir vaddr =
     bnd (walkpgdir pgdir vaddr False) (\<lambda>pte.
     if pte = 0 then panic ''address should exist''
     else bnd (kld pte) (\<lambda>e. sq (kst pte (e AND NOT PTE_P)) (ret 0)))"

definition read_vaddr :: "u32 \<Rightarrow> u32 \<Rightarrow> (phys, page option) km" where
  "read_vaddr pgdir vaddr =
     bnd (walkpgdir pgdir vaddr False) (\<lambda>pte.
     if pte = 0 then ret None
     else
       bnd (kld pte) (\<lambda>e.
       if e = 0 then ret None
       else bnd (gets pmem) (\<lambda>m. ret (Some (m (frame_of (PTE_ADDR e)))))))"

declare mappages_loop.simps [simp del] deallocuvm_loop.simps [simp del] copyout_loop.simps [simp del]

section \<open>Page tables as a map from page numbers to entries\<close>

definition pde :: "phys \<Rightarrow> nat \<Rightarrow> nat \<Rightarrow> u32" where
  "pde s d i = ld32 (pmem s d) (4 * i)"

definition pres :: "phys \<Rightarrow> nat \<Rightarrow> nat \<Rightarrow> bool" where
  "pres s d i \<longleftrightarrow> pde s d i AND PTE_P \<noteq> 0"

definition tab :: "phys \<Rightarrow> nat \<Rightarrow> nat \<Rightarrow> nat" where
  "tab s d i = frame_of (pde s d i)"

text \<open>The entry for virtual page number \<open>n\<close> in the directory that lies in frame \<open>d\<close>.\<close>

definition ptn :: "phys \<Rightarrow> nat \<Rightarrow> nat \<Rightarrow> u32" where
  "ptn s d n = (if pres s d (n div 1024) then ld32 (pmem s (tab s d (n div 1024))) (4 * (n mod 1024)) else 0)"

definition vpn :: "u32 \<Rightarrow> nat" where
  "vpn va = unat va div 4096"

definition pt_wf :: "phys \<Rightarrow> nat \<Rightarrow> nat list \<Rightarrow> bool" where
  "pt_wf s d fs \<longleftrightarrow> free_rep s fs \<and> page_ok (kend s) d \<and> d \<notin> set fs \<and>
     (\<forall>i < 1024. pres s d i \<longrightarrow> page_ok (kend s) (tab s d i) \<and> tab s d i \<notin> set fs \<and> tab s d i \<noteq> d) \<and>
     (\<forall>i < 1024. \<forall>j < 1024. pres s d i \<and> pres s d j \<and> tab s d i = tab s d j \<longrightarrow> i = j)"

definition tables :: "phys \<Rightarrow> nat \<Rightarrow> nat set" where
  "tables s d = insert d {tab s d i |i. i < 1024 \<and> pres s d i}"

lemma vpn_less: "vpn va < 2 ^ 20"
  using unat_bound [of va] by (simp add: vpn_def)

lemma PDX_vpn: "unat (PDX va) = vpn va div 1024" and PTX_vpn: "unat (PTX va) = vpn va mod 1024"
  by (simp_all add: PDX_nat PTX_nat vpn_def div_mult2_eq [symmetric])

lemma vpn_div: "vpn va div 1024 < 1024"
  using vpn_less [of va] by simp

lemma slot_addr:
  assumes "f < 57344" "unat w < 1024"
  shows "unat (kva f + 4 * w) = 2147483648 + f * 4096 + 4 * unat w"
proof -
  have "unat (4 * w) = 4 * unat w" using assms(2) by (simp add: unat_word_ariths)
  then show ?thesis using assms kva_nat [of f] by (simp add: unat_word_ariths)
qed

lemma V2P_nat: "KERNBASE \<le> a \<Longrightarrow> unat (V2P a) = unat a - 2147483648"
  by (simp add: V2P_def unat_sub KERNBASE_def)

lemma slot_frame:
  assumes "f < 57344" "unat w < 1024"
  shows "frame_of (V2P (kva f + 4 * w)) = f" "unat (kva f + 4 * w AND 0xFFF) = 4 * unat w"
    "\<not> kva f + 4 * w < KERNBASE" "kva f + 4 * w \<noteq> 0"
proof -
  note a = slot_addr [OF assms]
  show k: "\<not> kva f + 4 * w < KERNBASE" using a by (simp add: word_less_nat_alt KERNBASE_def)
  then have "unat (V2P (kva f + 4 * w)) = f * 4096 + 4 * unat w" using a by (simp add: V2P_nat)
  then show "frame_of (V2P (kva f + 4 * w)) = f" using assms by (simp add: frame_of_nat)
  have "2147483648 + f * 4096 + 4 * unat w = 4 * unat w + (524288 + f) * 4096" by simp
  then have "(2147483648 + f * 4096 + 4 * unat w) mod 4096 = 4 * unat w"
    using assms(2) by (simp only: mod_mult_self1) simp
  then show "unat (kva f + 4 * w AND 0xFFF) = 4 * unat w"
    unfolding mask_12 unat_and_mask a by simp
  show "kva f + 4 * w \<noteq> 0" using k by (auto simp: KERNBASE_def)
qed

lemma kld_slot [simp]:
  "f < 57344 \<Longrightarrow> unat w < 1024 \<Longrightarrow> kld (kva f + 4 * w) s = Inr (ld32 (pmem s f) (4 * unat w), s)"
  by (simp add: kld_def at_kaddr_def slot_frame run_simps)

lemma kst_slot [simp]:
  "f < 57344 \<Longrightarrow> unat w < 1024 \<Longrightarrow> kst (kva f + 4 * w) x s =
    Inr ((), s\<lparr>pmem := (pmem s)(f := st32 (pmem s f) (4 * unat w) x)\<rparr>)"
  by (simp add: kst_def at_kaddr_def slot_frame run_simps)

lemma PTE_ADDR_kva: "P2V (PTE_ADDR e) = kva (frame_of e)"
proof -
  have "frame_of e * 4096 < 2 ^ LENGTH(32)"
    using unat_bound [of e] div_times_less_eq_dividend [of "unat e" 4096] by (simp add: frame_of_nat)
  then have "unat (PTE_ADDR e) = unat (word_of_nat (frame_of e * 4096) :: u32)"
    by (simp add: PTE_ADDR_nat frame_of_nat unat_of_nat del: of_nat_mult)
  then have "PTE_ADDR e = word_of_nat (frame_of e * 4096)" by (rule unsigned_word_eqI)
  then show ?thesis by (simp add: kva_def)
qed

text \<open>The directory entry that \<open>walkpgdir\<close> writes for a new table.\<close>

lemma new_pde:
  assumes "f < 57344"
  shows "frame_of (V2P (kva f) OR PTE_P OR PTE_W OR PTE_U) = f"
    "(V2P (kva f) OR PTE_P OR PTE_W OR PTE_U) AND PTE_P \<noteq> 0"
proof -
  have "frame_of (V2P (kva f) OR PTE_P OR PTE_W OR PTE_U) = unat (drop_bit 12 (V2P (kva f)) OR 0)"
    unfolding frame_of_def PTE_P_def PTE_W_def PTE_U_def drop_bit_or by (simp add: drop_bit_eq_div)
  then show "frame_of (V2P (kva f) OR PTE_P OR PTE_W OR PTE_U) = f"
    using assms frame_of_kva [of f] by (simp add: frame_of_def)
  have "bit ((V2P (kva f) OR PTE_P OR PTE_W OR PTE_U) AND PTE_P) 0"
    by (simp add: bit_simps PTE_P_def)
  then show "(V2P (kva f) OR PTE_P OR PTE_W OR PTE_U) AND PTE_P \<noteq> 0" 
    by (rule contrapos_pn) simp
qed

section \<open>Walking and changing a page table\<close>

definition new_table :: "phys \<Rightarrow> nat \<Rightarrow> nat \<Rightarrow> nat \<Rightarrow> phys" where
  "new_table s d i f = s\<lparr>freelist := ld32 (pmem s f) 0, pmem := (pmem s)(f := (\<lambda>_. 0),
     d := st32 (pmem s d) (4 * i) (V2P (kva f) OR PTE_P OR PTE_W OR PTE_U))\<rparr>"

definition set_pte :: "phys \<Rightarrow> nat \<Rightarrow> nat \<Rightarrow> u32 \<Rightarrow> phys" where
  "set_pte s d n x = s\<lparr>pmem := (pmem s)(tab s d (n div 1024) :=
     st32 (pmem s (tab s d (n div 1024))) (4 * (n mod 1024)) x)\<rparr>"

lemma pt_wf_bounds:
  assumes "pt_wf s d fs"
  shows "d < 57344" "d \<notin> set fs" "free_rep s fs" "i < 1024 \<Longrightarrow> pres s d i \<Longrightarrow> tab s d i < 57344"
    "i < 1024 \<Longrightarrow> pres s d i \<Longrightarrow> tab s d i \<noteq> d" "i < 1024 \<Longrightarrow> pres s d i \<Longrightarrow> tab s d i \<notin> set fs"
    "i < 1024 \<Longrightarrow> j < 1024 \<Longrightarrow> pres s d i \<Longrightarrow> pres s d j \<Longrightarrow> tab s d i = tab s d j \<longleftrightarrow> i = j"
  using assms by (auto simp: pt_wf_def page_ok_def)

lemma walk_present:
  assumes "pt_wf s d fs" "pres s d (vpn va div 1024)"
  shows "walkpgdir (kva d) va al s = Inr (kva (tab s d (vpn va div 1024)) + 4 * PTX va, s)"
  using assms pt_wf_bounds(1) [OF assms(1)] PDX_less [of va]
  by (simp add: walkpgdir_def run_simps Let_def PDX_vpn pres_def pde_def tab_def PTE_ADDR_kva)

lemma walk_absent:
  assumes "pt_wf s d fs" "\<not> pres s d (vpn va div 1024)"
  shows "walkpgdir (kva d) va False s = Inr (0, s)"
  using assms pt_wf_bounds(1) [OF assms(1)] PDX_less [of va]
  by (simp add: walkpgdir_def run_simps Let_def PDX_vpn pres_def pde_def)

lemma walk_none:
  assumes "pt_wf s d []" "\<not> pres s d (vpn va div 1024)"
  shows "walkpgdir (kva d) va True s = Inr (0, s)"
  using assms pt_wf_bounds(1,3) [OF assms(1)] PDX_less [of va] kalloc0_none [of s]
  by (simp add: walkpgdir_def run_simps Let_def PDX_vpn pres_def pde_def)

lemma walk_new:
  assumes "pt_wf s d (f # fs)" "\<not> pres s d (vpn va div 1024)"
  shows "walkpgdir (kva d) va True s = Inr (kva f + 4 * PTX va, new_table s d (vpn va div 1024) f)"
proof -
  note b = pt_wf_bounds [OF assms(1)]
  have f: "f < 57344" using b(3) by (auto simp: free_rep_def page_ok_def)
  have "f \<noteq> d" using b(2) by auto
  then show ?thesis
    using assms b f PDX_less [of va] kalloc0_some [OF b(3)]
    by (simp add: walkpgdir_def run_simps Let_def PDX_vpn pres_def pde_def kva_neq_0 memset_page_def new_table_def)
qed

lemma ld32_slot: "ld32 (st32 p (4 * i) x) (4 * j) = (if i = j then x else ld32 p (4 * j))"
proof (cases "i = j")
  case False
  then have "4 * i + 4 \<le> 4 * j \<or> 4 * j + 4 \<le> 4 * i" by arith
  with False show ?thesis by (simp add: ld32_st32_other)
qed simp

lemma new_table_pde:
  "pde (new_table s d i f) d j = (if j = i then V2P (kva f) OR PTE_P OR PTE_W OR PTE_U else pde s d j)"
  by (simp add: pde_def new_table_def ld32_slot)

lemma new_table_frame:
  "pt_wf s d (f # fs) \<Longrightarrow> f < 57344 \<and> f \<noteq> d \<and> f \<notin> set fs"
  by (auto simp: pt_wf_def free_rep_def page_ok_def)

lemma new_table_pres: "f < 57344 \<Longrightarrow> pres (new_table s d i f) d j \<longleftrightarrow> j = i \<or> pres s d j"
  using new_pde(2) [of f] by (simp add: pres_def new_table_pde)

lemma new_table_tab: "f < 57344 \<Longrightarrow> tab (new_table s d i f) d j = (if j = i then f else tab s d j)"
  using new_pde(1) [of f] by (simp add: tab_def new_table_pde)

lemma new_table_ptn:
  assumes wf: "pt_wf s d (f # fs)" and i: "\<not> pres s d i" and "n < 2 ^ 20"
  shows "ptn (new_table s d i f) d n = ptn s d n"
proof -
  have n: "n div 1024 < 1024" using assms(3) by simp
  note fr = new_table_frame [OF wf]
  show ?thesis
  proof (cases "n div 1024 = i")
    case True
    with i fr show ?thesis
      by (simp add: ptn_def new_table_pres new_table_tab) (simp add: new_table_def)
  next
    case False
    have "pres s d (n div 1024) \<Longrightarrow> tab s d (n div 1024) \<noteq> f \<and> tab s d (n div 1024) \<noteq> d"
      using wf n by (auto simp: pt_wf_def)
    with False fr show ?thesis
      by (simp add: ptn_def new_table_pres new_table_tab) (simp add: new_table_def)
  qed
qed

lemma new_table_wf:
  assumes wf: "pt_wf s d (f # fs)"
  shows "pt_wf (new_table s d i f) d fs"
proof -
  note fr = new_table_frame [OF wf]
  have "free_rep (s\<lparr>freelist := ld32 (pmem s f) 0\<rparr>) fs"
    using wf by (intro free_rep_tail) (simp add: pt_wf_def)
  moreover have "d \<notin> set fs" using wf by (simp add: pt_wf_def)
  moreover have "fchain (pmem (new_table s d i f)) v fs = fchain (pmem s) v fs" for v
    using \<open>d \<notin> set fs\<close> fr by (intro fchain_cong) (auto simp: new_table_def)
  ultimately have "free_rep (new_table s d i f) fs"
    by (simp add: free_rep_def) (simp add: new_table_def)
  moreover have "kend (new_table s d i f) = kend s" by (simp add: new_table_def)
  moreover have "page_ok (kend s) f" using wf by (auto simp: pt_wf_def free_rep_def)
  ultimately show ?thesis
    using wf fr unfolding pt_wf_def
    by (simp add: new_table_pres new_table_tab) (metis list.set_intros(1))
qed

lemma new_table_tables: "f < 57344 \<Longrightarrow> i < 1024 \<Longrightarrow> \<not> pres s d i \<Longrightarrow>
    tables (new_table s d i f) d = insert f (tables s d)"
  by (auto simp: tables_def new_table_pres new_table_tab)

text \<open>Storing an entry through the address that \<open>walkpgdir\<close> returned.\<close>

lemma set_pte_run:
  assumes "pt_wf s d fs" "pres s d (vpn va div 1024)"
  shows "kst (kva (tab s d (vpn va div 1024)) + 4 * PTX va) x s = Inr ((), set_pte s d (vpn va) x)"
  using pt_wf_bounds(4) [OF assms(1) vpn_div assms(2)] PTX_less [of va] by (simp add: set_pte_def PTX_vpn)

lemma get_pte_run:
  assumes "pt_wf s d fs" "pres s d (vpn va div 1024)"
  shows "kld (kva (tab s d (vpn va div 1024)) + 4 * PTX va) s = Inr (ptn s d (vpn va), s)"
  using pt_wf_bounds(4) [OF assms(1) vpn_div assms(2)] PTX_less [of va] assms(2) by (simp add: ptn_def PTX_vpn)

lemma set_pte_dir:
  assumes "pt_wf s d fs" "pres s d (n div 1024)" "n < 2 ^ 20"
  shows "pde (set_pte s d n x) d = pde s d" "pres (set_pte s d n x) d = pres s d"
    "tab (set_pte s d n x) d = tab s d" "tables (set_pte s d n x) d = tables s d"
proof -
  have "tab s d (n div 1024) \<noteq> d" using assms by (intro pt_wf_bounds(5)) auto
  then show "pde (set_pte s d n x) d = pde s d" by (simp add: fun_eq_iff pde_def set_pte_def)
  then show "pres (set_pte s d n x) d = pres s d" "tab (set_pte s d n x) d = tab s d"
    by (simp_all add: fun_eq_iff pres_def tab_def)
  then show "tables (set_pte s d n x) d = tables s d" by (simp add: tables_def)
qed

lemma set_pte_wf:
  assumes "pt_wf s d fs" "pres s d (n div 1024)" "n < 2 ^ 20"
  shows "pt_wf (set_pte s d n x) d fs"
proof -
  have "tab s d (n div 1024) \<notin> set fs" using assms by (intro pt_wf_bounds(6)) auto
  then have "fchain (pmem (set_pte s d n x)) v fs = fchain (pmem s) v fs" for v
    by (intro fchain_cong) (auto simp: set_pte_def)
  with assms(1) show ?thesis
    by (simp add: pt_wf_def free_rep_def set_pte_dir [OF assms]) (simp add: set_pte_def)
qed

lemma set_pte_ptn:
  assumes "pt_wf s d fs" "pres s d (n div 1024)" "n < 2 ^ 20" "m < 2 ^ 20"
  shows "ptn (set_pte s d n x) d m = (if m = n then x else ptn s d m)"
proof (cases "m div 1024 = n div 1024")
  case True
  moreover have "m mod 1024 = n mod 1024 \<longleftrightarrow> m = n"
    using True div_mult_mod_eq [of m 1024] div_mult_mod_eq [of n 1024] by metis
  ultimately show ?thesis
    using assms(2) by (auto simp: ptn_def set_pte_dir [OF assms(1-3)]) (auto simp: set_pte_def ld32_slot)
next
  case False
  then have "pres s d (m div 1024) \<Longrightarrow> tab s d (m div 1024) \<noteq> tab s d (n div 1024)"
    using pt_wf_bounds(7) [OF assms(1), of "m div 1024" "n div 1024"] assms(2-4) by auto
  with False show ?thesis
    by (auto simp: ptn_def set_pte_dir [OF assms(1-3)]) (auto simp: set_pte_def)
qed

text \<open>
  \<open>pt_ext d s fs t fs'\<close>: from \<open>s\<close> with free list \<open>fs\<close> to \<open>t\<close> with free list \<open>fs'\<close> only tables of the
  directory \<open>d\<close> changed, and pages left the free list only to become tables of it.
\<close>

definition pt_ext :: "nat \<Rightarrow> phys \<Rightarrow> nat list \<Rightarrow> phys \<Rightarrow> nat list \<Rightarrow> bool" where
  "pt_ext d s fs t fs' \<longleftrightarrow> pt_wf t d fs' \<and> (\<exists>us. fs = us @ fs' \<and> tables t d = tables s d \<union> set us) \<and>
     (\<forall>g. g \<notin> tables t d \<longrightarrow> pmem t g = pmem s g) \<and>
     kend t = kend s \<and> kdata t = kdata s \<and> use_lock t = use_lock s"

lemma pt_ext_refl: "pt_wf s d fs \<Longrightarrow> pt_ext d s fs s fs"
  by (simp add: pt_ext_def)

lemma pt_ext_trans:
  assumes "pt_ext d s fs t gs" "pt_ext d t gs u hs"
  shows "pt_ext d s fs u hs"
proof -
  obtain us vs where "fs = us @ gs" "tables t d = tables s d \<union> set us"
    "gs = vs @ hs" "tables u d = tables t d \<union> set vs"
    using assms by (auto simp: pt_ext_def)
  with assms show ?thesis unfolding pt_ext_def by (intro conjI exI [of _ "us @ vs"]) auto
qed

lemma pt_ext_set:
  assumes "pt_wf s d fs" "pres s d (n div 1024)" "n < 2 ^ 20"
  shows "pt_ext d s fs (set_pte s d n x) fs"
  using set_pte_wf [OF assms] set_pte_dir(4) [OF assms] assms(2,3)
  by (auto simp: pt_ext_def) (auto simp: set_pte_def tables_def)

lemma pt_ext_new:
  assumes "pt_wf s d (f # fs)" "\<not> pres s d i" "i < 1024"
  shows "pt_ext d s (f # fs) (new_table s d i f) fs"
  using new_table_wf [OF assms(1)] new_table_frame [OF assms(1)] new_table_tables [of f i s d] assms(2,3)
  by (auto simp: pt_ext_def tables_def) (auto simp: new_table_def)

lemma map_step:
  assumes wf: "pt_wf s d fs"
    and step: "\<And>t fs'. pt_ext d s fs t fs' \<Longrightarrow>
      \<forall>m < 2 ^ 20. ptn t d m = (if m = vpn va then x else ptn s d m) \<Longrightarrow> wp k Q t"
    and full: "fs = [] \<Longrightarrow> Q (-1) s"
  shows "wp (bnd (walkpgdir (kva d) va True) (\<lambda>pte. if pte = 0 then ret (-1) else sq (kst pte x) k)) Q s"
proof (cases "pres s d (vpn va div 1024)")
  case True
  have "kva (tab s d (vpn va div 1024)) + 4 * PTX va \<noteq> 0"
    using pt_wf_bounds(4) [OF wf vpn_div True] PTX_less by (intro slot_frame(4))
  moreover have "wp k Q (set_pte s d (vpn va) x)"
    using set_pte_ptn [OF wf True vpn_less] by (intro step [OF pt_ext_set [OF wf True vpn_less]]) simp
  ultimately show ?thesis
    using walk_present [OF wf True] set_pte_run [OF wf True] by (simp add: wp_bnd wp_sq wp_run)
next
  case False
  show ?thesis
  proof (cases fs)
    case Nil
    with walk_none [of s d va] wf False full show ?thesis by (simp add: wp_bnd wp_run wp_ret)
  next
    case (Cons f fs')
    let ?i = "vpn va div 1024" let ?t = "new_table s d (vpn va div 1024) f"
    have wf': "pt_wf s d (f # fs')" using wf Cons by simp
    note fr = new_table_frame [OF wf']
    have t: "pt_wf ?t d fs'" "pres ?t d ?i" "tab ?t d ?i = f"
      using new_table_wf [OF wf'] fr by (simp_all add: new_table_pres new_table_tab)
    have "pt_ext d s fs (set_pte ?t d (vpn va) x) fs'"
      using pt_ext_trans [OF pt_ext_new [OF wf' False vpn_div] pt_ext_set [OF t(1,2) vpn_less]] Cons by simp
    moreover have "\<forall>m < 2 ^ 20. ptn (set_pte ?t d (vpn va) x) d m = (if m = vpn va then x else ptn s d m)"
      using set_pte_ptn [OF t(1,2) vpn_less] new_table_ptn [OF wf' False] by simp
    ultimately have "wp k Q (set_pte ?t d (vpn va) x)" by (rule step)
    moreover have "kva f + 4 * PTX va \<noteq> 0" using fr PTX_less by (intro slot_frame(4)) auto
    ultimately show ?thesis
      using walk_new [OF wf' False] set_pte_run [OF t(1,2)] t(3) by (simp add: wp_bnd wp_sq wp_run)
  qed
qed

definition vaddr_of :: "nat \<Rightarrow> u32" where
  "vaddr_of n = word_of_nat (n * 4096)"

lemma vaddr_of_nat: "n < 2 ^ 20 \<Longrightarrow> unat (vaddr_of n) = n * 4096"
  by (simp add: vaddr_of_def unat_of_nat del: of_nat_mult)

lemma vpn_vaddr_of [simp]: "n < 2 ^ 20 \<Longrightarrow> vpn (vaddr_of n) = n"
  by (simp add: vpn_def vaddr_of_nat)

lemma vaddr_of_Suc: "vaddr_of n + PGSIZE = vaddr_of (Suc n)"
  by (simp add: vaddr_of_def PGSIZE_def algebra_simps)

lemma vaddr_of_inj: "m < 2 ^ 20 \<Longrightarrow> n < 2 ^ 20 \<Longrightarrow> vaddr_of m = vaddr_of n \<longleftrightarrow> m = n"
  using vaddr_of_nat [of m] vaddr_of_nat [of n] by (metis mult_right_cancel zero_neq_numeral)

lemma PGROUNDDOWN_vpn: "PGROUNDDOWN va = vaddr_of (vpn va)"
proof -
  have "unat (PGROUNDDOWN va) = unat (vaddr_of (vpn va))"
    using vpn_less [of va] by (simp add: PGROUNDDOWN_nat vaddr_of_nat vpn_def)
  then show ?thesis by (rule unsigned_word_eqI)
qed

text \<open>
  The loop of \<open>mappages\<close> over the pages \<open>n\<close> to \<open>n + k\<close>: it returns 0 with all of them mapped, or -1
  with the first \<open>m\<close> of them mapped and the free list exhausted.
\<close>

lemma mappages_loop_spec:
  assumes "pt_wf s d fs" "n + k < 2 ^ 20" "k < fuel"
  shows "wp (mappages_loop fuel (kva d) (vaddr_of n) (vaddr_of (n + k)) pa perm sp)
    (\<lambda>r t. \<exists>m fs'. pt_ext d s fs t fs' \<and> (r = 0 \<and> m = k + 1 \<or> r = -1 \<and> m \<le> k \<and> fs' = []) \<and>
      (\<forall>j < 2 ^ 20. ptn t d j = (if n \<le> j \<and> j < n + m then (pa + word_of_nat (j - n) * PGSIZE) OR perm OR sp
         else ptn s d j))) s"
  using assms
proof (induction k arbitrary: n fuel pa s fs)
  case 0
  then obtain f where f: "fuel = Suc f" by (cases fuel) auto
  show ?case
    unfolding f mappages_loop.simps
  proof (rule map_step [OF 0(1)])
    fix t fs'
    assume "pt_ext d s fs t fs'" "\<forall>m < 2 ^ 20. ptn t d m = (if m = vpn (vaddr_of n) then pa OR perm OR sp else ptn s d m)"
    with 0 show "wp (if vaddr_of n = vaddr_of (n + 0) then ret 0
        else mappages_loop f (kva d) (vaddr_of n + PGSIZE) (vaddr_of (n + 0)) (pa + PGSIZE) perm sp)
     (\<lambda>r t. \<exists>m fs'. pt_ext d s fs t fs' \<and> (r = 0 \<and> m = 0 + 1 \<or> r = -1 \<and> m \<le> 0 \<and> fs' = []) \<and>
      (\<forall>j < 2 ^ 20. ptn t d j = (if n \<le> j \<and> j < n + m then (pa + word_of_nat (j - n) * PGSIZE) OR perm OR sp
         else ptn s d j))) t"
      by (auto simp: wp_ret intro!: exI [of _ fs'])
  qed (use 0 pt_ext_refl in auto)
next
  case (Suc k)
  then obtain f where f: "fuel = Suc f" "k < f" by (cases fuel) auto
  let ?v = "\<lambda>j. (pa + word_of_nat (j - n) * PGSIZE) OR perm OR sp"
  let ?Q = "\<lambda>r t. \<exists>m fs'. pt_ext d s fs t fs' \<and> (r = 0 \<and> m = Suc k + 1 \<or> r = -1 \<and> m \<le> Suc k \<and> fs' = []) \<and>
      (\<forall>j < 2 ^ 20. ptn t d j = (if n \<le> j \<and> j < n + m then ?v j else ptn s d j))"
  show ?case
    unfolding f mappages_loop.simps
  proof (rule map_step [OF Suc.prems(1)])
    fix t fs'
    assume ext: "pt_ext d s fs t fs'"
      and t: "\<forall>m < 2 ^ 20. ptn t d m = (if m = vpn (vaddr_of n) then pa OR perm OR sp else ptn s d m)"
    have "wp (mappages_loop f (kva d) (vaddr_of (Suc n)) (vaddr_of (Suc n + k)) (pa + PGSIZE) perm sp)
     (\<lambda>r u. \<exists>m hs. pt_ext d t fs' u hs \<and> (r = 0 \<and> m = k + 1 \<or> r = -1 \<and> m \<le> k \<and> hs = []) \<and>
      (\<forall>j < 2 ^ 20. ptn u d j = (if Suc n \<le> j \<and> j < Suc n + m
         then (pa + PGSIZE + word_of_nat (j - Suc n) * PGSIZE) OR perm OR sp else ptn t d j))) t"
      using Suc.prems f ext by (intro Suc.IH) (auto simp: pt_ext_def)
    then have "wp (mappages_loop f (kva d) (vaddr_of (Suc n)) (vaddr_of (Suc n + k)) (pa + PGSIZE) perm sp) ?Q t"
    proof (rule wp_mono)
      fix r :: int and u
      assume "\<exists>m hs. pt_ext d t fs' u hs \<and> (r = 0 \<and> m = k + 1 \<or> r = -1 \<and> m \<le> k \<and> hs = []) \<and>
        (\<forall>j < 2 ^ 20. ptn u d j = (if Suc n \<le> j \<and> j < Suc n + m
         then (pa + PGSIZE + word_of_nat (j - Suc n) * PGSIZE) OR perm OR sp else ptn t d j))"
      then obtain m hs where u: "pt_ext d t fs' u hs" "r = 0 \<and> m = k + 1 \<or> r = -1 \<and> m \<le> k \<and> hs = []"
        and p: "\<And>j. j < 2 ^ 20 \<Longrightarrow> ptn u d j = (if Suc n \<le> j \<and> j < Suc n + m
         then (pa + PGSIZE + word_of_nat (j - Suc n) * PGSIZE) OR perm OR sp else ptn t d j)" by blast
      have next_pa: "pa + PGSIZE + word_of_nat (j - Suc n) * PGSIZE = pa + word_of_nat (j - n) * PGSIZE" if "Suc n \<le> j" for j
      proof -
        have "j - n = Suc (j - Suc n)" using that by simp
        then show ?thesis by (simp add: algebra_simps)
      qed
      have "ptn u d j = (if n \<le> j \<and> j < n + Suc m then ?v j else ptn s d j)" if j: "j < 2 ^ 20" for j
      proof (cases "Suc n \<le> j")
        case True then show ?thesis using p [OF j, unfolded next_pa [OF True]] t j Suc.prems(2) by auto
      next
        case False then show ?thesis using p [OF j] t j Suc.prems(2) by auto
      qed
      with u pt_ext_trans [OF ext u(1)] show "?Q r u" by (intro exI [of _ "Suc m"] exI [of _ hs]) auto
    qed
    with Suc.prems(2) show "wp (if vaddr_of n = vaddr_of (n + Suc k) then ret 0
        else mappages_loop f (kva d) (vaddr_of n + PGSIZE) (vaddr_of (n + Suc k)) (pa + PGSIZE) perm sp) ?Q t"
      by (simp add: vaddr_of_inj vaddr_of_Suc)
  qed (use Suc.prems pt_ext_refl in auto)
qed

lemma mappages_spec:
  assumes "pt_wf s d fs" "0 < sz" "unat va + unat sz \<le> 2 ^ 32"
  defines "k \<equiv> (unat va + unat sz - 1) div 4096 - vpn va"
  shows "wp (mappages (kva d) va sz pa perm sp)
    (\<lambda>r t. \<exists>m fs'. pt_ext d s fs t fs' \<and> (r = 0 \<and> m = k + 1 \<or> r = -1 \<and> m \<le> k \<and> fs' = []) \<and>
      (\<forall>j < 2 ^ 20. ptn t d j = (if vpn va \<le> j \<and> j < vpn va + m
         then (pa + word_of_nat (j - vpn va) * PGSIZE) OR perm OR sp else ptn s d j))) s"
proof -
  have pos: "0 < unat sz" using assms(2) by (simp add: word_less_nat_alt)
  have eq: "va + sz - 1 = word_of_nat (unat va + unat sz - 1)"
    using pos by (simp add: of_nat_diff)
  have "unat (va + sz - 1) = unat va + unat sz - 1"
    unfolding eq unat_of_nat using assms(3) pos by simp
  then have last: "vpn (va + sz - 1) = (unat va + unat sz - 1) div 4096" by (simp add: vpn_def)
  moreover have "vpn va \<le> (unat va + unat sz - 1) div 4096"
    unfolding vpn_def using pos by (intro div_le_mono) simp
  ultimately have "vpn (va + sz - 1) = vpn va + k" by (simp add: k_def)
  moreover from this have "vpn va + k < 2 ^ 20" using vpn_less [of "va + sz - 1"] by simp
  ultimately show ?thesis
    unfolding mappages_def PGROUNDDOWN_vpn using mappages_loop_spec [OF assms(1), of "vpn va" k "2 ^ 20"] by simp
qed

section \<open>Releasing an address space\<close>

definition ppres :: "phys \<Rightarrow> nat \<Rightarrow> nat \<Rightarrow> bool" where
  "ppres s d n \<longleftrightarrow> ptn s d n AND PTE_P \<noteq> 0"

definition uframe :: "phys \<Rightarrow> nat \<Rightarrow> nat \<Rightarrow> nat" where
  "uframe s d n = frame_of (ptn s d n)"

text \<open>The user part of an address space: 524288 pages below \<open>KERNBASE\<close>, each with a frame of its own.\<close>

definition as_wf :: "phys \<Rightarrow> nat \<Rightarrow> nat list \<Rightarrow> bool" where
  "as_wf s d fs \<longleftrightarrow> pt_wf s d fs \<and> KERNBASE < kend s \<and>
     (\<forall>n < 524288. ppres s d n \<longrightarrow> page_ok (kend s) (uframe s d n) \<and> uframe s d n \<notin> set fs \<and>
        uframe s d n \<notin> tables s d) \<and>
     (\<forall>m < 524288. \<forall>n < 524288. ppres s d m \<and> ppres s d n \<and> uframe s d m = uframe s d n \<longrightarrow> m = n)"

definition ufreed :: "phys \<Rightarrow> nat \<Rightarrow> phys" where
  "ufreed s f = s\<lparr>pmem := (pmem s)(f := st32 (\<lambda>_. 1) 0 (freelist s)), freelist := kva f\<rparr>"

lemma pmem_cong:
  assumes "\<forall>g \<in> tables s d. pmem t g = pmem s g"
  shows "pde t d = pde s d" "pres t d = pres s d" "tab t d = tab s d" "tables t d = tables s d"
    "n < 2 ^ 20 \<Longrightarrow> ptn t d n = ptn s d n"
proof -
  have "pmem t d = pmem s d" using assms by (simp add: tables_def)
  then show p: "pde t d = pde s d" "pres t d = pres s d" "tab t d = tab s d"
    by (auto simp: pde_def pres_def tab_def intro!: ext)
  then show "tables t d = tables s d" by (simp add: tables_def)
  assume "n < 2 ^ 20"
  then have "pres s d (n div 1024) \<Longrightarrow> tab s d (n div 1024) \<in> tables s d" by (auto simp: tables_def)
  then show "ptn t d n = ptn s d n" using assms by (auto simp: ptn_def p)
qed

lemma ufreed_wf:
  assumes "pt_wf s d fs" "page_ok (kend s) f" "f \<notin> set fs" "f \<notin> tables s d"
  shows "pt_wf (ufreed s f) d (f # fs)"
proof -
  have c: "\<forall>g \<in> tables s d. pmem (ufreed s f) g = pmem s g" using assms(4) by (auto simp: ufreed_def)
  have "free_rep (ufreed s f) (f # fs)"
    using free_rep_push [of s fs f] assms by (simp add: ufreed_def pt_wf_def)
  moreover have "kend (ufreed s f) = kend s" by (simp add: ufreed_def)
  ultimately show ?thesis
    using assms by (auto simp: pt_wf_def pmem_cong [OF c] tables_def)
qed

lemma pte_page: "as_wf s d fs \<Longrightarrow> n < 524288 \<Longrightarrow> ppres s d n \<Longrightarrow> PTE_ADDR (ptn s d n) \<noteq> 0"
proof
  assume wf: "as_wf s d fs" "n < 524288" "ppres s d n" and z: "PTE_ADDR (ptn s d n) = 0"
  have "unat (PTE_ADDR (ptn s d n)) = uframe s d n * 4096" by (simp add: PTE_ADDR_nat uframe_def frame_of_nat)
  with z have "uframe s d n = 0" by simp
  then have "kva (uframe s d n) = KERNBASE" by (simp add: kva_def P2V_def)
  with wf show False by (auto simp: as_wf_def page_ok_def)
qed

text \<open>One page of \<open>deallocuvm\<close>: its frame goes to the free list and its entry is cleared.\<close>

lemma dealloc_step:
  assumes wf: "as_wf s d fs" and n: "n < 524288" "ppres s d n"
  defines "f \<equiv> uframe s d n" and "t \<equiv> set_pte (ufreed s (uframe s d n)) d n 0"
  shows "as_wf t d (f # fs)" "m < 2 ^ 20 \<Longrightarrow> ptn t d m = (if m = n then 0 else ptn s d m)"
    "tables t d = tables s d" "g \<notin> tables s d \<Longrightarrow> g \<noteq> f \<Longrightarrow> pmem t g = pmem s g" "kend t = kend s"
    "kfree (kva f) s = Inr ((), ufreed s f)"
proof -
  have f: "page_ok (kend s) f" "f \<notin> set fs" "f \<notin> tables s d"
    using wf n by (auto simp: as_wf_def f_def)
  have pw: "pt_wf s d fs" using wf by (simp add: as_wf_def)
  have c: "\<forall>g \<in> tables s d. pmem (ufreed s f) g = pmem s g" using f(3) by (auto simp: ufreed_def)
  note fw = ufreed_wf [OF pw f]
  have dir: "pres s d (n div 1024)" using n(2) by (auto simp: ppres_def ptn_def split: if_splits)
  then have dir': "pres (ufreed s f) d (n div 1024)" by (simp add: pmem_cong [OF c])
  have n20: "n < 2 ^ 20" using n by simp
  have t: "t = set_pte (ufreed s f) d n 0" by (simp add: t_def f_def)
  show ptn: "ptn t d m = (if m = n then 0 else ptn s d m)" if "m < 2 ^ 20" for m
    unfolding t set_pte_ptn [OF fw dir' n20 that] using pmem_cong(5) [OF c that] by simp
  show tabs: "tables t d = tables s d"
    unfolding t set_pte_dir(4) [OF fw dir' n20] by (rule pmem_cong(4) [OF c])
  show mem: "pmem t g = pmem s g" if "g \<notin> tables s d" "g \<noteq> f" for g
  proof -
    have "tab (ufreed s f) d (n div 1024) \<in> tables s d"
      using dir n by (auto simp: pmem_cong [OF c] tables_def)
    with that have "g \<noteq> tab (ufreed s f) d (n div 1024)" by auto
    with that(2) show ?thesis unfolding t set_pte_def by simp (simp add: ufreed_def)
  qed
  show kend: "kend t = kend s" by (simp add: t set_pte_def ufreed_def)
  show "kfree (kva f) s = Inr ((), ufreed s f)"
    using kfree_run [of s fs f] pw f(1) by (simp add: ufreed_def pt_wf_def)
  have uf: "ppres t d m \<longleftrightarrow> m \<noteq> n \<and> ppres s d m" "m \<noteq> n \<Longrightarrow> uframe t d m = uframe s d m" if "m < 524288" for m
    using ptn [of m] that by (auto simp: ppres_def uframe_def)
  have "uframe s d m \<noteq> f" if "m < 524288" "m \<noteq> n" "ppres s d m" for m
    using wf n that by (auto simp: as_wf_def f_def)
  then show "as_wf t d (f # fs)"
    using wf set_pte_wf [OF fw dir' n20, of 0] unfolding as_wf_def
    by (simp add: kend tabs uf flip: t) (metis uf(2))
qed

lemma PGADDR_next:
  assumes "vpn a div 1024 + 1 < 1024"
  shows "PGADDR (PDX a + 1) 0 0 - PGSIZE + PGSIZE = vaddr_of ((vpn a div 1024 + 1) * 1024)"
proof -
  have "unat (PDX a + 1) = vpn a div 1024 + 1"
    using assms by (simp add: unat_word_ariths PDX_vpn)
  also have "\<dots> = unat (word_of_nat (vpn a div 1024 + 1) :: u32)"
    unfolding unat_of_nat using assms by simp
  finally have "PDX a + 1 = word_of_nat (vpn a div 1024 + 1)" by (rule unsigned_word_eqI)
  then show ?thesis by (simp add: PGADDR_def vaddr_of_def push_bit_eq_mult algebra_simps)
qed

definition released :: "phys \<Rightarrow> nat \<Rightarrow> nat \<Rightarrow> nat \<Rightarrow> nat set" where
  "released s d n e = {uframe s d m |m. n \<le> m \<and> m < e \<and> ppres s d m}"

text \<open>
  The loop of \<open>deallocuvm\<close> from page \<open>n\<close> up to, but without, page \<open>e\<close>: the present pages in this range
  are released and their entries cleared; everything else stays.
\<close>

definition dealloc_post :: "phys \<Rightarrow> nat \<Rightarrow> nat list \<Rightarrow> nat \<Rightarrow> nat \<Rightarrow> phys \<Rightarrow> nat list \<Rightarrow> bool" where
  "dealloc_post s d fs n e t fs' \<longleftrightarrow> as_wf t d fs' \<and> set fs' = set fs \<union> released s d n e \<and>
     (\<forall>m < 2 ^ 20. ptn t d m = (if n \<le> m \<and> m < e \<and> ppres s d m then 0 else ptn s d m)) \<and>
     tables t d = tables s d \<and> (\<forall>g. g \<notin> tables s d \<longrightarrow> g \<notin> released s d n e \<longrightarrow> pmem t g = pmem s g) \<and>
     kend t = kend s"

lemma dealloc_post_end: "as_wf s d fs \<Longrightarrow> e \<le> n \<Longrightarrow> dealloc_post s d fs n e s fs"
  by (auto simp: dealloc_post_def released_def)

lemma dealloc_post_skip:
  assumes "dealloc_post s d fs k e t fs'" "n \<le> k" "\<forall>m. n \<le> m \<and> m < k \<longrightarrow> \<not> ppres s d m"
  shows "dealloc_post s d fs n e t fs'"
proof -
  have "n \<le> m \<and> m < e \<and> ppres s d m \<longleftrightarrow> k \<le> m \<and> m < e \<and> ppres s d m" for m
    using assms(2,3) by (metis le_trans not_le)
  then show ?thesis using assms(1) by (simp add: dealloc_post_def released_def)
qed

lemma dealloc_post_step:
  assumes wf: "as_wf s d fs" and n: "n < 524288" "ppres s d n" "n < e" "e \<le> 524288"
    and post: "dealloc_post (set_pte (ufreed s (uframe s d n)) d n 0) d (uframe s d n # fs) (Suc n) e t fs'"
  shows "dealloc_post s d fs n e t fs'"
proof -
  let ?u = "set_pte (ufreed s (uframe s d n)) d n 0"
  note st = dealloc_step [OF wf n(1,2)]
  have same: "ppres ?u d m = ppres s d m" "uframe ?u d m = uframe s d m" if "Suc n \<le> m" "m < e" for m
    using st(2) [of m] that n by (auto simp: ppres_def uframe_def)
  have rel: "released s d n e = insert (uframe s d n) (released ?u d (Suc n) e)"
  proof -
    have "n \<le> m \<and> m < e \<and> ppres s d m \<longleftrightarrow> m = n \<or> Suc n \<le> m \<and> m < e \<and> ppres ?u d m" for m
      using n same by (metis Suc_leI le_eq_less_or_eq Suc_leD)
    then show ?thesis unfolding released_def using same n by (auto simp: Suc_le_eq) (metis Suc_leI)+
  qed
  have "ptn t d m = (if n \<le> m \<and> m < e \<and> ppres s d m then 0 else ptn s d m)" if m: "m < 2 ^ 20" for m
  proof -
    have "ptn t d m = (if Suc n \<le> m \<and> m < e \<and> ppres ?u d m then 0 else ptn ?u d m)"
      using post m by (simp add: dealloc_post_def)
    then show ?thesis using st(2) [OF m] n same [of m] by (auto simp: Suc_le_eq split: if_splits)
  qed
  with post rel st show ?thesis by (auto simp: dealloc_post_def)
qed

text \<open>One turn of the loop in each of its three cases.\<close>

lemma dealloc_absent:
  assumes wf: "pt_wf s d fs" and n: "n < 524288" and less: "vaddr_of n < oldsz" and no: "\<not> pres s d (n div 1024)"
  shows "deallocuvm_loop (Suc fuel) (kva d) (vaddr_of n) oldsz s =
    deallocuvm_loop fuel (kva d) (vaddr_of ((n div 1024 + 1) * 1024)) oldsz s"
  using walk_absent [OF wf, of "vaddr_of n"] PGADDR_next [of "vaddr_of n"] n less no
  by (simp add: deallocuvm_loop.simps(2) run_simps)

lemma dealloc_empty:
  assumes wf: "pt_wf s d fs" and n: "n < 524288" and less: "vaddr_of n < oldsz"
    and yes: "pres s d (n div 1024)" and no: "\<not> ppres s d n"
  shows "deallocuvm_loop (Suc fuel) (kva d) (vaddr_of n) oldsz s =
    deallocuvm_loop fuel (kva d) (vaddr_of (Suc n)) oldsz s"
proof -
  have "kva (tab s d (n div 1024)) + 4 * PTX (vaddr_of n) \<noteq> 0"
    using pt_wf_bounds(4) [OF wf _ yes] n PTX_less by (intro slot_frame(4)) auto
  then show ?thesis
    using walk_present [OF wf, of "vaddr_of n"] get_pte_run [OF wf, of "vaddr_of n"] n less yes no
    by (simp add: deallocuvm_loop.simps(2) run_simps ppres_def vaddr_of_Suc)
qed

lemma dealloc_page:
  assumes wf: "as_wf s d fs" and n: "n < 524288" and less: "vaddr_of n < oldsz" and yes: "ppres s d n"
  shows "deallocuvm_loop (Suc fuel) (kva d) (vaddr_of n) oldsz s =
    deallocuvm_loop fuel (kva d) (vaddr_of (Suc n)) oldsz (set_pte (ufreed s (uframe s d n)) d n 0)"
proof -
  let ?f = "uframe s d n"
  have pw: "pt_wf s d fs" and f: "page_ok (kend s) ?f" "?f \<notin> set fs" "?f \<notin> tables s d"
    using wf n yes by (auto simp: as_wf_def)
  have dir: "pres s d (n div 1024)" using yes by (auto simp: ppres_def ptn_def split: if_splits)
  have nz: "kva (tab s d (n div 1024)) + 4 * PTX (vaddr_of n) \<noteq> 0"
    using pt_wf_bounds(4) [OF pw _ dir] n PTX_less by (intro slot_frame(4)) auto
  have c: "\<forall>g \<in> tables s d. pmem (ufreed s ?f) g = pmem s g" using f by (auto simp: ufreed_def)
  have "kst (kva (tab s d (n div 1024)) + 4 * PTX (vaddr_of n)) 0 (ufreed s ?f) = Inr ((), set_pte (ufreed s ?f) d n 0)"
    using set_pte_run [OF ufreed_wf [OF pw f], of "vaddr_of n" 0] dir n by (simp add: pmem_cong [OF c])
  moreover have "P2V (PTE_ADDR (ptn s d n)) = kva ?f" by (simp add: PTE_ADDR_kva uframe_def)
  ultimately show ?thesis
    using walk_present [OF pw, of "vaddr_of n"] get_pte_run [OF pw, of "vaddr_of n"] n less yes dir nz
      pte_page [OF wf n yes] dealloc_step(6) [OF wf n yes]
    by (simp add: deallocuvm_loop.simps(2) run_simps ppres_def vaddr_of_Suc Let_def)
qed

lemma deallocuvm_loop_spec:
  assumes "as_wf s d fs" "n \<le> 524288" "unat oldsz \<le> 2147483648" "524288 - n < fuel"
  shows "wp (deallocuvm_loop fuel (kva d) (vaddr_of n) oldsz)
    (\<lambda>_ t. \<exists>fs'. dealloc_post s d fs n ((unat oldsz + 4095) div 4096) t fs') s"
  using assms
proof (induction fuel arbitrary: n s fs)
  case (Suc fuel)
  let ?e = "(unat oldsz + 4095) div 4096"
  have e: "?e \<le> 524288" using Suc.prems(3) by simp
  have pw: "pt_wf s d fs" using Suc.prems(1) by (simp add: as_wf_def)
  have "unat (vaddr_of n) = n * 4096" using Suc.prems(2) by (simp add: vaddr_of_nat)
  then have cond: "vaddr_of n < oldsz \<longleftrightarrow> n < ?e"
    by (auto simp: word_less_nat_alt div_less_iff_less_mult less_eq_div_iff_mult_less_eq Suc_le_eq [symmetric])
  show ?case
  proof (cases "n < ?e")
    case False
    then show ?thesis
      using dealloc_post_end [OF Suc.prems(1), of ?e n] by (simp add: deallocuvm_loop.simps(2) cond wp_ret) blast
  next
    case less: True
    then have n: "n < 524288" and v: "vaddr_of n < oldsz" using e by (simp_all add: cond)
    have ih: "wp (deallocuvm_loop fuel (kva d) (vaddr_of k) oldsz) (\<lambda>_ t. \<exists>fs'. dealloc_post u d gs k ?e t fs') u"
      if "as_wf u d gs" "k \<le> 524288" "n < k" for u gs k
      using Suc.prems that by (intro Suc.IH) auto
    consider "\<not> pres s d (n div 1024)" | "pres s d (n div 1024)" "\<not> ppres s d n" | "ppres s d n" by blast
    then show ?thesis
    proof cases
      case 1
      let ?k = "(n div 1024 + 1) * 1024"
      have "n div 1024 < 512" using n by simp
      then have k: "?k \<le> 524288" "n < ?k" using dividend_less_times_div [of 1024 n] by simp_all
      have "\<not> ppres s d m" if "n \<le> m" "m < ?k" for m
      proof -
        have "m div 1024 = n div 1024" using that div_le_mono [of n m 1024] less_mult_imp_div_less [of m] by fastforce
        then show ?thesis using 1 by (simp add: ppres_def ptn_def)
      qed
      with ih [OF Suc.prems(1) k] k show ?thesis
        unfolding wp_def dealloc_absent [OF pw n v 1]
        by (auto split: sum.splits intro!: dealloc_post_skip [of s d fs ?k ?e _ _ n])
    next
      case 2
      with ih [OF Suc.prems(1), of "Suc n"] n show ?thesis
        unfolding wp_def dealloc_empty [OF pw n v 2]
        by (auto split: sum.splits simp: le_less_Suc_eq intro!: dealloc_post_skip [of s d fs "Suc n" ?e _ _ n])
    next
      case 3
      with ih [OF dealloc_step(1) [OF Suc.prems(1) n], of "Suc n"] n show ?thesis
        unfolding wp_def dealloc_page [OF Suc.prems(1) n v 3]
        by (auto split: sum.splits intro!: dealloc_post_step [OF Suc.prems(1) n 3 less e])
    qed
  qed
qed simp

lemma deallocuvm_spec:
  assumes "as_wf s d fs" "newsz < oldsz" "oldsz \<le> KERNBASE"
  shows "wp (deallocuvm (kva d) oldsz newsz) (\<lambda>r t. r = newsz \<and>
    (\<exists>fs'. dealloc_post s d fs ((unat newsz + 4095) div 4096) ((unat oldsz + 4095) div 4096) t fs')) s"
proof -
  have b: "unat newsz < 2147483648" "unat oldsz \<le> 2147483648"
    using assms(2,3) by (simp_all add: KERNBASE_def word_le_nat_alt word_less_nat_alt)
  let ?n = "(unat newsz + 4095) div 4096"
  have n: "?n \<le> 524288" using b by simp
  have "unat (PGROUNDUP newsz) = unat (vaddr_of ?n)"
    using b n by (simp add: PGROUNDUP_nat vaddr_of_nat)
  then have "PGROUNDUP newsz = vaddr_of ?n" by (rule unsigned_word_eqI)
  moreover have "\<not> oldsz \<le> newsz" using assms(2) by simp
  ultimately show ?thesis
    using deallocuvm_loop_spec [OF assms(1) n b(2), of "2 ^ 20 + 1"] by (simp add: deallocuvm_def wp_rules)
qed

lemma freevm_entries_spec:
  assumes "free_rep s fs" "page_ok (kend s) d" "d \<notin> set fs"
    "\<forall>j \<in> set js. j < 1024 \<and> (pres s d j \<longrightarrow> page_ok (kend s) (tab s d j) \<and> tab s d j \<notin> set fs \<and> tab s d j \<noteq> d)"
    "\<forall>i \<in> set js. \<forall>j \<in> set js. pres s d i \<and> pres s d j \<and> tab s d i = tab s d j \<longrightarrow> i = j" "distinct js"
  shows "wp (for_each (freevm_entry (kva d)) js) (\<lambda>_ t. \<exists>fs'. free_rep t fs' \<and>
    set fs' = set fs \<union> {tab s d j |j. j \<in> set js \<and> pres s d j} \<and> kend t = kend s) s"
  using assms
proof (induction js arbitrary: s fs)
  case (Cons j js)
  have d: "d < 57344" using Cons.prems(2) by (simp add: page_ok_def)
  have "unat (word_of_nat j :: u32) = j" using Cons.prems(4) by (simp add: unat_of_nat)
  then have e: "kld (kva d + 4 * word_of_nat j) s = Inr (pde s d j, s)"
    using Cons.prems(4) kld_slot [OF d, of "word_of_nat j" s] by (simp add: pde_def)
  show ?case
  proof (cases "pres s d j")
    case False
    with Cons.prems have "wp (for_each (freevm_entry (kva d)) js) (\<lambda>_ t. \<exists>fs'. free_rep t fs' \<and>
      set fs' = set fs \<union> {tab s d i |i. i \<in> set js \<and> pres s d i} \<and> kend t = kend s) s"
      by (intro Cons.IH) auto
    moreover have "{tab s d i |i. i \<in> set (j # js) \<and> pres s d i} = {tab s d i |i. i \<in> set js \<and> pres s d i}"
      using False by auto
    moreover have "freevm_entry (kva d) j s = Inr ((), s)"
      using False e by (simp add: freevm_entry_def run_simps pres_def)
    ultimately show ?thesis by (simp add: wp_sq wp_run)
  next
    case True
    let ?f = "tab s d j" let ?t = "ufreed s (tab s d j)"
    have f: "page_ok (kend s) ?f" "?f \<notin> set fs" "?f \<noteq> d" using Cons.prems(4) True by auto
    have same: "pres ?t d = pres s d" "tab ?t d = tab s d" "kend ?t = kend s"
      using f(3) by (simp_all add: fun_eq_iff pres_def tab_def pde_def ufreed_def)
    have run: "freevm_entry (kva d) j s = Inr ((), ?t)"
      using e True kfree_run [OF Cons.prems(1) f(1)]
      by (simp add: freevm_entry_def run_simps PTE_ADDR_kva tab_def pres_def ufreed_def)
    have "wp (for_each (freevm_entry (kva d)) js) (\<lambda>_ u. \<exists>fs'. free_rep u fs' \<and>
      set fs' = set (?f # fs) \<union> {tab ?t d i |i. i \<in> set js \<and> pres ?t d i} \<and> kend u = kend ?t) ?t"
    proof (rule Cons.IH)
      show "free_rep ?t (?f # fs)" using free_rep_push [OF Cons.prems(1) f(1,2)] by (simp add: ufreed_def)
      show "\<forall>i \<in> set js. i < 1024 \<and> (pres ?t d i \<longrightarrow> page_ok (kend ?t) (tab ?t d i) \<and>
          tab ?t d i \<notin> set (?f # fs) \<and> tab ?t d i \<noteq> d)"
        unfolding same using Cons.prems(4,5,6) True by fastforce
    qed (use Cons.prems f same in auto)
    moreover have "{tab s d i |i. i \<in> set (j # js) \<and> pres s d i} =
        insert ?f {tab s d i |i. i \<in> set js \<and> pres s d i}" using True by auto
    ultimately show ?thesis using run by (auto simp: wp_sq wp_run same elim!: wp_mono)
  qed
qed (auto simp: wp_ret)

definition user_frames :: "phys \<Rightarrow> nat \<Rightarrow> nat set" where
  "user_frames s d = {uframe s d n |n. n < 524288 \<and> ppres s d n}"

text \<open>\<open>freevm\<close> gives the user pages, the page tables and the directory back to the free list.\<close>

lemma freevm_spec:
  assumes wf: "as_wf s d fs"
  shows "wp (freevm (kva d)) (\<lambda>_ t. \<exists>fs'. free_rep t fs' \<and>
    set fs' = set fs \<union> user_frames s d \<union> tables s d \<and> kend t = kend s) s"
proof -
  let ?J = "\<lambda>u. {tab u d j |j. j \<in> set [0 ..< 1024] \<and> pres u d j}"
  have d: "d < 57344" using wf by (auto simp: as_wf_def pt_wf_def page_ok_def)
  have rel: "released s d 0 524288 = user_frames s d" by (simp add: released_def user_frames_def)
  have dealloc: "wp (deallocuvm (kva d) KERNBASE 0) (\<lambda>_ t. \<exists>fs'. dealloc_post s d fs 0 524288 t fs') s"
    by (rule wp_mono [OF deallocuvm_spec [OF wf]]) (auto simp: KERNBASE_def)
  have rest: "wp (sq (for_each (freevm_entry (kva d)) [0 ..< 1024]) (kfree (kva d))) (\<lambda>_ t. \<exists>fs'. free_rep t fs' \<and>
    set fs' = set fs \<union> user_frames s d \<union> tables s d \<and> kend t = kend s) u"
    if post: "dealloc_post s d fs 0 524288 u gs" for u gs
  proof -
    have u: "pt_wf u d gs" "set gs = set fs \<union> user_frames s d" "tables u d = tables s d" "kend u = kend s"
      using post rel by (auto simp: dealloc_post_def as_wf_def)
    have tabs: "tables s d = insert d (?J u)" using u(3) by (auto simp: tables_def)
    have dn: "d \<notin> ?J u" using u(1) by (auto simp: pt_wf_def)
    have "wp (for_each (freevm_entry (kva d)) [0 ..< 1024]) (\<lambda>_ t. \<exists>fs'. free_rep t fs' \<and>
      set fs' = set gs \<union> ?J u \<and> kend t = kend u) u"
      using u(1) by (intro freevm_entries_spec) (auto simp: pt_wf_def)
    moreover have "wp (kfree (kva d)) (\<lambda>_ t. \<exists>fs'. free_rep t fs' \<and>
        set fs' = set fs \<union> user_frames s d \<union> tables s d \<and> kend t = kend s) v"
      if v: "free_rep v hs" "set hs = set gs \<union> ?J u" "kend v = kend u" for v hs
    proof (rule wp_mono [OF kfree_push_spec [OF v(1), of d]])
      show "page_ok (kend v) d" "d \<notin> set hs" using u(1) v dn by (auto simp: pt_wf_def)
    qed (use v u tabs in \<open>auto intro!: exI [of _ "d # hs"]\<close>)
    ultimately show ?thesis unfolding wp_sq by (elim wp_mono) blast
  qed
  have "kva d \<noteq> 0" by (rule kva_neq_0 [OF d])
  then show ?thesis using dealloc rest by (auto simp: freevm_def wp_sq [of "deallocuvm _ _ _"] elim!: wp_mono)
qed

section \<open>The kernel part of an address space\<close>

fun kpte :: "(u32 \<times> u32 \<times> u32 \<times> u32) list \<Rightarrow> (nat \<Rightarrow> u32) \<Rightarrow> nat \<Rightarrow> u32" where
  "kpte [] p = p"
| "kpte ((virt, pstart, pend, perm) # ks) p =
     kpte ks (\<lambda>j. if vpn virt \<le> j \<and> j \<le> (unat virt + unat (pend - pstart) - 1) div 4096
       then (pstart + word_of_nat (j - vpn virt) * PGSIZE) OR perm OR 1 else p j)"

lemma kpte_cong: "\<forall>j < n. p j = q j \<Longrightarrow> j < n \<Longrightarrow> kpte ks p j = kpte ks q j"
proof (induction ks arbitrary: p q)
  case (Cons k ks)
  obtain virt pstart pend perm where "k = (virt, pstart, pend, perm)" by (cases k)
  then show ?case by (simp, intro Cons.IH) (use Cons.prems in auto)
qed simp

fun kmap_ok :: "(u32 \<times> u32 \<times> u32 \<times> u32) list \<Rightarrow> bool" where
  "kmap_ok [] \<longleftrightarrow> True"
| "kmap_ok ((virt, pstart, pend, perm) # ks) \<longleftrightarrow> KERNBASE \<le> virt \<and> pstart \<noteq> pend \<and>
     unat virt + unat (pend - pstart) \<le> 2 ^ 32 \<and> kmap_ok ks"

lemma no_user_pages:
  assumes "pt_wf s d fs" "KERNBASE < kend s" "\<forall>n < 524288. ptn s d n = 0"
  shows "as_wf s d fs" "user_frames s d = {}"
  using assms by (auto simp: as_wf_def user_frames_def ppres_def)

lemma setupkvm_loop_spec:
  assumes "pt_wf s d fs" "KERNBASE < kend s" "\<forall>n < 524288. ptn s d n = 0" "kmap_ok ks"
  shows "wp (setupkvm_loop (kva d) ks) (\<lambda>r t.
    (r = kva d \<and> (\<exists>fs'. pt_ext d s fs t fs' \<and> (\<forall>j < 2 ^ 20. ptn t d j = kpte ks (ptn s d) j))) \<or>
    (r = 0 \<and> (\<exists>fs'. free_rep t fs' \<and> set fs' = set fs \<union> tables s d))) s"
  using assms
proof (induction ks arbitrary: s fs)
  case Nil
  then show ?case by (auto simp: wp_ret intro: pt_ext_refl)
next
  case (Cons k ks)
  obtain virt pstart pend perm where k: "k = (virt, pstart, pend, perm)" by (cases k)
  let ?Q = "\<lambda>r t. (r = kva d \<and> (\<exists>fs'. pt_ext d s fs t fs' \<and> (\<forall>j < 2 ^ 20. ptn t d j = kpte (k # ks) (ptn s d) j))) \<or>
    (r = 0 \<and> (\<exists>fs'. free_rep t fs' \<and> set fs' = set fs \<union> tables s d))"
  let ?e = "(unat virt + unat (pend - pstart) - 1) div 4096" let ?k = "?e - vpn virt"
  have ok: "0 < pend - pstart" "unat virt + unat (pend - pstart) \<le> 2 ^ 32" "kmap_ok ks" "KERNBASE \<le> virt"
    using Cons.prems(4) by (auto simp: k word_gt_0)
  have "0 < unat (pend - pstart)" using ok(1) by (simp add: word_less_nat_alt)
  then have le: "vpn virt \<le> ?e" unfolding vpn_def by (intro div_le_mono) simp
  have hi: "524288 \<le> vpn virt" using ok(4) unfolding vpn_def
    by (intro div_le_mono [of 2147483648 _ 4096, simplified]) (simp add: KERNBASE_def word_le_nat_alt)
  have "wp (if r < 0 then sq (freevm (kva d)) (ret 0) else setupkvm_loop (kva d) ks) ?Q t"
    if post: "pt_ext d s fs t fs'" "r = 0 \<and> m = ?k + 1 \<or> r = -1 \<and> m \<le> ?k \<and> fs' = []"
      and ptn: "\<forall>j < 2 ^ 20. ptn t d j = (if vpn virt \<le> j \<and> j < vpn virt + m
         then (pstart + word_of_nat (j - vpn virt) * PGSIZE) OR perm OR 1 else ptn s d j)" for r :: int and t m fs'
  proof -
    have t: "pt_wf t d fs'" "KERNBASE < kend t" "\<forall>n < 524288. ptn t d n = 0"
      using post(1) Cons.prems hi ptn by (auto simp: pt_ext_def)
    obtain us where us: "fs = us @ fs'" "tables t d = tables s d \<union> set us" using post(1) by (auto simp: pt_ext_def)
    show ?thesis
    proof (cases "r = 0")
      case True
      then have "m = ?k + 1" using post(2) by simp
      then have m: "vpn virt + m = Suc ?e" using le by simp
      have kp: "kpte ks (ptn t d) j = kpte (k # ks) (ptn s d) j" if "j < 2 ^ 20" for j
        unfolding k kpte.simps by (rule kpte_cong [OF _ that]) (use ptn m in \<open>simp add: less_Suc_eq_le\<close>)
      have "wp (setupkvm_loop (kva d) ks) ?Q t"
        by (rule wp_mono [OF Cons.IH [OF t ok(3)]]) (use pt_ext_trans [OF post(1)] kp us in auto)
      with True show ?thesis by simp
    next
      case False
      then have "set fs = set us" "fs' = []" using post(2) us by auto
      then have "wp (sq (freevm (kva d)) (ret 0)) ?Q t"
        unfolding wp_sq wp_ret
        by (intro wp_mono [OF freevm_spec [OF no_user_pages(1) [OF t]]]) (use us no_user_pages(2) [OF t] in auto)
      with False post(2) show ?thesis by simp
    qed
  qed
  then have "wp (mappages (kva d) virt (pend - pstart) pstart perm 1)
      (\<lambda>r t. wp (if r < 0 then sq (freevm (kva d)) (ret 0) else setupkvm_loop (kva d) ks) ?Q t) s"
    by (intro wp_mono [OF mappages_spec [OF Cons.prems(1) ok(1,2)]]) blast
  then show ?case by (simp add: k wp_bnd)
qed

lemma fresh_dir:
  assumes "free_rep s (d # fs)"
  defines "t \<equiv> s\<lparr>freelist := ld32 (pmem s d) 0, pmem := (pmem s)(d := (\<lambda>_. 0))\<rparr>"
  shows "pt_wf t d fs" "tables t d = {d}" "ptn t d n = 0"
proof -
  have p: "\<not> pres t d i" for i by (simp add: pres_def pde_def t_def)
  have "fchain ((pmem s)(d := (\<lambda>_. 0))) v fs = fchain (pmem s) v fs" for v
    using assms(1) by (intro fchain_cong) (auto simp: free_rep_def)
  then have "free_rep t fs" using assms(1) by (simp add: free_rep_def t_def)
  then show "pt_wf t d fs" using assms(1) by (simp add: pt_wf_def p) (simp add: free_rep_def t_def)
  show "tables t d = {d}" "ptn t d n = 0" by (simp_all add: tables_def ptn_def p)
qed

definition data_ok :: "u32 \<Rightarrow> bool" where
  "data_ok data \<longleftrightarrow> data AND 0xFFF = 0 \<and> KERNLINK < data \<and> data < P2V PHYSTOP"

lemma kmap_fits: "data_ok data \<Longrightarrow> kmap_ok (kmap data)"
proof -
  assume "data_ok data"
  then have d: "0x80100000 < unat data" "unat data < 0x8E000000"
    by (simp_all add: data_ok_def mmu_defs word_less_nat_alt)
  have "unat (0xE000000 - V2P data) = 0x8E000000 - unat data"
    "unat (V2P data - V2P KERNLINK) = unat data - 0x80100000"
    using d by (simp_all add: mmu_defs unat_word_ariths unat_sub word_le_nat_alt)
  moreover have "V2P data \<noteq> V2P KERNLINK" "V2P data \<noteq> 0xE000000"
    using d by (auto simp: mmu_defs)
  ultimately show ?thesis using d by (simp add: kmap_def mmu_defs word_le_nat_alt)
qed

lemma page_aligned: "a AND 0xFFF = 0 \<Longrightarrow> unat a = vpn a * 4096"
  using unat_and_mask [of a 12] by (simp add: mask_12 vpn_def mod_0_imp_dvd)

lemma pa_advance:
  assumes "a AND 0xFFF = 0" "vpn a \<le> j"
  shows "a + word_of_nat (j - vpn a) * PGSIZE = word_of_nat (j * 4096)"
proof -
  have "(word_of_nat (j * 4096) :: u32) = word_of_nat (unat a + (j - vpn a) * 4096)"
    using assms(2) by (simp add: page_aligned [OF assms(1)] flip: add_mult_distrib)
  then show ?thesis by (simp add: PGSIZE_def)
qed

lemma va_advance:
  assumes "a AND 0xFFF = 0" "vpn a \<le> 524288 + f"
  shows "V2P a + word_of_nat (524288 + f - vpn a) * PGSIZE = word_of_nat (f * 4096)"
proof -
  have "a + word_of_nat (524288 + f - vpn a) * PGSIZE = 0x80000000 + word_of_nat (f * 4096)"
    using pa_advance [OF assms] by simp
  then show ?thesis by (simp add: V2P_def KERNBASE_def algebra_simps)
qed

lemma kpte_kmap:
  assumes "data_ok data"
  shows "kpte (kmap data) p j =
    (if 0xFE000 \<le> j \<and> j \<le> 0xFFFFF then DEVSPACE + word_of_nat (j - vpn DEVSPACE) * PGSIZE OR PTE_W OR 1
     else if vpn data \<le> j \<and> j \<le> 0x8DFFF then V2P data + word_of_nat (j - vpn data) * PGSIZE OR PTE_W OR 1
     else if 0x80100 \<le> j \<and> j < vpn data then V2P KERNLINK + word_of_nat (j - vpn KERNLINK) * PGSIZE OR 0 OR 1
     else if 0x80000 \<le> j \<and> j \<le> 0x800FF then V2P KERNBASE + word_of_nat (j - vpn KERNBASE) * PGSIZE OR PTE_W OR 1
     else p j)"
proof -
  have d: "0x80100000 < unat data" "unat data < 0x8E000000" "data AND 0xFFF = 0"
    using assms by (simp_all add: data_ok_def mmu_defs word_less_nat_alt)
  note al = page_aligned [OF d(3)]
  have D: "0x80100 < vpn data" using d(1) al by simp
  have sz: "unat (PHYSTOP - V2P data) = 0x8E000000 - unat data"
    "unat (V2P data - V2P KERNLINK) = unat data - 0x80100000"
    using d by (simp_all add: mmu_defs unat_word_ariths unat_sub word_le_nat_alt)
  have "unat data - 1 = (vpn data - 1) * 4096 + 4095" using al D by (cases "vpn data") auto
  then have pre: "(unat data - 1) div 4096 = vpn data - 1" by simp
  have ends: "(unat KERNBASE + unat (EXTMEM - 0) - 1) div 4096 = 0x800FF"
    "(unat KERNLINK + unat (V2P data - V2P KERNLINK) - 1) div 4096 = vpn data - 1"
    "(unat data + unat (PHYSTOP - V2P data) - 1) div 4096 = 0x8DFFF"
    "(unat DEVSPACE + unat (0 - DEVSPACE) - 1) div 4096 = 0xFFFFF"
    using d(1,2) pre unfolding sz by (simp_all add: mmu_defs)
  have vp: "vpn KERNBASE = 524288" "vpn KERNLINK = 524544" "vpn DEVSPACE = 1040384" "V2P KERNBASE = 0"
    by (simp_all add: vpn_def mmu_defs)
  have "j \<le> vpn data - 1 \<longleftrightarrow> j < vpn data" using D by auto
  then show ?thesis
    unfolding kmap_def kpte.simps ends unfolding vp by simp
qed

text \<open>The kernel sees physical page \<open>f\<close> at \<open>KERNBASE + f * 4096\<close>, without user access, and writable except
  for the kernel text and read-only data; devices are mapped to themselves.\<close>

lemma kmap_entry:
  assumes "data_ok data"
  shows "f < 57344 \<Longrightarrow> kpte (kmap data) (\<lambda>_. 0) (524288 + f) =
      word_of_nat (f * 4096) OR (if 256 \<le> f \<and> 524288 + f < vpn data then 0 else PTE_W) OR 1"
    "j < 524288 \<Longrightarrow> kpte (kmap data) (\<lambda>_. 0) j = 0"
    "1040384 \<le> j \<Longrightarrow> j < 1048576 \<Longrightarrow> kpte (kmap data) (\<lambda>_. 0) j = word_of_nat (j * 4096) OR PTE_W OR 1"
proof -
  have al: "data AND 0xFFF = 0" "KERNBASE AND 0xFFF = 0" "KERNLINK AND 0xFFF = 0" "DEVSPACE AND 0xFFF = 0"
    using assms by (simp_all add: data_ok_def mmu_defs)
  have vp: "vpn KERNBASE = 524288" "vpn KERNLINK = 524544" "vpn DEVSPACE = 1040384"
    by (simp_all add: vpn_def mmu_defs)
  have "0x80100000 < unat data" using assms by (simp add: data_ok_def mmu_defs word_less_nat_alt)
  then have D: "0x80100 < vpn data" using page_aligned [OF al(1)] by simp
  show "f < 57344 \<Longrightarrow> kpte (kmap data) (\<lambda>_. 0) (524288 + f) =
      word_of_nat (f * 4096) OR (if 256 \<le> f \<and> 524288 + f < vpn data then 0 else PTE_W) OR 1"
    unfolding kpte_kmap [OF assms]
    using D va_advance [OF al(1), of f] va_advance [OF al(2), of f] va_advance [OF al(3), of f]
    by (simp add: vp del: of_nat_mult of_nat_add of_nat_diff)
  show "j < 524288 \<Longrightarrow> kpte (kmap data) (\<lambda>_. 0) j = 0"
    unfolding kpte_kmap [OF assms] using D by simp
  show "1040384 \<le> j \<Longrightarrow> j < 1048576 \<Longrightarrow> kpte (kmap data) (\<lambda>_. 0) j = word_of_nat (j * 4096) OR PTE_W OR 1"
    unfolding kpte_kmap [OF assms] using pa_advance [OF al(4), of j] by (simp add: vp)
qed

lemma setupkvm_spec:
  assumes free: "free_rep s fs" and k: "KERNBASE < kend s" "data_ok (kdata s)"
  shows "wp setupkvm (\<lambda>r t.
    (\<exists>d fs'. r = kva d \<and> d \<in> set fs \<and> as_wf t d fs' \<and> set fs = set fs' \<union> tables t d \<and>
       (\<forall>j < 2 ^ 20. ptn t d j = kpte (kmap (kdata s)) (\<lambda>_. 0) j)) \<or>
    (r = 0 \<and> (\<exists>fs'. free_rep t fs' \<and> set fs' = set fs))) s"
proof (cases fs)
  case Nil
  with free kalloc0_none [of s] show ?thesis by (auto simp: setupkvm_def wp_rules wp_run)
next
  case (Cons d fs0)
  let ?t = "s\<lparr>freelist := ld32 (pmem s d) 0, pmem := (pmem s)(d := (\<lambda>_. 0))\<rparr>"
  have r: "free_rep s (d # fs0)" using free Cons by simp
  then have d: "d < 57344" by (simp add: free_rep_def page_ok_def)
  note fresh = fresh_dir [OF r]
  have run: "setupkvm s = setupkvm_loop (kva d) (kmap (kdata s)) ?t"
    using kalloc0_some [OF r] d
    by (simp add: setupkvm_def run_simps kva_neq_0 memset_page_def) (simp add: mmu_defs)
  have "wp (setupkvm_loop (kva d) (kmap (kdata s))) (\<lambda>r u.
    (r = kva d \<and> (\<exists>fs'. pt_ext d ?t fs0 u fs' \<and> (\<forall>j < 2 ^ 20. ptn u d j = kpte (kmap (kdata s)) (ptn ?t d) j))) \<or>
    (r = 0 \<and> (\<exists>fs'. free_rep u fs' \<and> set fs' = set fs0 \<union> tables ?t d))) ?t"
    using fresh k by (intro setupkvm_loop_spec kmap_fits) auto
  moreover have "ptn ?t d = (\<lambda>_. 0)" using fresh(3) by auto
  moreover have "as_wf u d fs' \<and> set fs = set fs' \<union> tables u d"
    if "pt_ext d ?t fs0 u fs'" "\<forall>j < 2 ^ 20. ptn u d j = kpte (kmap (kdata s)) (\<lambda>_. 0) j" for u fs'
  proof
    show "as_wf u d fs'" using that k kmap_entry(2) [OF k(2)] by (intro no_user_pages) (auto simp: pt_ext_def)
    show "set fs = set fs' \<union> tables u d" using that(1) Cons fresh(2) by (auto simp: pt_ext_def)
  qed
  ultimately have "wp (setupkvm_loop (kva d) (kmap (kdata s))) (\<lambda>r t.
    (\<exists>d fs'. r = kva d \<and> d \<in> set fs \<and> as_wf t d fs' \<and> set fs = set fs' \<union> tables t d \<and>
       (\<forall>j < 2 ^ 20. ptn t d j = kpte (kmap (kdata s)) (\<lambda>_. 0) j)) \<or>
    (r = 0 \<and> (\<exists>fs'. free_rep t fs' \<and> set fs' = set fs))) ?t"
    using Cons fresh(2) by (elim wp_mono) (metis Un_insert_right sup_bot_right list.set(2) list.set_intros(1))
  then show ?thesis by (simp add: wp_def run)
qed

section \<open>Access to the pages of a process\<close>

lemma walk_mapped:
  assumes "pt_wf s d fs" "ptn s d (vpn va) \<noteq> 0"
  shows "walkpgdir (kva d) va al s = Inr (kva (tab s d (vpn va div 1024)) + 4 * PTX va, s)"
    "kva (tab s d (vpn va div 1024)) + 4 * PTX va \<noteq> 0" "pres s d (vpn va div 1024)"
proof -
  show dir: "pres s d (vpn va div 1024)" using assms(2) by (auto simp: ptn_def split: if_splits)
  show "walkpgdir (kva d) va al s = Inr (kva (tab s d (vpn va div 1024)) + 4 * PTX va, s)"
    by (rule walk_present [OF assms(1) dir])
  show "kva (tab s d (vpn va div 1024)) + 4 * PTX va \<noteq> 0"
    using pt_wf_bounds(4) [OF assms(1) vpn_div dir] PTX_less by (intro slot_frame(4))
qed

lemma demappages_run:
  assumes "pt_wf s d fs" "ptn s d (vpn va) \<noteq> 0"
  shows "demappages_swap_out (kva d) va s = Inr (0, set_pte s d (vpn va) (ptn s d (vpn va) AND NOT PTE_P))"
  using walk_mapped [OF assms] get_pte_run [OF assms(1)] set_pte_run [OF assms(1)]
  by (simp add: demappages_swap_out_def run_simps)

lemma clearpteu_run:
  assumes "pt_wf s d fs" "ptn s d (vpn va) \<noteq> 0"
  shows "clearpteu (kva d) va s = Inr ((), set_pte s d (vpn va) (ptn s d (vpn va) AND NOT PTE_U))"
  using walk_mapped [OF assms] get_pte_run [OF assms(1)] set_pte_run [OF assms(1)]
  by (simp add: clearpteu_def run_simps)

text \<open>\<open>read_vaddr\<close> answers for every entry that is not zero, whether or not the page is present.\<close>

lemma read_vaddr_run:
  assumes "pt_wf s d fs"
  shows "read_vaddr (kva d) va s =
    Inr (if ptn s d (vpn va) = 0 then None else Some (pmem s (uframe s d (vpn va))), s)"
proof -
  have fr: "frame_of (PTE_ADDR e) = frame_of e" for e by (simp add: frame_of_nat PTE_ADDR_nat)
  show ?thesis
  proof (cases "pres s d (vpn va div 1024)")
    case True
    then have "kva (tab s d (vpn va div 1024)) + 4 * PTX va \<noteq> 0"
      using pt_wf_bounds(4) [OF assms vpn_div True] PTX_less by (intro slot_frame(4))
    then show ?thesis
      using walk_present [OF assms True] get_pte_run [OF assms True] by (simp add: read_vaddr_def run_simps fr uframe_def)
  next
    case False
    then show ?thesis using walk_absent [OF assms False] by (simp add: read_vaddr_def run_simps ptn_def)
  qed
qed

lemma uva2ka_run:
  assumes "pt_wf s d fs" "ptn s d (vpn va) \<noteq> 0"
  shows "uva2ka (kva d) va s = Inr (if ptn s d (vpn va) AND PTE_P = 0 \<or> ptn s d (vpn va) AND PTE_U = 0 then 0
    else kva (uframe s d (vpn va)), s)"
  using walk_mapped [OF assms] get_pte_run [OF assms(1)]
  by (simp add: uva2ka_def run_simps PTE_ADDR_kva uframe_def)

text \<open>Bytes written into one page.\<close>

definition overlay :: "page \<Rightarrow> nat \<Rightarrow> u8 list \<Rightarrow> page" where
  "overlay p i bs = (\<lambda>j. if i \<le> j \<and> j < i + length bs then bs ! (j - i) else p j)"

lemma overlay_Cons: "overlay (p(i := b)) (Suc i) bs = overlay p i (b # bs)"
  by (auto simp: overlay_def fun_eq_iff nth_Cons' Suc_diff_le)

lemma overlay_Nil [simp]: "overlay p i [] = p"
  by (auto simp: overlay_def fun_eq_iff)

lemma byte_addr:
  assumes "f < 57344" "i < 4096"
  shows "frame_of (V2P (kva f + word_of_nat i)) = f" "unat (kva f + word_of_nat i AND 0xFFF) = i"
    "\<not> kva f + word_of_nat i < KERNBASE"
proof -
  have i: "unat (word_of_nat i :: u32) = i" using assms(2) by (simp add: unat_of_nat)
  then have a: "unat (kva f + word_of_nat i) = 2147483648 + f * 4096 + i"
    using assms kva_nat [of f] by (simp add: unat_word_ariths)
  then show k: "\<not> kva f + word_of_nat i < KERNBASE" by (simp add: word_less_nat_alt KERNBASE_def)
  then have "unat (V2P (kva f + word_of_nat i)) = f * 4096 + i" using a by (simp add: V2P_nat)
  then show "frame_of (V2P (kva f + word_of_nat i)) = f" using assms by (simp add: frame_of_nat)
  have "2147483648 + f * 4096 + i = i + (524288 + f) * 4096" by simp
  then have "(2147483648 + f * 4096 + i) mod 4096 = i" using assms(2) by (simp only: mod_mult_self1) simp
  then show "unat (kva f + word_of_nat i AND 0xFFF) = i" unfolding mask_12 unat_and_mask a by simp
qed

lemma kwrite_run:
  "f < 57344 \<Longrightarrow> i + length bs \<le> 4096 \<Longrightarrow>
   kwrite (kva f + word_of_nat i) bs s = Inr ((), s\<lparr>pmem := (pmem s)(f := overlay (pmem s f) i bs)\<rparr>)"
proof (induction bs arbitrary: i s)
  case Nil
  then show ?case by (simp add: run_simps)
next
  case (Cons b bs)
  let ?u = "s\<lparr>pmem := (pmem s)(f := (pmem s f)(i := b))\<rparr>"
  have step: "kstb (kva f + word_of_nat i) b s = Inr ((), ?u)"
    using Cons.prems byte_addr [of f i] by (simp add: kstb_def at_kaddr_def run_simps)
  have addr: "kva f + word_of_nat i + 1 = kva f + word_of_nat (Suc i)" by simp
  have ih: "kwrite (kva f + word_of_nat (Suc i)) bs ?u =
      Inr ((), ?u\<lparr>pmem := (pmem ?u)(f := overlay (pmem ?u f) (Suc i) bs)\<rparr>)"
    using Cons.prems by (intro Cons.IH) auto
  have eq: "?u\<lparr>pmem := (pmem ?u)(f := overlay (pmem ?u f) (Suc i) bs)\<rparr> =
      s\<lparr>pmem := (pmem s)(f := overlay (pmem s f) i (b # bs))\<rparr>"
    by (rule phys.equality) (auto simp: fun_eq_iff simp flip: overlay_Cons)
  show ?case unfolding kwrite.simps sq_run step sum.case prod.case addr ih eq ..
qed

text \<open>The byte that user code of the address space reads at address \<open>a\<close>, and the pages it may access.\<close>

definition ubyte :: "phys \<Rightarrow> nat \<Rightarrow> nat \<Rightarrow> u8" where
  "ubyte s d a = pmem s (uframe s d (a div 4096)) (a mod 4096)"

definition uaccess :: "phys \<Rightarrow> nat \<Rightarrow> nat \<Rightarrow> bool" where
  "uaccess s d n \<longleftrightarrow> ppres s d n \<and> ptn s d n AND PTE_U \<noteq> 0"

lemma next_page: "a + (4096 - a mod 4096) = Suc (a div 4096) * (4096 :: nat)"
proof -
  have "q * 4096 + r + (4096 - r) = Suc q * 4096" if "r < 4096" for q r :: nat using that by simp
  from this [of "a mod 4096" "a div 4096"] show ?thesis by simp
qed

lemma same_page:
  assumes "b div 4096 = a div (4096 :: nat)"
  shows "b mod 4096 - a mod 4096 = b - a \<and> (a mod 4096 \<le> b mod 4096 \<longleftrightarrow> a \<le> b) \<and>
    (b mod 4096 < a mod 4096 + n \<longleftrightarrow> b < a + n)"
proof -
  obtain q r u where "a = q + r" "b = q + u" "r = a mod 4096" "u = b mod 4096"
    using assms by (metis div_mult_mod_eq)
  then show ?thesis by (metis add_diff_cancel_left nat_add_left_cancel_le nat_add_left_cancel_less add.assoc)
qed

lemma other_page:
  assumes "a \<le> b" "b < a + n" "a mod 4096 + n \<le> (4096 :: nat)"
  shows "b div 4096 = a div 4096"
proof (rule div_nat_eqI)
  show "4096 * (a div 4096) \<le> b" using assms(1) by (meson le_trans times_div_less_eq_dividend)
  have "a + n \<le> a + (4096 - a mod 4096)" using assms(3) by simp
  then show "b < 4096 * Suc (a div 4096)" using assms(2) next_page [of a] by (simp only: mult.commute)
qed

lemma copyout_page:
  assumes wf: "as_wf s d fs" and a: "a < 2147483648" "uaccess s d (a div 4096)"
    and len: "a mod 4096 + length bs \<le> 4096"
  defines "f \<equiv> uframe s d (a div 4096)"
  defines "t \<equiv> s\<lparr>pmem := (pmem s)(f := overlay (pmem s f) (a mod 4096) bs)\<rparr>"
  shows "as_wf t d fs" "m < 2 ^ 20 \<Longrightarrow> ptn t d m = ptn s d m"
    "b < 2147483648 \<Longrightarrow> ppres s d (b div 4096) \<Longrightarrow>
     ubyte t d b = (if a \<le> b \<and> b < a + length bs then bs ! (b - a) else ubyte s d b)"
proof -
  have n: "a div 4096 < 524288" using a(1) by simp
  have f: "f \<notin> set fs" "f \<notin> tables s d" using wf a(2) n by (auto simp: as_wf_def f_def uaccess_def)
  have c: "\<forall>g \<in> tables s d. pmem t g = pmem s g" using f(2) by (auto simp: t_def)
  show ptn: "ptn t d m = ptn s d m" if "m < 2 ^ 20" for m by (rule pmem_cong(5) [OF c that])
  then have pp: "ppres t d m = ppres s d m" "uframe t d m = uframe s d m" if "m < 524288" for m
    using that by (simp_all add: ppres_def uframe_def)
  have "fchain (pmem t) v fs = fchain (pmem s) v fs" for v
    using f(1) by (intro fchain_cong) (auto simp: t_def)
  then have "free_rep t fs" using wf by (simp add: as_wf_def pt_wf_def free_rep_def) (simp add: t_def)
  moreover have "kend t = kend s" by (simp add: t_def)
  ultimately show "as_wf t d fs" using wf by (simp add: as_wf_def pt_wf_def pmem_cong [OF c] pp)
  assume b: "b < 2147483648" "ppres s d (b div 4096)"
  then have bn: "b div 4096 < 524288" by simp
  show "ubyte t d b = (if a \<le> b \<and> b < a + length bs then bs ! (b - a) else ubyte s d b)"
  proof (cases "b div 4096 = a div 4096")
    case True
    with same_page [OF True, of "length bs"] show ?thesis unfolding ubyte_def pp(2) [OF bn] by (simp add: t_def f_def overlay_def)
  next
    case False
    have "uframe s d (b div 4096) \<noteq> f"
      using wf a(2) b(2) n bn False by (auto simp: as_wf_def f_def uaccess_def)
    moreover have "\<not> (a \<le> b \<and> b < a + length bs)"
      using False len other_page [of a b "length bs"] by auto
    ultimately show ?thesis unfolding ubyte_def pp(2) [OF bn] by (auto simp: t_def)
  qed
qed

lemma page_split:
  assumes "a < 2147483648"
  shows "PGROUNDDOWN (word_of_nat a) = vaddr_of (a div 4096)" "vpn (word_of_nat a) = a div 4096"
    "(word_of_nat a :: u32) - vaddr_of (a div 4096) = word_of_nat (a mod 4096)"
    "unat (PGSIZE - word_of_nat (a mod 4096)) = 4096 - a mod 4096"
proof -
  have a: "unat (word_of_nat a :: u32) = a" using assms by (simp add: unat_of_nat)
  then show v: "vpn (word_of_nat a) = a div 4096" by (simp add: vpn_def)
  then show "PGROUNDDOWN (word_of_nat a) = vaddr_of (a div 4096)" by (simp add: PGROUNDDOWN_vpn)
  have "(word_of_nat a :: u32) = word_of_nat (a div 4096 * 4096 + a mod 4096)" by simp
  then show "(word_of_nat a :: u32) - vaddr_of (a div 4096) = word_of_nat (a mod 4096)"
    unfolding vaddr_of_def by (metis add_diff_cancel_left' of_nat_add)
  have m: "a mod 4096 < 4096" by simp
  then have "PGSIZE - word_of_nat (a mod 4096) = word_of_nat (4096 - a mod 4096)"
    by (simp add: PGSIZE_def of_nat_diff)
  moreover have "unat (word_of_nat (4096 - a mod 4096) :: u32) = 4096 - a mod 4096"
    unfolding unat_of_nat by simp
  ultimately show "unat (PGSIZE - word_of_nat (a mod 4096)) = 4096 - a mod 4096" by simp
qed

definition copied :: "phys \<Rightarrow> nat \<Rightarrow> nat list \<Rightarrow> nat \<Rightarrow> u8 list \<Rightarrow> phys \<Rightarrow> bool" where
  "copied s d fs a buf t \<longleftrightarrow> as_wf t d fs \<and> (\<forall>m < 2 ^ 20. ptn t d m = ptn s d m) \<and>
     (\<forall>b < 2147483648. ppres s d (b div 4096) \<longrightarrow>
        ubyte t d b = (if a \<le> b \<and> b < a + length buf then buf ! (b - a) else ubyte s d b))"

lemma copied_append:
  assumes "copied s d fs a bs t" "copied t d fs (a + length bs) cs u"
  shows "copied s d fs a (bs @ cs) u"
proof -
  have "ubyte u d b = (if a \<le> b \<and> b < a + length (bs @ cs) then (bs @ cs) ! (b - a) else ubyte s d b)"
    if b: "b < 2147483648" "ppres s d (b div 4096)" for b
  proof -
    have "b div 4096 < 2 ^ 20" using b(1) by simp
    then have "ppres t d (b div 4096)" using assms(1) b(2) by (simp add: copied_def ppres_def)
    then have "ubyte u d b = (if a + length bs \<le> b \<and> b < a + length bs + length cs then cs ! (b - (a + length bs)) else ubyte t d b)"
      using assms(2) b(1) by (simp add: copied_def)
    moreover have "ubyte t d b = (if a \<le> b \<and> b < a + length bs then bs ! (b - a) else ubyte s d b)"
      using assms(1) b by (simp add: copied_def)
    ultimately show ?thesis by (auto simp: nth_append)
  qed
  with assms show ?thesis by (simp add: copied_def)
qed

lemma copyout_loop_spec:
  assumes "as_wf s d fs" "a + length buf \<le> 2147483648" "length buf < fuel"
    "\<forall>n. a div 4096 \<le> n \<and> n * 4096 < a + length buf \<longrightarrow> uaccess s d n"
  shows "wp (copyout_loop fuel (kva d) (word_of_nat a) buf) (\<lambda>r t. r = 0 \<and> copied s d fs a buf t) s"
  using assms
proof (induction fuel arbitrary: a buf s)
  case (Suc k)
  show ?case
  proof (cases "buf = []")
    case True
    with Suc.prems(1) show ?thesis by (auto simp: copyout_loop.simps(2) wp_ret copied_def)
  next
    case False
    then have a: "a < 2147483648" using Suc.prems(2) by (cases buf) auto
    let ?n = "a div 4096" let ?f = "uframe s d (a div 4096)"
    let ?l = "min (4096 - a mod 4096) (length buf)"
    define bs t where "bs = take ?l buf" and "t = s\<lparr>pmem := (pmem s)(?f := overlay (pmem s ?f) (a mod 4096) bs)\<rparr>"
    have "?n * 4096 < a + length buf" using False div_times_less_eq_dividend [of a 4096] by (cases buf) (simp_all add: le_imp_less_Suc trans_le_add1)
    then have acc: "uaccess s d ?n" using Suc.prems(4) by simp
    have pw: "pt_wf s d fs" and f: "?f < 57344"
      using Suc.prems(1) a acc by (auto simp: as_wf_def uaccess_def page_ok_def)
    have vn: "vpn (vaddr_of ?n) = ?n" using a by (intro vpn_vaddr_of) simp
    have "ptn s d ?n \<noteq> 0" using acc by (auto simp: uaccess_def ppres_def)
    then have ka: "uva2ka (kva d) (vaddr_of ?n) s = Inr (kva ?f, s)"
      using uva2ka_run [OF pw, of "vaddr_of ?n"] acc by (simp add: vn uaccess_def ppres_def)
    have w: "kwrite (kva ?f + word_of_nat (a mod 4096)) bs s = Inr ((), t)"
      unfolding t_def using f by (intro kwrite_run) (simp_all add: bs_def)
    have len: "a mod 4096 + length bs \<le> 4096" by (simp add: bs_def)
    note page = copyout_page [OF Suc.prems(1) a acc len, folded t_def]
    have c1: "copied s d fs a bs t" unfolding copied_def using page by simp
    have "wp (copyout_loop k (kva d) (vaddr_of (Suc ?n)) (drop ?l buf)) (\<lambda>r u. r = 0 \<and> copied s d fs a buf u) t"
    proof (cases "length buf \<le> 4096 - a mod 4096")
      case True
      with c1 Suc.prems(3) False show ?thesis
        by (cases k) (auto simp: copyout_loop.simps(2) wp_ret bs_def)
    next
      case more: False
      then have l: "?l = 4096 - a mod 4096" by simp
      have lt: "length bs = 4096 - a mod 4096" using more by (simp add: bs_def)
      have nx: "a + length bs = Suc ?n * 4096" unfolding lt by (rule next_page)
      have "wp (copyout_loop k (kva d) (word_of_nat (Suc ?n * 4096)) (drop ?l buf))
          (\<lambda>r u. r = 0 \<and> copied t d fs (Suc ?n * 4096) (drop ?l buf) u) t"
      proof (rule Suc.IH [OF page(1)])
        show "Suc ?n * 4096 + length (drop ?l buf) \<le> 2147483648" using Suc.prems(2) nx more by (simp add: l)
        show "length (drop ?l buf) < k" using Suc.prems(3) more by (simp add: l)
        have "uaccess t d m = uaccess s d m" if "m * 4096 < a + length buf" for m
          using page(2) [of m] that Suc.prems(2) by (simp add: uaccess_def ppres_def)
        then show "\<forall>m. Suc ?n * 4096 div 4096 \<le> m \<and> m * 4096 < Suc ?n * 4096 + length (drop ?l buf) \<longrightarrow> uaccess t d m"
          using Suc.prems(4) nx more by (auto simp: l)
      qed
      then show ?thesis
        unfolding vaddr_of_def
        by (rule wp_mono) (use copied_append [OF c1, of "drop ?l buf"] nx in \<open>simp add: bs_def\<close>)
    qed
    then show ?thesis
      using False ka w [unfolded bs_def] kva_neq_0 [OF f]
      by (simp add: copyout_loop.simps(2) Let_def page_split [OF a] wp_bnd wp_sq wp_run vaddr_of_Suc)
  qed
qed simp

text \<open>A small address space for concrete checks: directory in frame 400, one table in frame 300, and page 0
  mapped to frame 200 with user access.\<close>

definition user_one :: phys where
  "user_one = phys_zero\<lparr>pmem := (\<lambda>_ _. 0)(400 := st32 (\<lambda>_. 0) (4 * 0) (word_of_nat (300 * 4096) OR 7),
     300 := st32 (\<lambda>_. 0) (4 * 0) (word_of_nat (200 * 4096) OR 7)), kend := 0x80010000\<rparr>"

lemma ld32_slot0: "ld32 (st32 p 0 x) (4 * j) = (if j = 0 then x else ld32 p (4 * j))"
  using ld32_slot [of p 0 x j] by auto

lemma user_one_dir: "pres user_one 400 i \<longleftrightarrow> i = 0" "tab user_one 400 0 = 300"
  by (simp_all add: pres_def tab_def pde_def user_one_def ld32_slot0 [of _ _ 0, simplified] ld32_slot0 PTE_P_def frame_of_nat)

lemma user_one_ptn: "ptn user_one 400 n = (if n = 0 then word_of_nat (200 * 4096) OR 7 else 0)"
proof (cases "n div 1024 = 0")
  case True
  then have "n mod 1024 = n" by (simp add: div_eq_0_iff)
  with True show ?thesis
    unfolding ptn_def user_one_dir using user_one_dir(2)
    by (simp add: user_one_dir) (simp add: user_one_def ld32_slot0)
next
  case False
  then show ?thesis by (auto simp: ptn_def user_one_dir)
qed

lemma user_one_wf: "as_wf user_one 400 []" "uaccess user_one 400 n \<longleftrightarrow> n = 0"
    "tables user_one 400 = {400, 300}" "user_frames user_one 400 = {200}"
proof -
  have page: "ppres user_one 400 n \<longleftrightarrow> n = 0" "uframe user_one 400 0 = 200" for n
    by (simp_all add: ppres_def uframe_def user_one_ptn PTE_P_def frame_of_nat)
  show t: "tables user_one 400 = {400, 300}" by (auto simp: tables_def user_one_dir)
  have "free_rep user_one []" "kend user_one = 0x80010000" by (simp_all add: free_rep_def user_one_def phys_zero_def)
  then show "as_wf user_one 400 []"
    by (auto simp: as_wf_def pt_wf_def user_one_dir page t page_ok_def kva_def P2V_def KERNBASE_def)
  show "uaccess user_one 400 n \<longleftrightarrow> n = 0" by (auto simp: uaccess_def page user_one_ptn PTE_U_def)
  show "user_frames user_one 400 = {200}" by (auto simp: user_frames_def page)
qed

section \<open>Properties\<close>

text \<open>C11: \<open>mappages\<close> returns 0 with exactly the pages of the range mapped to consecutive physical pages,
  or -1 with an initial part of them mapped and no free page left; every other entry is unchanged,
  and pages leave the free list only as tables of this directory.\<close>

theorem mappages_maps_range:
  assumes "pt_wf s d fs" "0 < sz" "unat va + unat sz \<le> 2 ^ 32"
  shows "wp (mappages (kva d) va sz pa perm sp)
    (\<lambda>r t. \<exists>m fs'. pt_ext d s fs t fs' \<and>
      (r = 0 \<and> m = (unat va + unat sz - 1) div 4096 - vpn va + 1 \<or>
       r = -1 \<and> m \<le> (unat va + unat sz - 1) div 4096 - vpn va \<and> fs' = []) \<and>
      (\<forall>j < 2 ^ 20. ptn t d j = (if vpn va \<le> j \<and> j < vpn va + m
         then (pa + word_of_nat (j - vpn va) * PGSIZE) OR perm OR sp else ptn s d j))) s"
  by (rule mappages_spec [OF assms])

theorem mappages_maps_range_witness:
  "wp (mappages (kva 400) 0x1800 0x1000 0x5000 PTE_W 1) (\<lambda>r t. r = 0 \<longrightarrow>
     ptn t 400 1 = 0x5003 \<and> ptn t 400 2 = 0x6003 \<and> ptn t 400 0 = ptn user_one 400 0) user_one"
  by (rule wp_mono [OF mappages_maps_range [of user_one 400 "[]" "0x1000" "0x1800"]])
    (use user_one_wf(1) in \<open>auto simp: as_wf_def vpn_def PTE_W_def PGSIZE_def\<close>)



text \<open>C23: \<open>freevm\<close> terminates and gives every user page, every page table and the directory itself back to
  the free list, each once.\<close>

theorem freevm_releases_all:
  assumes "as_wf s d fs"
  shows "wp (freevm (kva d)) (\<lambda>_ t. \<exists>fs'. free_rep t fs' \<and> distinct fs' \<and>
    set fs' = set fs \<union> user_frames s d \<union> tables s d) s"
  by (rule wp_mono [OF freevm_spec [OF assms]]) (auto simp: free_rep_def)

theorem freevm_releases_all_witness:
  "wp (freevm (kva 400)) (\<lambda>_ t. \<exists>fs'. free_rep t fs' \<and> distinct fs' \<and> set fs' = {200, 300, 400}) user_one"
  by (rule wp_mono [OF freevm_releases_all [OF user_one_wf(1)]]) (use user_one_wf in auto)

text \<open>C24: when every page of the target range is present and accessible to the user, \<open>copyout\<close> returns 0,
  the process reads the given bytes in the range and its old bytes elsewhere, and no page table
  entry changes.\<close>

theorem copyout_writes_range:
  assumes "as_wf s d fs" "unat va + length buf \<le> 2147483648"
    "\<forall>n. unat va div 4096 \<le> n \<and> n * 4096 < unat va + length buf \<longrightarrow> uaccess s d n"
  shows "wp (copyout (kva d) va buf) (\<lambda>r t. r = 0 \<and> as_wf t d fs \<and> (\<forall>m < 2 ^ 20. ptn t d m = ptn s d m) \<and>
     (\<forall>b < 2147483648. ppres s d (b div 4096) \<longrightarrow> ubyte t d b =
        (if unat va \<le> b \<and> b < unat va + length buf then buf ! (b - unat va) else ubyte s d b))) s"
  using copyout_loop_spec [OF assms(1,2) _ assms(3), of "length buf + 1"] by (simp add: copyout_def copied_def)

theorem copyout_writes_range_witness:
  "wp (copyout (kva 400) 0x10 [7, 8]) (\<lambda>r t. r = 0 \<and> ubyte t 400 16 = 7 \<and> ubyte t 400 17 = 8 \<and>
     ubyte t 400 18 = ubyte user_one 400 18) user_one"
proof (rule wp_mono [OF copyout_writes_range [OF user_one_wf(1), of "0x10" "[7, 8]"]])
  have "ppres user_one 400 0" using user_one_wf(2) [of 0] by (simp add: uaccess_def)
  then show "r = 0 \<and> ubyte t 400 16 = 7 \<and> ubyte t 400 17 = 8 \<and> ubyte t 400 18 = ubyte user_one 400 18"
    if "r = 0 \<and> as_wf t 400 [] \<and> (\<forall>m < 2 ^ 20. ptn t 400 m = ptn user_one 400 m) \<and>
     (\<forall>b < 2147483648. ppres user_one 400 (b div 4096) \<longrightarrow> ubyte t 400 b =
        (if unat (0x10 :: u32) \<le> b \<and> b < unat (0x10 :: u32) + length [7, 8 :: u8]
         then [7, 8] ! (b - unat (0x10 :: u32)) else ubyte user_one 400 b))" for r :: int and t
    using that by simp
qed (simp_all add: user_one_wf(2))

end
