(* ===== verification/Sleeplock.thy ===== *)
theory Sleeplock
  imports Prelude
begin

text \<open>
  The sleep locks of sleeplock.c, as the process that runs sees them: finding the lock taken, the
  process goes to sleep, which in a run of one process is the fault \<open>Blocked\<close>.
\<close>

record sleeplock =
  sl_locked :: bool
  sl_lk :: bool
  sl_pid :: u32

definition initsleeplock :: "(sleeplock, unit) km" where
  "initsleeplock =
     sq (modify (\<lambda>l. l\<lparr>sl_lk := False\<rparr>)) (
     sq (modify (\<lambda>l. l\<lparr>sl_locked := False\<rparr>)) (
     modify (\<lambda>l. l\<lparr>sl_pid := 0\<rparr>)))"

definition acquiresleep :: "u32 \<Rightarrow> (sleeplock, unit) km" where
  "acquiresleep pid =
     sq (acquire sl_lk sl_lk_update) (
     bnd (gets sl_locked) (\<lambda>l.
     if l then fail Blocked
     else
       sq (modify (\<lambda>l. l\<lparr>sl_locked := True\<rparr>)) (
       sq (modify (\<lambda>l. l\<lparr>sl_pid := pid\<rparr>)) (
       release sl_lk sl_lk_update))))"

definition releasesleep :: "(sleeplock, unit) km" where
  "releasesleep =
     sq (acquire sl_lk sl_lk_update) (
     sq (modify (\<lambda>l. l\<lparr>sl_locked := False\<rparr>)) (
     sq (modify (\<lambda>l. l\<lparr>sl_pid := 0\<rparr>)) (
     release sl_lk sl_lk_update)))"

definition holdingsleep :: "u32 \<Rightarrow> (sleeplock, bool) km" where
  "holdingsleep pid =
     sq (acquire sl_lk sl_lk_update) (
     bnd (gets (\<lambda>l. sl_locked l \<and> sl_pid l = pid)) (\<lambda>r.
     sq (release sl_lk sl_lk_update) (ret r)))"

definition sl_free :: sleeplock where
  "sl_free = \<lparr>sl_locked = False, sl_lk = False, sl_pid = 0\<rparr>"

definition sl_held :: "u32 \<Rightarrow> sleeplock" where
  "sl_held pid = \<lparr>sl_locked = True, sl_lk = False, sl_pid = pid\<rparr>"

lemma initsleeplock_run: "initsleeplock l = Inr ((), sl_free)"
  by (cases l) (simp add: initsleeplock_def run_simps sl_free_def)

lemma sleeplock_runs [run_simps]:
  "acquiresleep pid sl_free = Inr ((), sl_held pid)"
  "acquiresleep pid (sl_held q) = Inl Blocked"
  "releasesleep (sl_held pid) = Inr ((), sl_free)"
  "holdingsleep pid (sl_held q) = Inr (q = pid, sl_held q)"
  "holdingsleep pid sl_free = Inr (False, sl_free)"
  by (auto simp: acquiresleep_def releasesleep_def holdingsleep_def sl_free_def sl_held_def run_simps)

end
