(* ===== verification/Bio.thy ===== *)
theory Bio
  imports Sleeplock Cyclic
begin

text \<open>
  The buffer cache of bio.c over the disk of memide.c. The buffers are an array; entry \<open>NBUF\<close> of it
  stands for \<open>bcache.head\<close>, the sentinel of the circular list that orders the buffers from the most
  to the least recently used. A disk block is a map from byte offsets to bytes. The routines take
  the pid of the running process, which the sleep locks record.
\<close>

section \<open>State\<close>

type_synonym block = "nat \<Rightarrow> u8"

record buf =
  b_valid :: bool
  b_dirty :: bool
  b_dev :: u32
  b_blockno :: u32
  b_lock :: sleeplock
  b_refcnt :: u32
  b_prev :: "nat option"
  b_next :: "nat option"
  b_qnext :: "nat option"
  b_data :: block

record bio =
  bufs :: "nat \<Rightarrow> buf"
  bc_lock :: bool
  memdisk :: "u32 \<Rightarrow> block"
  disksize :: u32

definition NBUF :: nat where "NBUF = 30"

definition get_buf :: "nat \<Rightarrow> (bio, buf) km" where
  "get_buf i = gets (\<lambda>s. bufs s i)"

definition upd_buf :: "nat \<Rightarrow> (buf \<Rightarrow> buf) \<Rightarrow> (bio, unit) km" where
  "upd_buf i g = modify (\<lambda>s. s\<lparr>bufs := (bufs s)(i := g (bufs s i))\<rparr>)"

text \<open>A sleep lock routine on the lock of a buffer.\<close>

definition on_lock :: "nat \<Rightarrow> (sleeplock, 'a) km \<Rightarrow> (bio, 'a) km" where
  "on_lock i = zoom (\<lambda>s. b_lock (bufs s i)) (\<lambda>l s. s\<lparr>bufs := (bufs s)(i := (bufs s i)\<lparr>b_lock := l\<rparr>)\<rparr>)"

section \<open>Operations\<close>

text \<open>The driver of memide.c.\<close>

definition iderw :: "u32 \<Rightarrow> nat \<Rightarrow> (bio, unit) km" where
  "iderw pid b =
     bnd (on_lock b (holdingsleep pid)) (\<lambda>h.
     if \<not> h then panic ''iderw: buf not locked''
     else bnd (get_buf b) (\<lambda>f.
     if b_valid f \<and> \<not> b_dirty f then panic ''iderw: nothing to do''
     else if b_dev f \<noteq> 1 then panic ''iderw: request not for disk 1''
     else bnd (gets disksize) (\<lambda>n.
     if n \<le> b_blockno f then panic ''iderw: block out of range''
     else
       sq (if b_dirty f then
             sq (upd_buf b (\<lambda>f. f\<lparr>b_dirty := False\<rparr>))
                (modify (\<lambda>s. s\<lparr>memdisk := (memdisk s)(b_blockno f := b_data f)\<rparr>))
           else bnd (gets memdisk) (\<lambda>d. upd_buf b (\<lambda>f. f\<lparr>b_data := d (b_blockno f)\<rparr>)))
          (upd_buf b (\<lambda>f. f\<lparr>b_valid := True\<rparr>)))))"

definition link_front :: "nat \<Rightarrow> (bio, unit) km" where
  "link_front b =
     bnd (get_buf NBUF) (\<lambda>h.
     sq (upd_buf b (\<lambda>f. f\<lparr>b_next := b_next h\<rparr>)) (
     sq (upd_buf b (\<lambda>f. f\<lparr>b_prev := Some NBUF\<rparr>)) (
     bnd (get_buf NBUF) (\<lambda>h.
     bnd (deref (b_next h)) (\<lambda>hn.
     sq (upd_buf hn (\<lambda>f. f\<lparr>b_prev := Some b\<rparr>))
        (upd_buf NBUF (\<lambda>f. f\<lparr>b_next := Some b\<rparr>)))))))"

definition binit :: "(bio, unit) km" where
  "binit =
     sq (modify (\<lambda>s. s\<lparr>bc_lock := False\<rparr>)) (
     sq (upd_buf NBUF (\<lambda>f. f\<lparr>b_prev := Some NBUF\<rparr>)) (
     sq (upd_buf NBUF (\<lambda>f. f\<lparr>b_next := Some NBUF\<rparr>)) (
     for_each (\<lambda>b. sq (on_lock b initsleeplock) (link_front b)) [0 ..< NBUF])))"

fun bget_find :: "nat \<Rightarrow> u32 \<Rightarrow> u32 \<Rightarrow> nat \<Rightarrow> (bio, nat option) km" where
  "bget_find 0 dev blockno b = fail Diverges"
| "bget_find (Suc n) dev blockno b =
     (if b = NBUF then ret None
      else
        bnd (get_buf b) (\<lambda>f.
        if b_dev f = dev \<and> b_blockno f = blockno then ret (Some b)
        else bnd (deref (b_next f)) (\<lambda>c. bget_find n dev blockno c)))"

fun bget_victim :: "nat \<Rightarrow> nat \<Rightarrow> (bio, nat option) km" where
  "bget_victim 0 b = fail Diverges"
| "bget_victim (Suc n) b =
     (if b = NBUF then ret None
      else
        bnd (get_buf b) (\<lambda>f.
        if b_refcnt f = 0 \<and> \<not> b_dirty f then ret (Some b)
        else bnd (deref (b_prev f)) (\<lambda>c. bget_victim n c)))"

definition bget :: "u32 \<Rightarrow> u32 \<Rightarrow> u32 \<Rightarrow> (bio, nat) km" where
  "bget pid dev blockno =
     sq (acquire bc_lock bc_lock_update) (
     bnd (get_buf NBUF) (\<lambda>h.
     bnd (deref (b_next h)) (\<lambda>hn.
     bnd (bget_find (Suc NBUF) dev blockno hn) (\<lambda>r.
     case r of
       Some b \<Rightarrow>
         sq (upd_buf b (\<lambda>f. f\<lparr>b_refcnt := b_refcnt f + 1\<rparr>)) (
         sq (release bc_lock bc_lock_update) (
         sq (on_lock b (acquiresleep pid)) (ret b)))
     | None \<Rightarrow>
         bnd (deref (b_prev h)) (\<lambda>hp.
         bnd (bget_victim (Suc NBUF) hp) (\<lambda>v.
         case v of
           None \<Rightarrow> panic ''bget: no buffers''
         | Some b \<Rightarrow>
             sq (upd_buf b (\<lambda>f. f\<lparr>b_dev := dev\<rparr>)) (
             sq (upd_buf b (\<lambda>f. f\<lparr>b_blockno := blockno\<rparr>)) (
             sq (upd_buf b (\<lambda>f. f\<lparr>b_valid := False, b_dirty := False\<rparr>)) (
             sq (upd_buf b (\<lambda>f. f\<lparr>b_refcnt := 1\<rparr>)) (
             sq (release bc_lock bc_lock_update) (
             sq (on_lock b (acquiresleep pid)) (ret b)))))))))))) "

definition bread :: "u32 \<Rightarrow> u32 \<Rightarrow> u32 \<Rightarrow> (bio, nat) km" where
  "bread pid dev blockno =
     bnd (bget pid dev blockno) (\<lambda>b.
     bnd (get_buf b) (\<lambda>f.
     sq (if \<not> b_valid f then iderw pid b else ret ()) (ret b)))"

definition bwrite :: "u32 \<Rightarrow> nat \<Rightarrow> (bio, unit) km" where
  "bwrite pid b =
     bnd (on_lock b (holdingsleep pid)) (\<lambda>h.
     if \<not> h then panic ''bwrite''
     else sq (upd_buf b (\<lambda>f. f\<lparr>b_dirty := True\<rparr>)) (iderw pid b))"

definition brelse :: "u32 \<Rightarrow> nat \<Rightarrow> (bio, unit) km" where
  "brelse pid b =
     bnd (on_lock b (holdingsleep pid)) (\<lambda>h.
     if \<not> h then panic ''brelse''
     else
       sq (on_lock b releasesleep) (
       sq (acquire bc_lock bc_lock_update) (
       sq (upd_buf b (\<lambda>f. f\<lparr>b_refcnt := b_refcnt f - 1\<rparr>)) (
       bnd (get_buf b) (\<lambda>f.
       sq (if b_refcnt f = 0 then
             bnd (deref (b_next f)) (\<lambda>n.
             sq (upd_buf n (\<lambda>g. g\<lparr>b_prev := b_prev f\<rparr>)) (
             bnd (get_buf b) (\<lambda>f.
             bnd (deref (b_prev f)) (\<lambda>p.
             sq (upd_buf p (\<lambda>g. g\<lparr>b_next := b_next f\<rparr>)) (
             link_front b)))))
           else ret ())
          (release bc_lock bc_lock_update))))))"

definition set_data :: "nat \<Rightarrow> (block \<Rightarrow> block) \<Rightarrow> (bio, unit) km" where
  "set_data b g = upd_buf b (\<lambda>f. f\<lparr>b_data := g (b_data f)\<rparr>)"

declare bget_find.simps [simp del] bget_victim.simps [simp del]

section \<open>The cache as a list of buffers\<close>

definition bring :: "bio \<Rightarrow> nat list \<Rightarrow> bool" where
  "bring s bs \<longleftrightarrow> dring (\<lambda>i. b_next (bufs s i)) (\<lambda>i. b_prev (bufs s i)) (NBUF # bs)"

definition bio_wf :: "bio \<Rightarrow> nat list \<Rightarrow> bool" where
  "bio_wf s bs \<longleftrightarrow> bring s bs \<and> distinct bs \<and> set bs = {..<NBUF} \<and> \<not> bc_lock s"

lemma NBUF_pos: "0 < NBUF"
  by (simp add: NBUF_def)

lemma bio_wf_head: "bio_wf s bs \<Longrightarrow> bs \<noteq> [] \<and> NBUF \<notin> set bs"
proof -
  assume "bio_wf s bs"
  then have "set bs = {..<NBUF}" by (simp add: bio_wf_def)
  moreover from this have "0 \<in> set bs" using NBUF_pos by simp
  ultimately show ?thesis by (metis empty_iff empty_set lessThan_iff less_irrefl)
qed

lemma bring_next:
  assumes "bio_wf s (us @ c # vs)"
  shows "b_next (bufs s c) = Some (hd (vs @ [NBUF]))" "b_prev (bufs s c) = Some (last (NBUF # us))"
proof -
  have "dring (\<lambda>i. b_next (bufs s i)) (\<lambda>i. b_prev (bufs s i)) ((NBUF # us) @ c # vs)"
    using assms by (simp add: bio_wf_def bring_def)
  then have "dring (\<lambda>i. b_next (bufs s i)) (\<lambda>i. b_prev (bufs s i)) (c # vs @ NBUF # us)"
    using dring_rotate [of _ _ "NBUF # us" "c # vs"] by simp
  then show "b_next (bufs s c) = Some (hd (vs @ [NBUF]))" "b_prev (bufs s c) = Some (last (NBUF # us))"
    by (auto simp: dring_Cons hd_append)
qed

lemma bring_head:
  assumes "bio_wf s bs"
  shows "b_next (bufs s NBUF) = Some (hd bs)" "b_prev (bufs s NBUF) = Some (last bs)"
  using assms bio_wf_head [OF assms] by (auto simp: bio_wf_def bring_def dring_Cons)

lemma bget_find_spec:
  assumes "bio_wf s (us @ vs)" "length vs < n"
  shows "bget_find n dev blk (hd (vs @ [NBUF])) s =
    Inr (find (\<lambda>b. b_dev (bufs s b) = dev \<and> b_blockno (bufs s b) = blk) vs, s)"
  using assms
proof (induction vs arbitrary: us n)
  case Nil
  then show ?case by (cases n) (simp_all add: bget_find.simps run_simps)
next
  case (Cons c vs)
  then obtain k where k: "n = Suc k" "length vs < k" by (cases n) auto
  have c: "c \<noteq> NBUF" using bio_wf_head [OF Cons.prems(1)] by auto
  have "bget_find k dev blk (hd (vs @ [NBUF])) s =
      Inr (find (\<lambda>b. b_dev (bufs s b) = dev \<and> b_blockno (bufs s b) = blk) vs, s)"
    using Cons.IH [of "us @ [c]" k] Cons.prems k by simp
  with c k bring_next(1) [OF Cons.prems(1)] show ?case
    by (auto simp: bget_find.simps(2) run_simps get_buf_def)
qed

lemma bget_victim_spec:
  assumes "bio_wf s (us @ vs)" "length us < n"
  shows "bget_victim n (last (NBUF # us)) s =
    Inr (find (\<lambda>b. b_refcnt (bufs s b) = 0 \<and> \<not> b_dirty (bufs s b)) (rev us), s)"
  using assms
proof (induction us arbitrary: vs n rule: rev_induct)
  case Nil
  then show ?case by (cases n) (simp_all add: bget_victim.simps run_simps)
next
  case (snoc c us)
  then obtain k where k: "n = Suc k" "length us < k" by (cases n) auto
  have c: "c \<noteq> NBUF" using bio_wf_head [OF snoc.prems(1)] by auto
  have "bget_victim k (last (NBUF # us)) s =
      Inr (find (\<lambda>b. b_refcnt (bufs s b) = 0 \<and> \<not> b_dirty (bufs s b)) (rev us), s)"
    using snoc.IH [of "c # vs" k] snoc.prems k by simp
  with c k bring_next(2) [of s us c vs] snoc.prems(1) show ?case
    by (auto simp: bget_victim.simps(2) run_simps get_buf_def)
qed

lemma bio_wf_length: "bio_wf s bs \<Longrightarrow> length bs = NBUF"
  by (metis bio_wf_def card_lessThan distinct_card)

section \<open>What the cache holds\<close>

text \<open>
  Between the calls of one process: \<open>H\<close> are the buffers it has locked. Device 1 is the disk. A block of
  it is cached in at most one buffer; a buffer that is neither locked nor dirty agrees with the disk.
\<close>

definition on_disk :: "bio \<Rightarrow> nat \<Rightarrow> u32 \<Rightarrow> bool" where
  "on_disk s b n \<longleftrightarrow> b_dev (bufs s b) = 1 \<and> b_blockno (bufs s b) = n"

definition bio_inv :: "u32 \<Rightarrow> nat set \<Rightarrow> bio \<Rightarrow> nat list \<Rightarrow> bool" where
  "bio_inv pid H s bs \<longleftrightarrow> bio_wf s bs \<and> H \<subseteq> set bs \<and>
     (\<forall>b < NBUF. b_refcnt (bufs s b) = (if b \<in> H then 1 else 0) \<and>
        b_lock (bufs s b) = (if b \<in> H then sl_held pid else sl_free)) \<and>
     (\<forall>a < NBUF. \<forall>b < NBUF. \<forall>n. on_disk s a n \<and> on_disk s b n \<longrightarrow> a = b) \<and>
     (\<forall>b < NBUF. \<forall>n. b \<notin> H \<and> on_disk s b n \<and> b_valid (bufs s b) \<and> \<not> b_dirty (bufs s b) \<longrightarrow>
        b_data (bufs s b) = memdisk s n) \<and>
     (\<forall>b < NBUF. b_dirty (bufs s b) \<longrightarrow> b_valid (bufs s b) \<and> b_dev (bufs s b) = 1)"

definition cached :: "bio \<Rightarrow> u32 \<Rightarrow> nat option" where
  "cached s n = find (\<lambda>b. on_disk s b n) [0 ..< NBUF]"

text \<open>The contents of block \<open>n\<close> as the cache presents it.\<close>

definition content :: "bio \<Rightarrow> u32 \<Rightarrow> block" where
  "content s n = (case cached s n of
     None \<Rightarrow> memdisk s n
   | Some b \<Rightarrow> if b_valid (bufs s b) then b_data (bufs s b) else memdisk s n)"

lemma find_unique:
  assumes "z \<in> set xs" "P z" "\<And>y. y \<in> set xs \<Longrightarrow> P y \<Longrightarrow> y = z"
  shows "find P xs = Some z"
proof (cases "find P xs")
  case None
  with assms(1,2) show ?thesis by (simp add: find_None_iff)
next
  case (Some y)
  then have "y \<in> set xs" "P y" by (auto simp: find_Some_iff)
  with Some show ?thesis using assms(3) by simp
qed

lemma find_SomeD: "find P xs = Some x \<Longrightarrow> x \<in> set xs \<and> P x"
  by (metis find_Some_iff nth_mem)

lemma bio_inv_unique:
  "bio_inv pid H s bs \<Longrightarrow> a < NBUF \<Longrightarrow> b < NBUF \<Longrightarrow> on_disk s a n \<Longrightarrow> on_disk s b n \<Longrightarrow> a = b"
  unfolding bio_inv_def by blast

lemma cached_eqI:
  assumes "bio_inv pid H s bs" "b < NBUF" "on_disk s b n"
  shows "cached s n = Some b"
  unfolding cached_def
proof (rule find_unique)
  fix y assume "y \<in> set [0 ..< NBUF]" "on_disk s y n"
  then show "y = b" using bio_inv_unique [OF assms(1) _ assms(2) _ assms(3)] by simp
qed (use assms in auto)

lemma cached_SomeD: "cached s n = Some b \<Longrightarrow> b < NBUF \<and> on_disk s b n"
  unfolding cached_def by (drule find_SomeD) auto

lemma cached_None: "cached s n = None \<longleftrightarrow> (\<forall>b < NBUF. \<not> on_disk s b n)"
  by (auto simp: cached_def find_None_iff)

lemma find_cached:
  assumes "bio_inv pid H s bs"
  shows "find (\<lambda>b. b_dev (bufs s b) = 1 \<and> b_blockno (bufs s b) = n) bs = cached s n"
proof -
  have set: "set bs = {..<NBUF}" using assms by (simp add: bio_inv_def bio_wf_def)
  show ?thesis
  proof (cases "cached s n")
    case None
    then have "find (\<lambda>b. b_dev (bufs s b) = 1 \<and> b_blockno (bufs s b) = n) bs = None"
      using set by (auto simp: cached_None find_None_iff on_disk_def)
    with None show ?thesis by simp
  next
    case (Some b)
    then have "b < NBUF" "on_disk s b n" using cached_SomeD by auto
    then have "find (\<lambda>b. on_disk s b n) bs = Some b"
      using set bio_inv_unique [OF assms] by (intro find_unique) (simp, simp, blast)
    with Some show ?thesis by (simp add: on_disk_def)
  qed
qed

text \<open>Changing a buffer without its links keeps the ring.\<close>

lemma bring_upd:
  assumes "\<forall>i. b_next (bufs t i) = b_next (bufs s i) \<and> b_prev (bufs t i) = b_prev (bufs s i)"
  shows "bring t bs = bring s bs"
  using assms by (simp add: bring_def)

section \<open>Lists of buffers under link changes\<close>

definition relinked :: "bio \<Rightarrow> bio \<Rightarrow> bool" where
  "relinked s t \<longleftrightarrow> bc_lock t = bc_lock s \<and> memdisk t = memdisk s \<and> disksize t = disksize s \<and>
     (\<forall>i. (bufs t i)\<lparr>b_next := None, b_prev := None\<rparr> = (bufs s i)\<lparr>b_next := None, b_prev := None\<rparr>)"

lemma relinked_refl [simp]: "relinked s s"
  by (simp add: relinked_def)

lemma relinked_trans: "relinked s t \<Longrightarrow> relinked t u \<Longrightarrow> relinked s u"
  by (simp add: relinked_def)

lemma strip_links:
  assumes "f\<lparr>b_next := None, b_prev := None\<rparr> = g\<lparr>b_next := None, b_prev := None\<rparr>"
  shows "b_valid f = b_valid g \<and> b_dirty f = b_dirty g \<and> b_dev f = b_dev g \<and> b_blockno f = b_blockno g \<and>
    b_lock f = b_lock g \<and> b_refcnt f = b_refcnt g \<and> b_data f = b_data g"
  using assms by (cases f; cases g) simp

lemma relinked_buf:
  "relinked s t \<Longrightarrow> b_valid (bufs t i) = b_valid (bufs s i) \<and> b_dirty (bufs t i) = b_dirty (bufs s i) \<and>
     b_dev (bufs t i) = b_dev (bufs s i) \<and> b_blockno (bufs t i) = b_blockno (bufs s i) \<and>
     b_lock (bufs t i) = b_lock (bufs s i) \<and> b_refcnt (bufs t i) = b_refcnt (bufs s i) \<and>
     b_data (bufs t i) = b_data (bufs s i)"
  by (rule strip_links) (simp add: relinked_def)

definition nxt :: "bio \<Rightarrow> nat \<Rightarrow> nat option" where "nxt s i = b_next (bufs s i)"

definition prv :: "bio \<Rightarrow> nat \<Rightarrow> nat option" where "prv s i = b_prev (bufs s i)"

lemma bring_alt: "bring s bs \<longleftrightarrow> dring (nxt s) (prv s) (NBUF # bs)"
  by (simp add: bring_def nxt_def [abs_def] prv_def [abs_def])

lemma link_front_run:
  assumes "b \<noteq> NBUF" "nxt s NBUF = Some n" "n \<noteq> b"
  shows "wp (link_front b) (\<lambda>_ t. relinked s t \<and>
     nxt t = (nxt s)(b := Some n, NBUF := Some b) \<and> prv t = (prv s)(b := Some NBUF, n := Some b)) s"
  using assms
  by (auto simp: wp_def link_front_def run_simps get_buf_def upd_buf_def relinked_def nxt_def prv_def fun_eq_iff)

lemma link_front_spec:
  assumes ring: "bring s bs" and b: "b \<notin> set (NBUF # bs)" and d: "distinct bs" "NBUF \<notin> set bs"
  shows "wp (link_front b) (\<lambda>_ t. relinked s t \<and> bring t (b # bs)) s"
proof -
  let ?xs = "bs @ [NBUF]" let ?n = "hd ?xs"
  have r: "dring (nxt s) (prv s) ?xs" using ring dring_rotate [of _ _ "[NBUF]" bs] by (simp add: bring_alt)
  then have n: "nxt s NBUF = Some ?n" by (auto simp: dring_def cyc_nonempty)
  have nb: "?n \<noteq> b" using b by (cases bs) auto
  have "bring t (b # bs)"
    if t: "nxt t = (nxt s)(b := Some ?n, NBUF := Some b)" "prv t = (prv s)(b := Some NBUF, ?n := Some b)" for t
  proof -
    have "dring (nxt t) (prv t) (?xs @ [b])"
      by (rule dring_insert [OF r]) (use b d t nb in \<open>auto simp: hd_append split: if_splits\<close>)
    then show ?thesis using dring_rotate [of _ _ bs "[NBUF, b]"] by (simp add: bring_alt)
  qed
  then show ?thesis
    using b n nb by (intro wp_mono [OF link_front_run [of b s ?n]]) auto
qed

definition same_fields :: "bio \<Rightarrow> bio \<Rightarrow> bool" where
  "same_fields s t \<longleftrightarrow> memdisk t = memdisk s \<and> disksize t = disksize s \<and>
     (\<forall>i. b_dev (bufs t i) = b_dev (bufs s i) \<and> b_refcnt (bufs t i) = b_refcnt (bufs s i) \<and>
        b_valid (bufs t i) = b_valid (bufs s i) \<and> b_dirty (bufs t i) = b_dirty (bufs s i))"

definition inited :: "nat \<Rightarrow> bio \<Rightarrow> bio \<Rightarrow> bool" where
  "inited k s t \<longleftrightarrow> bring t (rev [0 ..< k]) \<and> \<not> bc_lock t \<and> (\<forall>b < k. b_lock (bufs t b) = sl_free) \<and> same_fields s t"

lemma inited_step:
  assumes t: "inited k s t" and k: "k < NBUF"
  shows "wp (sq (on_lock k initsleeplock) (link_front k)) (\<lambda>_. inited (Suc k) s) t"
proof -
  let ?u = "t\<lparr>bufs := (bufs t)(k := (bufs t k)\<lparr>b_lock := sl_free\<rparr>)\<rparr>"
  have "bring ?u (rev [0 ..< k])" using t by (subst bring_upd [of _ t]) (auto simp: inited_def)
  then have "wp (link_front k) (\<lambda>_ u. relinked ?u u \<and> bring u (k # rev [0 ..< k])) ?u"
    using k by (intro link_front_spec) auto
  then have "wp (link_front k) (\<lambda>_. inited (Suc k) s) ?u"
  proof (rule wp_mono)
    fix u assume u: "relinked ?u u \<and> bring u (k # rev [0 ..< k])"
    note f = relinked_buf [OF conjunct1 [OF u]]
    have "\<forall>b < Suc k. b_lock (bufs u b) = sl_free" using f t by (auto simp: inited_def less_Suc_eq)
    moreover have "same_fields s u" using f t u by (auto simp: inited_def same_fields_def relinked_def)
    ultimately show "inited (Suc k) s u" using u t by (simp add: inited_def relinked_def)
  qed
  then show ?thesis by (simp add: wp_rules on_lock_def wp_def initsleeplock_run run_simps)
qed

lemma binit_loop:
  assumes "inited 0 s s" "k \<le> NBUF"
  shows "wp (for_each (\<lambda>b. sq (on_lock b initsleeplock) (link_front b)) [0 ..< k]) (\<lambda>_. inited k s) s"
  using assms(2)
proof (induction k)
  case 0
  then show ?case using assms(1) by (simp add: wp_rules)
next
  case (Suc k)
  then have "wp (for_each (\<lambda>b. sq (on_lock b initsleeplock) (link_front b)) [0 ..< k])
      (\<lambda>_. wp (sq (on_lock k initsleeplock) (link_front k)) (\<lambda>_. inited (Suc k) s)) s"
    by (intro wp_mono [OF Suc.IH]) (auto intro: inited_step)
  then show ?case by (simp add: for_each_snoc, subst wp_sq)
qed

lemma binit_spec: "wp binit (\<lambda>_. inited NBUF s) s"
proof -
  let ?t = "final (sq (modify (\<lambda>s. s\<lparr>bc_lock := False\<rparr>)) (
     sq (upd_buf NBUF (\<lambda>f. f\<lparr>b_prev := Some NBUF\<rparr>)) (upd_buf NBUF (\<lambda>f. f\<lparr>b_next := Some NBUF\<rparr>)))) s"
  have t: "inited 0 ?t ?t" "same_fields s ?t"
    by (simp_all add: inited_def same_fields_def final_def run_simps upd_buf_def bring_def dring_def)
  have "inited NBUF s u" if "inited NBUF ?t u" for u
    using that t(2) by (auto simp: inited_def same_fields_def)
  then have "wp (for_each (\<lambda>b. sq (on_lock b initsleeplock) (link_front b)) [0 ..< NBUF]) (\<lambda>_. inited NBUF s) ?t"
    by (intro wp_mono [OF binit_loop [OF t(1) order_refl]])
  then show ?thesis by (simp add: binit_def wp_rules final_def run_simps upd_buf_def)
qed

section \<open>The operations on the cached contents\<close>

lemma buf_lock_same: "b_lock f = l \<Longrightarrow> f\<lparr>b_lock := l\<rparr> = f"
  by auto

lemma on_lock_runs [run_simps]:
  "b_lock (bufs s b) = sl_free \<Longrightarrow> on_lock b (acquiresleep pid) s =
     Inr ((), s\<lparr>bufs := (bufs s)(b := (bufs s b)\<lparr>b_lock := sl_held pid\<rparr>)\<rparr>)"
  "b_lock (bufs s b) = sl_held q \<Longrightarrow> on_lock b (acquiresleep pid) s = Inl Blocked"
  "b_lock (bufs s b) = sl_held q \<Longrightarrow> on_lock b (holdingsleep pid) s = Inr (q = pid, s)"
  "b_lock (bufs s b) = sl_held q \<Longrightarrow> on_lock b releasesleep s =
     Inr ((), s\<lparr>bufs := (bufs s)(b := (bufs s b)\<lparr>b_lock := sl_free\<rparr>)\<rparr>)"
  by (simp_all add: on_lock_def zoom_def sleeplock_runs buf_lock_same)

definition claimed :: "u32 \<Rightarrow> nat \<Rightarrow> (buf \<Rightarrow> buf) \<Rightarrow> bio \<Rightarrow> bio" where
  "claimed pid b g s = s\<lparr>bufs := (bufs s)(b := (g (bufs s b))\<lparr>b_refcnt := 1, b_lock := sl_held pid\<rparr>)\<rparr>"

lemma claimed_simps [simp]:
  "bc_lock (claimed pid b g s) = bc_lock s" "memdisk (claimed pid b g s) = memdisk s"
  "disksize (claimed pid b g s) = disksize s"
  "bufs (claimed pid b g s) i = (if i = b then (g (bufs s b))\<lparr>b_refcnt := 1, b_lock := sl_held pid\<rparr> else bufs s i)"
  by (simp_all add: claimed_def)

definition recycle :: "u32 \<Rightarrow> u32 \<Rightarrow> buf \<Rightarrow> buf" where
  "recycle dev n f = f\<lparr>b_dev := dev, b_blockno := n, b_valid := False, b_dirty := False\<rparr>"

lemma bget_find_all:
  assumes "bio_wf s bs"
  shows "bget_find (Suc NBUF) dev n (hd bs) s =
    Inr (find (\<lambda>b. b_dev (bufs s b) = dev \<and> b_blockno (bufs s b) = n) bs, s)"
  using bget_find_spec [of s "[]" bs "Suc NBUF"] assms bio_wf_length [OF assms] bio_wf_head [OF assms] by simp

lemma bget_victim_all:
  assumes "bio_wf s bs"
  shows "bget_victim (Suc NBUF) (last bs) s =
    Inr (find (\<lambda>b. b_refcnt (bufs s b) = 0 \<and> \<not> b_dirty (bufs s b)) (rev bs), s)"
  using bget_victim_spec [of s bs "[]" "Suc NBUF"] assms bio_wf_length [OF assms] bio_wf_head [OF assms] by simp

lemma bio_wf_lock [simp]: "bio_wf (s\<lparr>bc_lock := c\<rparr>) bs \<longleftrightarrow> bring s bs \<and> distinct bs \<and> set bs = {..<NBUF} \<and> \<not> c"
  by (simp add: bio_wf_def bring_def)

lemma bget_scan_cong:
  "bget_find k dev n b (s\<lparr>bc_lock := True\<rparr>) =
     (case bget_find k dev n b s of Inl e \<Rightarrow> Inl e | Inr (r, t) \<Rightarrow> Inr (r, t\<lparr>bc_lock := True\<rparr>))"
  "bget_victim k b (s\<lparr>bc_lock := True\<rparr>) =
     (case bget_victim k b s of Inl e \<Rightarrow> Inl e | Inr (r, t) \<Rightarrow> Inr (r, t\<lparr>bc_lock := True\<rparr>))"
proof -
  show "bget_find k dev n b (s\<lparr>bc_lock := True\<rparr>) =
     (case bget_find k dev n b s of Inl e \<Rightarrow> Inl e | Inr (r, t) \<Rightarrow> Inr (r, t\<lparr>bc_lock := True\<rparr>))"
  proof (induction k arbitrary: b)
    case (Suc k)
    show ?case
      by (cases "b_next (bufs s b)") (simp_all add: bget_find.simps(2) run_simps get_buf_def Suc.IH)
  qed (simp add: bget_find.simps run_simps)
  show "bget_victim k b (s\<lparr>bc_lock := True\<rparr>) =
     (case bget_victim k b s of Inl e \<Rightarrow> Inl e | Inr (r, t) \<Rightarrow> Inr (r, t\<lparr>bc_lock := True\<rparr>))"
  proof (induction k arbitrary: b)
    case (Suc k)
    show ?case
      by (cases "b_prev (bufs s b)") (simp_all add: bget_victim.simps(2) run_simps get_buf_def Suc.IH)
  qed (simp add: bget_victim.simps run_simps)
qed

lemma bget_hit:
  assumes wf: "bio_wf s bs" and f: "find (\<lambda>b. b_dev (bufs s b) = dev \<and> b_blockno (bufs s b) = n) bs = Some b"
    and free: "b_refcnt (bufs s b) = 0" "b_lock (bufs s b) = sl_free"
  shows "bget pid dev n s = Inr (b, claimed pid b (\<lambda>f. f) s)"
proof -
  have "\<not> bc_lock s" using wf by (simp add: bio_wf_def)
  moreover have "s\<lparr>bc_lock := False\<rparr> = s" using calculation by simp
  ultimately show ?thesis
    using f free bring_head [OF wf]
    by (simp add: bget_def run_simps get_buf_def bget_scan_cong bget_find_all [OF wf] upd_buf_def claimed_def)
qed

lemma bget_miss:
  assumes wf: "bio_wf s bs" and f: "find (\<lambda>b. b_dev (bufs s b) = dev \<and> b_blockno (bufs s b) = n) bs = None"
    and v: "find (\<lambda>b. b_refcnt (bufs s b) = 0 \<and> \<not> b_dirty (bufs s b)) (rev bs) = Some b"
    and free: "b_lock (bufs s b) = sl_free"
  shows "bget pid dev n s = Inr (b, claimed pid b (recycle dev n) s)"
proof -
  have "\<not> bc_lock s" using wf by (simp add: bio_wf_def)
  then show ?thesis
    using f free v bring_head [OF wf]
    by (simp add: bget_def run_simps get_buf_def bget_scan_cong bget_find_all [OF wf] bget_victim_all [OF wf]
        upd_buf_def claimed_def recycle_def)
qed

lemma bget_full:
  assumes wf: "bio_wf s bs" and f: "find (\<lambda>b. b_dev (bufs s b) = dev \<and> b_blockno (bufs s b) = n) bs = None"
    and v: "\<forall>b \<in> set bs. b_refcnt (bufs s b) \<noteq> 0 \<or> b_dirty (bufs s b)"
  shows "bget pid dev n s = Inl (Panic ''bget: no buffers'')"
proof -
  have "\<not> bc_lock s" using wf by (simp add: bio_wf_def)
  moreover have "find (\<lambda>b. b_refcnt (bufs s b) = 0 \<and> \<not> b_dirty (bufs s b)) (rev bs) = None"
    using v by (auto simp: find_None_iff)
  ultimately show ?thesis
    using f bring_head [OF wf]
    by (simp add: bget_def run_simps get_buf_def bget_scan_cong bget_find_all [OF wf] bget_victim_all [OF wf])
qed

lemma content_buf:
  "bio_inv pid H s bs \<Longrightarrow> b < NBUF \<Longrightarrow> on_disk s b n \<Longrightarrow> b_valid (bufs s b) \<Longrightarrow> content s n = b_data (bufs s b)"
  by (simp add: content_def cached_eqI)

lemma content_disk:
  assumes "\<And>b. b < NBUF \<Longrightarrow> on_disk s b n \<Longrightarrow> b_valid (bufs s b) \<Longrightarrow> b_data (bufs s b) = memdisk s n"
  shows "content s n = memdisk s n"
  using assms by (auto simp: content_def split: option.split dest: cached_SomeD)

lemma content_cong:
  assumes "memdisk t = memdisk s"
    and "\<And>i. i < NBUF \<Longrightarrow> b_dev (bufs t i) = b_dev (bufs s i) \<and> b_blockno (bufs t i) = b_blockno (bufs s i) \<and>
      b_valid (bufs t i) = b_valid (bufs s i) \<and> b_data (bufs t i) = b_data (bufs s i)"
  shows "content t = content s"
proof -
  have "cached t n = cached s n" for n
    unfolding cached_def using assms(2) by (intro find_cong) (auto simp: on_disk_def)
  then show ?thesis
    using assms cached_SomeD by (auto simp: content_def fun_eq_iff split: option.split)
qed

lemma bio_inv_buf:
  assumes "bio_inv pid H s bs" "b < NBUF"
  shows "b \<in> H \<Longrightarrow> b_refcnt (bufs s b) = 1 \<and> b_lock (bufs s b) = sl_held pid"
    "b \<notin> H \<Longrightarrow> b_refcnt (bufs s b) = 0 \<and> b_lock (bufs s b) = sl_free"
    "b \<notin> H \<Longrightarrow> on_disk s b n \<Longrightarrow> b_valid (bufs s b) \<Longrightarrow> \<not> b_dirty (bufs s b) \<Longrightarrow> b_data (bufs s b) = memdisk s n"
    "b_dirty (bufs s b) \<Longrightarrow> b_valid (bufs s b) \<and> b_dev (bufs s b) = 1"
  using assms unfolding bio_inv_def by auto

lemma bio_inv_wf: "bio_inv pid H s bs \<Longrightarrow> bio_wf s bs"
  by (simp add: bio_inv_def)

lemma bio_inv_held: "bio_inv pid H s bs \<Longrightarrow> b \<in> H \<Longrightarrow> b < NBUF"
  unfolding bio_inv_def bio_wf_def by blast

lemma bio_wf_cong:
  assumes "bc_lock t = bc_lock s"
    "\<And>i. b_next (bufs t i) = b_next (bufs s i) \<and> b_prev (bufs t i) = b_prev (bufs s i)"
  shows "bio_wf t bs = bio_wf s bs"
  using assms bring_upd [of t s bs] by (simp add: bio_wf_def)

lemma bio_invI:
  assumes "bio_wf t bs" "H \<subseteq> {..<NBUF}"
    "\<And>b. b < NBUF \<Longrightarrow> b_refcnt (bufs t b) = (if b \<in> H then 1 else 0)"
    "\<And>b. b < NBUF \<Longrightarrow> b_lock (bufs t b) = (if b \<in> H then sl_held pid else sl_free)"
    "\<And>a b n. a < NBUF \<Longrightarrow> b < NBUF \<Longrightarrow> on_disk t a n \<Longrightarrow> on_disk t b n \<Longrightarrow> a = b"
    "\<And>b n. b < NBUF \<Longrightarrow> b \<notin> H \<Longrightarrow> on_disk t b n \<Longrightarrow> b_valid (bufs t b) \<Longrightarrow> \<not> b_dirty (bufs t b) \<Longrightarrow>
       b_data (bufs t b) = memdisk t n"
    "\<And>b. b < NBUF \<Longrightarrow> b_dirty (bufs t b) \<Longrightarrow> b_valid (bufs t b) \<and> b_dev (bufs t b) = 1"
  shows "bio_inv pid H t bs"
  unfolding bio_inv_def using assms by (auto simp: bio_wf_def)

text \<open>A held buffer may change its data and flags; the other buffers do not.\<close>

lemma bio_inv_upd:
  assumes inv: "bio_inv pid H s bs" and b: "b < NBUF"
    and t: "bufs t = (bufs s)(b := f)" "bc_lock t = bc_lock s" "memdisk t = (memdisk s)(n := d)"
    and f: "b_next f = b_next (bufs s b)" "b_prev f = b_prev (bufs s b)" "b_dev f = 1" "b_blockno f = n"
      "b_refcnt f = 1" "b_lock f = sl_held pid" "b_dirty f \<Longrightarrow> b_valid f"
    and n: "\<And>i. i < NBUF \<Longrightarrow> on_disk s i n \<Longrightarrow> i = b"
  shows "bio_inv pid (insert b H) t bs"
proof (rule bio_invI)
  show "bio_wf t bs" using bio_inv_wf [OF inv] t f by (subst bio_wf_cong [of _ s]) auto
  show "insert b H \<subseteq> {..<NBUF}" using b bio_inv_held [OF inv] by auto
  have od: "on_disk t i m \<longleftrightarrow> (if i = b then m = n else on_disk s i m)" for i m
    using f t by (auto simp: on_disk_def)
  fix i j m assume i: "i < NBUF"
  show "b_refcnt (bufs t i) = (if i \<in> insert b H then 1 else 0)"
    "b_lock (bufs t i) = (if i \<in> insert b H then sl_held pid else sl_free)"
    using bio_inv_buf(1,2) [OF inv i] t f by auto
  show "b_valid (bufs t i) \<and> b_dev (bufs t i) = 1" if "b_dirty (bufs t i)"
    using that bio_inv_buf(4) [OF inv i] t f by (auto split: if_splits)
  show "i = j" if "j < NBUF" "on_disk t i m" "on_disk t j m"
    using that i n [of i] n [of j] bio_inv_unique [OF inv i, of j m] by (simp add: od split: if_splits)
  show "b_data (bufs t i) = memdisk t m"
    if "i \<notin> insert b H" "on_disk t i m" "b_valid (bufs t i)" "\<not> b_dirty (bufs t i)"
  proof -
    have "i \<noteq> b" "i \<notin> H" "on_disk s i m" using that by (auto simp: od)
    then have "m \<noteq> n" using n [OF i] by auto
    with that \<open>i \<noteq> b\<close> \<open>on_disk s i m\<close> show ?thesis
      using bio_inv_buf(3) [OF inv i \<open>i \<notin> H\<close>, of m] t by simp
  qed
qed

lemma iderw_read:
  assumes "b_lock (bufs s b) = sl_held pid" "\<not> b_valid (bufs s b)" "\<not> b_dirty (bufs s b)" "on_disk s b n" "n < disksize s"
  shows "iderw pid b s = Inr ((), s\<lparr>bufs := (bufs s)(b := (bufs s b)\<lparr>b_data := memdisk s n, b_valid := True\<rparr>)\<rparr>)"
  using assms by (simp add: iderw_def run_simps get_buf_def upd_buf_def on_disk_def)

lemma iderw_write:
  assumes "b_lock (bufs s b) = sl_held pid" "b_dirty (bufs s b)" "on_disk s b n" "n < disksize s"
  shows "iderw pid b s = Inr ((), s\<lparr>bufs := (bufs s)(b := (bufs s b)\<lparr>b_dirty := False, b_valid := True\<rparr>),
     memdisk := (memdisk s)(n := b_data (bufs s b))\<rparr>)"
  using assms by (simp add: iderw_def run_simps get_buf_def upd_buf_def on_disk_def)

definition fetched :: "u32 \<Rightarrow> nat set \<Rightarrow> nat list \<Rightarrow> u32 \<Rightarrow> bio \<Rightarrow> nat \<Rightarrow> bio \<Rightarrow> bool" where
  "fetched pid H bs n s b t \<longleftrightarrow> b < NBUF \<and> b \<notin> H \<and> bio_inv pid (insert b H) t bs \<and> on_disk t b n \<and>
     b_valid (bufs t b) \<and> b_data (bufs t b) = content s n \<and> content t = content s \<and> memdisk t = memdisk s \<and>
     disksize t = disksize s \<and> (\<forall>i < NBUF. i \<noteq> b \<longrightarrow> bufs t i = bufs s i) \<and>
     b_dirty (bufs t b) = b_dirty (bufs s b) \<and> (on_disk s b n \<or> \<not> b_dirty (bufs s b))"

definition room :: "nat set \<Rightarrow> bio \<Rightarrow> u32 \<Rightarrow> bool" where
  "room H s n \<longleftrightarrow> cached s n \<noteq> None \<or> (\<exists>b < NBUF. b \<notin> H \<and> \<not> b_dirty (bufs s b))"

lemma fetchedI:
  assumes inv: "bio_inv pid H s bs" and b: "b < NBUF" "b \<notin> H" and n: "\<And>i. i < NBUF \<Longrightarrow> on_disk s i n \<Longrightarrow> i = b"
    and t: "bufs t = (bufs s)(b := f)" "bc_lock t = bc_lock s" "memdisk t = memdisk s" "disksize t = disksize s"
    and f: "b_next f = b_next (bufs s b)" "b_prev f = b_prev (bufs s b)" "b_dev f = 1" "b_blockno f = n"
      "b_refcnt f = 1" "b_lock f = sl_held pid" "b_valid f" "b_data f = content s n" "b_dirty f = b_dirty (bufs s b)"
    and old: "on_disk s b n \<or> \<not> b_dirty (bufs s b)"
  shows "fetched pid H bs n s b t"
proof -
  have inv': "bio_inv pid (insert b H) t bs"
    by (rule bio_inv_upd [OF inv b(1) t(1,2), of n "memdisk s n"]) (use f(1-8) t n in auto)
  have od: "on_disk t i m \<longleftrightarrow> (if i = b then m = n else on_disk s i m)" for i m
    using f t by (auto simp: on_disk_def)
  have "content t m = content s m" for m
  proof (cases "m = n")
    case True
    then show ?thesis using content_buf [OF inv' b(1), of n] f t by (simp add: od)
  next
    case False
    show ?thesis
    proof (cases "cached t m")
      case None
      have "content s m = memdisk s m"
      proof (rule content_disk)
        fix i assume i: "i < NBUF" "on_disk s i m" "b_valid (bufs s i)"
        have "i = b" using None i by (auto simp: cached_None od split: if_splits)
        with i False old have "\<not> b_dirty (bufs s b)" by (auto simp: on_disk_def)
        with i \<open>i = b\<close> show "b_data (bufs s i) = memdisk s m" using bio_inv_buf(3) [OF inv b] by simp
      qed
      with None t show ?thesis by (simp add: content_def)
    next
      case (Some i)
      then have "i < NBUF" "i \<noteq> b" "on_disk s i m" using cached_SomeD [OF Some] False by (auto simp: od split: if_splits)
      with Some t show ?thesis by (simp add: content_def cached_eqI [OF inv])
    qed
  qed
  then have "content t = content s" by (simp add: fun_eq_iff)
  with inv' b t f old show ?thesis by (simp add: fetched_def on_disk_def)
qed

lemma bread_spec:
  assumes inv: "bio_inv pid H s bs" and n: "n < disksize s" and nh: "\<forall>b \<in> H. \<not> on_disk s b n" and room: "room H s n"
  shows "wp (bread pid 1 n) (fetched pid H bs n s) s"
proof (cases "cached s n")
  case (Some b)
  have b: "b < NBUF" "on_disk s b n" using cached_SomeD [OF Some] by auto
  then have "b \<notin> H" using nh by auto
  note free = bio_inv_buf(2) [OF inv b(1) this]
  have uniq: "i = b" if "i < NBUF" "on_disk s i n" for i using bio_inv_unique [OF inv that(1) b(1) that(2) b(2)] .
  have get: "bget pid 1 n s = Inr (b, claimed pid b (\<lambda>f. f) s)"
    using free Some find_cached [OF inv, of n] by (intro bget_hit [OF bio_inv_wf [OF inv]]) auto
  show ?thesis
  proof (cases "b_valid (bufs s b)")
    case True
    have "fetched pid H bs n s b (claimed pid b (\<lambda>f. f) s)"
      by (rule fetchedI [OF inv b(1) \<open>b \<notin> H\<close> uniq, where f = "(bufs s b)\<lparr>b_refcnt := 1, b_lock := sl_held pid\<rparr>"])
        (use b True content_buf [OF inv b True] in \<open>auto simp: claimed_def on_disk_def\<close>)
    with get True show ?thesis by (simp add: bread_def wp_def run_simps get_buf_def)
  next
    case False
    then have nd: "\<not> b_dirty (bufs s b)" using bio_inv_buf(4) [OF inv b(1)] by blast
    have c: "content s n = memdisk s n" using False Some by (simp add: content_def)
    let ?f = "(bufs s b)\<lparr>b_refcnt := 1, b_lock := sl_held pid, b_data := memdisk s n, b_valid := True\<rparr>"
    have "iderw pid b (claimed pid b (\<lambda>f. f) s) = Inr ((), s\<lparr>bufs := (bufs s)(b := ?f)\<rparr>)"
      by (subst iderw_read [where n = n]) (use b n nd False in \<open>auto simp: on_disk_def claimed_def\<close>)
    moreover have "fetched pid H bs n s b (s\<lparr>bufs := (bufs s)(b := ?f)\<rparr>)"
      by (rule fetchedI [OF inv b(1) \<open>b \<notin> H\<close> uniq, where f = ?f]) (use b c in \<open>auto simp: on_disk_def\<close>)
    ultimately show ?thesis using get False by (simp add: bread_def wp_def run_simps get_buf_def)
  qed
next
  case None
  let ?P = "\<lambda>b. b_refcnt (bufs s b) = 0 \<and> \<not> b_dirty (bufs s b)"
  from None room obtain c where c: "c < NBUF" "?P c" using bio_inv_buf(2) [OF inv] by (auto simp: room_def)
  have set: "set bs = {..<NBUF}" using bio_inv_wf [OF inv] by (simp add: bio_wf_def)
  have "find ?P (rev bs) \<noteq> None" using c set by (auto simp: find_None_iff)
  then obtain b where v: "find ?P (rev bs) = Some b" by auto
  then have b: "b < NBUF" "b_refcnt (bufs s b) = 0" "\<not> b_dirty (bufs s b)" using set find_SomeD [OF v] by auto
  have "b \<notin> H" using b bio_inv_buf(1) [OF inv b(1)] by auto
  note free = bio_inv_buf(2) [OF inv b(1) this]
  have get: "bget pid 1 n s = Inr (b, claimed pid b (recycle 1 n) s)"
    using free None v find_cached [OF inv, of n] by (intro bget_miss [OF bio_inv_wf [OF inv]]) auto
  have c: "content s n = memdisk s n" using None by (simp add: content_def)
  let ?f = "(recycle 1 n (bufs s b))\<lparr>b_refcnt := 1, b_lock := sl_held pid, b_data := memdisk s n, b_valid := True\<rparr>"
  have "iderw pid b (claimed pid b (recycle 1 n) s) = Inr ((), s\<lparr>bufs := (bufs s)(b := ?f)\<rparr>)"
    by (subst iderw_read [where n = n]) (use n in \<open>auto simp: on_disk_def claimed_def recycle_def\<close>)
  moreover have "fetched pid H bs n s b (s\<lparr>bufs := (bufs s)(b := ?f)\<rparr>)"
    by (rule fetchedI [OF inv b(1) \<open>b \<notin> H\<close>, where f = ?f])
      (use b c None in \<open>auto simp: cached_None recycle_def\<close>)
  ultimately show ?thesis using get by (simp add: bread_def wp_def run_simps get_buf_def recycle_def)
qed

lemma relinked_upd:
  "relinked s (s\<lparr>bufs := (bufs s)(i := (bufs s i)\<lparr>b_prev := x\<rparr>)\<rparr>)"
  "relinked s (s\<lparr>bufs := (bufs s)(i := (bufs s i)\<lparr>b_next := x\<rparr>)\<rparr>)"
  by (simp_all add: relinked_def)

lemma unlink_run:
  assumes "b_next (bufs s b) = Some n" "b_prev (bufs s b) = Some p" "n \<noteq> b" "p \<noteq> b"
  shows "bnd (deref (b_next (bufs s b))) (\<lambda>n.
      sq (upd_buf n (\<lambda>g. g\<lparr>b_prev := b_prev (bufs s b)\<rparr>)) (
      bnd (get_buf b) (\<lambda>f. bnd (deref (b_prev f)) (\<lambda>p.
      sq (upd_buf p (\<lambda>g. g\<lparr>b_next := b_next f\<rparr>)) m)))) s =
    (let t = s\<lparr>bufs := (bufs s)(n := (bufs s n)\<lparr>b_prev := Some p\<rparr>)\<rparr>
     in m (t\<lparr>bufs := (bufs t)(p := (bufs t p)\<lparr>b_next := Some n\<rparr>)\<rparr>))"
  using assms by (simp add: run_simps upd_buf_def get_buf_def)

lemma unlink_spec:
  assumes ring: "bring s (us @ b # vs)" and d: "distinct (us @ b # vs)" "NBUF \<notin> set (us @ b # vs)"
  shows "wp (bnd (deref (b_next (bufs s b))) (\<lambda>n.
      sq (upd_buf n (\<lambda>g. g\<lparr>b_prev := b_prev (bufs s b)\<rparr>)) (
      bnd (get_buf b) (\<lambda>f. bnd (deref (b_prev f)) (\<lambda>p.
      sq (upd_buf p (\<lambda>g. g\<lparr>b_next := b_next f\<rparr>)) (link_front b))))))
    (\<lambda>_ t. relinked s t \<and> bring t (b # us @ vs)) s"
proof -
  let ?zs = "vs @ NBUF # us"
  define n p where "n = hd ?zs" and "p = last ?zs"
  have r: "dring (nxt s) (prv s) (b # ?zs)"
    using ring dring_rotate [of _ _ "NBUF # us" "b # vs"] by (simp add: bring_alt)
  then have np: "b_next (bufs s b) = Some n" "b_prev (bufs s b) = Some p"
    by (auto simp: dring_Cons nxt_def prv_def n_def p_def)
  have "n \<in> set ?zs" "p \<in> set ?zs" unfolding n_def p_def by (rule hd_in_set last_in_set; simp)+
  then have ne: "n \<noteq> b" "p \<noteq> b" using d by auto
  define t where "t = s\<lparr>bufs := (bufs s)(n := (bufs s n)\<lparr>b_prev := Some p\<rparr>)\<rparr>"
  define u where "u = t\<lparr>bufs := (bufs t)(p := (bufs t p)\<lparr>b_next := Some n\<rparr>)\<rparr>"
  have u: "nxt u = (nxt s)(p := Some n)" "prv u = (prv s)(n := Some p)"
    by (auto simp: nxt_def prv_def fun_eq_iff t_def u_def)
  have "dring (nxt u) (prv u) ?zs"
    unfolding u by (rule dring_remove [OF r]) (use d in \<open>auto simp: n_def p_def\<close>)
  then have "bring u (us @ vs)" using dring_rotate [of _ _ vs "NBUF # us"] by (simp add: bring_alt)
  then have "wp (link_front b) (\<lambda>_ t. relinked u t \<and> bring t (b # us @ vs)) u"
    using d by (intro link_front_spec) auto
  moreover have "relinked s u" unfolding u_def t_def by (blast intro: relinked_trans relinked_upd)
  ultimately have "wp (link_front b) (\<lambda>_ t. relinked s t \<and> bring t (b # us @ vs)) u"
    by (elim wp_mono) (blast intro: relinked_trans)
  then show ?thesis
    by (simp only: wp_def unlink_run [OF np ne] Let_def t_def [symmetric] u_def [symmetric])
qed

definition same_keys :: "bio \<Rightarrow> bio \<Rightarrow> bool" where
  "same_keys s t \<longleftrightarrow> (\<forall>i. b_dev (bufs t i) = b_dev (bufs s i) \<and> b_blockno (bufs t i) = b_blockno (bufs s i) \<and>
     b_valid (bufs t i) = b_valid (bufs s i) \<and> b_dirty (bufs t i) = b_dirty (bufs s i))"

lemma bio_inv_release:
  assumes inv: "bio_inv pid H s bs" and b: "b \<in> H" and od: "on_disk s b n"
    and ok: "b_valid (bufs s b)" "b_dirty (bufs s b) \<or> b_data (bufs s b) = memdisk s n"
    and u: "relinked (s\<lparr>bufs := (bufs s)(b := (bufs s b)\<lparr>b_lock := sl_free, b_refcnt := 0\<rparr>)\<rparr>) u" "bio_wf u bs'"
  shows "bio_inv pid (H - {b}) u bs' \<and> content u = content s \<and> memdisk u = memdisk s \<and> disksize u = disksize s \<and> same_keys s u"
proof -
  have m: "memdisk u = memdisk s" "disksize u = disksize s" using u(1) by (simp_all add: relinked_def)
  have f: "b_valid (bufs u i) = b_valid (bufs s i) \<and> b_dirty (bufs u i) = b_dirty (bufs s i) \<and>
     b_dev (bufs u i) = b_dev (bufs s i) \<and> b_blockno (bufs u i) = b_blockno (bufs s i) \<and> b_data (bufs u i) = b_data (bufs s i)"
    "b_lock (bufs u i) = (if i = b then sl_free else b_lock (bufs s i))"
    "b_refcnt (bufs u i) = (if i = b then 0 else b_refcnt (bufs s i))" for i
    using relinked_buf [OF u(1), of i] by auto
  have od': "on_disk u i m = on_disk s i m" for i m by (simp add: on_disk_def f)
  have "bio_inv pid (H - {b}) u bs'"
  proof (rule bio_invI [OF u(2)])
    show "H - {b} \<subseteq> {..<NBUF}" using bio_inv_held [OF inv] by auto
    fix i j k assume i: "i < NBUF"
    show "b_refcnt (bufs u i) = (if i \<in> H - {b} then 1 else 0)"
      "b_lock (bufs u i) = (if i \<in> H - {b} then sl_held pid else sl_free)"
      using bio_inv_buf(1,2) [OF inv i] by (auto simp: f)
    show "i = j" if "j < NBUF" "on_disk u i k" "on_disk u j k"
      using that bio_inv_unique [OF inv i] by (simp add: od')
    show "b_valid (bufs u i) \<and> b_dev (bufs u i) = 1" if "b_dirty (bufs u i)"
      using that bio_inv_buf(4) [OF inv i] by (simp add: f)
    show "b_data (bufs u i) = memdisk u k" if "i \<notin> H - {b}" "on_disk u i k" "b_valid (bufs u i)" "\<not> b_dirty (bufs u i)"
    proof (cases "i = b")
      case True
      with that od have "k = n" by (simp add: od') (simp add: on_disk_def)
      with True that ok show ?thesis by (simp add: f m)
    next
      case False
      with that show ?thesis using bio_inv_buf(3) [OF inv i, of k] by (simp add: f m od')
    qed
  qed
  moreover have "content u = content s" by (rule content_cong [OF m(1)]) (simp add: f)
  moreover have "same_keys s u" by (simp add: same_keys_def f)
  ultimately show ?thesis by (simp add: m)
qed

lemma brelse_spec:
  assumes inv: "bio_inv pid H s bs" and b: "b \<in> H" and od: "on_disk s b n"
    and ok: "b_valid (bufs s b)" "b_dirty (bufs s b) \<or> b_data (bufs s b) = memdisk s n"
  shows "wp (brelse pid b) (\<lambda>_ u. bio_inv pid (H - {b}) u (b # remove1 b bs) \<and> content u = content s \<and>
    memdisk u = memdisk s \<and> disksize u = disksize s \<and> same_keys s u) s"
proof -
  have bN: "b < NBUF" using bio_inv_held [OF inv b] .
  have h: "b_refcnt (bufs s b) = 1" "b_lock (bufs s b) = sl_held pid" using bio_inv_buf(1) [OF inv bN b] by auto
  have wf: "bring s bs" "distinct bs" "set bs = {..<NBUF}" "\<not> bc_lock s" using bio_inv_wf [OF inv] by (auto simp: bio_wf_def)
  then have "b \<in> set bs" using bN by simp
  then obtain us vs where bs: "bs = us @ b # vs" by (auto simp: in_set_conv_decomp)
  let ?t = "s\<lparr>bc_lock := True, bufs := (bufs s)(b := (bufs s b)\<lparr>b_lock := sl_free, b_refcnt := 0\<rparr>)\<rparr>"
  let ?s' = "s\<lparr>bufs := (bufs s)(b := (bufs s b)\<lparr>b_lock := sl_free, b_refcnt := 0\<rparr>)\<rparr>"
  have "bring ?t bs" using wf(1) by (subst bring_upd [of _ s]) auto
  then have "bring ?t (us @ b # vs)" by (simp add: bs)
  moreover have "distinct (us @ b # vs)" "NBUF \<notin> set (us @ b # vs)" using wf bs by auto
  ultimately have ul: "wp (bnd (deref (b_next (bufs ?t b))) (\<lambda>n.
      sq (upd_buf n (\<lambda>g. g\<lparr>b_prev := b_prev (bufs ?t b)\<rparr>)) (
      bnd (get_buf b) (\<lambda>f. bnd (deref (b_prev f)) (\<lambda>p.
      sq (upd_buf p (\<lambda>g. g\<lparr>b_next := b_next f\<rparr>)) (link_front b))))))
    (\<lambda>_ t. relinked ?t t \<and> bring t (b # us @ vs)) ?t"
    by (rule unlink_spec)
  have rm: "remove1 b bs = us @ vs" using wf(2) bs by (auto simp: remove1_append)
  have post: "bc_lock u \<and> bio_inv pid (H - {b}) (u\<lparr>bc_lock := False\<rparr>) (b # remove1 b bs) \<and> content (u\<lparr>bc_lock := False\<rparr>) = content s \<and>
    memdisk u = memdisk s \<and> disksize u = disksize s \<and> same_keys s u" if "relinked ?t u" "bring u (b # us @ vs)" for u
  proof -
    have "relinked ?s' (u\<lparr>bc_lock := False\<rparr>)" using that(1) wf(4) by (simp add: relinked_def)
    moreover have "bio_wf (u\<lparr>bc_lock := False\<rparr>) (b # remove1 b bs)"
      unfolding rm using that(2) wf bs by auto
    ultimately have "bio_inv pid (H - {b}) (u\<lparr>bc_lock := False\<rparr>) (b # remove1 b bs) \<and>
        content (u\<lparr>bc_lock := False\<rparr>) = content s \<and> same_keys s (u\<lparr>bc_lock := False\<rparr>)"
      using bio_inv_release [OF inv b od ok] by blast
    with that(1) show ?thesis by (simp add: relinked_def same_keys_def)
  qed
  have "wp (brelse pid b) (\<lambda>_ u. bio_inv pid (H - {b}) u (b # remove1 b bs) \<and> content u = content s \<and>
    memdisk u = memdisk s \<and> disksize u = disksize s \<and> same_keys s u) s \<longleftrightarrow>
    wp (bnd (deref (b_next (bufs ?t b))) (\<lambda>n.
      sq (upd_buf n (\<lambda>g. g\<lparr>b_prev := b_prev (bufs ?t b)\<rparr>)) (
      bnd (get_buf b) (\<lambda>f. bnd (deref (b_prev f)) (\<lambda>p.
      sq (upd_buf p (\<lambda>g. g\<lparr>b_next := b_next f\<rparr>)) (link_front b))))))
      (\<lambda>_ u. bc_lock u \<and> bio_inv pid (H - {b}) (u\<lparr>bc_lock := False\<rparr>) (b # remove1 b bs) \<and> content (u\<lparr>bc_lock := False\<rparr>) = content s \<and>
    memdisk u = memdisk s \<and> disksize u = disksize s \<and> same_keys s u) ?t"
    using h wf(4) unfolding brelse_def
    by (simp add: wp_sq wp_bnd wp_if wp_run [OF on_lock_runs(3)] wp_run [OF on_lock_runs(4)] wp_acquire wp_release upd_buf_def get_buf_def wp_modify wp_gets same_keys_def)
  then show ?thesis
    by (rule iffD2, intro wp_mono [OF ul] post) simp_all
qed

lemma bio_inv_set:
  assumes inv: "bio_inv pid H s bs" and b: "b \<in> H" and od: "on_disk s b n"
    and t: "bufs t = (bufs s)(b := f)" "bc_lock t = bc_lock s" "memdisk t = (memdisk s)(n := e)"
    and f: "f\<lparr>b_dirty := False\<rparr> = (bufs s b)\<lparr>b_data := d, b_valid := True, b_dirty := False\<rparr>"
  shows "bio_inv pid H t bs \<and> on_disk t b n \<and> content t = (content s)(n := d)"
proof -
  have bN: "b < NBUF" using bio_inv_held [OF inv b] .
  have uniq: "i = b" if "i < NBUF" "on_disk s i n" for i using bio_inv_unique [OF inv that(1) bN that(2) od] .
  have f': "b_data f = d \<and> b_valid f \<and> b_dev f = b_dev (bufs s b) \<and> b_blockno f = b_blockno (bufs s b) \<and> b_next f = b_next (bufs s b) \<and>
      b_prev f = b_prev (bufs s b) \<and> b_refcnt f = b_refcnt (bufs s b) \<and> b_lock f = b_lock (bufs s b)"
    using f by (cases f; cases "bufs s b") simp
  have "bio_inv pid (insert b H) t bs"
    by (rule bio_inv_upd [OF inv bN t]) (use od bio_inv_buf(1) [OF inv bN b] uniq f' in \<open>auto simp: on_disk_def\<close>)
  moreover have "insert b H = H" using b by auto
  ultimately have inv': "bio_inv pid H t bs" by simp
  have od': "on_disk t i m = on_disk s i m" for i m using t f' by (simp add: on_disk_def)
  have "content t m = ((content s)(n := d)) m" for m
  proof (cases "m = n")
    case True
    then show ?thesis using content_buf [OF inv' bN, of n] od t f' by (simp add: od')
  next
    case False
    have "cached t m = cached s m" by (simp add: cached_def od')
    moreover have "i \<noteq> b" if "cached s m = Some i" for i
      using cached_SomeD [OF that] od False by (auto simp: on_disk_def)
    ultimately show ?thesis using False t by (auto simp: content_def split: option.split)
  qed
  then show ?thesis using inv' od by (simp add: od' fun_eq_iff)
qed

lemma set_data_spec:
  assumes "bio_inv pid H s bs" "b \<in> H" "on_disk s b n" "b_valid (bufs s b)"
  shows "wp (set_data b g) (\<lambda>_ t. bio_inv pid H t bs \<and> on_disk t b n \<and> content t = (content s)(n := g (b_data (bufs s b))) \<and>
    b_valid (bufs t b) \<and> b_data (bufs t b) = g (b_data (bufs s b)) \<and> memdisk t = memdisk s \<and> disksize t = disksize s) s"
proof -
  let ?f = "(bufs s b)\<lparr>b_data := g (b_data (bufs s b))\<rparr>"
  have "bio_inv pid H (s\<lparr>bufs := (bufs s)(b := ?f)\<rparr>) bs \<and> on_disk (s\<lparr>bufs := (bufs s)(b := ?f)\<rparr>) b n \<and>
      content (s\<lparr>bufs := (bufs s)(b := ?f)\<rparr>) = (content s)(n := g (b_data (bufs s b)))"
    by (rule bio_inv_set [OF assms(1-3), where f = ?f and e = "memdisk s n"]) (use assms(4) in auto)
  then show ?thesis using assms(4) by (simp add: set_data_def upd_buf_def wp_rules)
qed

lemma bwrite_spec:
  assumes inv: "bio_inv pid H s bs" and b: "b \<in> H" and od: "on_disk s b n" and v: "b_valid (bufs s b)" and n: "n < disksize s"
  shows "wp (bwrite pid b) (\<lambda>_ t. bio_inv pid H t bs \<and> on_disk t b n \<and> content t = content s \<and> b_valid (bufs t b) \<and>
    \<not> b_dirty (bufs t b) \<and> b_data (bufs t b) = b_data (bufs s b) \<and> memdisk t = (memdisk s)(n := b_data (bufs s b)) \<and>
    disksize t = disksize s) s"
proof -
  have bN: "b < NBUF" using bio_inv_held [OF inv b] .
  let ?d = "b_data (bufs s b)"
  let ?u = "s\<lparr>bufs := (bufs s)(b := (bufs s b)\<lparr>b_dirty := True\<rparr>)\<rparr>"
  let ?t = "s\<lparr>bufs := (bufs s)(b := (bufs s b)\<lparr>b_dirty := False, b_valid := True\<rparr>), memdisk := (memdisk s)(n := ?d)\<rparr>"
  have l: "b_lock (bufs s b) = sl_held pid" using bio_inv_buf(1) [OF inv bN b] by simp
  have "iderw pid b ?u = Inr ((), ?t)"
    by (subst iderw_write [where n = n]) (use l od n in \<open>auto simp: on_disk_def\<close>)
  then have "bwrite pid b s = Inr ((), ?t)" by (simp add: bwrite_def run_simps l upd_buf_def)
  moreover have "bio_inv pid H ?t bs \<and> on_disk ?t b n \<and> content ?t = (content s)(n := ?d)"
    by (rule bio_inv_set [OF inv b od, where e = ?d and f = "(bufs s b)\<lparr>b_dirty := False, b_valid := True\<rparr>"]) simp_all
  moreover have "(content s)(n := ?d) = content s" using content_buf [OF inv bN od v] by auto
  ultimately show ?thesis by (intro wpI) auto
qed

section \<open>Correctness of the buffer cache\<close>

text \<open>The cache at boot: the zeroed data segment, on a disk of 1000 blocks.\<close>

definition buf_zero :: buf where
  "buf_zero = \<lparr>b_valid = False, b_dirty = False, b_dev = 0, b_blockno = 0,
     b_lock = \<lparr>sl_locked = False, sl_lk = False, sl_pid = 0\<rparr>, b_refcnt = 0, b_prev = None, b_next = None,
     b_qnext = None, b_data = (\<lambda>_. 0)\<rparr>"

definition bio_zero :: bio where
  "bio_zero = \<lparr>bufs = (\<lambda>_. buf_zero), bc_lock = False, memdisk = (\<lambda>n k. ucast n), disksize = 1000\<rparr>"

definition bio_booted :: bio where
  "bio_booted = final binit bio_zero"

lemma inited_inv:
  assumes t: "inited NBUF s t" and s: "\<forall>b < NBUF. b_refcnt (bufs s b) = 0 \<and> b_dev (bufs s b) \<noteq> 1 \<and> \<not> b_dirty (bufs s b)"
  shows "bio_inv pid {} t (rev [0 ..< NBUF]) \<and> content t = memdisk s \<and> disksize t = disksize s \<and> room {} t n"
proof -
  have f: "b_refcnt (bufs t b) = 0" "b_dev (bufs t b) \<noteq> 1" "\<not> b_dirty (bufs t b)" if "b < NBUF" for b
    using t s that by (auto simp: inited_def same_fields_def)
  then have nd: "\<not> on_disk t b n" if "b < NBUF" for b n using that by (simp add: on_disk_def)
  have "bio_wf t (rev [0 ..< NBUF])" using t by (auto simp: inited_def bio_wf_def)
  then have "bio_inv pid {} t (rev [0 ..< NBUF])"
    using t f nd by (intro bio_invI) (auto simp: inited_def)
  moreover have "content t n = memdisk t n" for n using nd by (intro content_disk) auto
  moreover have "room {} t n" using f NBUF_pos by (auto simp: room_def)
  ultimately show ?thesis using t by (auto simp: inited_def same_fields_def fun_eq_iff)
qed

lemma booted_inv: "bio_inv pid {} bio_booted (rev [0 ..< NBUF])" "content bio_booted = memdisk bio_zero"
  "disksize bio_booted = 1000" "room {} bio_booted n"
proof -
  obtain t where "binit bio_zero = Inr ((), t)" "inited NBUF bio_zero t"
    using binit_spec [of bio_zero] by (auto elim!: wpE)
  then have "inited NBUF bio_zero bio_booted" by (simp add: bio_booted_def final_def)
  from inited_inv [OF this, of pid n] show "bio_inv pid {} bio_booted (rev [0 ..< NBUF])"
    "content bio_booted = memdisk bio_zero" "disksize bio_booted = 1000" "room {} bio_booted n"
    by (simp_all add: bio_zero_def buf_zero_def)
qed

text \<open>With no buffer held, reading block \<open>n\<close> of the disk with \<open>bread\<close>, changing the buffer, writing it
  with \<open>bwrite\<close> and releasing it with \<open>brelse\<close> runs to its end, keeps the cache's invariant, changes
  the contents of block \<open>n\<close> and of no other, on the disk as in the cache, whatever block had to be
  evicted, and leaves the buffer first in the list.
\<close>

lemma bcache_write_through:
  assumes "bio_inv pid {} s bs" "n < disksize s" "room {} s n"
  shows "wp (bnd (bread pid 1 n) (\<lambda>b. sq (set_data b g) (sq (bwrite pid b) (sq (brelse pid b) (ret b)))))
    (\<lambda>b t. bio_inv pid {} t (b # remove1 b bs) \<and> content t = (content s)(n := g (content s n)) \<and>
       memdisk t = (memdisk s)(n := g (content s n))) s"
proof -
  have "wp (sq (set_data b g) (sq (bwrite pid b) (sq (brelse pid b) (ret b))))
      (\<lambda>b t. bio_inv pid {} t (b # remove1 b bs) \<and> content t = (content s)(n := g (content s n)) \<and>
        memdisk t = (memdisk s)(n := g (content s n))) t"
    if t: "fetched pid {} bs n s b t" for b t
  proof -
    from t have t: "bio_inv pid {b} t bs" "on_disk t b n" "b_valid (bufs t b)" "b_data (bufs t b) = content s n"
      "content t = content s" "memdisk t = memdisk s" "disksize t = disksize s" by (auto simp: fetched_def)
    show ?thesis
      unfolding wp_sq
      apply (rule wp_mono [OF set_data_spec [OF t(1) _ t(2,3)]], simp)
      apply (elim conjE, rule wp_mono [OF bwrite_spec [where H = "{b}" and n = n]], assumption, simp, assumption, assumption)
       apply (use t assms(2) in simp)
      apply (elim conjE, rule wp_mono [OF brelse_spec [where H = "{b}" and n = n]], assumption, simp, assumption, assumption, simp)
      apply (use t in \<open>simp add: wp_ret\<close>)
      done
  qed
  then show ?thesis
    using assms unfolding wp_bnd by (intro wp_mono [OF bread_spec]) auto
qed

text \<open>C13: \<open>bread\<close> of a block on a cache whose locked buffers are \<open>H\<close>, none of them caching that block,
  returns an unlocked buffer with the block's contents, locks only that buffer, changes no contents and
  keeps the invariant, in particular that no block is cached twice. If the block was not cached the
  buffer is the least recently used one that is neither locked nor dirty. If every buffer is locked or
  dirty, an uncached block makes it panic.
\<close>

theorem bread_returns_contents:
  assumes inv: "bio_inv pid H s bs" and n: "n < disksize s" and nh: "\<forall>b \<in> H. \<not> on_disk s b n"
  shows "(room H s n \<longrightarrow> wp (bread pid 1 n) (\<lambda>b t. b \<notin> H \<and> bio_inv pid (insert b H) t bs \<and> on_disk t b n \<and>
      b_data (bufs t b) = content s n \<and> content t = content s \<and> memdisk t = memdisk s \<and>
      (cached s n = None \<longrightarrow> find (\<lambda>i. i \<notin> H \<and> \<not> b_dirty (bufs s i)) (rev bs) = Some b)) s) \<and>
    (\<not> room H s n \<longrightarrow> bread pid 1 n s = Inl (Panic ''bget: no buffers''))"
proof (intro conjI impI)
  have wf: "bio_wf s bs" and set: "set bs = {..<NBUF}" using bio_inv_wf [OF inv] by (auto simp: bio_wf_def)
  have cong: "find (\<lambda>i. b_refcnt (bufs s i) = 0 \<and> \<not> b_dirty (bufs s i)) (rev bs) = find (\<lambda>i. i \<notin> H \<and> \<not> b_dirty (bufs s i)) (rev bs)"
    using set bio_inv_buf(1,2) [OF inv] by (intro find_cong refl) fastforce
  show "wp (bread pid 1 n) (\<lambda>b t. b \<notin> H \<and> bio_inv pid (insert b H) t bs \<and> on_disk t b n \<and>
      b_data (bufs t b) = content s n \<and> content t = content s \<and> memdisk t = memdisk s \<and>
      (cached s n = None \<longrightarrow> find (\<lambda>i. i \<notin> H \<and> \<not> b_dirty (bufs s i)) (rev bs) = Some b)) s" if room: "room H s n"
  proof -
    from bread_spec [OF inv n nh room] obtain b t where bt: "bread pid 1 n s = Inr (b, t)" "fetched pid H bs n s b t"
      by (auto elim: wpE)
    have "find (\<lambda>i. i \<notin> H \<and> \<not> b_dirty (bufs s i)) (rev bs) = Some b" if none: "cached s n = None"
    proof (cases "find (\<lambda>i. i \<notin> H \<and> \<not> b_dirty (bufs s i)) (rev bs)")
      case None
      then show ?thesis using room none set by (auto simp: room_def find_None_iff)
    next
      case (Some c)
      then have "c < NBUF" "c \<notin> H" using set find_SomeD [OF Some] by auto
      then have "bget pid 1 n s = Inr (c, claimed pid c (recycle 1 n) s)"
        using bget_miss [OF wf, of 1 n c pid] find_cached [OF inv, of n] none Some cong bio_inv_buf(2) [OF inv] by simp
      then have "c = b" using bt(1)
        by (auto simp: bread_def run_simps get_buf_def recycle_def split: sum.splits)
      with Some show ?thesis by simp
    qed
    with bt show ?thesis by (intro wpI) (auto simp: fetched_def)
  qed
  show "bread pid 1 n s = Inl (Panic ''bget: no buffers'')" if "\<not> room H s n"
    using that bget_full [OF wf, of 1 n pid] find_cached [OF inv, of n] set bio_inv_buf(1) [OF inv]
    by (fastforce simp: room_def bread_def run_simps)
qed

theorem bread_returns_contents_witness:
  "wp (bread 4 1 7) (\<lambda>b t. b \<notin> {} \<and> bio_inv 4 (insert b {}) t (rev [0 ..< NBUF]) \<and> on_disk t b 7 \<and>
      b_data (bufs t b) = content bio_booted 7 \<and> content t = content bio_booted \<and> memdisk t = memdisk bio_booted \<and>
      (cached bio_booted 7 = None \<longrightarrow>
         find (\<lambda>i. i \<notin> {} \<and> \<not> b_dirty (bufs bio_booted i)) (rev (rev [0 ..< NBUF])) = Some b)) bio_booted"
  using bread_returns_contents [OF booted_inv(1), of 7 4] booted_inv(4) by (simp add: booted_inv(3))

end
