(* ===== verification/Blocks.thy ===== *)
theory Blocks
  imports Bio
begin

text \<open>
  The block layer as log.c, fs.c and the swap code see it: blocks named by their numbers, read and
  locked, changed in memory, written to the disk or pinned for the log, and released. Which buffer
  holds a block and which block is evicted is the business of the theory \<open>Bio\<close>; the last section
  shows that the buffer cache implements this layer.
\<close>

section \<open>State and operations\<close>

text \<open>
  \<open>bk_data\<close> is what a read of a block returns, \<open>bk_disk\<close> what is on the disk, \<open>bk_held\<close> the blocks the
  running process has locked, \<open>bk_dirty\<close> those pinned in the cache by \<open>B_DIRTY\<close>. \<open>bk_writes\<close> is the
  history of writes to the disk, oldest first.
\<close>

record blk =
  bk_data :: "u32 \<Rightarrow> block"
  bk_disk :: "u32 \<Rightarrow> block"
  bk_size :: u32
  bk_held :: "u32 set"
  bk_dirty :: "u32 set"
  bk_writes :: "(u32 \<times> block) list"

definition blk_get :: "u32 \<Rightarrow> (blk, unit) km" where
  "blk_get n = bnd (gets bk_held) (\<lambda>h.
     if n \<in> h then fail Blocked else modify (\<lambda>s. s\<lparr>bk_held := insert n (bk_held s)\<rparr>))"

definition blk_read :: "u32 \<Rightarrow> u32 \<Rightarrow> (blk, block) km" where
  "blk_read dev n = bnd (gets bk_held) (\<lambda>h. bnd (gets bk_size) (\<lambda>z.
     if n \<in> h then fail Blocked
     else if dev \<noteq> 1 then panic ''iderw: request not for disk 1''
     else if z \<le> n then panic ''iderw: block out of range''
     else sq (modify (\<lambda>s. s\<lparr>bk_held := insert n (bk_held s)\<rparr>)) (gets (\<lambda>s. bk_data s n))))"

text \<open>Storing into the data of a locked buffer.\<close>

definition blk_set :: "u32 \<Rightarrow> block \<Rightarrow> (blk, unit) km" where
  "blk_set n d = modify (\<lambda>s. s\<lparr>bk_data := (bk_data s)(n := d)\<rparr>)"

definition blk_write :: "u32 \<Rightarrow> (blk, unit) km" where
  "blk_write n = bnd (gets bk_held) (\<lambda>h. bnd (gets bk_size) (\<lambda>z.
     if n \<notin> h then panic ''bwrite''
     else if z \<le> n then panic ''iderw: block out of range''
     else modify (\<lambda>s. s\<lparr>bk_disk := (bk_disk s)(n := bk_data s n), bk_dirty := bk_dirty s - {n},
       bk_writes := bk_writes s @ [(n, bk_data s n)]\<rparr>)))"

text \<open>Setting \<open>B_DIRTY\<close> on a locked buffer, which keeps it from being recycled.\<close>

definition blk_pin :: "u32 \<Rightarrow> (blk, unit) km" where
  "blk_pin n = modify (\<lambda>s. s\<lparr>bk_dirty := insert n (bk_dirty s)\<rparr>)"

text \<open>
  A change that was neither written nor pinned is lost once the buffer is recycled; the layer drops
  it at the release.
\<close>

definition blk_release :: "u32 \<Rightarrow> (blk, unit) km" where
  "blk_release n = bnd (gets bk_held) (\<lambda>h.
     if n \<notin> h then panic ''brelse''
     else modify (\<lambda>s. s\<lparr>bk_held := bk_held s - {n},
       bk_data := if n \<in> bk_dirty s then bk_data s else (bk_data s)(n := bk_disk s n)\<rparr>))"

lemmas blk_defs = blk_get_def blk_read_def blk_set_def blk_write_def blk_pin_def blk_release_def

definition blk_ok :: "blk \<Rightarrow> bool" where
  "blk_ok s \<longleftrightarrow> (\<forall>n. n \<notin> bk_held s \<and> n \<notin> bk_dirty s \<longrightarrow> bk_data s n = bk_disk s n)"

section \<open>Runs\<close>

lemma blk_read_run [run_simps]:
  "n \<notin> bk_held s \<Longrightarrow> n < bk_size s \<Longrightarrow>
     blk_read 1 n s = Inr (bk_data s n, s\<lparr>bk_held := insert n (bk_held s)\<rparr>)"
  by (simp add: blk_read_def run_simps)

lemma blk_get_run [run_simps]:
  "n \<notin> bk_held s \<Longrightarrow> blk_get n s = Inr ((), s\<lparr>bk_held := insert n (bk_held s)\<rparr>)"
  by (simp add: blk_get_def run_simps)

lemma blk_set_run [run_simps]: "blk_set n d s = Inr ((), s\<lparr>bk_data := (bk_data s)(n := d)\<rparr>)"
  by (simp add: blk_set_def run_simps)

lemma blk_pin_run [run_simps]: "blk_pin n s = Inr ((), s\<lparr>bk_dirty := insert n (bk_dirty s)\<rparr>)"
  by (simp add: blk_pin_def run_simps)

lemma blk_write_run [run_simps]:
  "n \<in> bk_held s \<Longrightarrow> n < bk_size s \<Longrightarrow> blk_write n s = Inr ((), s\<lparr>bk_disk := (bk_disk s)(n := bk_data s n),
     bk_dirty := bk_dirty s - {n}, bk_writes := bk_writes s @ [(n, bk_data s n)]\<rparr>)"
  by (simp add: blk_write_def run_simps)

lemma blk_release_run [run_simps]:
  "n \<in> bk_held s \<Longrightarrow> blk_release n s = Inr ((), s\<lparr>bk_held := bk_held s - {n},
     bk_data := if n \<in> bk_dirty s then bk_data s else (bk_data s)(n := bk_disk s n)\<rparr>)"
  by (simp add: blk_release_def run_simps)

section \<open>The buffer cache implements the block layer\<close>

text \<open>
  \<open>blk_rel pid H bs s a\<close>: the cache \<open>s\<close>, whose buffers \<open>H\<close> the process \<open>pid\<close> holds, presents the
  blocks of \<open>a\<close>.
\<close>

definition blk_rel :: "u32 \<Rightarrow> nat set \<Rightarrow> nat list \<Rightarrow> bio \<Rightarrow> blk \<Rightarrow> bool" where
  "blk_rel pid H bs s a \<longleftrightarrow> bio_inv pid H s bs \<and> bk_data a = content s \<and> bk_disk a = memdisk s \<and>
     bk_size a = disksize s \<and> bk_held a = {n. \<exists>b \<in> H. on_disk s b n} \<and>
     bk_dirty a = {n. \<exists>b < NBUF. on_disk s b n \<and> b_dirty (bufs s b)} \<and>
     (\<forall>b \<in> H. b_valid (bufs s b) \<and> b_dev (bufs s b) = 1)"

lemma blk_rel_held:
  assumes "blk_rel pid H bs s a" "b \<in> H" "on_disk s b n"
  shows "n \<in> bk_held a" "bk_data a n = b_data (bufs s b)" "b_valid (bufs s b)"
    "n \<in> bk_dirty a \<longleftrightarrow> b_dirty (bufs s b)"
proof -
  have inv: "bio_inv pid H s bs" and v: "b_valid (bufs s b)" and bN: "b < NBUF"
    using assms bio_inv_held by (auto simp: blk_rel_def)
  show "n \<in> bk_held a" "bk_data a n = b_data (bufs s b)" "b_valid (bufs s b)"
    using assms v content_buf [OF inv bN assms(3) v] by (auto simp: blk_rel_def)
  show "n \<in> bk_dirty a \<longleftrightarrow> b_dirty (bufs s b)"
    using assms bN bio_inv_unique [OF inv] by (auto simp: blk_rel_def)
qed

lemma blk_read_refines:
  assumes rel: "blk_rel pid H bs s a" and n: "n < bk_size a" "n \<notin> bk_held a" and room: "room H s n"
  shows "wp (bread pid 1 n) (\<lambda>b t. b \<notin> H \<and> on_disk t b n \<and>
     wp (blk_read 1 n) (\<lambda>d a'. d = b_data (bufs t b) \<and> blk_rel pid (insert b H) bs t a') a) s"
proof -
  have inv: "bio_inv pid H s bs" using rel by (simp add: blk_rel_def)
  have nh: "\<forall>b \<in> H. \<not> on_disk s b n" using rel n by (auto simp: blk_rel_def)
  let ?a = "a\<lparr>bk_held := insert n (bk_held a)\<rparr>"
  have r: "blk_rel pid (insert b H) bs t ?a" if f: "fetched pid H bs n s b t" for b t
  proof -
    from f have t: "b < NBUF" "b \<notin> H" "bio_inv pid (insert b H) t bs" "on_disk t b n" "b_valid (bufs t b)"
      "content t = content s" "memdisk t = memdisk s" "disksize t = disksize s"
      "\<And>i. i < NBUF \<Longrightarrow> i \<noteq> b \<Longrightarrow> bufs t i = bufs s i"
      "b_dirty (bufs t b) = b_dirty (bufs s b)" "on_disk s b n \<or> \<not> b_dirty (bufs s b)" by (auto simp: fetched_def)
    have H: "i < NBUF" "i \<noteq> b" if "i \<in> H" for i using that t(2) bio_inv_held [OF inv] by auto
    have od: "on_disk t i m = on_disk s i m" if "i < NBUF" "i \<noteq> b" for i m
      using that t(9) by (simp add: on_disk_def)
    have "{m. \<exists>c \<in> insert b H. on_disk t c m} = insert n {m. \<exists>c \<in> H. on_disk s c m}"
      using t(4) H od by (auto simp: on_disk_def)
    moreover have "(\<exists>c < NBUF. on_disk t c m \<and> b_dirty (bufs t c)) = (\<exists>c < NBUF. on_disk s c m \<and> b_dirty (bufs s c))" for m
      using t od by (metis on_disk_def)
    moreover have "\<forall>c \<in> insert b H. b_valid (bufs t c) \<and> b_dev (bufs t c) = 1"
      using rel t H by (auto simp: blk_rel_def on_disk_def)
    ultimately show ?thesis using rel t by (simp add: blk_rel_def)
  qed
  have z: "n < disksize s" "bk_data a n = content s n" using n rel by (auto simp: blk_rel_def)
  show ?thesis
  proof (rule wp_mono [OF bread_spec [OF inv z(1) nh room]])
    fix b t assume f: "fetched pid H bs n s b t"
    with r [OF f] z(2) show "b \<notin> H \<and> on_disk t b n \<and>
        wp (blk_read 1 n) (\<lambda>d a'. d = b_data (bufs t b) \<and> blk_rel pid (insert b H) bs t a') a"
      unfolding wp_run [where m = "blk_read 1 n", OF blk_read_run [OF n(2,1)]] by (simp add: fetched_def)
  qed
qed

lemma blk_rel_upd:
  assumes rel: "blk_rel pid H bs s a" and b: "b \<in> H" and od: "on_disk s b n"
    and t: "bufs t = (bufs s)(b := f)" "bc_lock t = bc_lock s" "memdisk t = (memdisk s)(n := e)" "disksize t = disksize s"
    and f: "f\<lparr>b_dirty := False\<rparr> = (bufs s b)\<lparr>b_data := d, b_valid := True, b_dirty := False\<rparr>"
    and a': "bk_data a' = (bk_data a)(n := d)" "bk_disk a' = (bk_disk a)(n := e)" "bk_size a' = bk_size a"
      "bk_held a' = bk_held a" "bk_dirty a' = (if b_dirty f then insert n (bk_dirty a) else bk_dirty a - {n})"
  shows "blk_rel pid H bs t a' \<and> on_disk t b n"
proof -
  have inv: "bio_inv pid H s bs" and bN: "b < NBUF" using rel bio_inv_held b by (auto simp: blk_rel_def)
  have i: "bio_inv pid H t bs \<and> on_disk t b n \<and> content t = (content s)(n := d)"
    by (rule bio_inv_set [OF inv b od t(1-3) f])
  have f': "b_valid f" "b_dev f = b_dev (bufs s b)" "b_blockno f = b_blockno (bufs s b)"
    using f by (cases f; cases "bufs s b"; simp)+
  have od': "on_disk t i m = on_disk s i m" for i m using t f' by (simp add: on_disk_def)
  have "(\<exists>c < NBUF. on_disk s c m \<and> b_dirty (bufs t c)) \<longleftrightarrow>
      m \<in> (if b_dirty f then insert n (bk_dirty a) else bk_dirty a - {n})" for m
  proof (cases "m = n")
    case True
    have "c = b" if "c < NBUF" "on_disk s c n" for c using bio_inv_unique [OF inv that(1) bN that(2) od] .
    then have "(\<exists>c < NBUF. on_disk s c n \<and> b_dirty (bufs t c)) = b_dirty (bufs t b)" using bN od by blast
    with True t(1) show ?thesis by simp
  next
    case False
    then have "c \<noteq> b" if "on_disk s c m" for c using that od by (auto simp: on_disk_def)
    with False t(1) have "(\<exists>c < NBUF. on_disk s c m \<and> b_dirty (bufs t c)) = (\<exists>c < NBUF. on_disk s c m \<and> b_dirty (bufs s c))"
      by (metis fun_upd_other)
    with False rel show ?thesis by (simp add: blk_rel_def)
  qed
  moreover have "\<forall>c \<in> H. b_valid (bufs t c) \<and> b_dev (bufs t c) = 1" using rel t f' b by (simp add: blk_rel_def)
  moreover have "bk_held a' = {n. \<exists>b \<in> H. on_disk t b n}" using a' rel by (simp add: blk_rel_def od')
  moreover have "bk_data a' = content t" "bk_disk a' = memdisk t" "bk_size a' = disksize t"
    using a' rel t i by (simp_all add: blk_rel_def)
  ultimately show ?thesis using i a'(5) by (simp add: blk_rel_def od' set_eq_iff)
qed

lemma blk_set_refines:
  assumes rel: "blk_rel pid H bs s a" and b: "b \<in> H" "on_disk s b n"
  shows "wp (set_data b g) (\<lambda>_ t. on_disk t b n \<and>
    wp (blk_set n (g (bk_data a n))) (\<lambda>_ a'. blk_rel pid H bs t a') a) s"
proof -
  note h = blk_rel_held [OF rel b]
  let ?f = "(bufs s b)\<lparr>b_data := g (bk_data a n)\<rparr>"
  have "blk_rel pid H bs (s\<lparr>bufs := (bufs s)(b := ?f)\<rparr>) (a\<lparr>bk_data := (bk_data a)(n := g (bk_data a n))\<rparr>) \<and>
      on_disk (s\<lparr>bufs := (bufs s)(b := ?f)\<rparr>) b n"
    by (rule blk_rel_upd [OF rel b, where f = ?f and e = "memdisk s n" and d = "g (bk_data a n)"])
      (use h rel in \<open>auto simp: blk_rel_def\<close>)
  then show ?thesis using h by (simp add: set_data_def upd_buf_def wp_rules blk_set_def)
qed

lemma blk_pin_refines:
  assumes rel: "blk_rel pid H bs s a" and b: "b \<in> H" "on_disk s b n"
  shows "wp (upd_buf b (\<lambda>f. f\<lparr>b_dirty := True\<rparr>)) (\<lambda>_ t. on_disk t b n \<and>
    wp (blk_pin n) (\<lambda>_ a'. blk_rel pid H bs t a') a) s"
proof -
  note h = blk_rel_held [OF rel b]
  let ?f = "(bufs s b)\<lparr>b_dirty := True\<rparr>"
  have "blk_rel pid H bs (s\<lparr>bufs := (bufs s)(b := ?f)\<rparr>) (a\<lparr>bk_dirty := insert n (bk_dirty a)\<rparr>) \<and>
      on_disk (s\<lparr>bufs := (bufs s)(b := ?f)\<rparr>) b n"
    by (rule blk_rel_upd [OF rel b, where f = ?f and e = "memdisk s n" and d = "bk_data a n"])
      (use h rel in \<open>auto simp: blk_rel_def\<close>)
  then show ?thesis by (simp add: upd_buf_def wp_rules blk_pin_def)
qed

lemma blk_write_refines:
  assumes rel: "blk_rel pid H bs s a" and b: "b \<in> H" "on_disk s b n" and n: "n < bk_size a"
  shows "wp (bwrite pid b) (\<lambda>_ t. on_disk t b n \<and> wp (blk_write n) (\<lambda>_ a'. blk_rel pid H bs t a') a) s"
proof -
  note h = blk_rel_held [OF rel b]
  have inv: "bio_inv pid H s bs" and bN: "b < NBUF" and z: "n < disksize s" using rel bio_inv_held b n by (auto simp: blk_rel_def)
  let ?d = "b_data (bufs s b)"
  let ?f = "(bufs s b)\<lparr>b_dirty := False, b_valid := True\<rparr>"
  let ?t = "s\<lparr>bufs := (bufs s)(b := ?f), memdisk := (memdisk s)(n := ?d)\<rparr>"
  let ?a = "a\<lparr>bk_disk := (bk_disk a)(n := bk_data a n), bk_dirty := bk_dirty a - {n},
     bk_writes := bk_writes a @ [(n, bk_data a n)]\<rparr>"
  have l: "b_lock (bufs s b) = sl_held pid" using bio_inv_buf(1) [OF inv bN b(1)] by simp
  have "iderw pid b (s\<lparr>bufs := (bufs s)(b := (bufs s b)\<lparr>b_dirty := True\<rparr>)\<rparr>) = Inr ((), ?t)"
    by (subst iderw_write [where n = n]) (use l b z in \<open>auto simp: on_disk_def\<close>)
  then have run: "bwrite pid b s = Inr ((), ?t)" by (simp add: bwrite_def run_simps l upd_buf_def)
  have "blk_rel pid H bs ?t ?a \<and> on_disk ?t b n"
    by (rule blk_rel_upd [OF rel b, where f = ?f and e = ?d and d = ?d]) (use h rel in \<open>auto simp: blk_rel_def\<close>)
  with run show ?thesis by (intro wpI) (auto intro!: wpI blk_write_run h n)
qed

lemma blk_release_refines:
  assumes rel: "blk_rel pid H bs s a" and b: "b \<in> H" "on_disk s b n"
    and ok: "n \<in> bk_dirty a \<or> bk_data a n = bk_disk a n"
  shows "wp (brelse pid b) (\<lambda>_ t. wp (blk_release n) (\<lambda>_ a'. blk_rel pid (H - {b}) (b # remove1 b bs) t a') a) s"
proof -
  note h = blk_rel_held [OF rel b]
  have inv: "bio_inv pid H s bs" and bN: "b < NBUF" using rel bio_inv_held b by (auto simp: blk_rel_def)
  have ok': "b_dirty (bufs s b) \<or> b_data (bufs s b) = memdisk s n" using ok h rel by (simp add: blk_rel_def)
  let ?a = "a\<lparr>bk_held := bk_held a - {n},
     bk_data := if n \<in> bk_dirty a then bk_data a else (bk_data a)(n := bk_disk a n)\<rparr>"
  have d: "bk_data ?a = bk_data a" using ok by auto
  have "blk_rel pid (H - {b}) (b # remove1 b bs) t ?a"
    if "bio_inv pid (H - {b}) t (b # remove1 b bs) \<and> content t = content s \<and>
      memdisk t = memdisk s \<and> disksize t = disksize s \<and> same_keys s t" for t
  proof -
    have od: "on_disk t i m = on_disk s i m" for i m using that by (simp add: on_disk_def same_keys_def)
    have "{m. \<exists>c \<in> H - {b}. on_disk s c m} = bk_held a - {n}"
      using rel b(2) bio_inv_unique [OF inv _ bN _ b(2)] bio_inv_held [OF inv] by (auto simp: blk_rel_def on_disk_def)
    with that rel d show ?thesis by (simp add: blk_rel_def od same_keys_def)
  qed
  then show ?thesis
    unfolding wp_run [where m = "blk_release n", OF blk_release_run [OF h(1)]]
    by (intro wp_mono [OF brelse_spec [OF inv b h(3) ok']])
qed

text \<open>The block layer at boot.\<close>

definition blk_boot :: "bio \<Rightarrow> blk" where
  "blk_boot s = \<lparr>bk_data = memdisk s, bk_disk = memdisk s, bk_size = disksize s, bk_held = {}, bk_dirty = {}, bk_writes = []\<rparr>"

lemma blk_rel_boot: "blk_rel pid {} (rev [0 ..< NBUF]) bio_booted (blk_boot bio_booted)"
proof -
  have i: "inited NBUF bio_zero bio_booted"
    using binit_spec [of bio_zero] by (auto elim!: wpE simp: bio_booted_def final_def)
  then have "memdisk bio_booted = memdisk bio_zero" "\<not> b_dirty (bufs bio_booted b)" for b
    by (auto simp: inited_def same_fields_def bio_zero_def buf_zero_def)
  then show ?thesis using booted_inv(1) [of pid] booted_inv(2) by (simp add: blk_rel_def blk_boot_def)
qed

text \<open>C7: The buffer cache refines the block layer. From related states each operation on a block that
  the disk has runs to its end in both and leads to related states, with the same data: \<open>bread\<close> when the
  block is not locked and a buffer can be had, a store into a held buffer, \<open>bwrite\<close>, setting
  \<open>B_DIRTY\<close>, and \<open>brelse\<close> of a buffer whose changes have been written or pinned.\<close>

theorem buffer_cache_refines_blocks:
  assumes "blk_rel pid H bs s a" "n < bk_size a"
  shows "(n \<notin> bk_held a \<and> room H s n \<longrightarrow> wp (bread pid 1 n) (\<lambda>b t. b \<notin> H \<and> on_disk t b n \<and>
        wp (blk_read 1 n) (\<lambda>d a'. d = b_data (bufs t b) \<and> blk_rel pid (insert b H) bs t a') a) s) \<and>
    (\<forall>b \<in> H. on_disk s b n \<longrightarrow>
      wp (set_data b g) (\<lambda>_ t. on_disk t b n \<and> wp (blk_set n (g (bk_data a n))) (\<lambda>_ a'. blk_rel pid H bs t a') a) s \<and>
      wp (bwrite pid b) (\<lambda>_ t. on_disk t b n \<and> wp (blk_write n) (\<lambda>_ a'. blk_rel pid H bs t a') a) s \<and>
      wp (upd_buf b (\<lambda>f. f\<lparr>b_dirty := True\<rparr>)) (\<lambda>_ t. on_disk t b n \<and> wp (blk_pin n) (\<lambda>_ a'. blk_rel pid H bs t a') a) s \<and>
      (n \<in> bk_dirty a \<or> bk_data a n = bk_disk a n \<longrightarrow>
        wp (brelse pid b) (\<lambda>_ t. wp (blk_release n) (\<lambda>_ a'. blk_rel pid (H - {b}) (b # remove1 b bs) t a') a) s))"
  using assms blk_read_refines blk_set_refines blk_write_refines blk_pin_refines blk_release_refines
  by (intro conjI impI ballI) simp_all

theorem buffer_cache_refines_blocks_witness:
  "wp (bread 4 1 7) (\<lambda>b t. b \<notin> {} \<and> on_disk t b 7 \<and>
     wp (blk_read 1 7) (\<lambda>d a'. d = b_data (bufs t b) \<and> blk_rel 4 (insert b {}) (rev [0 ..< NBUF]) t a') (blk_boot bio_booted)) bio_booted"
  using buffer_cache_refines_blocks [OF blk_rel_boot [of 4], of 7] booted_inv(3,4) by (simp add: blk_boot_def)

end
