(* ===== verification/Log.thy ===== *)
theory Log
  imports Blocks Memory
begin

text \<open>
  The write-ahead log of log.c over the block layer: the in-memory header, the reservation of log
  space by \<open>begin_op\<close>, the recording of changed blocks by \<open>log_write\<close>, the commit that \<open>end_op\<close> starts, and
  the recovery at boot. A block is its 512 bytes, so that copying one block over another replaces it.
  Sleeping is the fault \<open>Blocked\<close> of a single-process run.
\<close>

section \<open>State\<close>

definition BSIZE :: nat where "BSIZE = 512"

definition MAXOPBLOCKS :: nat where "MAXOPBLOCKS = 10"

definition LOGSIZE :: nat where "LOGSIZE = MAXOPBLOCKS * 3"

record superblock =
  sb_size :: u32
  sb_nblocks :: u32
  sb_ninodes :: u32
  sb_nlog :: u32
  sb_logstart :: u32
  sb_inodestart :: u32
  sb_bmapstart :: u32

record logsys =
  lg_lock :: bool
  lg_start :: u32
  lg_size :: int
  outstanding :: int
  committing :: bool
  lg_dev :: u32
  lh_n :: int
  lh_block :: "nat \<Rightarrow> u32"
  lg_blk :: blk

text \<open>A block operation of the log's state.\<close>

definition on_blk :: "(blk, 'a) km \<Rightarrow> (logsys, 'a) km" where
  "on_blk = zoom lg_blk (\<lambda>b s. s\<lparr>lg_blk := b\<rparr>)"

text \<open>The array \<open>log.lh.block\<close> has \<open>LOGSIZE\<close> entries.\<close>

definition lh_at :: "nat \<Rightarrow> (logsys, u32) km" where
  "lh_at i = (if i < LOGSIZE then gets (\<lambda>s. lh_block s i) else fail OutOfBounds)"

definition lh_put :: "nat \<Rightarrow> u32 \<Rightarrow> (logsys, unit) km" where
  "lh_put i v = (if i < LOGSIZE then modify (\<lambda>s. s\<lparr>lh_block := (lh_block s)(i := v)\<rparr>) else fail OutOfBounds)"

section \<open>Operations\<close>

definition readsb :: "u32 \<Rightarrow> (logsys, superblock) km" where
  "readsb dev =
     bnd (on_blk (blk_read dev 1)) (\<lambda>d.
     sq (on_blk (blk_release 1))
        (ret \<lparr>sb_size = ld32 d 0, sb_nblocks = ld32 d 4, sb_ninodes = ld32 d 8, sb_nlog = ld32 d 12,
           sb_logstart = ld32 d 16, sb_inodestart = ld32 d 20, sb_bmapstart = ld32 d 24\<rparr>))"

definition install_trans_body :: "nat \<Rightarrow> (logsys, unit) km" where
  "install_trans_body tail =
     bnd (gets lg_dev) (\<lambda>dev. bnd (gets lg_start) (\<lambda>start.
     bnd (on_blk (blk_read dev (start + of_nat tail + 1))) (\<lambda>lbuf.
     bnd (lh_at tail) (\<lambda>h.
     sq (on_blk (blk_read dev h)) (
     sq (on_blk (blk_set h lbuf)) (
     sq (on_blk (blk_write h)) (
     sq (on_blk (blk_release (start + of_nat tail + 1)))
        (on_blk (blk_release h)))))))))"

definition install_trans :: "(logsys, unit) km" where
  "install_trans = bnd (gets lh_n) (\<lambda>n. for_each install_trans_body [0 ..< nat n])"

definition read_head :: "(logsys, unit) km" where
  "read_head =
     bnd (gets lg_dev) (\<lambda>dev. bnd (gets lg_start) (\<lambda>start.
     bnd (on_blk (blk_read dev start)) (\<lambda>d.
     sq (modify (\<lambda>s. s\<lparr>lh_n := sint (ld32 d 0)\<rparr>)) (
     sq (for_each (\<lambda>i. lh_put i (ld32 d (4 + 4 * i))) [0 ..< nat (sint (ld32 d 0))])
        (on_blk (blk_release start))))))"

definition write_head :: "(logsys, unit) km" where
  "write_head =
     bnd (gets lg_dev) (\<lambda>dev. bnd (gets lg_start) (\<lambda>start. bnd (gets lh_n) (\<lambda>n.
     bnd (on_blk (blk_read dev start)) (\<lambda>d.
     sq (on_blk (blk_set start (st32 d 0 (word_of_int n)))) (
     sq (for_each (\<lambda>i. bnd (lh_at i) (\<lambda>h. bnd (gets (\<lambda>s. bk_data (lg_blk s) start)) (\<lambda>d.
           on_blk (blk_set start (st32 d (4 + 4 * i) h))))) [0 ..< nat n]) (
     sq (on_blk (blk_write start))
        (on_blk (blk_release start))))))))"

definition recover_from_log :: "(logsys, unit) km" where
  "recover_from_log =
     sq read_head (
     sq install_trans (
     sq (modify (\<lambda>s. s\<lparr>lh_n := 0\<rparr>))
        write_head))"

definition initlog :: "u32 \<Rightarrow> (logsys, unit) km" where
  "initlog dev =
     (if BSIZE \<le> 4 + 4 * LOGSIZE then panic ''initlog: too big logheader''
      else
        sq (modify (\<lambda>s. s\<lparr>lg_lock := False\<rparr>)) (
        bnd (readsb dev) (\<lambda>sb.
        sq (modify (\<lambda>s. s\<lparr>lg_start := sb_logstart sb\<rparr>)) (
        sq (modify (\<lambda>s. s\<lparr>lg_size := sint (sb_nlog sb)\<rparr>)) (
        sq (modify (\<lambda>s. s\<lparr>lg_dev := dev\<rparr>))
           recover_from_log)))))"

definition begin_op :: "(logsys, unit) km" where
  "begin_op =
     sq (acquire lg_lock lg_lock_update) (
     bnd (gets committing) (\<lambda>c. bnd (gets lh_n) (\<lambda>n. bnd (gets outstanding) (\<lambda>k.
     if c then fail Blocked
     else if int LOGSIZE < n + (k + 1) * int MAXOPBLOCKS then fail Blocked
     else
       sq (modify (\<lambda>s. s\<lparr>outstanding := outstanding s + 1\<rparr>))
          (release lg_lock lg_lock_update)))))"

definition write_log_body :: "nat \<Rightarrow> (logsys, unit) km" where
  "write_log_body tail =
     bnd (gets lg_dev) (\<lambda>dev. bnd (gets lg_start) (\<lambda>start.
     sq (on_blk (blk_read dev (start + of_nat tail + 1))) (
     bnd (lh_at tail) (\<lambda>h.
     bnd (on_blk (blk_read dev h)) (\<lambda>from.
     sq (on_blk (blk_set (start + of_nat tail + 1) from)) (
     sq (on_blk (blk_write (start + of_nat tail + 1))) (
     sq (on_blk (blk_release h))
        (on_blk (blk_release (start + of_nat tail + 1))))))))))"

definition write_log :: "(logsys, unit) km" where
  "write_log = bnd (gets lh_n) (\<lambda>n. for_each write_log_body [0 ..< nat n])"

definition commit :: "(logsys, unit) km" where
  "commit =
     bnd (gets lh_n) (\<lambda>n.
     if 0 < n then
       sq write_log (
       sq write_head (
       sq install_trans (
       sq (modify (\<lambda>s. s\<lparr>lh_n := 0\<rparr>))
          write_head)))
     else ret ())"

definition end_op :: "(logsys, unit) km" where
  "end_op =
     sq (acquire lg_lock lg_lock_update) (
     sq (modify (\<lambda>s. s\<lparr>outstanding := outstanding s - 1\<rparr>)) (
     bnd (gets committing) (\<lambda>c. bnd (gets outstanding) (\<lambda>k.
     if c then panic ''log.committing''
     else if k = 0 then
       sq (modify (\<lambda>s. s\<lparr>committing := True\<rparr>)) (
       sq (release lg_lock lg_lock_update) (
       sq commit (
       sq (acquire lg_lock lg_lock_update) (
       sq (modify (\<lambda>s. s\<lparr>committing := False\<rparr>))
          (release lg_lock lg_lock_update)))))
     else release lg_lock lg_lock_update))))"

definition log_write :: "u32 \<Rightarrow> (logsys, unit) km" where
  "log_write b =
     bnd (gets lh_n) (\<lambda>n. bnd (gets lg_size) (\<lambda>size. bnd (gets outstanding) (\<lambda>k. bnd (gets lh_block) (\<lambda>blks.
     if int LOGSIZE \<le> n \<or> size - 1 \<le> n then panic ''too big a transaction''
     else if k < 1 then panic ''log_write outside of trans''
     else
       sq (acquire lg_lock lg_lock_update) (
       let i = (case scan_from (\<lambda>i. blks i = b) 0 (nat n) of None \<Rightarrow> nat n | Some i \<Rightarrow> i) in
       sq (lh_put i b) (
       sq (if int i = n then modify (\<lambda>s. s\<lparr>lh_n := lh_n s + 1\<rparr>) else ret ()) (
       sq (on_blk (blk_pin b))
          (release lg_lock lg_lock_update))))))))"

section \<open>The log in a quiet state\<close>

text \<open>Block \<open>i\<close> of the log, and the area the log occupies.\<close>

definition log_slot :: "logsys \<Rightarrow> nat \<Rightarrow> u32" where
  "log_slot s i = lg_start s + of_nat i + 1"

definition log_area :: "logsys \<Rightarrow> u32 set" where
  "log_area s = {n. unat (lg_start s) \<le> unat n \<and> unat n < unat (lg_start s) + nat (lg_size s)}"

definition apply_writes :: "(u32 \<times> block) list \<Rightarrow> (u32 \<Rightarrow> block) \<Rightarrow> (u32 \<Rightarrow> block)" where
  "apply_writes ws d = fold (\<lambda>(n, b) d. d(n := b)) ws d"

text \<open>The geometry of the log and the blocks \<open>hs\<close> recorded in its header.\<close>

definition log_geom :: "logsys \<Rightarrow> bool" where
  "log_geom s \<longleftrightarrow> lg_dev s = 1 \<and> 0 < lg_size s \<and> unat (lg_start s) + nat (lg_size s) \<le> unat (bk_size (lg_blk s))"

definition log_rep :: "logsys \<Rightarrow> u32 list \<Rightarrow> bool" where
  "log_rep s hs \<longleftrightarrow> lh_n s = int (length hs) \<and> (\<forall>i < length hs. lh_block s i = hs ! i) \<and> distinct hs \<and>
     length hs \<le> LOGSIZE \<and> int (length hs) < lg_size s \<and> set hs \<inter> log_area s = {} \<and>
     (\<forall>h \<in> set hs. h < bk_size (lg_blk s))"

lemma apply_writes_simps [simp]:
  "apply_writes [] d = d" "apply_writes (ws @ [(n, b)]) d = (apply_writes ws d)(n := b)"
  by (simp_all add: apply_writes_def)

lemma apply_writes_Cons: "apply_writes ((n, b) # ws) d = apply_writes ws (d(n := b))"
  by (simp add: apply_writes_def)

lemma apply_writes_append: "apply_writes (ws @ vs) d = apply_writes vs (apply_writes ws d)"
  by (simp add: apply_writes_def)

lemma apply_writes_other: "m \<notin> fst ` set ws \<Longrightarrow> apply_writes ws d m = d m"
  by (induction ws rule: rev_induct) (auto simp: image_iff)

lemma apply_writes_at:
  assumes "j < k" "\<forall>i < k. f i = f j \<longrightarrow> g i = g j"
  shows "apply_writes (map (\<lambda>i. (f i, g i)) [0 ..< k]) d (f j) = g j"
  using assms
proof (induction k)
  case (Suc k)
  have snoc: "apply_writes (map (\<lambda>i. (f i, g i)) [0 ..< Suc k]) d =
      (apply_writes (map (\<lambda>i. (f i, g i)) [0 ..< k]) d)(f k := g k)" by simp
  show ?case
  proof (cases "f k = f j")
    case True
    with Suc.prems(2) have "g k = g j" by simp
    with True show ?thesis by (simp only: snoc fun_upd_same)
  next
    case False
    then have "j < k" using Suc.prems(1) by (metis less_antisym)
    moreover have "\<forall>i < k. f i = f j \<longrightarrow> g i = g j" using Suc.prems(2) less_SucI by blast
    ultimately have "apply_writes (map (\<lambda>i. (f i, g i)) [0 ..< k]) d (f j) = g j" by (rule Suc.IH)
    with False show ?thesis by (simp only: snoc fun_upd_apply) simp
  qed
qed simp

lemma log_slot_unat:
  assumes "log_geom s" "int i + 1 < lg_size s"
  shows "unat (log_slot s i) = unat (lg_start s) + i + 1"
proof -
  have "unat (lg_start s) + i + 1 < 2 ^ 32"
    using assms unat_bound [of "bk_size (lg_blk s)"] by (simp add: log_geom_def) linarith
  then show ?thesis by (intro of_nat_inverse) (simp_all add: log_slot_def)
qed

lemma log_slot_facts:
  assumes "log_geom s" "int i + 1 < lg_size s"
  shows "log_slot s i \<in> log_area s" "log_slot s i < bk_size (lg_blk s)" "log_slot s i \<noteq> lg_start s"
    "int j + 1 < lg_size s \<Longrightarrow> log_slot s i = log_slot s j \<longleftrightarrow> i = j"
proof -
  note u = log_slot_unat [OF assms]
  show "log_slot s i \<in> log_area s" "log_slot s i < bk_size (lg_blk s)"
    using assms u by (auto simp: log_area_def log_geom_def word_less_nat_alt)
  show "log_slot s i \<noteq> lg_start s" using u by auto
  show "log_slot s i = log_slot s j \<longleftrightarrow> i = j" if "int j + 1 < lg_size s"
    using u log_slot_unat [OF assms(1) that] by (metis add_left_cancel add_right_cancel)
qed

lemma log_start_area: "log_geom s \<Longrightarrow> lg_start s \<in> log_area s \<and> lg_start s < bk_size (lg_blk s)"
  by (auto simp: log_geom_def log_area_def word_less_nat_alt)

lemma on_blk_run [run_simps]:
  "on_blk m s = (case m (lg_blk s) of Inl e \<Rightarrow> Inl e | Inr (x, b) \<Rightarrow> Inr (x, s\<lparr>lg_blk := b\<rparr>))"
  by (simp add: on_blk_def run_simps)

lemma log_rep_at: "log_rep s hs \<Longrightarrow> i < length hs \<Longrightarrow> lh_at i s = Inr (hs ! i, s)"
  by (simp add: lh_at_def log_rep_def run_simps)

text \<open>The steps between a read and a release of two different blocks, one of them written.\<close>

lemma blk_copy_run:
  assumes "a \<noteq> c" "bk_held b = {}" "a < bk_size b" "c < bk_size b" "c \<notin> bk_dirty b" "bk_data b c = bk_disk b c"
  shows "bnd (blk_read 1 c) (\<lambda>d. sq (blk_read 1 a) (sq (blk_set a d) (sq (blk_write a) (sq (blk_release c) (blk_release a))))) b =
    Inr ((), b\<lparr>bk_data := (bk_data b)(a := bk_data b c), bk_disk := (bk_disk b)(a := bk_data b c),
      bk_dirty := bk_dirty b - {a}, bk_writes := bk_writes b @ [(a, bk_data b c)]\<rparr>)"
  using assms by (cases b) (auto simp: run_simps fun_eq_iff)

lemma blk_save_run:
  assumes "a \<noteq> c" "bk_held b = {}" "a < bk_size b" "c < bk_size b" "a \<notin> bk_dirty b" "c \<in> bk_dirty b"
  shows "sq (blk_read 1 a) (bnd (blk_read 1 c) (\<lambda>d. sq (blk_set a d) (sq (blk_write a) (sq (blk_release c) (blk_release a))))) b =
    Inr ((), b\<lparr>bk_data := (bk_data b)(a := bk_data b c), bk_disk := (bk_disk b)(a := bk_data b c),
      bk_writes := bk_writes b @ [(a, bk_data b c)]\<rparr>)"
  using assms by (cases b) (auto simp: run_simps fun_eq_iff)

text \<open>A batch of disk writes, after which the blocks in \<open>ds\<close> are no longer pinned.\<close>

definition blk_batch :: "(u32 \<times> block) list \<Rightarrow> u32 set \<Rightarrow> blk \<Rightarrow> blk" where
  "blk_batch ws ds b = b\<lparr>bk_data := apply_writes ws (bk_data b), bk_disk := apply_writes ws (bk_disk b),
     bk_dirty := bk_dirty b - ds, bk_writes := bk_writes b @ ws\<rparr>"

lemma blk_batch_simps [simp]:
  "bk_data (blk_batch ws ds b) = apply_writes ws (bk_data b)" "bk_disk (blk_batch ws ds b) = apply_writes ws (bk_disk b)"
  "bk_dirty (blk_batch ws ds b) = bk_dirty b - ds" "bk_held (blk_batch ws ds b) = bk_held b"
  "bk_size (blk_batch ws ds b) = bk_size b" "bk_writes (blk_batch ws ds b) = bk_writes b @ ws"
  by (simp_all add: blk_batch_def)

lemma blk_batch_nil [simp]: "blk_batch [] {} b = b"
  by (simp add: blk_batch_def)

text \<open>Quiet: nothing locked, only blocks of the header pinned, everything else as on the disk.\<close>

definition log_quiet :: "logsys \<Rightarrow> bool" where
  "log_quiet s \<longleftrightarrow> bk_held (lg_blk s) = {} \<and> bk_dirty (lg_blk s) \<inter> log_area s = {} \<and> blk_ok (lg_blk s)"

lemma log_quiet_slot:
  "log_quiet s \<Longrightarrow> n \<in> log_area s \<Longrightarrow> n \<notin> bk_dirty (lg_blk s) \<and> bk_data (lg_blk s) n = bk_disk (lg_blk s) n"
  by (auto simp: log_quiet_def blk_ok_def)

definition install_writes :: "logsys \<Rightarrow> u32 list \<Rightarrow> nat \<Rightarrow> (u32 \<times> block) list" where
  "install_writes s hs k = map (\<lambda>i. (hs ! i, bk_data (lg_blk s) (log_slot s i))) [0 ..< k]"

definition save_writes :: "logsys \<Rightarrow> u32 list \<Rightarrow> nat \<Rightarrow> (u32 \<times> block) list" where
  "save_writes s hs k = map (\<lambda>i. (log_slot s i, bk_data (lg_blk s) (hs ! i))) [0 ..< k]"

lemma log_rep_idx:
  assumes "log_geom s" "log_rep s hs" "i < length hs"
  shows "int i + 1 < lg_size s" "i < LOGSIZE" "hs ! i \<notin> log_area s" "hs ! i < bk_size (lg_blk s)" "lh_block s i = hs ! i"
    "lg_dev s = 1"
  using assms nth_mem [OF assms(3)] by (auto simp: log_rep_def log_geom_def disjoint_iff)

lemma install_body_blk:
  assumes "i < LOGSIZE" "lg_dev s = 1" "lh_block s i = h"
  shows "install_trans_body i s = on_blk (bnd (blk_read 1 (log_slot s i)) (\<lambda>d. sq (blk_read 1 h) (sq (blk_set h d)
      (sq (blk_write h) (sq (blk_release (log_slot s i)) (blk_release h)))))) s"
  using assms by (simp add: install_trans_body_def log_slot_def lh_at_def bnd_def sq_def gets_def on_blk_def zoom_def
      split: sum.split prod.split)

lemma write_log_body_blk:
  assumes "i < LOGSIZE" "lg_dev s = 1" "lh_block s i = h"
  shows "write_log_body i s = on_blk (sq (blk_read 1 (log_slot s i)) (bnd (blk_read 1 h) (\<lambda>d. sq (blk_set (log_slot s i) d)
      (sq (blk_write (log_slot s i)) (sq (blk_release h) (blk_release (log_slot s i))))))) s"
  using assms by (simp add: write_log_body_def log_slot_def lh_at_def bnd_def sq_def gets_def on_blk_def zoom_def
      split: sum.split prod.split)

lemma log_slot_blk [simp]: "log_slot (s\<lparr>lg_blk := b\<rparr>) i = log_slot s i"
  by (simp add: log_slot_def)

lemma install_step:
  assumes g: "log_geom s" and r: "log_rep s hs" and i: "i < length hs" and ws: "fst ` set ws \<inter> log_area s = {}"
    and q: "log_quiet s"
  shows "install_trans_body i (s\<lparr>lg_blk := blk_batch ws ds (lg_blk s)\<rparr>) =
    Inr ((), s\<lparr>lg_blk := blk_batch (ws @ [(hs ! i, bk_data (lg_blk s) (log_slot s i))]) (insert (hs ! i) ds) (lg_blk s)\<rparr>)"
proof -
  note x = log_rep_idx [OF g r i] and f = log_slot_facts [OF g log_rep_idx(1) [OF g r i]]
  have ne: "hs ! i \<noteq> log_slot s i" using x f by auto
  have o: "apply_writes ws d (log_slot s i) = d (log_slot s i)" for d
    using ws f(1) by (intro apply_writes_other) auto
  have h: "bk_held (lg_blk s) = {}" using q by (simp add: log_quiet_def)
  have e: "bk_dirty (lg_blk s) - ds - {hs ! i} = bk_dirty (lg_blk s) - insert (hs ! i) ds" by auto
  have "bnd (blk_read 1 (log_slot s i)) (\<lambda>d. sq (blk_read 1 (hs ! i)) (sq (blk_set (hs ! i) d)
      (sq (blk_write (hs ! i)) (sq (blk_release (log_slot s i)) (blk_release (hs ! i)))))) (blk_batch ws ds (lg_blk s)) =
    Inr ((), blk_batch (ws @ [(hs ! i, bk_data (lg_blk s) (log_slot s i))]) (insert (hs ! i) ds) (lg_blk s))"
    using x f log_quiet_slot [OF q f(1)] h by (subst blk_copy_run [OF ne]) (auto simp: o blk_batch_def e)
  with x show ?thesis by (simp add: install_body_blk on_blk_run)
qed

lemma save_step:
  assumes g: "log_geom s" and r: "log_rep s hs" and i: "i < length hs" and ws: "fst ` set ws \<subseteq> log_area s"
    and q: "log_quiet s" and d: "set hs \<subseteq> bk_dirty (lg_blk s)"
  shows "write_log_body i (s\<lparr>lg_blk := blk_batch ws {} (lg_blk s)\<rparr>) =
    Inr ((), s\<lparr>lg_blk := blk_batch (ws @ [(log_slot s i, bk_data (lg_blk s) (hs ! i))]) {} (lg_blk s)\<rparr>)"
proof -
  note x = log_rep_idx [OF g r i] and f = log_slot_facts [OF g log_rep_idx(1) [OF g r i]]
  have ne: "log_slot s i \<noteq> hs ! i" using x f by auto
  have o: "apply_writes ws e (hs ! i) = e (hs ! i)" for e
    using ws x(3) by (intro apply_writes_other) auto
  have h: "bk_held (lg_blk s) = {}" "hs ! i \<in> bk_dirty (lg_blk s)" using q d i by (auto simp: log_quiet_def)
  have "sq (blk_read 1 (log_slot s i)) (bnd (blk_read 1 (hs ! i)) (\<lambda>d. sq (blk_set (log_slot s i) d)
      (sq (blk_write (log_slot s i)) (sq (blk_release (hs ! i)) (blk_release (log_slot s i)))))) (blk_batch ws {} (lg_blk s)) =
    Inr ((), blk_batch (ws @ [(log_slot s i, bk_data (lg_blk s) (hs ! i))]) {} (lg_blk s))"
    using x f log_quiet_slot [OF q f(1)] h by (subst blk_save_run [OF ne]) (auto simp: o blk_batch_def)
  with x show ?thesis by (simp add: write_log_body_blk on_blk_run)
qed

lemma install_loop:
  assumes g: "log_geom s" and r: "log_rep s hs" and q: "log_quiet s" and k: "k \<le> length hs"
  shows "for_each install_trans_body [0 ..< k] s =
    Inr ((), s\<lparr>lg_blk := blk_batch (install_writes s hs k) (set (take k hs)) (lg_blk s)\<rparr>)"
  using k
proof (induction k)
  case 0
  then show ?case by (simp add: run_simps install_writes_def)
next
  case (Suc k)
  have "fst ` set (install_writes s hs k) \<inter> log_area s = {}"
    using log_rep_idx(3) [OF g r] Suc.prems by (auto simp: install_writes_def)
  then have "install_trans_body k (s\<lparr>lg_blk := blk_batch (install_writes s hs k) (set (take k hs)) (lg_blk s)\<rparr>) =
      Inr ((), s\<lparr>lg_blk := blk_batch (install_writes s hs (Suc k)) (insert (hs ! k) (set (take k hs))) (lg_blk s)\<rparr>)"
    using install_step [OF g r _ _ q, of k "install_writes s hs k"] Suc.prems by (simp add: install_writes_def)
  then show ?case using Suc by (simp add: for_each_snoc run_simps take_Suc_conv_app_nth)
qed

lemma save_loop:
  assumes g: "log_geom s" and r: "log_rep s hs" and q: "log_quiet s" and d: "set hs \<subseteq> bk_dirty (lg_blk s)"
    and k: "k \<le> length hs"
  shows "for_each write_log_body [0 ..< k] s = Inr ((), s\<lparr>lg_blk := blk_batch (save_writes s hs k) {} (lg_blk s)\<rparr>)"
  using k
proof (induction k)
  case 0
  then show ?case by (simp add: run_simps save_writes_def)
next
  case (Suc k)
  have "fst ` set (save_writes s hs k) \<subseteq> log_area s"
    using log_slot_facts(1) [OF g log_rep_idx(1) [OF g r]] Suc.prems by (auto simp: save_writes_def)
  then have "write_log_body k (s\<lparr>lg_blk := blk_batch (save_writes s hs k) {} (lg_blk s)\<rparr>) =
      Inr ((), s\<lparr>lg_blk := blk_batch (save_writes s hs (Suc k)) {} (lg_blk s)\<rparr>)"
    using save_step [OF g r _ _ q d, of k "save_writes s hs k"] Suc.prems by (simp add: save_writes_def)
  then show ?case using Suc by (simp add: for_each_snoc run_simps)
qed

section \<open>The header block\<close>

definition head_block :: "u32 list \<Rightarrow> block \<Rightarrow> block" where
  "head_block hs d = fold (\<lambda>i d. st32 d (4 + 4 * i) (hs ! i)) [0 ..< length hs] (st32 d 0 (of_nat (length hs)))"

definition head_list :: "block \<Rightarrow> u32 list \<Rightarrow> bool" where
  "head_list d hs \<longleftrightarrow> ld32 d 0 = of_nat (length hs) \<and> (\<forall>i < length hs. ld32 d (4 + 4 * i) = hs ! i) \<and> length hs \<le> LOGSIZE"

lemma fold_st32_other:
  "(\<And>i. i < k \<Longrightarrow> j + 4 \<le> f i \<or> f i + 4 \<le> j) \<Longrightarrow> ld32 (fold (\<lambda>i d. st32 d (f i) (v i)) [0 ..< k] d) j = ld32 d j"
proof (induction k)
  case (Suc k)
  then have "f k + 4 \<le> j \<or> j + 4 \<le> f k" by auto
  with Suc show ?case by (simp add: ld32_st32_other)
qed simp

lemma fold_st32_same:
  "i < k \<Longrightarrow> ld32 (fold (\<lambda>i d. st32 d (4 + 4 * i) (v i)) [0 ..< k] d) (4 + 4 * i) = v i"
proof (induction k)
  case (Suc k)
  show ?case
  proof (cases "i = k")
    case False
    then have "i < k" "4 + 4 * k + 4 \<le> 4 + 4 * i \<or> 4 + 4 * i + 4 \<le> 4 + 4 * k" using Suc.prems by auto
    with Suc.IH show ?thesis by (simp add: ld32_st32_other)
  qed simp
qed simp

lemma head_block_list: "length hs \<le> LOGSIZE \<Longrightarrow> head_list (head_block hs d) hs"
  by (simp add: head_list_def head_block_def fold_st32_same) (subst fold_st32_other, auto)

lemma sint_small: "n < 2 ^ 31 \<Longrightarrow> sint (word_of_nat n :: u32) = int n"
  by (simp add: sint_uint unsigned_of_nat take_bit_nat_eq_self signed_take_bit_int_eq_self)

lemma head_list_n: "head_list d hs \<Longrightarrow> sint (ld32 d 0) = int (length hs)"
  by (simp add: head_list_def LOGSIZE_def MAXOPBLOCKS_def sint_small)

lemma write_head_loop:
  assumes "\<forall>i < k. lh_block s i = hs ! i" "k \<le> LOGSIZE"
  shows "for_each (\<lambda>i. bnd (lh_at i) (\<lambda>h. bnd (gets (\<lambda>s. bk_data (lg_blk s) n)) (\<lambda>d.
      on_blk (blk_set n (st32 d (4 + 4 * i) h))))) [0 ..< k] s =
    Inr ((), s\<lparr>lg_blk := (lg_blk s)\<lparr>bk_data := (bk_data (lg_blk s))
      (n := fold (\<lambda>i d. st32 d (4 + 4 * i) (hs ! i)) [0 ..< k] (bk_data (lg_blk s) n))\<rparr>\<rparr>)"
  using assms
proof (induction k)
  case (Suc k)
  then show ?case by (simp add: for_each_snoc sq_run) (simp add: run_simps lh_at_def fun_upd_def cong: if_cong)
qed (simp add: run_simps)

lemma write_head_run:
  assumes g: "log_geom s" and r: "log_rep s hs" and q: "log_quiet s"
  shows "write_head s = Inr ((), s\<lparr>lg_blk :=
    blk_batch [(lg_start s, head_block hs (bk_data (lg_blk s) (lg_start s)))] {} (lg_blk s)\<rparr>)"
proof -
  note a = log_start_area [OF g] and qs = log_quiet_slot [OF q conjunct1 [OF log_start_area [OF g]]]
  have n: "lh_n s = int (length hs)" "\<forall>i < length hs. lh_block s i = hs ! i" "length hs \<le> LOGSIZE"
    "lg_dev s = 1" "bk_held (lg_blk s) = {}" using g r q by (auto simp: log_rep_def log_geom_def log_quiet_def)
  let ?b = "lg_blk s" let ?d = "st32 (bk_data ?b (lg_start s)) 0 (of_nat (length hs))"
  let ?t = "s\<lparr>lg_blk := ?b\<lparr>bk_held := {lg_start s}, bk_data := (bk_data ?b)(lg_start s := ?d)\<rparr>\<rparr>"
  have "for_each (\<lambda>i. bnd (lh_at i) (\<lambda>h. bnd (gets (\<lambda>s. bk_data (lg_blk s) (lg_start s'))) (\<lambda>d.
      on_blk (blk_set (lg_start s') (st32 d (4 + 4 * i) h))))) [0 ..< length hs] ?t =
    Inr ((), ?t\<lparr>lg_blk := (lg_blk ?t)\<lparr>bk_data := (bk_data (lg_blk ?t))
      (lg_start s := head_block hs (bk_data ?b (lg_start s)))\<rparr>\<rparr>)" if "lg_start s' = lg_start s" for s'
    using n by (simp add: that write_head_loop [where hs = hs] head_block_def)
  from this [OF refl] show ?thesis
    using n a qs by (simp add: write_head_def run_simps blk_batch_def apply_writes_def del: fun_upd_apply)
      (simp add: fun_upd_same)
qed

lemma read_head_loop:
  assumes "k \<le> LOGSIZE"
  shows "for_each (\<lambda>i. lh_put i (v i)) [0 ..< k] s = Inr ((), s\<lparr>lh_block := (\<lambda>i. if i < k then v i else lh_block s i)\<rparr>)"
  using assms
proof (induction k)
  case (Suc k)
  have "(\<lambda>i. if i < k then v i else lh_block s i)(k := v k) = (\<lambda>i. if i < Suc k then v i else lh_block s i)"
    by (auto simp: fun_eq_iff less_Suc_eq)
  with Suc show ?case by (simp add: for_each_snoc run_simps lh_put_def)
qed (simp add: run_simps)

lemma read_head_run:
  assumes g: "log_geom s" and q: "log_quiet s" and h: "head_list (bk_data (lg_blk s) (lg_start s)) hs"
  shows "read_head s = Inr ((), s\<lparr>lh_n := int (length hs),
    lh_block := (\<lambda>i. if i < length hs then ld32 (bk_data (lg_blk s) (lg_start s)) (4 + 4 * i) else lh_block s i)\<rparr>)"
proof -
  note a = log_start_area [OF g] and qs = log_quiet_slot [OF q conjunct1 [OF log_start_area [OF g]]]
  have n: "lg_dev s = 1" "bk_held (lg_blk s) = {}" "length hs \<le> LOGSIZE"
    using g q h by (auto simp: log_geom_def log_quiet_def head_list_def)
  have t: "(bk_data (lg_blk s))(lg_start s := bk_disk (lg_blk s) (lg_start s)) = bk_data (lg_blk s)"
    using qs by (auto simp: fun_eq_iff)
  have b: "(lg_blk s)\<lparr>bk_held := {}\<rparr> = lg_blk s" using n by simp
  have "sint (ld32 (bk_disk (lg_blk s) (lg_start s)) 0) = int (length hs)" using head_list_n [OF h] qs by simp
  then show ?thesis
    using n a qs by (simp add: read_head_def run_simps read_head_loop t b cong: if_cong)
qed

section \<open>Commit and recovery\<close>

lemma log_geom_upd [simp]: "log_geom (s\<lparr>lg_blk := blk_batch ws ds (lg_blk s)\<rparr>) = log_geom s"
  "log_geom (s\<lparr>lh_n := n\<rparr>) = log_geom s" "log_geom (s\<lparr>lh_block := f\<rparr>) = log_geom s"
  by (simp_all add: log_geom_def)

lemma log_area_upd [simp]: "log_area (s\<lparr>lg_blk := b\<rparr>) = log_area s" "log_area (s\<lparr>lh_n := n\<rparr>) = log_area s"
  "log_area (s\<lparr>lh_block := f\<rparr>) = log_area s"
  by (simp_all add: log_area_def)

lemma log_rep_upd [simp]: "log_rep (s\<lparr>lg_blk := blk_batch ws ds (lg_blk s)\<rparr>) hs = log_rep s hs"
  by (simp add: log_rep_def)

lemma log_quiet_upd [simp]: "log_quiet (s\<lparr>lh_n := n\<rparr>) = log_quiet s" "log_quiet (s\<lparr>lh_block := f\<rparr>) = log_quiet s"
  by (simp_all add: log_quiet_def)

lemma apply_writes_agree: "d m = e m \<Longrightarrow> apply_writes ws d m = apply_writes ws e m"
  by (induction ws rule: rev_induct) (auto simp: apply_writes_def)

lemma apply_writes_in: "m \<in> fst ` set ws \<Longrightarrow> apply_writes ws d m = apply_writes ws e m"
proof (induction ws rule: rev_induct)
  case (snoc w ws)
  then show ?case by (cases w) (auto simp: image_iff)
qed simp

lemma log_quiet_batch:
  assumes "log_quiet s" "ds \<subseteq> fst ` set ws"
  shows "log_quiet (s\<lparr>lg_blk := blk_batch ws ds (lg_blk s)\<rparr>)"
proof -
  have "apply_writes ws (bk_data (lg_blk s)) n = apply_writes ws (bk_disk (lg_blk s)) n"
    if "n \<notin> bk_dirty (lg_blk s) \<or> n \<in> ds" for n
  proof (cases "n \<in> fst ` set ws")
    case False
    with that assms show ?thesis by (intro apply_writes_agree) (auto simp: log_quiet_def blk_ok_def)
  qed (rule apply_writes_in)
  with assms show ?thesis by (auto simp: log_quiet_def blk_ok_def)
qed

lemma install_trans_run:
  assumes "log_geom s" "log_rep s hs" "log_quiet s"
  shows "install_trans s = Inr ((), s\<lparr>lg_blk := blk_batch (install_writes s hs (length hs)) (set hs) (lg_blk s)\<rparr>)"
  using assms install_loop [OF assms order_refl] by (simp add: install_trans_def run_simps log_rep_def)

lemma write_log_run:
  assumes "log_geom s" "log_rep s hs" "log_quiet s" "set hs \<subseteq> bk_dirty (lg_blk s)"
  shows "write_log s = Inr ((), s\<lparr>lg_blk := blk_batch (save_writes s hs (length hs)) {} (lg_blk s)\<rparr>)"
  using assms save_loop [OF assms order_refl] by (simp add: write_log_def run_simps log_rep_def)

lemma blk_batch_twice: "blk_batch vs es (blk_batch ws ds b) = blk_batch (ws @ vs) (ds \<union> es) b"
  by (simp add: blk_batch_def apply_writes_append set_diff_eq conj_assoc)

lemma install_writes_fst: "fst ` set (install_writes s hs (length hs)) = set hs"
  by (force simp: install_writes_def in_set_conv_nth)

lemma save_writes_fst:
  assumes "log_geom s" "log_rep s hs"
  shows "fst ` set (save_writes s hs (length hs)) \<subseteq> log_area s - {lg_start s}"
  using log_slot_facts(1,3) [OF assms(1) log_rep_idx(1) [OF assms]] by (auto simp: save_writes_def)

text \<open>The disk writes of a commit: the log blocks, the header, the home blocks, the empty header.\<close>

definition commit_writes :: "logsys \<Rightarrow> u32 list \<Rightarrow> (u32 \<times> block) list" where
  "commit_writes s hs = save_writes s hs (length hs) @ [(lg_start s, head_block hs (bk_data (lg_blk s) (lg_start s)))] @
     map (\<lambda>h. (h, bk_data (lg_blk s) h)) hs @
     [(lg_start s, head_block [] (head_block hs (bk_data (lg_blk s) (lg_start s))))]"

lemma commit_run:
  assumes g: "log_geom s" and r: "log_rep s hs" and q: "log_quiet s" and d: "set hs \<subseteq> bk_dirty (lg_blk s)" and ne: "hs \<noteq> []"
  shows "commit s = Inr ((), s\<lparr>lh_n := 0, lg_blk := blk_batch (commit_writes s hs) (set hs) (lg_blk s)\<rparr>)"
proof -
  let ?st = "lg_start s" let ?D = "bk_data (lg_blk s)"
  define W where "W = save_writes s hs (length hs)"
  define s1 where "s1 = s\<lparr>lg_blk := blk_batch W {} (lg_blk s)\<rparr>"
  have Wf: "fst ` set W \<subseteq> log_area s - {?st}" using save_writes_fst [OF g r] by (simp add: W_def)
  have s1: "log_geom s1" "log_rep s1 hs" "log_quiet s1" "lg_start s1 = ?st"
    using g r q by (auto simp: s1_def intro: log_quiet_batch)
  have st1: "bk_data (lg_blk s1) ?st = ?D ?st" using Wf by (auto simp: s1_def intro: apply_writes_other)
  define s2 where "s2 = s1\<lparr>lg_blk := blk_batch [(?st, head_block hs (?D ?st))] {} (lg_blk s1)\<rparr>"
  have w2: "write_head s1 = Inr ((), s2)" using write_head_run [OF s1(1-3)] s1(4) st1 by (simp add: s2_def)
  have s2: "log_geom s2" "log_rep s2 hs" "log_quiet s2" "lg_start s2 = ?st"
    using s1 by (auto simp: s2_def intro: log_quiet_batch)
  have "bk_data (lg_blk s2) (log_slot s2 i) = ?D (hs ! i)" if i: "i < length hs" for i
  proof -
    note f = log_slot_facts [OF g log_rep_idx(1) [OF g r i]]
    have "apply_writes W ?D (log_slot s i) = ?D (hs ! i)"
      unfolding W_def save_writes_def
    proof (intro apply_writes_at allI impI)
      fix j assume "j < length hs" "log_slot s j = log_slot s i"
      then have "i = j" using f(4) [OF log_rep_idx(1) [OF g r]] by metis
      then show "?D (hs ! j) = ?D (hs ! i)" by simp
    qed (rule i)
    with f(3) show ?thesis by (simp add: s2_def s1_def apply_writes_def [of "[_]"])
  qed
  then have iw: "install_writes s2 hs (length hs) = map (\<lambda>h. (h, ?D h)) hs"
    by (auto simp: install_writes_def intro!: nth_equalityI)
  define s3 where "s3 = s2\<lparr>lg_blk := blk_batch (map (\<lambda>h. (h, ?D h)) hs) (set hs) (lg_blk s2)\<rparr>"
  have w3: "install_trans s2 = Inr ((), s3)" using install_trans_run [OF s2(1-3)] iw by (simp add: s3_def)
  have s3: "log_geom s3" "log_quiet s3" "lg_start s3 = ?st"
    using s2 by (auto simp: s3_def image_image intro: log_quiet_batch)
  have "?st \<notin> set hs" using r log_start_area [OF g] by (auto simp: log_rep_def)
  then have "bk_data (lg_blk s3) ?st = bk_data (lg_blk s2) ?st"
    by (auto simp: s3_def intro!: apply_writes_other)
  also have "\<dots> = head_block hs (?D ?st)" by (simp add: s2_def apply_writes_def [of "[_]"])
  finally have "write_head (s3\<lparr>lh_n := 0\<rparr>) = Inr ((), s3\<lparr>lh_n := 0,
      lg_blk := blk_batch [(?st, head_block [] (head_block hs (?D ?st)))] {} (lg_blk s3)\<rparr>)"
    using write_head_run [of "s3\<lparr>lh_n := 0\<rparr>" "[]"] s3 by (simp add: log_rep_def log_geom_def)
  moreover have "0 < lh_n s" using r ne by (simp add: log_rep_def)
  ultimately show ?thesis
    using write_log_run [OF g r q d] w2 w3 unfolding commit_def commit_writes_def
    by (simp add: run_simps W_def [symmetric] s1_def [symmetric])
      (simp add: s3_def s2_def s1_def blk_batch_twice)
qed

lemma recover_run:
  assumes g: "log_geom s" and q: "log_quiet s" and h: "head_list (bk_data (lg_blk s) (lg_start s)) hs"
    and hs: "distinct hs" "int (length hs) < lg_size s" "set hs \<inter> log_area s = {}" "\<forall>x \<in> set hs. x < bk_size (lg_blk s)"
  shows "\<exists>f. recover_from_log s = Inr ((), s\<lparr>lh_n := 0, lh_block := f, lg_blk := blk_batch (install_writes s hs (length hs) @
    [(lg_start s, head_block [] (bk_data (lg_blk s) (lg_start s)))]) (set hs) (lg_blk s)\<rparr>)"
proof -
  let ?st = "lg_start s" let ?D = "bk_data (lg_blk s)"
  let ?f = "\<lambda>i. if i < length hs then ld32 (?D ?st) (4 + 4 * i) else lh_block s i"
  define s1 where "s1 = s\<lparr>lh_n := int (length hs), lh_block := ?f\<rparr>"
  have r1: "read_head s = Inr ((), s1)" using read_head_run [OF g q h] by (simp add: s1_def)
  have s1: "log_geom s1" "log_rep s1 hs" "log_quiet s1" "lg_start s1 = ?st"
    using g q h hs by (auto simp: s1_def log_rep_def head_list_def)
  have iw: "install_writes s1 hs k = install_writes s hs k" for k by (simp add: install_writes_def s1_def log_slot_def)
  define s2 where "s2 = s1\<lparr>lg_blk := blk_batch (install_writes s hs (length hs)) (set hs) (lg_blk s1)\<rparr>"
  have r2: "install_trans s1 = Inr ((), s2)" using install_trans_run [OF s1(1-3)] iw by (simp add: s2_def)
  have s2: "log_geom s2" "log_quiet s2" "lg_start s2 = ?st"
    using s1 install_writes_fst [of s hs] by (auto simp: s2_def intro: log_quiet_batch)
  have "?st \<notin> set hs" using hs log_start_area [OF g] by auto
  then have "bk_data (lg_blk s2) ?st = ?D ?st"
    using install_writes_fst [of s hs] by (auto simp: s2_def s1_def intro!: apply_writes_other)
  then have "write_head (s2\<lparr>lh_n := 0\<rparr>) = Inr ((), s2\<lparr>lh_n := 0, lg_blk := blk_batch [(?st, head_block [] (?D ?st))] {} (lg_blk s2)\<rparr>)"
    using write_head_run [of "s2\<lparr>lh_n := 0\<rparr>" "[]"] s2 by (simp add: log_rep_def log_geom_def)
  with r1 r2 show ?thesis
    by (intro exI [of _ ?f]) (simp add: recover_from_log_def run_simps s2_def s1_def blk_batch_twice)
qed

text \<open>The kernel's log and cache as a reboot finds them, with \<open>d\<close> on a disk of \<open>z\<close> blocks.\<close>

definition power_on :: "(u32 \<Rightarrow> block) \<Rightarrow> u32 \<Rightarrow> logsys" where
  "power_on d z = \<lparr>lg_lock = False, lg_start = 0, lg_size = 0, outstanding = 0, committing = False, lg_dev = 0,
     lh_n = 0, lh_block = (\<lambda>_. 0),
     lg_blk = \<lparr>bk_data = d, bk_disk = d, bk_size = z, bk_held = {}, bk_dirty = {}, bk_writes = []\<rparr>\<rparr>"

definition sb_says :: "block \<Rightarrow> logsys \<Rightarrow> bool" where
  "sb_says d s \<longleftrightarrow> ld32 d 16 = lg_start s \<and> sint (ld32 d 12) = lg_size s"

lemma initlog_run:
  assumes g: "log_geom s" and sb: "sb_says (d 1) s" "1 < bk_size (lg_blk s)"
    and h: "head_list (d (lg_start s)) hs" "distinct hs" "int (length hs) < lg_size s" "set hs \<inter> log_area s = {}"
      "\<forall>x \<in> set hs. x < bk_size (lg_blk s)"
  shows "wp (initlog 1) (\<lambda>_ u. lh_n u = 0 \<and> bk_dirty (lg_blk u) = {} \<and> bk_held (lg_blk u) = {} \<and>
      bk_data (lg_blk u) = bk_disk (lg_blk u) \<and> bk_disk (lg_blk u) =
        apply_writes (map (\<lambda>i. (hs ! i, d (log_slot s i))) [0 ..< length hs] @ [(lg_start s, head_block [] (d (lg_start s)))]) d)
    (power_on d (bk_size (lg_blk s)))"
proof -
  define p where "p = (power_on d (bk_size (lg_blk s)))\<lparr>lg_start := lg_start s, lg_size := lg_size s, lg_dev := 1\<rparr>"
  have "initlog 1 (power_on d (bk_size (lg_blk s))) = recover_from_log p"
    using sb by (simp add: initlog_def BSIZE_def LOGSIZE_def MAXOPBLOCKS_def readsb_def run_simps power_on_def p_def sb_says_def)
  moreover have p: "log_geom p" "log_quiet p" "lg_start p = lg_start s" "lg_size p = lg_size s" "log_area p = log_area s"
      "bk_size (lg_blk p) = bk_size (lg_blk s)" "bk_data (lg_blk p) = d" "bk_disk (lg_blk p) = d" "log_slot p = log_slot s"
      "bk_dirty (lg_blk p) = {}" "bk_held (lg_blk p) = {}"
    using g by (simp_all add: p_def power_on_def log_geom_def log_quiet_def blk_ok_def log_area_def log_slot_def fun_eq_iff)
  ultimately show ?thesis
    using recover_run [OF p(1,2), of hs] h by (auto simp: wp_def install_writes_def p)
qed

text \<open>What a crash leaves on the disk after the first \<open>k\<close> writes of a commit.\<close>

definition crash_disk :: "logsys \<Rightarrow> u32 list \<Rightarrow> nat \<Rightarrow> u32 \<Rightarrow> block" where
  "crash_disk s hs k = apply_writes (take k (commit_writes s hs)) (bk_disk (lg_blk s))"

definition committable :: "logsys \<Rightarrow> u32 list \<Rightarrow> bool" where
  "committable s hs \<longleftrightarrow> log_geom s \<and> log_rep s hs \<and> log_quiet s \<and> bk_dirty (lg_blk s) = set hs \<and> hs \<noteq> [] \<and>
     head_list (bk_disk (lg_blk s) (lg_start s)) [] \<and> sb_says (bk_disk (lg_blk s) 1) s \<and> 1 < bk_size (lg_blk s) \<and>
     1 \<notin> log_area s \<and> 1 \<notin> set hs"

lemma head_list_nil: "head_list d [] \<longleftrightarrow> ld32 d 0 = 0"
  by (simp add: head_list_def LOGSIZE_def MAXOPBLOCKS_def)

lemma apply_writes_home:
  "m \<in> set hs \<Longrightarrow> apply_writes (map (\<lambda>h. (h, D h)) hs) d m = D m"
  by (induction hs rule: rev_induct) (auto simp: apply_writes_append apply_writes_def)

lemma crash_early:
  assumes c: "committable s hs" and k: "k \<le> length hs"
  shows "crash_disk s hs k (lg_start s) = bk_disk (lg_blk s) (lg_start s)"
    "m \<notin> log_area s \<Longrightarrow> crash_disk s hs k m = bk_disk (lg_blk s) m"
proof -
  have "take k (commit_writes s hs) = take k (save_writes s hs (length hs))"
    using k by (simp add: commit_writes_def save_writes_def)
  moreover have "fst ` set (take k (save_writes s hs (length hs))) \<subseteq> log_area s - {lg_start s}"
    using save_writes_fst [of s hs] c set_take_subset [of k "save_writes s hs (length hs)"]
    by (force simp: committable_def)
  ultimately show "crash_disk s hs k (lg_start s) = bk_disk (lg_blk s) (lg_start s)"
    "m \<notin> log_area s \<Longrightarrow> crash_disk s hs k m = bk_disk (lg_blk s) m"
    unfolding crash_disk_def by (auto intro!: apply_writes_other)
qed

lemma crash_mid_take:
  assumes "length hs < k" "k \<le> 2 * length hs + 1"
  shows "take k (commit_writes s hs) = save_writes s hs (length hs) @ [(lg_start s, head_block hs (bk_data (lg_blk s) (lg_start s)))] @
    map (\<lambda>h. (h, bk_data (lg_blk s) h)) (take (k - length hs - 1) hs)"
proof -
  obtain j where j: "k = Suc (length hs + j)" "j \<le> length hs" using assms less_imp_Suc_add by fastforce
  then show ?thesis by (simp add: commit_writes_def save_writes_def take_map)
qed

lemma crash_mid:
  assumes c: "committable s hs" and k: "length hs < k" "k \<le> 2 * length hs + 1"
  shows "crash_disk s hs k (lg_start s) = head_block hs (bk_data (lg_blk s) (lg_start s))"
    "i < length hs \<Longrightarrow> crash_disk s hs k (log_slot s i) = bk_data (lg_blk s) (hs ! i)"
    "m \<notin> log_area s \<Longrightarrow> m \<notin> set hs \<Longrightarrow> crash_disk s hs k m = bk_disk (lg_blk s) m"
proof -
  let ?H = "map (\<lambda>h. (h, bk_data (lg_blk s) h)) (take (k - length hs - 1) hs)"
  let ?S = "save_writes s hs (length hs)" let ?D = "bk_data (lg_blk s)"
  from c have g: "log_geom s" "log_rep s hs" by (auto simp: committable_def)
  have H: "fst ` set ?H \<subseteq> set hs" using set_take_subset [of _ hs] by (auto simp: image_image)
  have hs: "set hs \<inter> log_area s = {}" using g by (simp add: log_rep_def)
  have e: "crash_disk s hs k = apply_writes ?H ((apply_writes ?S (bk_disk (lg_blk s)))(lg_start s := head_block hs (?D (lg_start s))))"
    unfolding crash_disk_def crash_mid_take [OF k] by (simp add: apply_writes_append apply_writes_Cons)
  have o: "crash_disk s hs k m = ((apply_writes ?S (bk_disk (lg_blk s)))(lg_start s := head_block hs (?D (lg_start s)))) m"
    if "m \<notin> set hs" for m unfolding e by (rule apply_writes_other) (use that H in auto)
  have a: "x \<notin> set hs" if "x \<in> log_area s" for x using that hs by auto
  show "crash_disk s hs k (lg_start s) = head_block hs (?D (lg_start s))"
    using a log_start_area [OF g(1)] by (simp add: o)
  show "crash_disk s hs k m = bk_disk (lg_blk s) m" if "m \<notin> log_area s" "m \<notin> set hs"
  proof -
    have "m \<noteq> lg_start s" "m \<notin> fst ` set ?S" using that log_start_area [OF g(1)] save_writes_fst [OF g] by auto
    then show ?thesis using that by (simp add: o apply_writes_other)
  qed
  show "crash_disk s hs k (log_slot s i) = ?D (hs ! i)" if i: "i < length hs"
  proof -
    note f = log_slot_facts [OF g(1) log_rep_idx(1) [OF g i]]
    have "apply_writes ?S (bk_disk (lg_blk s)) (log_slot s i) = ?D (hs ! i)"
      unfolding save_writes_def
    proof (intro apply_writes_at allI impI)
      fix j assume "j < length hs" "log_slot s j = log_slot s i"
      then have "i = j" using f(4) [OF log_rep_idx(1) [OF g]] by metis
      then show "?D (hs ! j) = ?D (hs ! i)" by simp
    qed (rule i)
    with f a show ?thesis by (simp add: o)
  qed
qed

lemma crash_late:
  assumes c: "committable s hs" and k: "2 * length hs + 1 < k"
  shows "ld32 (crash_disk s hs k (lg_start s)) 0 = 0"
    "m \<notin> log_area s \<Longrightarrow> crash_disk s hs k m = bk_data (lg_blk s) m"
proof -
  let ?D = "bk_data (lg_blk s)" let ?b = "head_block [] (head_block hs (?D (lg_start s)))"
  let ?k = "2 * length hs + 1"
  from c have g: "log_geom s" "log_rep s hs" "log_quiet s" "bk_dirty (lg_blk s) = set hs" by (auto simp: committable_def)
  have "take k (commit_writes s hs) = take ?k (commit_writes s hs) @ [(lg_start s, ?b)]"
    using k by (simp add: commit_writes_def save_writes_def)
  then have e: "crash_disk s hs k = (crash_disk s hs ?k)(lg_start s := ?b)" by (simp add: crash_disk_def)
  show "ld32 (crash_disk s hs k (lg_start s)) 0 = 0"
    using head_block_list [of "[]"] by (simp add: e head_list_nil)
  show "crash_disk s hs k m = ?D m" if m: "m \<notin> log_area s"
  proof (cases "m \<in> set hs")
    case True
    have "m \<noteq> lg_start s" using m log_start_area [OF g(1)] by auto
    moreover have "crash_disk s hs ?k = apply_writes (map (\<lambda>h. (h, ?D h)) hs)
        (apply_writes (save_writes s hs (length hs) @ [(lg_start s, head_block hs (?D (lg_start s)))]) (bk_disk (lg_blk s)))"
      unfolding crash_disk_def by (subst crash_mid_take) (auto simp: apply_writes_append apply_writes_Cons)
    ultimately show ?thesis using True by (simp add: e apply_writes_home)
  next
    case False
    have "m \<noteq> lg_start s" using m log_start_area [OF g(1)] by auto
    moreover have "?D m = bk_disk (lg_blk s) m" using False g by (auto simp: log_quiet_def blk_ok_def)
    moreover have "crash_disk s hs ?k m = bk_disk (lg_blk s) m" by (rule crash_mid(3) [OF c _ _ m False]) simp_all
    ultimately show ?thesis unfolding e by simp
  qed
qed

lemma log_rep_hs: "log_rep s hs \<Longrightarrow> distinct hs \<and> int (length hs) < lg_size s \<and> set hs \<inter> log_area s = {} \<and>
    (\<forall>x \<in> set hs. x < bk_size (lg_blk s)) \<and> length hs \<le> LOGSIZE"
  by (simp add: log_rep_def)

lemma recovered_old:
  assumes c: "committable s hs" and h: "head_list (d (lg_start s)) []" "sb_says (d 1) s"
  shows "wp (initlog 1) (\<lambda>_ u. lh_n u = 0 \<and> bk_data (lg_blk u) = bk_disk (lg_blk u) \<and> (\<forall>m. m \<notin> log_area s \<longrightarrow> bk_data (lg_blk u) m = d m))
    (power_on d (bk_size (lg_blk s)))"
proof -
  from c have g: "log_geom s" "1 < bk_size (lg_blk s)" "0 < lg_size s" by (auto simp: committable_def log_geom_def)
  have "lg_start s \<in> log_area s" using log_start_area [OF g(1)] by simp
  then show ?thesis
    using g by (intro wp_mono [OF initlog_run [OF g(1) h(2) g(2) h(1)]]) (auto simp: apply_writes_def)
qed

lemma recovered_new:
  assumes c: "committable s hs" and h: "head_list (d (lg_start s)) hs" "sb_says (d 1) s"
    and l: "\<And>i. i < length hs \<Longrightarrow> d (log_slot s i) = D (hs ! i)"
  shows "wp (initlog 1) (\<lambda>_ u. lh_n u = 0 \<and> bk_data (lg_blk u) = bk_disk (lg_blk u) \<and>
      (\<forall>m. m \<notin> log_area s \<longrightarrow> bk_data (lg_blk u) m = (if m \<in> set hs then D m else d m)))
    (power_on d (bk_size (lg_blk s)))"
proof -
  from c have g: "log_geom s" "1 < bk_size (lg_blk s)" "log_rep s hs" by (auto simp: committable_def)
  have st: "lg_start s \<in> log_area s" using log_start_area [OF g(1)] by simp
  have "map (\<lambda>i. (hs ! i, d (log_slot s i))) [0 ..< length hs] = map (\<lambda>h. (h, D h)) hs"
    using l by (intro nth_equalityI) auto
  moreover have "apply_writes (map (\<lambda>h. (h, D h)) hs @ [(lg_start s, b)]) d m = (if m \<in> set hs then D m else d m)"
    if "m \<notin> log_area s" for m b
    using that st by (auto simp: apply_writes_append apply_writes_Cons apply_writes_home image_image intro!: apply_writes_other)
  ultimately show ?thesis
    using log_rep_hs [OF g(3)] by (intro wp_mono [OF initlog_run [OF g(1) h(2) g(2) h(1)]]) auto
qed

section \<open>Correctness of the log\<close>

text \<open>A file system of 1000 blocks whose log of 30 blocks starts at block 2, with block 40 changed and
  recorded in the header.\<close>

definition log_example :: logsys where
  "log_example =
    (let d = (\<lambda>n. if n = 1 then st32 (st32 (\<lambda>_. 0) 12 30) 16 2 else (\<lambda>_. 0)) in
     \<lparr>lg_lock = False, lg_start = 2, lg_size = 30, outstanding = 1, committing = False, lg_dev = 1,
      lh_n = 1, lh_block = (\<lambda>_. 40),
      lg_blk = \<lparr>bk_data = d(40 := (\<lambda>_. 7)), bk_disk = d, bk_size = 1000, bk_held = {}, bk_dirty = {40}, bk_writes = []\<rparr>\<rparr>)"

lemma log_example_committable: "committable log_example [40]"
  by (simp add: log_example_def committable_def log_geom_def log_rep_def log_quiet_def blk_ok_def log_area_def sb_says_def
      head_list_nil LOGSIZE_def MAXOPBLOCKS_def ld32_st32_other Let_def)

text \<open>C6: Commits are atomic under crashes. Let the header record the blocks \<open>hs\<close>, which are the pinned
  blocks, and let the log on disk be empty. Then \<open>commit\<close> runs to its end; and whatever prefix of its
  disk writes reached the disk before a crash, booting with \<open>initlog\<close> runs to its end, clears the log
  and leaves every block outside the log either as it was before the transaction or as the transaction
  made it, the same for all blocks: the old contents if at most the log blocks were written, the new
  ones as soon as the header was.\<close>

theorem commit_crash_atomic:
  assumes c: "committable s hs"
  shows "wp commit (\<lambda>_ t. bk_writes (lg_blk t) = bk_writes (lg_blk s) @ commit_writes s hs \<and> lh_n t = 0 \<and>
      bk_dirty (lg_blk t) = {} \<and> (\<forall>m. m \<notin> log_area s \<longrightarrow> bk_disk (lg_blk t) m = bk_data (lg_blk s) m)) s \<and>
    (\<forall>k. wp (initlog 1) (\<lambda>_ u. lh_n u = 0 \<and> bk_data (lg_blk u) = bk_disk (lg_blk u) \<and>
       (\<forall>m. m \<notin> log_area s \<longrightarrow> bk_data (lg_blk u) m = (if k \<le> length hs then bk_disk (lg_blk s) m else bk_data (lg_blk s) m)))
     (power_on (apply_writes (take k (commit_writes s hs)) (bk_disk (lg_blk s))) (bk_size (lg_blk s))))"
proof (intro conjI allI)
  from c have g: "log_geom s" "log_rep s hs" "log_quiet s" "bk_dirty (lg_blk s) = set hs" "hs \<noteq> []" "1 \<notin> log_area s" "1 \<notin> set hs"
    "sb_says (bk_disk (lg_blk s) 1) s" "head_list (bk_disk (lg_blk s) (lg_start s)) []" by (auto simp: committable_def)
  have e: "apply_writes (take k (commit_writes s hs)) (bk_disk (lg_blk s)) = crash_disk s hs k" for k by (simp add: crash_disk_def)
  have D: "bk_data (lg_blk s) m = bk_disk (lg_blk s) m" if "m \<notin> set hs" for m using that g by (auto simp: log_quiet_def blk_ok_def)
  have "length (commit_writes s hs) = 2 * length hs + 2" by (simp add: commit_writes_def save_writes_def)
  then have all: "apply_writes (commit_writes s hs) (bk_disk (lg_blk s)) = crash_disk s hs (2 * length hs + 2)" by (simp add: crash_disk_def)
  show "wp commit (\<lambda>_ t. bk_writes (lg_blk t) = bk_writes (lg_blk s) @ commit_writes s hs \<and> lh_n t = 0 \<and>
      bk_dirty (lg_blk t) = {} \<and> (\<forall>m. m \<notin> log_area s \<longrightarrow> bk_disk (lg_blk t) m = bk_data (lg_blk s) m)) s"
    using commit_run [OF g(1-3) _ g(5)] g(4) crash_late(2) [OF c, of "2 * length hs + 2"] by (simp add: wp_def all)
  fix k
  have sb: "sb_says (crash_disk s hs k 1) s"
    using crash_early(2) [OF c _ g(6), of k] crash_mid(3) [OF c _ _ g(6,7), of k] crash_late(2) [OF c _ g(6), of k] g(8) D [OF g(7)]
    by (metis not_less)
  consider "k \<le> length hs" | "length hs < k" "k \<le> 2 * length hs + 1" | "2 * length hs + 1 < k" by linarith
  then show "wp (initlog 1) (\<lambda>_ u. lh_n u = 0 \<and> bk_data (lg_blk u) = bk_disk (lg_blk u) \<and>
       (\<forall>m. m \<notin> log_area s \<longrightarrow> bk_data (lg_blk u) m = (if k \<le> length hs then bk_disk (lg_blk s) m else bk_data (lg_blk s) m)))
     (power_on (apply_writes (take k (commit_writes s hs)) (bk_disk (lg_blk s))) (bk_size (lg_blk s)))"
  proof cases
    case 1
    have "head_list (crash_disk s hs k (lg_start s)) []" using crash_early(1) [OF c 1] g(9) by simp
    then show ?thesis unfolding e using 1 crash_early(2) [OF c 1] by (intro wp_mono [OF recovered_old [where d = "crash_disk s hs k", OF c _ sb]]) auto
  next
    case 2
    have "head_list (crash_disk s hs k (lg_start s)) hs"
      using crash_mid(1) [OF c 2] head_block_list log_rep_hs [OF g(2)] by simp
    then show ?thesis
      unfolding e using 2 crash_mid(2,3) [OF c 2] D
      by (intro wp_mono [OF recovered_new [where d = "crash_disk s hs k" and D = "bk_data (lg_blk s)", OF c _ sb]]) auto
  next
    case 3
    have "head_list (crash_disk s hs k (lg_start s)) []" using crash_late(1) [OF c 3] by (simp add: head_list_nil)
    then show ?thesis unfolding e using 3 crash_late(2) [OF c 3] by (intro wp_mono [OF recovered_old [where d = "crash_disk s hs k", OF c _ sb]]) auto
  qed
qed

theorem commit_crash_atomic_witness:
  "committable log_example [40] \<and> wp commit (\<lambda>_ t. bk_dirty (lg_blk t) = {}) log_example \<and>
   wp (initlog 1) (\<lambda>_ u. bk_data (lg_blk u) 40 = (\<lambda>_. 7))
     (power_on (apply_writes (take 2 (commit_writes log_example [40])) (bk_disk (lg_blk log_example))) (bk_size (lg_blk log_example)))"
proof (intro conjI)
  have a: "40 \<notin> log_area log_example" "bk_data (lg_blk log_example) 40 = (\<lambda>_. 7)"
    by (simp_all add: log_area_def log_example_def Let_def)
  note t = commit_crash_atomic [OF log_example_committable]
  show "wp commit (\<lambda>_ t. bk_dirty (lg_blk t) = {}) log_example"
    by (rule wp_mono [OF conjunct1 [OF t]]) simp
  show "wp (initlog 1) (\<lambda>_ u. bk_data (lg_blk u) 40 = (\<lambda>_. 7))
     (power_on (apply_writes (take 2 (commit_writes log_example [40])) (bk_disk (lg_blk log_example))) (bk_size (lg_blk log_example)))"
    by (rule wp_mono [OF spec [OF conjunct2 [OF t], of 2]]) (use a in \<open>simp, metis\<close>)
qed (rule log_example_committable)

text \<open>What \<open>log_write\<close> does to the list of recorded blocks.\<close>

definition absorb :: "u32 list \<Rightarrow> u32 \<Rightarrow> u32 list" where
  "absorb hs b = (if b \<in> set hs then hs else hs @ [b])"

lemma log_write_run:
  assumes r: "log_rep s hs" and o: "1 \<le> outstanding s" and l: "\<not> lg_lock s"
    and room: "length hs < LOGSIZE" "int (length hs) < lg_size s - 1"
    and b: "b \<notin> log_area s" "b < bk_size (lg_blk s)"
  shows "\<exists>t. log_write b s = Inr ((), t) \<and> log_rep t (absorb hs b) \<and> \<not> lg_lock t \<and>
    lg_blk t = (lg_blk s)\<lparr>bk_dirty := insert b (bk_dirty (lg_blk s))\<rparr> \<and> outstanding t = outstanding s \<and>
    lg_start t = lg_start s \<and> lg_size t = lg_size s \<and> lg_dev t = lg_dev s \<and> committing t = committing s"
proof -
  from r have n: "lh_n s = int (length hs)" and h: "\<forall>i < length hs. lh_block s i = hs ! i" by (auto simp: log_rep_def)
  have c: "log_area s = log_area t" if "lg_start t = lg_start s" "lg_size t = lg_size s" for t
    using that by (simp add: log_area_def)
  show ?thesis
  proof (cases "scan_from (\<lambda>i. lh_block s i = b) 0 (length hs)")
    case None
    then have "b \<notin> set hs" using h by (auto simp: scan_from_None in_set_conv_nth)
    then show ?thesis
      using None n o l room r b
      by (auto simp: log_write_def run_simps lh_put_def absorb_def log_rep_def nth_append less_Suc_eq c [of "s\<lparr>lg_lock := x\<rparr>" for x]
          log_area_def)
  next
    case (Some i)
    then have i: "i < length hs" "lh_block s i = b" using scan_from_Some [OF Some] by auto
    then have "b \<in> set hs" using h by (auto simp: in_set_conv_nth)
    moreover have "(lh_block s)(i := b) = lh_block s" using i by auto
    ultimately show ?thesis
      using Some n o l room r i by (auto simp: log_write_def run_simps lh_put_def absorb_def log_rep_def log_area_def)
  qed
qed

text \<open>\<open>log_write\<close> of a block inside a transaction that still has room adds the block once to the
  recorded blocks, in the order of the first writes, and pins it; the header stays well formed.\<close>

lemma log_write_records:
  assumes "log_rep s hs" "1 \<le> outstanding s" "\<not> lg_lock s" "length hs < LOGSIZE" "int (length hs) < lg_size s - 1"
    "b \<notin> log_area s" "b < bk_size (lg_blk s)"
  shows "wp (log_write b) (\<lambda>_ t. log_rep t (absorb hs b) \<and> bk_dirty (lg_blk t) = insert b (bk_dirty (lg_blk s)) \<and>
    bk_data (lg_blk t) = bk_data (lg_blk s) \<and> bk_disk (lg_blk t) = bk_disk (lg_blk s) \<and> \<not> lg_lock t) s"
  using log_write_run [OF assms] by (auto simp: wp_def)

end
