(* ===== verification/Strings.thy ===== *)
theory Strings
  imports Prelude
begin

unbundle bit_operations_syntax

text \<open>
  The memory and string routines of string.c (kernel) and ulib.c (user library) on a byte-addressed
  memory. Loops bounded by a count recurse on the count; loops that run to a terminating zero byte
  are partial functions whose value \<open>None\<close> means that no zero byte is reached.
\<close>

type_synonym bytes = "nat \<Rightarrow> u8"

section \<open>The kernel's string.c\<close>

text \<open>The instructions \<open>rep stosb\<close> and \<open>rep stosl\<close>, as x86.h wraps them.\<close>

fun stosb :: "bytes \<Rightarrow> nat \<Rightarrow> u8 \<Rightarrow> nat \<Rightarrow> bytes" where
  "stosb m d c 0 = m"
| "stosb m d c (Suc n) = stosb (m(d := c)) (d + 1) c n"

definition put32 :: "bytes \<Rightarrow> nat \<Rightarrow> u32 \<Rightarrow> bytes" where
  "put32 m d w = m(d := ucast w, d + 1 := ucast (drop_bit 8 w), d + 2 := ucast (drop_bit 16 w),
     d + 3 := ucast (drop_bit 24 w))"

fun stosl :: "bytes \<Rightarrow> nat \<Rightarrow> u32 \<Rightarrow> nat \<Rightarrow> bytes" where
  "stosl m d w 0 = m"
| "stosl m d w (Suc n) = stosl (put32 m d w) (d + 4) w n"

definition memset :: "bytes \<Rightarrow> nat \<Rightarrow> u32 \<Rightarrow> nat \<Rightarrow> bytes" where
  "memset m dst c n =
     (if dst mod 4 = 0 \<and> n mod 4 = 0 then
        (let b = c AND 0xFF in
         stosl m dst (push_bit 24 b OR push_bit 16 b OR push_bit 8 b OR b) (n div 4))
      else stosb m dst (ucast c) n)"

fun memcmp :: "bytes \<Rightarrow> nat \<Rightarrow> nat \<Rightarrow> nat \<Rightarrow> int" where
  "memcmp m s1 s2 0 = 0"
| "memcmp m s1 s2 (Suc n) =
     (if m s1 \<noteq> m s2 then int (unat (m s1)) - int (unat (m s2)) else memcmp m (s1 + 1) (s2 + 1) n)"

text \<open>The two loops of \<open>memmove\<close>: \<open>copy_down\<close> is \<open>*--d = *--s\<close>, \<open>copy_up\<close> is \<open>*d++ = *s++\<close>.\<close>

fun copy_down :: "bytes \<Rightarrow> nat \<Rightarrow> nat \<Rightarrow> nat \<Rightarrow> bytes" where
  "copy_down m d s 0 = m"
| "copy_down m d s (Suc n) = copy_down (m(d - 1 := m (s - 1))) (d - 1) (s - 1) n"

fun copy_up :: "bytes \<Rightarrow> nat \<Rightarrow> nat \<Rightarrow> nat \<Rightarrow> bytes" where
  "copy_up m d s 0 = m"
| "copy_up m d s (Suc n) = copy_up (m(d := m s)) (d + 1) (s + 1) n"

definition memmove :: "bytes \<Rightarrow> nat \<Rightarrow> nat \<Rightarrow> nat \<Rightarrow> bytes" where
  "memmove m dst src n =
     (if src < dst \<and> dst < src + n then copy_down m (dst + n) (src + n) n else copy_up m dst src n)"

definition memcpy :: "bytes \<Rightarrow> nat \<Rightarrow> nat \<Rightarrow> nat \<Rightarrow> bytes" where
  "memcpy m dst src n = memmove m dst src n"

fun strncmp :: "bytes \<Rightarrow> nat \<Rightarrow> nat \<Rightarrow> nat \<Rightarrow> int" where
  "strncmp m p q 0 = 0"
| "strncmp m p q (Suc n) =
     (if m p \<noteq> 0 \<and> m p = m q then strncmp m (p + 1) (q + 1) n
      else int (unat (m p)) - int (unat (m q)))"

fun strncpy_loop :: "bytes \<Rightarrow> nat \<Rightarrow> nat \<Rightarrow> nat \<Rightarrow> bytes" where
  "strncpy_loop m s t 0 = m"
| "strncpy_loop m s t (Suc n) =
     (let m' = m(s := m t) in
      if m t \<noteq> 0 then strncpy_loop m' (s + 1) (t + 1) n else stosb m' (s + 1) 0 n)"

definition strncpy :: "bytes \<Rightarrow> nat \<Rightarrow> nat \<Rightarrow> int \<Rightarrow> bytes" where
  "strncpy m s t n = strncpy_loop m s t (nat n)"

text \<open>The loop of \<open>safestrcpy\<close> entered with \<open>n\<close> bytes of room, of which one is for the final zero.\<close>

fun safestrcpy_loop :: "bytes \<Rightarrow> nat \<Rightarrow> nat \<Rightarrow> nat \<Rightarrow> bytes" where
  "safestrcpy_loop m s t 0 = m(s := 0)"
| "safestrcpy_loop m s t (Suc n) =
     (let m' = m(s := m t) in
      if m t \<noteq> 0 then safestrcpy_loop m' (s + 1) (t + 1) n else m'(s + 1 := 0))"

definition safestrcpy :: "bytes \<Rightarrow> nat \<Rightarrow> nat \<Rightarrow> int \<Rightarrow> bytes" where
  "safestrcpy m s t n = (if n \<le> 0 then m else safestrcpy_loop m s t (nat (n - 1)))"

partial_function (option) strlen_loop :: "bytes \<Rightarrow> nat \<Rightarrow> nat \<Rightarrow> nat option" where
  "strlen_loop m s n = (if m (s + n) \<noteq> 0 then strlen_loop m s (n + 1) else Some n)"

definition strlen :: "bytes \<Rightarrow> nat \<Rightarrow> nat option" where
  "strlen m s = strlen_loop m s 0"

section \<open>The user library's ulib.c\<close>

partial_function (option) strcpy :: "bytes \<Rightarrow> nat \<Rightarrow> nat \<Rightarrow> bytes option" where
  "strcpy m s t = (if m t \<noteq> 0 then strcpy (m(s := m t)) (s + 1) (t + 1) else Some (m(s := m t)))"

partial_function (option) strcmp :: "bytes \<Rightarrow> nat \<Rightarrow> nat \<Rightarrow> int option" where
  "strcmp m p q =
     (if m p \<noteq> 0 \<and> m p = m q then strcmp m (p + 1) (q + 1)
      else Some (int (unat (m p)) - int (unat (m q))))"

partial_function (option) strchr :: "bytes \<Rightarrow> nat \<Rightarrow> u8 \<Rightarrow> nat option option" where
  "strchr m s c = (if m s \<noteq> 0 then (if m s = c then Some (Some s) else strchr m (s + 1) c) else Some None)"

definition memset_u :: "bytes \<Rightarrow> nat \<Rightarrow> u8 \<Rightarrow> nat \<Rightarrow> bytes" where
  "memset_u m dst c n = stosb m dst c n"

definition memmove_u :: "bytes \<Rightarrow> nat \<Rightarrow> nat \<Rightarrow> int \<Rightarrow> bytes" where
  "memmove_u m vdst vsrc n = copy_up m vdst vsrc (nat n)"

text \<open>\<open>atoi\<close> accumulates in a 32-bit register.\<close>

partial_function (option) atoi_loop :: "bytes \<Rightarrow> nat \<Rightarrow> u32 \<Rightarrow> u32 option" where
  "atoi_loop m s n =
     (if 48 \<le> m s \<and> m s \<le> 57 then atoi_loop m (s + 1) (n * 10 + ucast (m s) - 48) else Some n)"

definition atoi :: "bytes \<Rightarrow> nat \<Rightarrow> int option" where
  "atoi m s = map_option sint (atoi_loop m s 0)"

text \<open>\<open>gets\<close> with the bytes that \<open>read(0, &c, 1)\<close> will deliver; an empty list is the end of input.\<close>

fun gets_loop :: "nat \<Rightarrow> nat \<Rightarrow> u8 list \<Rightarrow> bytes \<Rightarrow> nat \<times> u8 list \<times> bytes" where
  "gets_loop room i [] m = (i, [], m)"
| "gets_loop 0 i (c # cs) m = (i, c # cs, m)"
| "gets_loop (Suc room) i (c # cs) m =
     (if c = 10 \<or> c = 13 then (i + 1, cs, m(i := c)) else gets_loop room (i + 1) cs (m(i := c)))"

definition gets_u :: "nat \<Rightarrow> int \<Rightarrow> u8 list \<Rightarrow> bytes \<Rightarrow> u8 list \<times> bytes" where
  "gets_u buf mx inp m =
     (case gets_loop (nat (mx - 1)) buf inp m of (i, rest, m') \<Rightarrow> (rest, m'(i := 0)))"

section \<open>Filling and copying\<close>

definition fill :: "bytes \<Rightarrow> nat \<Rightarrow> nat \<Rightarrow> (nat \<Rightarrow> u8) \<Rightarrow> bytes" where
  "fill m d n f = (\<lambda>i. if d \<le> i \<and> i < d + n then f (i - d) else m i)"

lemma fill_0 [simp]: "fill m d 0 f = m"
  by (auto simp: fill_def fun_eq_iff)

lemma fill_1: "m(d := x) = fill m d 1 (\<lambda>_. x)"
  by (auto simp: fill_def fun_eq_iff)

lemma fill_fill: "fill (fill m d a f) (d + a) b g = fill m d (a + b) (\<lambda>i. if i < a then f i else g (i - a))"
  by (auto simp: fill_def fun_eq_iff)

lemma fill_cong: "(\<And>i. i < n \<Longrightarrow> f i = g i) \<Longrightarrow> fill m d n f = fill m d n g"
  by (auto simp: fill_def fun_eq_iff)

lemma stosb_fill: "stosb m d c n = fill m d n (\<lambda>_. c)"
proof (induction n arbitrary: m d)
  case (Suc n)
  then show ?case using fill_fill [of m d 1 "\<lambda>_. c" n "\<lambda>_. c"] by (simp add: fill_1 del: fun_upd_apply)
qed simp

text \<open>A word whose four bytes are all equal, as \<open>memset\<close> builds it.\<close>

definition all_bytes :: "u32 \<Rightarrow> u8 \<Rightarrow> bool" where
  "all_bytes w c \<longleftrightarrow> ucast w = c \<and> ucast (drop_bit 8 w) = c \<and> ucast (drop_bit 16 w) = c \<and> ucast (drop_bit 24 w) = c"

lemma repeat_byte:
  fixes c :: u32
  defines "b \<equiv> c AND 0xFF"
  shows "all_bytes (push_bit 24 b OR push_bit 16 b OR push_bit 8 b OR b) (ucast c)"
proof -
  have ff: "(0xFF :: u32) = mask 8" by (simp add: mask_eq_exp_minus_1)
  show ?thesis
    unfolding b_def ff all_bytes_def by (intro conjI; rule bit_word_eqI) (auto simp: bit_simps)
qed

lemma put32_fill: "all_bytes w c \<Longrightarrow> put32 m d w = fill m d 4 (\<lambda>_. c)"
  by (auto simp: put32_def fill_def all_bytes_def fun_eq_iff)

lemma stosl_fill: "all_bytes w c \<Longrightarrow> stosl m d w n = fill m d (4 * n) (\<lambda>_. c)"
proof (induction n arbitrary: m d)
  case (Suc n)
  then show ?case using fill_fill [of m d 4 "\<lambda>_. c" "4 * n" "\<lambda>_. c"] by (simp add: put32_fill)
qed simp

lemma copy_up_spec: "\<not> (s < d \<and> d < s + n) \<Longrightarrow> copy_up m d s n = fill m d n (\<lambda>i. m (s + i))"
proof (induction n arbitrary: m d s)
  case (Suc n)
  let ?m = "m(d := m s)"
  have "copy_up ?m (d + 1) (s + 1) n = fill ?m (d + 1) n (\<lambda>i. ?m (s + 1 + i))"
    using Suc.prems by (intro Suc.IH) auto
  also have "\<dots> = fill (fill m d 1 (\<lambda>_. m s)) (d + 1) n (\<lambda>i. m (s + 1 + i))"
    unfolding fill_1 by (rule fill_cong) (use Suc.prems in \<open>auto simp: fill_def\<close>)
  also have "\<dots> = fill m d (Suc n) (\<lambda>i. m (s + i))"
    unfolding fill_fill by (simp, rule fill_cong) (auto simp: not_less_eq_eq Suc_le_eq)
  finally show ?case by simp
qed simp

lemma copy_down_spec: "s < d \<Longrightarrow> copy_down m (d + n) (s + n) n = fill m d n (\<lambda>i. m (s + i))"
proof (induction n arbitrary: m)
  case (Suc n)
  let ?m = "m(d + n := m (s + n))"
  have "copy_down ?m (d + n) (s + n) n = fill ?m d n (\<lambda>i. ?m (s + i))"
    using Suc.prems by (rule Suc.IH)
  also have "\<dots> = fill m d (Suc n) (\<lambda>i. m (s + i))"
    using Suc.prems by (auto simp: fill_def fun_eq_iff less_Suc_eq)
  finally show ?case by simp
qed simp

lemma memmove_spec: "memmove m dst src n = fill m dst n (\<lambda>i. m (src + i))"
  by (simp add: memmove_def copy_up_spec copy_down_spec)

section \<open>Strings that end in a zero byte\<close>

definition cstr :: "bytes \<Rightarrow> nat \<Rightarrow> u8 list \<Rightarrow> bool" where
  "cstr m s cs \<longleftrightarrow> 0 \<notin> set cs \<and> (\<forall>i < length cs. m (s + i) = cs ! i) \<and> m (s + length cs) = 0"

lemma cstr_Nil [simp]: "cstr m s [] \<longleftrightarrow> m s = 0"
  by (simp add: cstr_def)

lemma cstr_Cons [simp]: "cstr m s (c # cs) \<longleftrightarrow> c \<noteq> 0 \<and> m s = c \<and> cstr m (Suc s) cs"
  by (auto simp: cstr_def nth_Cons' less_Suc_eq_0_disj)

lemma strlen_loop_spec: "cstr m (s + n) cs \<Longrightarrow> strlen_loop m s n = Some (n + length cs)"
proof (induction cs arbitrary: n)
  case Nil
  then show ?case by (simp add: strlen_loop.simps [of m s n])
next
  case (Cons x cs)
  then show ?case using Cons.IH [of "Suc n"] by (simp add: strlen_loop.simps [of m s n])
qed

lemma strcpy_spec:
  "cstr m t cs \<Longrightarrow> s + length cs < t \<or> t + length cs < s \<Longrightarrow>
   \<exists>m'. strcpy m s t = Some m' \<and> cstr m' s cs \<and> (\<forall>i. i < s \<or> s + length cs < i \<longrightarrow> m' i = m i)"
proof (induction cs arbitrary: m s t)
  case Nil
  then show ?case by (simp add: strcpy.simps [of m s t])
next
  case (Cons c cs)
  let ?m = "m(s := m t)"
  have "cstr ?m (Suc t) cs" using Cons.prems by (auto simp: cstr_def)
  then have "\<exists>m'. strcpy ?m (Suc s) (Suc t) = Some m' \<and> cstr m' (Suc s) cs \<and>
      (\<forall>i. i < Suc s \<or> Suc s + length cs < i \<longrightarrow> m' i = ?m i)"
    by (rule Cons.IH) (use Cons.prems(2) in auto)
  then obtain m' where m': "strcpy ?m (Suc s) (Suc t) = Some m'" "cstr m' (Suc s) cs"
    "\<forall>i. i < Suc s \<or> Suc s + length cs < i \<longrightarrow> m' i = ?m i" by blast
  moreover have "strcpy m s t = strcpy ?m (Suc s) (Suc t)"
    using Cons.prems(1) by (subst strcpy.simps) (simp del: fun_upd_apply)
  ultimately show ?case using Cons.prems by (intro exI [of _ m']) auto
qed

lemma strcmp_spec:
  "cstr m p xs \<Longrightarrow> cstr m q ys \<Longrightarrow> \<exists>r. strcmp m p q = Some r \<and> (r = 0 \<longleftrightarrow> xs = ys)"
proof (induction xs arbitrary: p q ys)
  case Nil
  then show ?case by (cases ys) (auto simp: strcmp.simps [of m p q] uint_0_iff)
next
  case (Cons x xs)
  show ?case
  proof (cases "m q = x")
    case True
    then obtain ys' where "ys = x # ys'" using Cons.prems by (cases ys) auto
    with Cons show ?thesis by (auto simp: strcmp.simps [of m p q])
  next
    case False
    then have "x # xs \<noteq> ys" using Cons.prems by auto
    with False Cons.prems show ?thesis by (auto simp: strcmp.simps [of m p q] dest: unsigned_word_eqI)
  qed
qed

lemma strchr_spec:
  "cstr m s cs \<Longrightarrow> strchr m s c = Some (if c \<in> set cs then Some (s + length (takeWhile (\<lambda>x. x \<noteq> c) cs)) else None)"
proof (induction cs arbitrary: s)
  case Nil
  then show ?case by (simp add: strchr.simps [of m s])
next
  case (Cons x cs)
  then show ?case by (auto simp: strchr.simps [of m s])
qed

lemma safestrcpy_loop_spec:
  "i < s \<or> s + n < i \<Longrightarrow> safestrcpy_loop m s t n i = m i"
  by (induction m s t n rule: safestrcpy_loop.induct) (auto simp: Let_def)

lemma safestrcpy_loop_ends: "\<exists>k \<le> n. safestrcpy_loop m s t n (s + k) = 0"
proof (induction n arbitrary: m s t)
  case (Suc n)
  show ?case
  proof (cases "m t = 0")
    case True
    then show ?thesis by (intro exI [of _ 0]) (simp add: Let_def)
  next
    case False
    obtain k where "k \<le> n" "safestrcpy_loop (m(s := m t)) (s + 1) (t + 1) n (s + 1 + k) = 0"
      using Suc.IH by blast
    with False show ?thesis by (intro exI [of _ "Suc k"]) (simp add: Let_def del: fun_upd_apply)
  qed
qed simp

lemma memset_spec: "memset m dst c n = fill m dst n (\<lambda>_. ucast c)"
proof (cases "dst mod 4 = 0 \<and> n mod 4 = 0")
  case True
  then have "4 * (n div 4) = n" by (simp add: mod_0_imp_dvd)
  with True show ?thesis using stosl_fill [OF repeat_byte [of c], of m dst "n div 4"] by (simp add: memset_def Let_def)
next
  case False
  then show ?thesis unfolding memset_def stosb_fill by auto
qed

text \<open>The \<open>memmove\<close> of ulib.c copies upwards whatever the overlap: a byte that is overwritten before it is
  read is lost.\<close>

lemma memmove_u_overlap: "memmove_u (\<lambda>i. word_of_nat i) 1 0 2 2 = 0"
  by (simp add: memmove_u_def numeral_2_eq_2)

section \<open>Properties\<close>

text \<open>C36: the kernel's \<open>memmove\<close> copies the old contents of the source range whatever the overlap, and its
  \<open>memset\<close> writes the same bytes whether it works by words or by bytes; both leave the rest of memory
  alone.\<close>

theorem memmove_memset_correct:
  "memmove m dst src n = (\<lambda>i. if dst \<le> i \<and> i < dst + n then m (src + (i - dst)) else m i) \<and>
   memset m dst c n = (\<lambda>i. if dst \<le> i \<and> i < dst + n then ucast c else m i)"
  by (simp add: memmove_spec memset_spec fill_def)

text \<open>C37: \<open>safestrcpy\<close> with room for \<open>n > 0\<close> bytes writes only these \<open>n\<close> bytes and always leaves a zero byte
  among them.\<close>

theorem safestrcpy_terminated:
  assumes "0 < n"
  shows "(\<exists>k < nat n. safestrcpy m s t n (s + k) = 0) \<and>
    (\<forall>i. i < s \<or> s + nat n \<le> i \<longrightarrow> safestrcpy m s t n i = m i)"
proof -
  obtain k where "k \<le> nat (n - 1)" "safestrcpy_loop m s t (nat (n - 1)) (s + k) = 0"
    using safestrcpy_loop_ends by blast
  then have "\<exists>k < nat n. safestrcpy m s t n (s + k) = 0"
    using assms by (intro exI [of _ k]) (auto simp: safestrcpy_def)
  with assms show ?thesis by (auto simp: safestrcpy_def safestrcpy_loop_spec)
qed

theorem safestrcpy_terminated_witness:
  "\<exists>k < 3. safestrcpy ((\<lambda>_. 7)(100 := 65, 101 := 66, 102 := 67, 103 := 0)) 0 100 3 k = 0"
  using safestrcpy_terminated [of 3 "(\<lambda>_. 7)(100 := 65, 101 := 66, 102 := 67, 103 := 0)" 0 100] by simp

end
