(* ===== verification/Fs.thy ===== *)
theory Fs
  imports Log Strings
begin

text \<open>
  The lower half of fs.c: the block allocator, inodes on disk and in the inode cache, and the contents
  of files, over the log. An inode pointer is an index of the inode cache. The state carries the pid of the
  running process, which sleep locks record, and the table \<open>devsw\<close> of device functions is an
  argument of the routines that call through it.
\<close>

section \<open>State\<close>

definition NINODE :: nat where "NINODE = 50"
definition NDIRECT :: nat where "NDIRECT = 12"
definition NINDIRECT :: nat where "NINDIRECT = BSIZE div 4"
definition MAXFILE :: nat where "MAXFILE = NDIRECT + NINDIRECT"
definition IPB :: nat where "IPB = BSIZE div 64"
definition BPB :: nat where "BPB = BSIZE * 8"
definition NDEV :: int where "NDEV = 10"

definition T_DIR :: u16 where "T_DIR = 1"
definition T_FILE :: u16 where "T_FILE = 2"
definition T_DEV :: u16 where "T_DEV = 3"

record inode =
  i_dev :: u32
  i_inum :: u32
  i_ref :: int
  i_lock :: sleeplock
  i_valid :: bool
  i_type :: u16
  i_major :: u16
  i_minor :: u16
  i_nlink :: u16
  i_size :: u32
  i_addrs :: "nat \<Rightarrow> u32"

record fsys =
  fs_log :: logsys
  fs_sb :: superblock
  fs_pid :: u32
  ic_lock :: bool
  inodes :: "nat \<Rightarrow> inode"

record stat =
  st_type :: u16
  st_dev :: u32
  st_ino :: u32
  st_nlink :: u16
  st_size :: u32

text \<open>The device table: a device's routines get the inode and return a count; \<open>read\<close> also returns the
  bytes it delivers.\<close>

record devsw =
  dev_read :: "int \<Rightarrow> (nat \<Rightarrow> u32 \<Rightarrow> (fsys, int \<times> u8 list) km) option"
  dev_write :: "int \<Rightarrow> (nat \<Rightarrow> u8 list \<Rightarrow> (fsys, int) km) option"

definition on_log :: "(logsys, 'a) km \<Rightarrow> (fsys, 'a) km" where
  "on_log = zoom fs_log (\<lambda>l s. s\<lparr>fs_log := l\<rparr>)"

definition fs_bread :: "u32 \<Rightarrow> u32 \<Rightarrow> (fsys, block) km" where
  "fs_bread dev n = on_log (on_blk (blk_read dev n))"

definition fs_bset :: "u32 \<Rightarrow> block \<Rightarrow> (fsys, unit) km" where
  "fs_bset n d = on_log (on_blk (blk_set n d))"

definition fs_brelse :: "u32 \<Rightarrow> (fsys, unit) km" where
  "fs_brelse n = on_log (on_blk (blk_release n))"

definition get_inode :: "nat \<Rightarrow> (fsys, inode) km" where
  "get_inode k = gets (\<lambda>s. inodes s k)"

definition upd_inode :: "nat \<Rightarrow> (inode \<Rightarrow> inode) \<Rightarrow> (fsys, unit) km" where
  "upd_inode k g = modify (\<lambda>s. s\<lparr>inodes := (inodes s)(k := g (inodes s k))\<rparr>)"

definition on_ilock :: "nat \<Rightarrow> (sleeplock, 'a) km \<Rightarrow> (fsys, 'a) km" where
  "on_ilock k = zoom (\<lambda>s. i_lock (inodes s k)) (\<lambda>l s. s\<lparr>inodes := (inodes s)(k := (inodes s k)\<lparr>i_lock := l\<rparr>)\<rparr>)"

section \<open>The on-disk layout\<close>

definition ld16 :: "block \<Rightarrow> nat \<Rightarrow> u16" where
  "ld16 p i = ucast (p i) OR push_bit 8 (ucast (p (i + 1)))"

definition st16 :: "block \<Rightarrow> nat \<Rightarrow> u16 \<Rightarrow> block" where
  "st16 p i v = p(i := ucast v, i + 1 := ucast (drop_bit 8 v))"

definition IBLOCK :: "u32 \<Rightarrow> superblock \<Rightarrow> u32" where
  "IBLOCK i sb = i div of_nat IPB + sb_inodestart sb"

definition BBLOCK :: "u32 \<Rightarrow> superblock \<Rightarrow> u32" where
  "BBLOCK b sb = b div of_nat BPB + sb_bmapstart sb"

text \<open>Byte offset of an inode in its block.\<close>

definition dip_off :: "u32 \<Rightarrow> nat" where
  "dip_off inum = unat (inum mod of_nat IPB) * 64"

text \<open>\<open>struct dinode\<close>: three shorts and the link count, the size, and thirteen block addresses.\<close>

definition dinode_put :: "inode \<Rightarrow> nat \<Rightarrow> block \<Rightarrow> block" where
  "dinode_put ip o' d =
     fold (\<lambda>k d. st32 d (o' + 12 + 4 * k) (i_addrs ip k)) [0 ..< NDIRECT + 1]
       (st32 (st16 (st16 (st16 (st16 d o' (i_type ip)) (o' + 2) (i_major ip)) (o' + 4) (i_minor ip)) (o' + 6) (i_nlink ip))
         (o' + 8) (i_size ip))"

definition dinode_get :: "block \<Rightarrow> nat \<Rightarrow> inode \<Rightarrow> inode" where
  "dinode_get d o' ip = ip\<lparr>i_type := ld16 d o', i_major := ld16 d (o' + 2), i_minor := ld16 d (o' + 4),
     i_nlink := ld16 d (o' + 6), i_size := ld32 d (o' + 8),
     i_addrs := (\<lambda>k. if k \<le> NDIRECT then ld32 d (o' + 12 + 4 * k) else i_addrs ip k)\<rparr>"

section \<open>Blocks\<close>

definition bzero :: "u32 \<Rightarrow> u32 \<Rightarrow> (fsys, unit) km" where
  "bzero dev bno =
     sq (fs_bread dev bno) (
     sq (fs_bset bno (\<lambda>_. 0)) (
     sq (on_log (log_write bno))
        (fs_brelse bno)))"

definition bit_clear :: "block \<Rightarrow> nat \<Rightarrow> bool" where
  "bit_clear d bi \<longleftrightarrow> d (bi div 8) AND push_bit (bi mod 8) 1 = 0"

text \<open>The loop over the bitmap blocks, which start at the block numbers \<open>bs\<close>.\<close>

fun balloc_from :: "u32 \<Rightarrow> superblock \<Rightarrow> nat list \<Rightarrow> (fsys, u32) km" where
  "balloc_from dev sb [] = panic ''balloc: out of blocks''"
| "balloc_from dev sb (b # bs) =
     bnd (fs_bread dev (BBLOCK (of_nat b) sb)) (\<lambda>d.
     case scan_from (bit_clear d) 0 (min BPB (unat (sb_size sb) - b)) of
       Some bi \<Rightarrow>
         sq (fs_bset (BBLOCK (of_nat b) sb) (d(bi div 8 := d (bi div 8) OR push_bit (bi mod 8) 1))) (
         sq (on_log (log_write (BBLOCK (of_nat b) sb))) (
         sq (fs_brelse (BBLOCK (of_nat b) sb)) (
         sq (bzero dev (of_nat (b + bi)))
            (ret (of_nat (b + bi))))))
     | None \<Rightarrow>
         sq (fs_brelse (BBLOCK (of_nat b) sb))
            (balloc_from dev sb bs))"

definition balloc :: "u32 \<Rightarrow> (fsys, u32) km" where
  "balloc dev = bnd (gets fs_sb) (\<lambda>sb.
     balloc_from dev sb (map (\<lambda>k. k * BPB) [0 ..< (unat (sb_size sb) + BPB - 1) div BPB]))"

definition bfree :: "u32 \<Rightarrow> u32 \<Rightarrow> (fsys, unit) km" where
  "bfree dev b =
     bnd (gets fs_sb) (\<lambda>sb.
     bnd (fs_bread dev (BBLOCK b sb)) (\<lambda>d.
     let bi = unat (b mod of_nat BPB) in
     if bit_clear d bi then panic ''freeing free block''
     else
       sq (fs_bset (BBLOCK b sb) (d(bi div 8 := d (bi div 8) AND NOT (push_bit (bi mod 8) 1)))) (
       sq (on_log (log_write (BBLOCK b sb)))
          (fs_brelse (BBLOCK b sb)))))"

section \<open>Inodes\<close>

definition iinit :: "u32 \<Rightarrow> (fsys, unit) km" where
  "iinit dev =
     sq (modify (\<lambda>s. s\<lparr>ic_lock := False\<rparr>)) (
     sq (for_each (\<lambda>i. on_ilock i initsleeplock) [0 ..< NINODE]) (
     bnd (on_log (readsb dev)) (\<lambda>sb.
     modify (\<lambda>s. s\<lparr>fs_sb := sb\<rparr>))))"

definition iget :: "u32 \<Rightarrow> u32 \<Rightarrow> (fsys, nat) km" where
  "iget dev inum =
     sq (acquire ic_lock ic_lock_update) (
     bnd (gets inodes) (\<lambda>t.
     case scan_from (\<lambda>k. 0 < i_ref (t k) \<and> i_dev (t k) = dev \<and> i_inum (t k) = inum) 0 NINODE of
       Some k \<Rightarrow>
         sq (upd_inode k (\<lambda>ip. ip\<lparr>i_ref := i_ref ip + 1\<rparr>)) (
         sq (release ic_lock ic_lock_update) (ret k))
     | None \<Rightarrow>
         (case scan_from (\<lambda>k. i_ref (t k) = 0) 0 NINODE of
            None \<Rightarrow> panic ''iget: no inodes''
          | Some k \<Rightarrow>
              sq (upd_inode k (\<lambda>ip. ip\<lparr>i_dev := dev, i_inum := inum, i_ref := 1, i_valid := False\<rparr>)) (
              sq (release ic_lock ic_lock_update) (ret k)))))"

text \<open>The loop over the inode numbers.\<close>

fun ialloc_from :: "u32 \<Rightarrow> u16 \<Rightarrow> superblock \<Rightarrow> nat list \<Rightarrow> (fsys, nat) km" where
  "ialloc_from dev type sb [] = panic ''ialloc: no inodes''"
| "ialloc_from dev type sb (n # ns) =
     bnd (fs_bread dev (IBLOCK (of_nat n) sb)) (\<lambda>d.
     let o' = dip_off (of_nat n) in
     if ld16 d o' = 0 then
       sq (fs_bset (IBLOCK (of_nat n) sb) (st16 (\<lambda>i. if o' \<le> i \<and> i < o' + 64 then 0 else d i) o' type)) (
       sq (on_log (log_write (IBLOCK (of_nat n) sb))) (
       sq (fs_brelse (IBLOCK (of_nat n) sb))
          (iget dev (of_nat n))))
     else
       sq (fs_brelse (IBLOCK (of_nat n) sb))
          (ialloc_from dev type sb ns))"

definition ialloc :: "u32 \<Rightarrow> u16 \<Rightarrow> (fsys, nat) km" where
  "ialloc dev type = bnd (gets fs_sb) (\<lambda>sb. ialloc_from dev type sb [1 ..< unat (sb_ninodes sb)])"

definition iupdate :: "nat \<Rightarrow> (fsys, unit) km" where
  "iupdate k =
     bnd (get_inode k) (\<lambda>ip. bnd (gets fs_sb) (\<lambda>sb.
     bnd (fs_bread (i_dev ip) (IBLOCK (i_inum ip) sb)) (\<lambda>d.
     sq (fs_bset (IBLOCK (i_inum ip) sb) (dinode_put ip (dip_off (i_inum ip)) d)) (
     sq (on_log (log_write (IBLOCK (i_inum ip) sb)))
        (fs_brelse (IBLOCK (i_inum ip) sb))))))"

definition idup :: "nat \<Rightarrow> (fsys, nat) km" where
  "idup k =
     sq (acquire ic_lock ic_lock_update) (
     sq (upd_inode k (\<lambda>ip. ip\<lparr>i_ref := i_ref ip + 1\<rparr>)) (
     sq (release ic_lock ic_lock_update) (ret k)))"

definition ilock :: "nat \<Rightarrow> (fsys, unit) km" where
  "ilock k =
     bnd (get_inode k) (\<lambda>ip.
     if i_ref ip < 1 then panic ''ilock''
     else
       bnd (gets fs_pid) (\<lambda>pid.
       sq (on_ilock k (acquiresleep pid)) (
       bnd (get_inode k) (\<lambda>ip.
       if i_valid ip then ret ()
       else
         bnd (gets fs_sb) (\<lambda>sb.
         bnd (fs_bread (i_dev ip) (IBLOCK (i_inum ip) sb)) (\<lambda>d.
         sq (upd_inode k (dinode_get d (dip_off (i_inum ip)))) (
         sq (fs_brelse (IBLOCK (i_inum ip) sb)) (
         sq (upd_inode k (\<lambda>ip. ip\<lparr>i_valid := True\<rparr>)) (
         bnd (get_inode k) (\<lambda>ip.
         if i_type ip = 0 then panic ''ilock: no type'' else ret ()))))))))))"

definition iunlock :: "nat \<Rightarrow> (fsys, unit) km" where
  "iunlock k =
     bnd (gets fs_pid) (\<lambda>pid.
     bnd (on_ilock k (holdingsleep pid)) (\<lambda>h.
     bnd (get_inode k) (\<lambda>ip.
     if \<not> h \<or> i_ref ip < 1 then panic ''iunlock''
     else on_ilock k releasesleep)))"

section \<open>Inode content\<close>

definition bmap :: "nat \<Rightarrow> u32 \<Rightarrow> (fsys, u32) km" where
  "bmap k bn =
     bnd (get_inode k) (\<lambda>ip.
     if bn < of_nat NDIRECT then
       (let addr = i_addrs ip (unat bn) in
        if addr = 0 then
          bnd (balloc (i_dev ip)) (\<lambda>addr.
          sq (upd_inode k (\<lambda>ip. ip\<lparr>i_addrs := (i_addrs ip)(unat bn := addr)\<rparr>)) (ret addr))
        else ret addr)
     else
       (let bn = bn - of_nat NDIRECT in
        if bn < of_nat NINDIRECT then
          bnd (let addr = i_addrs ip NDIRECT in
               if addr = 0 then
                 bnd (balloc (i_dev ip)) (\<lambda>addr.
                 sq (upd_inode k (\<lambda>ip. ip\<lparr>i_addrs := (i_addrs ip)(NDIRECT := addr)\<rparr>)) (ret addr))
               else ret addr) (\<lambda>ind.
          bnd (fs_bread (i_dev ip) ind) (\<lambda>a.
          bnd (let addr = ld32 a (4 * unat bn) in
               if addr = 0 then
                 bnd (balloc (i_dev ip)) (\<lambda>addr.
                 sq (fs_bset ind (st32 a (4 * unat bn) addr)) (
                 sq (on_log (log_write ind)) (ret addr)))
               else ret addr) (\<lambda>addr.
          sq (fs_brelse ind) (ret addr))))
        else panic ''bmap: out of range''))"

definition itrunc :: "nat \<Rightarrow> (fsys, unit) km" where
  "itrunc k =
     sq (for_each (\<lambda>i.
           bnd (get_inode k) (\<lambda>ip.
           if i_addrs ip i \<noteq> 0 then
             sq (bfree (i_dev ip) (i_addrs ip i))
                (upd_inode k (\<lambda>ip. ip\<lparr>i_addrs := (i_addrs ip)(i := 0)\<rparr>))
           else ret ())) [0 ..< NDIRECT]) (
     sq (bnd (get_inode k) (\<lambda>ip.
         if i_addrs ip NDIRECT \<noteq> 0 then
           bnd (fs_bread (i_dev ip) (i_addrs ip NDIRECT)) (\<lambda>a.
           sq (for_each (\<lambda>j.
                 if ld32 a (4 * j) \<noteq> 0 then bfree (i_dev ip) (ld32 a (4 * j)) else ret ()) [0 ..< NINDIRECT]) (
           sq (fs_brelse (i_addrs ip NDIRECT)) (
           sq (bfree (i_dev ip) (i_addrs ip NDIRECT))
              (upd_inode k (\<lambda>ip. ip\<lparr>i_addrs := (i_addrs ip)(NDIRECT := 0)\<rparr>)))))
         else ret ())) (
     sq (upd_inode k (\<lambda>ip. ip\<lparr>i_size := 0\<rparr>))
        (iupdate k)))"

definition iput :: "nat \<Rightarrow> (fsys, unit) km" where
  "iput k =
     bnd (gets fs_pid) (\<lambda>pid.
     sq (on_ilock k (acquiresleep pid)) (
     bnd (get_inode k) (\<lambda>ip.
     sq (if i_valid ip \<and> i_nlink ip = 0 then
           sq (acquire ic_lock ic_lock_update) (
           bnd (get_inode k) (\<lambda>ip.
           sq (release ic_lock ic_lock_update) (
           if i_ref ip = 1 then
             sq (itrunc k) (
             sq (upd_inode k (\<lambda>ip. ip\<lparr>i_type := 0\<rparr>)) (
             sq (iupdate k)
                (upd_inode k (\<lambda>ip. ip\<lparr>i_valid := False\<rparr>))))
           else ret ())))
         else ret ()) (
     sq (on_ilock k releasesleep) (
     sq (acquire ic_lock ic_lock_update) (
     sq (upd_inode k (\<lambda>ip. ip\<lparr>i_ref := i_ref ip - 1\<rparr>))
        (release ic_lock ic_lock_update)))))))"

definition iunlockput :: "nat \<Rightarrow> (fsys, unit) km" where
  "iunlockput k = sq (iunlock k) (iput k)"

definition stati :: "nat \<Rightarrow> (fsys, stat) km" where
  "stati k = bnd (get_inode k) (\<lambda>ip. ret \<lparr>st_type = i_type ip, st_dev = i_dev ip, st_ino = i_inum ip,
     st_nlink = i_nlink ip, st_size = i_size ip\<rparr>)"

text \<open>The bytes \<open>[o, o + m)\<close> of a block, and a block with bytes stored at \<open>o\<close>.\<close>

definition bytes_at :: "block \<Rightarrow> nat \<Rightarrow> nat \<Rightarrow> u8 list" where
  "bytes_at d o' m = map (\<lambda>i. d (o' + i)) [0 ..< m]"

definition put_bytes :: "block \<Rightarrow> nat \<Rightarrow> u8 list \<Rightarrow> block" where
  "put_bytes d o' bs = (\<lambda>i. if o' \<le> i \<and> i < o' + length bs then bs ! (i - o') else d i)"

text \<open>The loops of \<open>readi\<close> and \<open>writei\<close>; every round moves at least one byte, so the number of bytes
  bounds the number of rounds.\<close>

fun readi_loop :: "nat \<Rightarrow> nat \<Rightarrow> u32 \<Rightarrow> u32 \<Rightarrow> u32 \<Rightarrow> (fsys, u8 list) km" where
  "readi_loop 0 k tot off n = fail Diverges"
| "readi_loop (Suc fuel) k tot off n =
     (if tot < n then
        bnd (bmap k (off div of_nat BSIZE)) (\<lambda>addr.
        bnd (get_inode k) (\<lambda>ip.
        bnd (fs_bread (i_dev ip) addr) (\<lambda>d.
        let m = min (n - tot) (of_nat BSIZE - off mod of_nat BSIZE) in
        sq (fs_brelse addr) (
        bnd (readi_loop fuel k (tot + m) (off + m) n) (\<lambda>rest.
        ret (bytes_at d (unat (off mod of_nat BSIZE)) (unat m) @ rest))))))
      else ret [])"

definition readi :: "devsw \<Rightarrow> nat \<Rightarrow> u32 \<Rightarrow> u32 \<Rightarrow> (fsys, int \<times> u8 list) km" where
  "readi dv k off n =
     bnd (get_inode k) (\<lambda>ip.
     if i_type ip = T_DEV then
       (if sint (i_major ip) < 0 \<or> NDEV \<le> sint (i_major ip) then ret (-1, [])
        else (case dev_read dv (sint (i_major ip)) of None \<Rightarrow> ret (-1, []) | Some r \<Rightarrow> r k n))
     else if i_size ip < off \<or> off + n < off then ret (-1, [])
     else
       (let n = (if i_size ip < off + n then i_size ip - off else n) in
        bnd (readi_loop (Suc (unat n)) k 0 off n) (\<lambda>bs.
        ret (sint n, bs))))"

fun writei_loop :: "nat \<Rightarrow> nat \<Rightarrow> u32 \<Rightarrow> u32 \<Rightarrow> u32 \<Rightarrow> u8 list \<Rightarrow> (fsys, u32) km" where
  "writei_loop 0 k tot off n src = fail Diverges"
| "writei_loop (Suc fuel) k tot off n src =
     (if tot < n then
        bnd (bmap k (off div of_nat BSIZE)) (\<lambda>addr.
        bnd (get_inode k) (\<lambda>ip.
        bnd (fs_bread (i_dev ip) addr) (\<lambda>d.
        let m = min (n - tot) (of_nat BSIZE - off mod of_nat BSIZE) in
        sq (fs_bset addr (put_bytes d (unat (off mod of_nat BSIZE)) (take (unat m) src))) (
        sq (on_log (log_write addr)) (
        sq (fs_brelse addr)
           (writei_loop fuel k (tot + m) (off + m) n (drop (unat m) src)))))))
      else ret off)"

definition writei :: "devsw \<Rightarrow> nat \<Rightarrow> u8 list \<Rightarrow> u32 \<Rightarrow> u32 \<Rightarrow> (fsys, int) km" where
  "writei dv k src off n =
     bnd (get_inode k) (\<lambda>ip.
     if i_type ip = T_DEV then
       (if sint (i_major ip) < 0 \<or> NDEV \<le> sint (i_major ip) then ret (-1)
        else (case dev_write dv (sint (i_major ip)) of None \<Rightarrow> ret (-1) | Some w \<Rightarrow> w k src))
     else if i_size ip < off \<or> off + n < off then ret (-1)
     else if of_nat (MAXFILE * BSIZE) < off + n then ret (-1)
     else
       bnd (writei_loop (Suc (unat n)) k 0 off n src) (\<lambda>off.
       bnd (get_inode k) (\<lambda>ip.
       sq (if 0 < n \<and> i_size ip < off then
             sq (upd_inode k (\<lambda>ip. ip\<lparr>i_size := off\<rparr>))
                (iupdate k)
           else ret ()) (
       ret (sint n)))))"

declare readi_loop.simps [simp del] writei_loop.simps [simp del] balloc_from.simps [simp del]
  ialloc_from.simps [simp del]

section \<open>Storing into blocks inside a transaction\<close>

abbreviation fblk :: "fsys \<Rightarrow> blk" where "fblk s \<equiv> lg_blk (fs_log s)"

abbreviation fdata :: "fsys \<Rightarrow> u32 \<Rightarrow> block" where "fdata s \<equiv> bk_data (fblk s)"

text \<open>Between operations of a transaction whose log can take \<open>r\<close> more blocks.\<close>

definition fs_ready :: "nat \<Rightarrow> fsys \<Rightarrow> bool" where
  "fs_ready r s \<longleftrightarrow> (\<exists>hs. log_rep (fs_log s) hs \<and> length hs + r \<le> LOGSIZE \<and> int (length hs + r) < lg_size (fs_log s) \<and>
       bk_dirty (fblk s) = set hs) \<and>
     1 \<le> outstanding (fs_log s) \<and> \<not> lg_lock (fs_log s) \<and> bk_held (fblk s) = {} \<and> blk_ok (fblk s) \<and> log_geom (fs_log s)"

text \<open>The parts of the state that storing into a block does not touch.\<close>

definition fs_frame :: "fsys \<Rightarrow> fsys \<Rightarrow> bool" where
  "fs_frame s t \<longleftrightarrow> fs_sb t = fs_sb s \<and> fs_pid t = fs_pid s \<and> ic_lock t = ic_lock s \<and> inodes t = inodes s \<and>
     log_area (fs_log t) = log_area (fs_log s) \<and> bk_size (fblk t) = bk_size (fblk s) \<and> bk_disk (fblk t) = bk_disk (fblk s)"

lemma fs_frame_refl [simp]: "fs_frame s s"
  by (simp add: fs_frame_def)

lemma fs_frame_trans: "fs_frame s t \<Longrightarrow> fs_frame t u \<Longrightarrow> fs_frame s u"
  by (simp add: fs_frame_def)

definition usable :: "fsys \<Rightarrow> u32 \<Rightarrow> bool" where
  "usable s n \<longleftrightarrow> n \<notin> log_area (fs_log s) \<and> n < bk_size (fblk s)"

lemma usable_frame: "fs_frame s t \<Longrightarrow> usable t n = usable s n"
  by (simp add: fs_frame_def usable_def)

lemma on_log_run [run_simps]:
  "on_log m s = (case m (fs_log s) of Inl e \<Rightarrow> Inl e | Inr (x, l) \<Rightarrow> Inr (x, s\<lparr>fs_log := l\<rparr>))"
  by (simp add: on_log_def run_simps)

definition holding_block :: "u32 \<Rightarrow> fsys \<Rightarrow> fsys" where
  "holding_block n s = s\<lparr>fs_log := (fs_log s)\<lparr>lg_blk := (fblk s)\<lparr>bk_held := {n}\<rparr>\<rparr>\<rparr>"

lemma fs_bread_run:
  "bk_held (fblk s) = {} \<Longrightarrow> n < bk_size (fblk s) \<Longrightarrow> fs_bread 1 n s = Inr (fdata s n, holding_block n s)"
  by (simp add: fs_bread_def run_simps holding_block_def)

text \<open>Nobody holds a block.\<close>

definition fs_idle :: "fsys \<Rightarrow> bool" where
  "fs_idle s \<longleftrightarrow> bk_held (fblk s) = {} \<and> blk_ok (fblk s)"

lemma fs_ready_idle: "fs_ready r s \<Longrightarrow> fs_idle s"
  by (simp add: fs_ready_def fs_idle_def)

lemma fs_brelse_run:
  assumes "fs_idle s"
  shows "fs_brelse n (holding_block n s) = Inr ((), s)"
proof -
  have "(fdata s)(n := bk_disk (fblk s) n) = fdata s" if "n \<notin> bk_dirty (fblk s)"
    using assms that by (auto simp: fs_idle_def blk_ok_def)
  moreover have "(fblk s)\<lparr>bk_held := {}\<rparr> = fblk s" "bk_held (fblk s) = {}" using assms by (auto simp: fs_idle_def)
  ultimately show ?thesis by (simp add: fs_brelse_def run_simps holding_block_def)
qed

lemma fs_store_run:
  assumes r: "fs_ready (Suc r) s" and u: "usable s n"
  shows "\<exists>t. sq (fs_bset n d) (sq (on_log (log_write n)) (fs_brelse n)) (holding_block n s) = Inr ((), t) \<and>
    fs_ready r t \<and> fs_frame s t \<and> fdata t = (fdata s)(n := d)"
proof -
  from r obtain hs where hs: "log_rep (fs_log s) hs" "length hs + Suc r \<le> LOGSIZE"
    "int (length hs + Suc r) < lg_size (fs_log s)" "bk_dirty (fblk s) = set hs" by (auto simp: fs_ready_def)
  define l where "l = (fs_log s)\<lparr>lg_blk := (fblk s)\<lparr>bk_held := {n}, bk_data := (fdata s)(n := d)\<rparr>\<rparr>"
  have l: "log_rep l hs" "1 \<le> outstanding l" "\<not> lg_lock l" "log_area l = log_area (fs_log s)"
    using hs r by (auto simp: l_def fs_ready_def log_rep_def)
  from log_write_run [OF l(1-3), of n] hs u l(4) obtain l' where l': "log_write n l = Inr ((), l')" "log_rep l' (absorb hs n)" "\<not> lg_lock l'"
    "lg_blk l' = (lg_blk l)\<lparr>bk_dirty := insert n (bk_dirty (lg_blk l))\<rparr>" "outstanding l' = outstanding l"
    "lg_start l' = lg_start l" "lg_size l' = lg_size l" "lg_dev l' = lg_dev l"
    by (auto simp: usable_def l_def)
  define t where "t = s\<lparr>fs_log := l'\<lparr>lg_blk := (lg_blk l')\<lparr>bk_held := {}\<rparr>\<rparr>\<rparr>"
  have run: "sq (fs_bset n d) (sq (on_log (log_write n)) (fs_brelse n)) (holding_block n s) = Inr ((), t)"
    using l' by (simp add: fs_bset_def fs_brelse_def run_simps holding_block_def t_def l_def [symmetric])
      (simp add: l_def blk_release_run)
  have b: "fdata t = (fdata s)(n := d)" "bk_dirty (fblk t) = insert n (set hs)" "bk_held (fblk t) = {}"
    "bk_disk (fblk t) = bk_disk (fblk s)" "bk_size (fblk t) = bk_size (fblk s)" "lg_start (fs_log t) = lg_start (fs_log s)"
    "lg_size (fs_log t) = lg_size (fs_log s)" "outstanding (fs_log t) = outstanding (fs_log s)" "lg_dev (fs_log t) = lg_dev (fs_log s)"
    "\<not> lg_lock (fs_log t)"
    using l' hs(4) by (simp_all add: t_def l_def)
  have rep: "log_rep (fs_log t) (absorb hs n)" using l'(2) by (simp add: t_def log_rep_def)
  have fr: "fs_frame s t" using b by (simp add: fs_frame_def log_area_def) (simp add: t_def)
  have "length (absorb hs n) \<le> Suc (length hs)" "set (absorb hs n) = insert n (set hs)" by (auto simp: absorb_def)
  moreover have "blk_ok (fblk t)" using r b hs(4) by (auto simp: fs_ready_def blk_ok_def)
  moreover have "log_geom (fs_log t)" using r b by (simp add: fs_ready_def log_geom_def)
  ultimately have "fs_ready r t" using rep b hs r unfolding fs_ready_def by (intro conjI exI [of _ "absorb hs n"]) auto
  with run fr b(1) show ?thesis by blast
qed

section \<open>The block allocator\<close>

text \<open>Block \<open>b\<close> is free if its bit of the bitmap is clear.\<close>

definition block_free :: "fsys \<Rightarrow> nat \<Rightarrow> bool" where
  "block_free s b \<longleftrightarrow> bit_clear (fdata s (BBLOCK (of_nat b) (fs_sb s))) (b mod BPB)"

definition fs_size :: "fsys \<Rightarrow> nat" where
  "fs_size s = unat (sb_size (fs_sb s))"

text \<open>The bitmap blocks are disk blocks outside the log, and are not themselves marked free.\<close>

definition bitmap_ok :: "fsys \<Rightarrow> bool" where
  "bitmap_ok s \<longleftrightarrow> (\<forall>b < fs_size s. usable s (BBLOCK (of_nat b) (fs_sb s))) \<and>
     (\<forall>b < fs_size s. block_free s b \<longrightarrow> usable s (of_nat b) \<and> (\<forall>c < fs_size s. BBLOCK (of_nat c) (fs_sb s) \<noteq> of_nat b))"

lemma fs_size_bound: "fs_size s < 2 ^ 32"
  using unat_bound [of "sb_size (fs_sb s)"] by (simp add: fs_size_def)

lemma BBLOCK_nat:
  assumes "b < 2 ^ 32"
  shows "BBLOCK (of_nat b) sb = of_nat (b div BPB) + sb_bmapstart sb"
proof -
  have "(of_nat b :: u32) div of_nat BPB = of_nat (b div BPB)"
    unfolding word_arith_nat_div using assms by (simp add: unat_of_nat BPB_def BSIZE_def)
  then show ?thesis by (simp add: BBLOCK_def)
qed

lemma BBLOCK_same: "b < 2 ^ 32 \<Longrightarrow> BBLOCK (of_nat (b div BPB * BPB)) sb = BBLOCK (of_nat b) sb"
  using div_times_less_eq_dividend [of b BPB] by (subst (1 2) BBLOCK_nat) (auto simp: BPB_def BSIZE_def)

lemma BBLOCK_eq_iff:
  assumes "b < 2 ^ 32" "c < 2 ^ 32"
  shows "BBLOCK (of_nat b) sb = BBLOCK (of_nat c) sb \<longleftrightarrow> b div BPB = c div BPB"
proof -
  have "b div BPB < 2 ^ 32" "c div BPB < 2 ^ 32" using assms by (auto intro: le_less_trans [OF div_le_dividend])
  then have "unat (of_nat (b div BPB) :: u32) = b div BPB" "unat (of_nat (c div BPB) :: u32) = c div BPB"
    by (simp_all add: unat_of_nat)
  then have "(of_nat (b div BPB) :: u32) = of_nat (c div BPB) \<longleftrightarrow> b div BPB = c div BPB" by metis
  then show ?thesis using assms by (simp add: BBLOCK_nat)
qed

lemma bit_clear_alt: "bit_clear d i \<longleftrightarrow> \<not> bit (d (i div 8)) (i mod 8)"
proof -
  have "d (i div 8) AND push_bit (i mod 8) 1 = 0 \<longleftrightarrow> \<not> bit (d (i div 8)) (i mod 8)"
    by (simp add: push_bit_eq_mult and_exp_eq_0_iff_not_bit)
  then show ?thesis by (simp add: bit_clear_def)
qed

lemma bit_clear_set:
  "bit_clear (d(i div 8 := d (i div 8) OR push_bit (i mod 8) 1)) j \<longleftrightarrow> bit_clear d j \<and> j \<noteq> i"
  "bit_clear (d(i div 8 := d (i div 8) AND NOT (push_bit (i mod 8) 1))) j \<longleftrightarrow> bit_clear d j \<or> j = i"
proof -
  have ij: "j = i \<longleftrightarrow> i div 8 = j div 8 \<and> i mod 8 = j mod 8" by (metis mult_div_mod_eq)
  have m: "i mod 8 < 8" "j mod 8 < 8" by simp_all
  show "bit_clear (d(i div 8 := d (i div 8) OR push_bit (i mod 8) 1)) j \<longleftrightarrow> bit_clear d j \<and> j \<noteq> i"
    "bit_clear (d(i div 8 := d (i div 8) AND NOT (push_bit (i mod 8) 1))) j \<longleftrightarrow> bit_clear d j \<or> j = i"
    unfolding ij using m by (cases "i div 8 = j div 8"; cases "i mod 8 = j mod 8"; simp add: bit_clear_alt bit_simps)+
qed

lemma scan_from_least:
  assumes "i \<le> k" "k < n" "p k" "\<And>j. i \<le> j \<Longrightarrow> j < k \<Longrightarrow> \<not> p j"
  shows "scan_from p i n = Some k"
proof (cases "scan_from p i n")
  case None
  with assms show ?thesis by (auto simp: scan_from_None)
next
  case (Some m)
  from scan_from_Some [OF this] assms have "\<not> k < m" "\<not> m < k" by auto
  with Some show ?thesis by simp
qed

lemma BPB_pos: "0 < BPB"
  by (simp add: BPB_def BSIZE_def)

lemma block_free_at:
  assumes "bi < BPB" "i * BPB + bi < 2 ^ 32"
  shows "block_free s (i * BPB + bi) = bit_clear (fdata s (BBLOCK (of_nat (i * BPB)) (fs_sb s))) bi"
proof -
  have "(i * BPB + bi) div BPB = i" "(i * BPB + bi) mod BPB = bi" using assms(1) by auto
  with BBLOCK_same [OF assms(2), of "fs_sb s"] show ?thesis by (simp add: block_free_def)
qed

text \<open>The blocks after the allocation of \<open>b\<close>: its bit set, its contents zero.\<close>

definition taken :: "fsys \<Rightarrow> nat \<Rightarrow> u32 \<Rightarrow> block" where
  "taken s b = (fdata s)(BBLOCK (of_nat b) (fs_sb s) := (let d = fdata s (BBLOCK (of_nat b) (fs_sb s)); j = b mod BPB in
      d(j div 8 := d (j div 8) OR push_bit (j mod 8) 1)), of_nat b := (\<lambda>_. 0))"

lemma balloc_hit:
  assumes r: "fs_ready (Suc (Suc r)) s" and ok: "bitmap_ok s" and b: "b < fs_size s" "block_free s b"
    and least: "\<forall>c. b div BPB * BPB \<le> c \<and> c < b \<longrightarrow> \<not> block_free s c"
  shows "\<exists>t. balloc_from 1 (fs_sb s) (b div BPB * BPB # bs) s = Inr (of_nat b, t) \<and> fs_ready r t \<and> fs_frame s t \<and>
    fdata t = taken s b"
proof -
  let ?i = "b div BPB" let ?n = "BBLOCK (of_nat b) (fs_sb s)" let ?d = "fdata s ?n" let ?j = "b mod BPB"
  let ?e = "?d(?j div 8 := ?d (?j div 8) OR push_bit (?j mod 8) 1)"
  have b32: "b < 2 ^ 32" using b fs_size_bound [of s] by simp
  have bb: "?i * BPB + ?j = b" by simp
  have n: "BBLOCK (of_nat (?i * BPB)) (fs_sb s) = ?n" by (rule BBLOCK_same [OF b32])
  have u: "usable s ?n" "usable s (of_nat b)" "?n \<noteq> of_nat b" using ok b by (auto simp: bitmap_ok_def)
  have scan: "scan_from (bit_clear ?d) 0 (min BPB (fs_size s - ?i * BPB)) = Some ?j"
  proof (rule scan_from_least)
    show "?j < min BPB (fs_size s - ?i * BPB)" using BPB_pos b bb by (simp add: less_diff_conv add.commute)
    show "bit_clear ?d ?j" using b(2) by (simp add: block_free_def)
    fix j assume j: "j < ?j"
    moreover have "?j < BPB" using BPB_pos by simp
    ultimately have jB: "j < BPB" by simp
    from j bb have "?i * BPB + j < b" by (metis nat_add_left_cancel_less)
    then have "\<not> block_free s (?i * BPB + j)" using least by simp
    then show "\<not> bit_clear ?d j" using block_free_at [OF jB, of ?i s] \<open>?i * BPB + j < b\<close> b32 n by simp
  qed simp
  have held: "bk_held (fblk s) = {}" using r by (simp add: fs_ready_def)
  have rd: "fs_bread 1 ?n s = Inr (?d, holding_block ?n s)" using fs_bread_run [OF held] u(1) by (simp add: usable_def)
  obtain s1 where s1: "sq (fs_bset ?n ?e) (sq (on_log (log_write ?n)) (fs_brelse ?n)) (holding_block ?n s) = Inr ((), s1)"
    "fs_ready (Suc r) s1" "fs_frame s s1" "fdata s1 = (fdata s)(?n := ?e)"
    using fs_store_run [OF r u(1), of ?e] by blast
  have u1: "usable s1 (of_nat b)" using usable_frame [OF s1(3)] u(2) by simp
  have held1: "bk_held (fblk s1) = {}" using s1(2) by (simp add: fs_ready_def)
  have "fs_bread 1 (of_nat b) s1 = Inr (fdata s1 (of_nat b), holding_block (of_nat b) s1)"
    using fs_bread_run [OF held1] u1 by (simp add: usable_def)
  moreover obtain s2 where s2: "sq (fs_bset (of_nat b) (\<lambda>_. 0)) (sq (on_log (log_write (of_nat b))) (fs_brelse (of_nat b)))
      (holding_block (of_nat b) s1) = Inr ((), s2)" "fs_ready r s2" "fs_frame s1 s2" "fdata s2 = (fdata s1)(of_nat b := (\<lambda>_. 0))"
    using fs_store_run [OF s1(2) u1, of "\<lambda>_. 0"] by blast
  ultimately have z: "bzero 1 (of_nat b) s1 = Inr ((), s2)" by (simp add: bzero_def sq_run)
  have "balloc_from 1 (fs_sb s) (?i * BPB # bs) s = Inr (of_nat b, s2)"
    using rd scan s1(1) z bb unfolding balloc_from.simps n
    by (simp only: bnd_run sum.case prod.case fs_size_def [symmetric] option.case sq_run split: sum.splits)
      (auto simp: ret_def sq_run split: sum.splits prod.splits)
  with s2 s1 show ?thesis by (auto simp: taken_def Let_def intro: fs_frame_trans)
qed

lemma balloc_skip:
  assumes r: "fs_ready r s" and ok: "bitmap_ok s" and i: "i * BPB < fs_size s"
    and none: "\<forall>c. i * BPB \<le> c \<and> c < i * BPB + BPB \<and> c < fs_size s \<longrightarrow> \<not> block_free s c"
  shows "balloc_from 1 (fs_sb s) (i * BPB # bs) s = balloc_from 1 (fs_sb s) bs s"
proof -
  let ?n = "BBLOCK (of_nat (i * BPB)) (fs_sb s)"
  have scan: "scan_from (bit_clear (fdata s ?n)) 0 (min BPB (fs_size s - i * BPB)) = None"
    unfolding scan_from_None
  proof (intro allI impI, elim conjE)
    fix j assume j: "j < min BPB (fs_size s - i * BPB)"
    then have j': "i * BPB + j < fs_size s" "j < BPB" by auto
    then have "\<not> block_free s (i * BPB + j)" using none by simp
    then show "\<not> bit_clear (fdata s ?n) j" using block_free_at [of j i s] j' fs_size_bound [of s] by simp
  qed
  have held: "bk_held (fblk s) = {}" using r by (simp add: fs_ready_def)
  have "usable s ?n" using ok i unfolding bitmap_ok_def by blast
  then have "fs_bread 1 ?n s = Inr (fdata s ?n, holding_block ?n s)" using fs_bread_run [OF held] by (simp add: usable_def)
  with scan fs_brelse_run [OF fs_ready_idle [OF r], of ?n] show ?thesis
    unfolding balloc_from.simps fs_size_def by (simp add: bnd_run sq_run del: of_nat_mult)
qed

text \<open>The number of bitmap blocks.\<close>

definition nbitmap :: "fsys \<Rightarrow> nat" where
  "nbitmap s = (fs_size s + BPB - 1) div BPB"

lemma bitmap_count: "k < nbitmap s \<longleftrightarrow> k * BPB < fs_size s"
proof -
  have "k < nbitmap s \<longleftrightarrow> Suc k * BPB \<le> fs_size s + BPB - 1"
    using BPB_pos unfolding nbitmap_def by (simp add: Suc_le_eq [symmetric] less_eq_div_iff_mult_less_eq)
  also have "\<dots> \<longleftrightarrow> k * BPB < fs_size s" using BPB_pos by (simp, arith)
  finally show ?thesis .
qed

lemma balloc_found:
  assumes r: "fs_ready (Suc (Suc r)) s" and ok: "bitmap_ok s" and b: "b < fs_size s" "block_free s b"
    and i: "i \<le> b div BPB" and least: "\<forall>c. i * BPB \<le> c \<and> c < b \<longrightarrow> \<not> block_free s c"
  shows "\<exists>t. balloc_from 1 (fs_sb s) (map (\<lambda>k. k * BPB) [i ..< nbitmap s]) s = Inr (of_nat b, t) \<and>
    fs_ready r t \<and> fs_frame s t \<and>
    fdata t = taken s b"
  using i least
proof (induction "b div BPB - i" arbitrary: i)
  case 0
  then have i: "i = b div BPB" by simp
  have "b div BPB * BPB < fs_size s" by (rule le_less_trans [OF div_times_less_eq_dividend b(1)])
  then have "i < nbitmap s" using i by (simp add: bitmap_count)
  then have "map (\<lambda>k. k * BPB) [i ..< nbitmap s] =
      b div BPB * BPB # map (\<lambda>k. k * BPB) [Suc i ..< nbitmap s]"
    using i by (simp add: upt_rec)
  with balloc_hit [OF r ok b] 0(3) i show ?case by simp
next
  case (Suc k)
  then have lt: "i < b div BPB" by simp
  then have iB: "i * BPB + BPB \<le> b" by (metis Suc_leI add.commute div_times_less_eq_dividend mult_Suc mult_le_mono1 order_trans)
  then have "i * BPB < fs_size s" using b BPB_pos by simp
  moreover from this have "map (\<lambda>k. k * BPB) [i ..< nbitmap s] =
      i * BPB # map (\<lambda>k. k * BPB) [Suc i ..< nbitmap s]"
    using bitmap_count [of i s] by (simp add: upt_rec)
  moreover have "\<forall>c. i * BPB \<le> c \<and> c < i * BPB + BPB \<and> c < fs_size s \<longrightarrow> \<not> block_free s c"
    using Suc.prems(2) iB by auto
  ultimately have "balloc_from 1 (fs_sb s) (map (\<lambda>k. k * BPB) [i ..< nbitmap s]) s =
      balloc_from 1 (fs_sb s) (map (\<lambda>k. k * BPB) [Suc i ..< nbitmap s]) s"
    using balloc_skip [OF r ok] by simp
  moreover have "\<forall>c. Suc i * BPB \<le> c \<and> c < b \<longrightarrow> \<not> block_free s c" using Suc.prems(2) by simp
  ultimately show ?case using Suc.hyps(1) [of "Suc i"] Suc.hyps(2) lt by simp
qed

lemma balloc_none:
  assumes r: "fs_ready r s" and ok: "bitmap_ok s" and none: "\<forall>c < fs_size s. \<not> block_free s c"
  shows "balloc 1 s = Inl (Panic ''balloc: out of blocks'')"
proof -
  have "balloc_from 1 (fs_sb s) (map (\<lambda>k. k * BPB) ks) s = Inl (Panic ''balloc: out of blocks'')"
    if "\<forall>k \<in> set ks. k * BPB < fs_size s" for ks
    using that
  proof (induction ks)
    case Nil
    show ?case by (simp add: balloc_from.simps run_simps)
  next
    case (Cons k ks)
    then show ?case using balloc_skip [OF r ok, of k] none by simp
  qed
  from this [of "[0 ..< nbitmap s]"] show ?thesis
    by (simp only: balloc_def bnd_run gets_run sum.case prod.case fs_size_def [symmetric] nbitmap_def [symmetric])
      (simp add: bitmap_count)
qed

definition least_free :: "fsys \<Rightarrow> nat option" where
  "least_free s = scan_from (block_free s) 0 (fs_size s)"

lemma balloc_cases:
  assumes r: "fs_ready (Suc (Suc r)) s" and ok: "bitmap_ok s"
  shows "case least_free s of
      None \<Rightarrow> balloc 1 s = Inl (Panic ''balloc: out of blocks'')
    | Some b \<Rightarrow> b < fs_size s \<and> block_free s b \<and> (\<exists>t. balloc 1 s = Inr (of_nat b, t) \<and> fs_ready r t \<and> fs_frame s t \<and>
        fdata t = taken s b)"
proof (cases "least_free s")
  case None
  then have "\<forall>c < fs_size s. \<not> block_free s c" by (simp add: least_free_def scan_from_None)
  with None show ?thesis using balloc_none [OF r ok] by simp
next
  case (Some b)
  from scan_from_Some [OF this [unfolded least_free_def]] have b: "b < fs_size s" "block_free s b" "\<forall>c < b. \<not> block_free s c" by auto
  then show ?thesis using Some balloc_found [OF r ok b(1,2), of 0]
    by (simp only: balloc_def bnd_run gets_run sum.case prod.case fs_size_def [symmetric] nbitmap_def [symmetric] option.case) simp
qed

lemma taken_free:
  assumes ok: "bitmap_ok s" and b: "b < fs_size s" "block_free s b" and fr: "fs_frame s t" "fdata t = taken s b"
    and c: "c < fs_size s"
  shows "block_free t c \<longleftrightarrow> block_free s c \<and> c \<noteq> b"
proof -
  have lt: "b < 2 ^ 32" "c < 2 ^ 32" using b c fs_size_bound [of s] by auto
  let ?B = "\<lambda>x. BBLOCK (of_nat x) (fs_sb s)"
  have "fs_sb t = fs_sb s" using fr(1) by (simp add: fs_frame_def)
  moreover have "?B c \<noteq> of_nat b" using ok b c by (auto simp: bitmap_ok_def)
  ultimately have e: "block_free t c \<longleftrightarrow> bit_clear (if ?B c = ?B b then (fdata s (?B b))(b mod BPB div 8 :=
      fdata s (?B b) (b mod BPB div 8) OR push_bit (b mod BPB mod 8) 1) else fdata s (?B c)) (c mod BPB)"
    using fr(2) by (simp add: block_free_def taken_def Let_def)
  show ?thesis
  proof (cases "?B c = ?B b")
    case True
    then have "c div BPB = b div BPB" using BBLOCK_eq_iff [OF lt(2,1)] by blast
    then have "c mod BPB = b mod BPB \<longleftrightarrow> c = b" by (metis div_mult_mod_eq)
    then show ?thesis unfolding e True if_P [OF refl] bit_clear_set(1) by (simp only: block_free_def True)
  next
    case False
    then have "c \<noteq> b" by auto
    with False show ?thesis unfolding e by (simp add: block_free_def)
  qed
qed

lemma bfree_run:
  assumes r: "fs_ready (Suc r) s" and ok: "bitmap_ok s" and b: "b < fs_size s" "\<not> block_free s b"
  shows "\<exists>t. bfree 1 (of_nat b) s = Inr ((), t) \<and> fs_ready r t \<and> fs_frame s t \<and>
    (\<forall>c < fs_size s. block_free t c \<longleftrightarrow> block_free s c \<or> c = b) \<and>
    (\<forall>n. n \<noteq> BBLOCK (of_nat b) (fs_sb s) \<longrightarrow> fdata t n = fdata s n)"
proof -
  let ?n = "BBLOCK (of_nat b) (fs_sb s)" let ?d = "fdata s ?n" let ?j = "b mod BPB"
  let ?e = "?d(?j div 8 := ?d (?j div 8) AND NOT (push_bit (?j mod 8) 1))"
  have lt: "b < 2 ^ 32" using b fs_size_bound [of s] by simp
  have j: "unat ((of_nat b :: u32) mod of_nat BPB) = ?j"
    using lt by (simp add: unat_mod unat_of_nat BPB_def BSIZE_def)
  have u: "usable s ?n" using ok b unfolding bitmap_ok_def by blast
  have rd: "fs_bread 1 ?n s = Inr (?d, holding_block ?n s)"
    using r u by (intro fs_bread_run) (auto simp: fs_ready_def usable_def)
  obtain t where t: "sq (fs_bset ?n ?e) (sq (on_log (log_write ?n)) (fs_brelse ?n)) (holding_block ?n s) = Inr ((), t)"
    "fs_ready r t" "fs_frame s t" "fdata t = (fdata s)(?n := ?e)" using fs_store_run [OF r u, of ?e] by blast
  have "bfree 1 (of_nat b) s = Inr ((), t)"
    unfolding bfree_def bnd_run gets_run sum.case prod.case rd j Let_def
    using b(2) t(1) by (simp only: block_free_def) simp
  moreover have "block_free t c \<longleftrightarrow> block_free s c \<or> c = b" if c: "c < fs_size s" for c
  proof -
    have lc: "c < 2 ^ 32" using c fs_size_bound [of s] by simp
    have sb: "fs_sb t = fs_sb s" using t(3) by (simp add: fs_frame_def)
    show ?thesis
    proof (cases "BBLOCK (of_nat c) (fs_sb s) = ?n")
      case True
      then have "c div BPB = b div BPB" using BBLOCK_eq_iff [OF lc lt] by blast
      then have "c mod BPB = b mod BPB \<longleftrightarrow> c = b" by (metis div_mult_mod_eq)
      moreover have "block_free t c \<longleftrightarrow> bit_clear ?e (c mod BPB)" by (simp only: block_free_def sb True t(4) fun_upd_same)
      ultimately show ?thesis unfolding bit_clear_set(2) by (simp only: block_free_def True)
    next
      case False
      then have "c \<noteq> b" by auto
      with False show ?thesis by (simp add: block_free_def sb t(4))
    qed
  qed
  ultimately show ?thesis using t by auto
qed

text \<open>A file system of 1000 blocks: 30 log blocks from block 2, inodes from block 32, the bitmap in block 58
  with the first 59 blocks in use.\<close>

definition bitmap_example :: block where
  "bitmap_example = (\<lambda>i. if i < 7 then 255 else if i = 7 then 7 else 0)"

definition inode_zero :: inode where
  "inode_zero = \<lparr>i_dev = 0, i_inum = 0, i_ref = 0, i_lock = sl_free, i_valid = False, i_type = 0, i_major = 0, i_minor = 0,
     i_nlink = 0, i_size = 0, i_addrs = (\<lambda>_. 0)\<rparr>"

definition fs_example :: fsys where
  "fs_example =
    (let d = (\<lambda>n. if n = 58 then bitmap_example else (\<lambda>_. 0)) in
     \<lparr>fs_log = \<lparr>lg_lock = False, lg_start = 2, lg_size = 30, outstanding = 1, committing = False, lg_dev = 1,
        lh_n = 0, lh_block = (\<lambda>_. 0),
        lg_blk = \<lparr>bk_data = d, bk_disk = d, bk_size = 1000, bk_held = {}, bk_dirty = {}, bk_writes = []\<rparr>\<rparr>,
      fs_sb = \<lparr>sb_size = 1000, sb_nblocks = 941, sb_ninodes = 200, sb_nlog = 30, sb_logstart = 2, sb_inodestart = 32, sb_bmapstart = 58\<rparr>,
      fs_pid = 3, ic_lock = False, inodes = (\<lambda>_. inode_zero)\<rparr>)"

lemma bitmap_example_used: "b < 59 \<Longrightarrow> \<not> bit_clear bitmap_example b"
proof -
  assume b: "b < 59"
  have full: "(255 :: u8) = mask 8" "(7 :: u8) = mask 3" by (simp_all add: mask_eq_exp_minus_1)
  show ?thesis
  proof (cases "b < 56")
    case True
    then have "b div 8 < 7" by (simp add: div_less_iff_less_mult)
    then show ?thesis by (simp add: bit_clear_alt bitmap_example_def full(1) bit_mask_iff del: mask_numeral)
  next
    case False
    with b have "b = 56 \<or> b = 57 \<or> b = 58" by auto
    then show ?thesis by (auto simp: bit_clear_alt bitmap_example_def)
  qed
qed

lemma fs_example_ready: "fs_ready 2 fs_example"
  by (simp add: fs_ready_def fs_example_def Let_def log_rep_def log_geom_def blk_ok_def LOGSIZE_def MAXOPBLOCKS_def log_area_def)

lemma fs_example_block: "b < 1000 \<Longrightarrow> BBLOCK (of_nat b) (fs_sb fs_example) = 58 \<and> (block_free fs_example b \<longleftrightarrow> bit_clear bitmap_example b)"
proof -
  assume b: "b < 1000"
  then have "BBLOCK (of_nat b) (fs_sb fs_example) = 58"
    by (subst BBLOCK_nat) (simp_all add: fs_example_def Let_def BPB_def BSIZE_def)
  moreover have "b mod BPB = b" using b by (simp add: BPB_def BSIZE_def)
  ultimately show ?thesis by (simp add: block_free_def fs_example_def Let_def)
qed

lemma fs_example_bitmap: "bitmap_ok fs_example"
proof -
  have z: "fs_size fs_example = 1000" by (simp add: fs_size_def fs_example_def Let_def)
  have u58: "usable fs_example 58" by (simp add: usable_def log_area_def fs_example_def Let_def)
  have "usable fs_example (of_nat b) \<and> (58 :: u32) \<noteq> of_nat b" if b: "b < 1000" "block_free fs_example b" for b
  proof -
    have "59 \<le> b" using b fs_example_block [OF b(1)] bitmap_example_used [of b] by (meson not_le)
    moreover have "unat (of_nat b :: u32) = b" using b by (simp add: unat_of_nat)
    ultimately show ?thesis using b by (auto simp: usable_def log_area_def fs_example_def Let_def word_less_nat_alt)
  qed
  with z u58 fs_example_block show ?thesis unfolding bitmap_ok_def by simp
qed

lemma bfree_free_panics:
  assumes r: "fs_ready r s" and ok: "bitmap_ok s" and b: "b < fs_size s" "block_free s b"
  shows "bfree 1 (of_nat b) s = Inl (Panic ''freeing free block'')"
proof -
  have "b < 2 ^ 32" using b fs_size_bound [of s] by simp
  then have j: "unat ((of_nat b :: u32) mod of_nat BPB) = b mod BPB"
    by (simp add: unat_mod unat_of_nat BPB_def BSIZE_def)
  have u: "usable s (BBLOCK (of_nat b) (fs_sb s))" using ok b unfolding bitmap_ok_def by blast
  have rd: "fs_bread 1 (BBLOCK (of_nat b) (fs_sb s)) s = Inr (fdata s (BBLOCK (of_nat b) (fs_sb s)), holding_block (BBLOCK (of_nat b) (fs_sb s)) s)"
    using r u by (intro fs_bread_run) (auto simp: fs_ready_def usable_def)
  show ?thesis
    unfolding bfree_def bnd_run gets_run sum.case prod.case rd j Let_def
    using b(2) by (simp only: block_free_def) (simp add: run_simps)
qed

text \<open>C25: Inside a transaction with room for two blocks, \<open>balloc\<close> returns the lowest free block, marks it
  used and zeroes it, and changes the state of no other block and the contents of nothing but this block and
  its bitmap block; it panics if and only if no block is free. \<open>bfree\<close> marks a used block free and changes
  nothing else, and panics on a free block.\<close>

theorem block_allocator:
  assumes r: "fs_ready (Suc (Suc r)) s" and ok: "bitmap_ok s"
  shows "(case least_free s of
      None \<Rightarrow> balloc 1 s = Inl (Panic ''balloc: out of blocks'')
    | Some b \<Rightarrow> wp (balloc 1) (\<lambda>x t. x = of_nat b \<and> fs_ready r t \<and> (\<forall>c < fs_size s. block_free t c \<longleftrightarrow> block_free s c \<and> c \<noteq> b) \<and>
        fdata t (of_nat b) = (\<lambda>_. 0) \<and> (\<forall>n. n \<noteq> of_nat b \<and> n \<noteq> BBLOCK (of_nat b) (fs_sb s) \<longrightarrow> fdata t n = fdata s n)) s) \<and>
    (\<forall>b < fs_size s. if block_free s b then bfree 1 (of_nat b) s = Inl (Panic ''freeing free block'')
      else wp (bfree 1 (of_nat b)) (\<lambda>_ t. (\<forall>c < fs_size s. block_free t c \<longleftrightarrow> block_free s c \<or> c = b) \<and>
        (\<forall>n. n \<noteq> BBLOCK (of_nat b) (fs_sb s) \<longrightarrow> fdata t n = fdata s n)) s)"
proof (intro conjI allI impI)
  show "case least_free s of
      None \<Rightarrow> balloc 1 s = Inl (Panic ''balloc: out of blocks'')
    | Some b \<Rightarrow> wp (balloc 1) (\<lambda>x t. x = of_nat b \<and> fs_ready r t \<and> (\<forall>c < fs_size s. block_free t c \<longleftrightarrow> block_free s c \<and> c \<noteq> b) \<and>
        fdata t (of_nat b) = (\<lambda>_. 0) \<and> (\<forall>n. n \<noteq> of_nat b \<and> n \<noteq> BBLOCK (of_nat b) (fs_sb s) \<longrightarrow> fdata t n = fdata s n)) s"
  proof (cases "least_free s")
    case None
    with balloc_cases [OF r ok] show ?thesis by simp
  next
    case (Some b)
    with balloc_cases [OF r ok] obtain t where t: "b < fs_size s" "block_free s b" "balloc 1 s = Inr (of_nat b, t)" "fs_ready r t"
      "fs_frame s t" "fdata t = taken s b" by auto
    have "fdata t (of_nat b) = (\<lambda>_. 0)" "\<And>n. n \<noteq> of_nat b \<Longrightarrow> n \<noteq> BBLOCK (of_nat b) (fs_sb s) \<Longrightarrow> fdata t n = fdata s n"
      using t(6) by (auto simp: taken_def)
    with t taken_free [OF ok t(1,2,5,6)] Some show ?thesis by (auto intro!: wpI)
  qed
next
  fix b assume b: "b < fs_size s"
  show "if block_free s b then bfree 1 (of_nat b) s = Inl (Panic ''freeing free block'')
      else wp (bfree 1 (of_nat b)) (\<lambda>_ t. (\<forall>c < fs_size s. block_free t c \<longleftrightarrow> block_free s c \<or> c = b) \<and>
        (\<forall>n. n \<noteq> BBLOCK (of_nat b) (fs_sb s) \<longrightarrow> fdata t n = fdata s n)) s"
    using bfree_run [OF r ok b] bfree_free_panics [OF r ok b] by (auto simp: wp_def)
qed

theorem block_allocator_witness:
  "fs_ready (Suc (Suc 0)) fs_example \<and> bitmap_ok fs_example \<and>
   bfree 1 (of_nat 59) fs_example = Inl (Panic ''freeing free block'')"
proof -
  have r: "fs_ready (Suc (Suc 0)) fs_example" using fs_example_ready by (simp add: numeral_2_eq_2)
  have "fs_size fs_example = 1000" by (simp add: fs_size_def fs_example_def Let_def)
  moreover have "block_free fs_example 59"
    using fs_example_block [of 59] by (simp add: bit_clear_alt bitmap_example_def)
  ultimately show ?thesis
    using block_allocator [OF r fs_example_bitmap, THEN conjunct2, rule_format, of 59] r fs_example_bitmap by simp
qed

end
