(* ===== verification/Dir.thy ===== *)
theory Dir
  imports Fs
begin

text \<open>
  The upper half of fs.c: directory entries and path names. A path is the list of its bytes before the
  terminating zero; the \<open>name\<close> buffer has \<open>DIRSIZ\<close> bytes, and like in the code keeps what it held
  after the terminator of a shorter element. The current directory of the running process is an argument.
\<close>

section \<open>Directories\<close>

definition DIRSIZ :: nat where "DIRSIZ = 14"
definition DIRENT :: nat where "DIRENT = 2 + DIRSIZ"

record dirent =
  de_inum :: u16
  de_name :: "u8 list"

definition dirent_of :: "u8 list \<Rightarrow> dirent" where
  "dirent_of bs = \<lparr>de_inum = ucast (bs ! 0) OR push_bit 8 (ucast (bs ! 1)), de_name = drop 2 bs\<rparr>"

definition dirent_bytes :: "dirent \<Rightarrow> u8 list" where
  "dirent_bytes de = ucast (de_inum de) # ucast (drop_bit 8 (de_inum de)) # de_name de"

text \<open>Two byte strings side by side in memory, each followed by zeros up to \<open>DIRSIZ\<close>.\<close>

definition two_names :: "u8 list \<Rightarrow> u8 list \<Rightarrow> bytes" where
  "two_names s t = (\<lambda>i. if i < DIRSIZ then (if i < length s then s ! i else 0)
     else (if i - DIRSIZ < length t then t ! (i - DIRSIZ) else 0))"

definition namecmp :: "u8 list \<Rightarrow> u8 list \<Rightarrow> int" where
  "namecmp s t = strncmp (two_names s t) 0 DIRSIZ DIRSIZ"

text \<open>The entry at byte \<open>off\<close> of a directory; \<open>msg\<close> is the panic of the caller.\<close>

definition read_dirent :: "devsw \<Rightarrow> nat \<Rightarrow> u32 \<Rightarrow> string \<Rightarrow> (fsys, dirent) km" where
  "read_dirent dv dp off msg =
     bnd (readi dv dp off (of_nat DIRENT)) (\<lambda>(r, bs).
     if r \<noteq> int DIRENT then panic msg else ret (dirent_of bs))"

text \<open>The scan of \<open>dirlookup\<close>; a directory of \<open>size\<close> bytes has at most \<open>size\<close> entries.\<close>

fun dirlookup_from :: "nat \<Rightarrow> devsw \<Rightarrow> nat \<Rightarrow> u8 list \<Rightarrow> u32 \<Rightarrow> (fsys, (nat \<times> u32) option) km" where
  "dirlookup_from 0 dv dp name off = fail Diverges"
| "dirlookup_from (Suc fuel) dv dp name off =
     bnd (get_inode dp) (\<lambda>ip.
     if off < i_size ip then
       bnd (read_dirent dv dp off ''dirlookup read'') (\<lambda>de.
       if de_inum de \<noteq> 0 \<and> namecmp name (de_name de) = 0 then
         bnd (iget (i_dev ip) (ucast (de_inum de))) (\<lambda>k. ret (Some (k, off)))
       else dirlookup_from fuel dv dp name (off + of_nat DIRENT))
     else ret None)"

definition dirlookup :: "devsw \<Rightarrow> nat \<Rightarrow> u8 list \<Rightarrow> (fsys, (nat \<times> u32) option) km" where
  "dirlookup dv dp name =
     bnd (get_inode dp) (\<lambda>ip.
     if i_type ip \<noteq> T_DIR then panic ''dirlookup not DIR''
     else dirlookup_from (Suc (unat (i_size ip))) dv dp name 0)"

fun dirlink_slot :: "nat \<Rightarrow> devsw \<Rightarrow> nat \<Rightarrow> u32 \<Rightarrow> (fsys, u32) km" where
  "dirlink_slot 0 dv dp off = fail Diverges"
| "dirlink_slot (Suc fuel) dv dp off =
     bnd (get_inode dp) (\<lambda>ip.
     if off < i_size ip then
       bnd (read_dirent dv dp off ''dirlink read'') (\<lambda>de.
       if de_inum de = 0 then ret off else dirlink_slot fuel dv dp (off + of_nat DIRENT))
     else ret off)"

text \<open>\<open>strncpy (de.name, name, DIRSIZ)\<close>.\<close>

definition dirent_name :: "u8 list \<Rightarrow> u8 list" where
  "dirent_name name = map (strncpy (two_names [] name) 0 DIRSIZ (int DIRSIZ)) [0 ..< DIRSIZ]"

definition dirlink :: "devsw \<Rightarrow> nat \<Rightarrow> u8 list \<Rightarrow> u32 \<Rightarrow> (fsys, int) km" where
  "dirlink dv dp name inum =
     bnd (dirlookup dv dp name) (\<lambda>r.
     case r of
       Some (ip, _) \<Rightarrow> sq (iput ip) (ret (-1))
     | None \<Rightarrow>
         bnd (get_inode dp) (\<lambda>ip.
         bnd (dirlink_slot (Suc (unat (i_size ip))) dv dp 0) (\<lambda>off.
         bnd (writei dv dp (dirent_bytes \<lparr>de_inum = ucast inum, de_name = dirent_name name\<rparr>) off (of_nat DIRENT)) (\<lambda>w.
         if w \<noteq> int DIRENT then panic ''dirlink'' else ret 0))))"

section \<open>Paths\<close>

definition slash :: u8 where "slash = 47"

text \<open>The path after its first element and the name buffer with that element, or nothing if the path
  has no element.\<close>

definition skipelem :: "u8 list \<Rightarrow> u8 list \<Rightarrow> (u8 list \<times> u8 list) option" where
  "skipelem path name =
     (let path = dropWhile (\<lambda>c. c = slash) path in
      if path = [] then None
      else
        (let s = takeWhile (\<lambda>c. c \<noteq> slash) path;
             rest = dropWhile (\<lambda>c. c \<noteq> slash) path;
             len = length s;
             name = (if DIRSIZ \<le> len then take DIRSIZ s @ drop DIRSIZ name
                     else s @ [0] @ drop (len + 1) name)
         in Some (dropWhile (\<lambda>c. c = slash) rest, name)))"

fun namex_loop :: "nat \<Rightarrow> devsw \<Rightarrow> nat \<Rightarrow> u8 list \<Rightarrow> bool \<Rightarrow> u8 list \<Rightarrow> (fsys, (nat \<times> u8 list) option) km" where
  "namex_loop 0 dv ip path nameiparent name = fail Diverges"
| "namex_loop (Suc fuel) dv ip path nameiparent name =
     (case skipelem path name of
        None \<Rightarrow>
          if nameiparent then sq (iput ip) (ret None) else ret (Some (ip, name))
      | Some (path, name) \<Rightarrow>
          sq (ilock ip) (
          bnd (get_inode ip) (\<lambda>i.
          if i_type i \<noteq> T_DIR then sq (iunlockput ip) (ret None)
          else if nameiparent \<and> path = [] then sq (iunlock ip) (ret (Some (ip, name)))
          else
            bnd (dirlookup dv ip name) (\<lambda>r.
            case r of
              None \<Rightarrow> sq (iunlockput ip) (ret None)
            | Some (nx, _) \<Rightarrow> sq (iunlockput ip) (namex_loop fuel dv nx path nameiparent name)))))"

definition ROOTDEV :: u32 where "ROOTDEV = 1"
definition ROOTINO :: u32 where "ROOTINO = 1"

definition namex :: "devsw \<Rightarrow> nat \<Rightarrow> u8 list \<Rightarrow> bool \<Rightarrow> u8 list \<Rightarrow> (fsys, (nat \<times> u8 list) option) km" where
  "namex dv cwd path nameiparent name =
     bnd (if path \<noteq> [] \<and> hd path = slash then iget ROOTDEV ROOTINO else idup cwd) (\<lambda>ip.
     namex_loop (Suc (length path)) dv ip path nameiparent name)"

definition namei :: "devsw \<Rightarrow> nat \<Rightarrow> u8 list \<Rightarrow> u8 list \<Rightarrow> (fsys, nat option) km" where
  "namei dv cwd path name = bnd (namex dv cwd path False name) (\<lambda>r. ret (map_option fst r))"

definition nameiparent :: "devsw \<Rightarrow> nat \<Rightarrow> u8 list \<Rightarrow> u8 list \<Rightarrow> (fsys, (nat \<times> u8 list) option) km" where
  "nameiparent dv cwd path name = namex dv cwd path True name"

declare dirlookup_from.simps [simp del] dirlink_slot.simps [simp del] namex_loop.simps [simp del]

section \<open>The elements of a path\<close>

text \<open>The specification: the non-empty pieces between slashes.\<close>

fun pieces :: "u8 list \<Rightarrow> u8 list list" where
  "pieces [] = [[]]"
| "pieces (c # cs) = (if c = slash then [] # pieces cs else (c # hd (pieces cs)) # tl (pieces cs))"

definition elems :: "u8 list \<Rightarrow> u8 list list" where
  "elems path = filter (\<lambda>e. e \<noteq> []) (pieces path)"

text \<open>The string a name buffer holds.\<close>

definition name_str :: "u8 list \<Rightarrow> u8 list" where
  "name_str buf = takeWhile (\<lambda>c. c \<noteq> 0) (take DIRSIZ buf)"

lemma pieces_not_Nil [simp]: "pieces cs \<noteq> []"
  by (induction cs) auto

lemma elems_Nil [simp]: "elems [] = []"
  by (simp add: elems_def)

lemma elems_slash: "elems (slash # cs) = elems cs"
  by (simp add: elems_def)

lemma elems_drop_slashes: "elems (dropWhile (\<lambda>c. c = slash) cs) = elems cs"
  by (induction cs) (auto simp: elems_slash)

lemma pieces_run:
  "slash \<notin> set s \<Longrightarrow> pieces (s @ slash # r) = s # pieces r" "slash \<notin> set s \<Longrightarrow> pieces s = [s]"
  by (induction s) auto

lemma elems_first:
  assumes "p \<noteq> []" "hd p \<noteq> slash"
  shows "elems p = takeWhile (\<lambda>c. c \<noteq> slash) p # elems (dropWhile (\<lambda>c. c \<noteq> slash) p)"
proof -
  let ?s = "takeWhile (\<lambda>c. c \<noteq> slash) p" let ?r = "dropWhile (\<lambda>c. c \<noteq> slash) p"
  have s: "slash \<notin> set ?s" "?s \<noteq> []" "p = ?s @ ?r" using assms by (auto dest: set_takeWhileD) (cases p; simp)
  show ?thesis
  proof (cases ?r)
    case Nil
    have "elems p = [p]" "?s = p" using Nil s(1) assms by (auto simp: elems_def pieces_run(2) dropWhile_eq_Nil_conv takeWhile_eq_all_conv)
    with Nil show ?thesis by (simp only: elems_Nil)
  next
    case (Cons c r)
    then have "c = slash" using hd_dropWhile [of "\<lambda>c. c \<noteq> slash" p] by auto
    with Cons s have "pieces p = ?s # pieces r" using pieces_run(1) [OF s(1), of r] by metis
    with s Cons \<open>c = slash\<close> show ?thesis by (simp add: elems_def)
  qed
qed

lemma elems_nonempty: "p \<noteq> [] \<Longrightarrow> hd p \<noteq> slash \<Longrightarrow> elems p \<noteq> []"
  by (subst elems_first) simp_all

lemma run_shorter: "p \<noteq> [] \<Longrightarrow> hd p \<noteq> slash \<Longrightarrow> length (dropWhile (\<lambda>c. c \<noteq> slash) p) < length p"
  by (cases p) (auto simp: less_Suc_eq_le length_dropWhile_le)

lemma skipelem_spec:
  assumes "0 \<notin> set path" "length name = DIRSIZ"
  shows "case skipelem path name of
     None \<Rightarrow> elems path = []
   | Some (rest, name') \<Rightarrow> elems path = hd (elems path) # elems rest \<and> elems path \<noteq> [] \<and> name_str name' = take DIRSIZ (hd (elems path)) \<and>
       length name' = DIRSIZ \<and> (rest = [] \<longleftrightarrow> elems rest = []) \<and> length rest < length path \<and> set rest \<subseteq> set path"
proof -
  let ?p = "dropWhile (\<lambda>c. c = slash) path"
  have e: "elems ?p = elems path" by (rule elems_drop_slashes)
  show ?thesis
  proof (cases "?p = []")
    case True
    with e show ?thesis by (simp add: skipelem_def)
  next
    case False
    have hp: "hd ?p \<noteq> slash" using hd_dropWhile [OF False] by simp
    let ?s = "takeWhile (\<lambda>c. c \<noteq> slash) ?p" let ?r = "dropWhile (\<lambda>c. c \<noteq> slash) ?p" let ?q = "dropWhile (\<lambda>c. c = slash) ?r"
    have el: "elems path = ?s # elems ?q" using elems_first [OF False hp] e by (simp add: elems_drop_slashes)
    have sub: "set ?p \<subseteq> set path" "set ?s \<subseteq> set path" "set ?q \<subseteq> set path" 
      by (auto dest!: set_dropWhileD set_takeWhileD)
    have s0: "0 \<notin> set ?s" using sub assms(1) by auto
    have "length ?q < length ?p"
      using length_dropWhile_le [of "\<lambda>c. c = slash" ?r] run_shorter [OF False hp] by (rule le_less_trans)
    also have "length ?p \<le> length path" by (rule length_dropWhile_le)
    finally have len: "length ?q < length path" .
    have q: "?q = [] \<longleftrightarrow> elems ?q = []"
      using elems_nonempty [of ?q] hd_dropWhile [of "\<lambda>c. c = slash" ?r] elems_Nil by metis
    let ?n = "if DIRSIZ \<le> length ?s then take DIRSIZ ?s @ drop DIRSIZ name else ?s @ [0] @ drop (length ?s + 1) name"
    have sk: "skipelem path name = Some (?q, ?n)" using False by (simp add: skipelem_def Let_def)
    have n: "length ?n = DIRSIZ" using assms(2) by (auto simp: min_def)
    have nz: "takeWhile (\<lambda>c. c \<noteq> 0) xs = xs" if "0 \<notin> set xs" for xs :: "u8 list"
      using that by (auto simp: takeWhile_eq_all_conv)
    have c: "name_str ?n = take DIRSIZ ?s"
    proof (cases "DIRSIZ \<le> length ?s")
      case True
      have "0 \<notin> set (take DIRSIZ ?s)" using s0 by (meson in_set_takeD)
      with True nz show ?thesis by (simp add: name_str_def)
    next
      case False
      have "takeWhile (\<lambda>c. c \<noteq> 0) (?s @ 0 # ys) = ?s" for ys using s0 nz [OF s0] by (subst takeWhile_append2) auto
      with False show ?thesis by (simp add: name_str_def take_Cons')
    qed
    show ?thesis unfolding sk using el n c q len sub(3) by simp
  qed
qed

text \<open>The names that the loop of \<open>namex\<close> looks up one after another, with the same bound on its rounds.\<close>

fun walk :: "nat \<Rightarrow> u8 list \<Rightarrow> u8 list \<Rightarrow> u8 list list option" where
  "walk 0 path name = None"
| "walk (Suc fuel) path name =
     (case skipelem path name of
        None \<Rightarrow> Some []
      | Some (rest, name) \<Rightarrow> map_option (\<lambda>es. name_str name # es) (walk fuel rest name))"

lemma walk_elems:
  assumes "length path < fuel" "0 \<notin> set path" "length name = DIRSIZ"
  shows "walk fuel path name = Some (map (take DIRSIZ) (elems path))"
  using assms
proof (induction fuel arbitrary: path name)
  case (Suc fuel)
  note sp = skipelem_spec [OF Suc.prems(2,3)]
  show ?case
  proof (cases "skipelem path name")
    case None
    with sp show ?thesis by simp
  next
    case (Some r)
    obtain rest nm where r: "r = (rest, nm)" by (cases r)
    with sp Some have s: "elems path = hd (elems path) # elems rest" "name_str nm = take DIRSIZ (hd (elems path))" "length nm = DIRSIZ"
      "length rest < length path" "set rest \<subseteq> set path" by auto
    then have "walk fuel rest nm = Some (map (take DIRSIZ) (elems rest))"
      using Suc.prems by (intro Suc.IH) auto
    then show ?thesis using Some r s(2) by (subst s(1)) simp
  qed
qed simp

text \<open>C30: Whatever slashes a path contains, taking it apart with \<open>skipelem\<close> until nothing is left, which the
  bound of \<open>namex\<close>'s loop always allows, gives the non-empty pieces of the path between slashes in their
  order, each cut to \<open>DIRSIZ\<close> bytes, whatever the name buffer held before.\<close>

theorem namex_path_elements:
  assumes "0 \<notin> set path" "length name = DIRSIZ"
  shows "walk (Suc (length path)) path name = Some (map (take DIRSIZ) (elems path))"
  by (rule walk_elems) (use assms in auto)

theorem namex_path_elements_witness:
  "walk (Suc (length [47, 97, 47, 47, 98 :: u8])) [47, 97, 47, 47, 98] (replicate DIRSIZ 0) = Some [[97], [98]]"
  using namex_path_elements [of "[47, 97, 47, 47, 98]" "replicate DIRSIZ 0"]
  by (simp add: elems_def slash_def DIRSIZ_def)

end
