(* ===== verification/Pipe.thy ===== *)
theory Pipe
  imports Prelude
begin

text \<open>
  The ring buffer of pipe.c. A call of \<open>pipewrite\<close> or \<open>piperead\<close> holds the pipe's lock except while
  it sleeps, so it is a sequence of atomic segments that end when the call returns or goes to sleep; a
  sleeping call carries what it still has to do and goes on with it after a wakeup. \<open>nread\<close> and
  \<open>nwrite\<close> are 32-bit counters that wrap around.
\<close>

section \<open>State and operations\<close>

definition PIPESIZE :: u32 where "PIPESIZE = 512"

record pipe =
  p_lock :: bool
  p_data :: "nat \<Rightarrow> u8"
  nread :: u32
  nwrite :: u32
  readopen :: bool
  writeopen :: bool

definition pipe_new :: pipe where
  "pipe_new = \<lparr>p_lock = False, p_data = (\<lambda>_. 0), nread = 0, nwrite = 0, readopen = True, writeopen = True\<rparr>"

text \<open>The outcome of a segment: the call returned a value, or it sleeps with what is left to do.\<close>

datatype 'a segment = Returned int | Asleep 'a

definition pidx :: "u32 \<Rightarrow> nat" where "pidx w = unat (w mod PIPESIZE)"

text \<open>The loop of \<open>pipewrite\<close> with the bytes still to be written; \<open>n\<close> is the result of the whole call.\<close>

fun pipewrite_loop :: "bool \<Rightarrow> int \<Rightarrow> u8 list \<Rightarrow> (pipe, u8 list segment) km" where
  "pipewrite_loop killed n [] = sq (release p_lock p_lock_update) (ret (Returned n))"
| "pipewrite_loop killed n (c # cs) =
     bnd (gets (\<lambda>p. p)) (\<lambda>p.
     if nwrite p = nread p + PIPESIZE then
       (if \<not> readopen p \<or> killed then sq (release p_lock p_lock_update) (ret (Returned (-1)))
        else sq (release p_lock p_lock_update) (ret (Asleep (c # cs))))
     else
       sq (modify (\<lambda>p. p\<lparr>p_data := (p_data p)(pidx (nwrite p) := c), nwrite := nwrite p + 1\<rparr>))
          (pipewrite_loop killed n cs))"

definition pipewrite :: "bool \<Rightarrow> u8 list \<Rightarrow> (pipe, u8 list segment) km" where
  "pipewrite killed addr =
     sq (acquire p_lock p_lock_update)
        (pipewrite_loop killed (int (length addr)) addr)"

text \<open>Waking up inside \<open>pipewrite\<close> with the bytes \<open>cs\<close> of \<open>n\<close> left.\<close>

definition pipewrite_resume :: "bool \<Rightarrow> int \<Rightarrow> u8 list \<Rightarrow> (pipe, u8 list segment) km" where
  "pipewrite_resume killed n cs =
     sq (acquire p_lock p_lock_update)
        (pipewrite_loop killed n cs)"

fun piperead_copy :: "nat \<Rightarrow> (pipe, u8 list) km" where
  "piperead_copy 0 = ret []"
| "piperead_copy (Suc n) =
     bnd (gets (\<lambda>p. p)) (\<lambda>p.
     if nread p = nwrite p then ret []
     else
       sq (modify (\<lambda>p. p\<lparr>nread := nread p + 1\<rparr>)) (
       bnd (piperead_copy n) (\<lambda>cs.
       ret (p_data p (pidx (nread p)) # cs))))"

text \<open>A segment of \<open>piperead\<close>; its result is the count and the bytes stored at \<open>addr\<close>. A call that slept
  starts over at the test for an empty pipe, so the same routine resumes it.\<close>

definition piperead :: "bool \<Rightarrow> int \<Rightarrow> (pipe, u8 list segment \<times> u8 list) km" where
  "piperead killed n =
     sq (acquire p_lock p_lock_update) (
     bnd (gets (\<lambda>p. p)) (\<lambda>p.
     if nread p = nwrite p \<and> writeopen p then
       (if killed then sq (release p_lock p_lock_update) (ret (Returned (-1), []))
        else sq (release p_lock p_lock_update) (ret (Asleep [], [])))
     else
       bnd (piperead_copy (nat n)) (\<lambda>cs.
       sq (release p_lock p_lock_update)
          (ret (Returned (int (length cs)), cs)))))"

text \<open>\<open>pipeclose\<close> up to the release of the lock; the result says whether the page is to be freed.\<close>

definition pipeclose_end :: "bool \<Rightarrow> (pipe, bool) km" where
  "pipeclose_end writable =
     sq (acquire p_lock p_lock_update) (
     sq (if writable then modify (\<lambda>p. p\<lparr>writeopen := False\<rparr>) else modify (\<lambda>p. p\<lparr>readopen := False\<rparr>)) (
     bnd (gets (\<lambda>p. \<not> readopen p \<and> \<not> writeopen p)) (\<lambda>dead.
     sq (release p_lock p_lock_update) (ret dead))))"

declare pipewrite_loop.simps [simp del] piperead_copy.simps [simp del]

section \<open>The bytes in the pipe\<close>

definition pipe_count :: "pipe \<Rightarrow> nat" where
  "pipe_count p = unat (nwrite p - nread p)"

definition pipe_list :: "pipe \<Rightarrow> u8 list" where
  "pipe_list p = map (\<lambda>k. p_data p (pidx (nread p + of_nat k))) [0 ..< pipe_count p]"

definition pipe_ok :: "pipe \<Rightarrow> bool" where
  "pipe_ok p \<longleftrightarrow> pipe_count p \<le> 512"

lemma pidx_add: "pidx (r + of_nat k) = (unat r + k) mod 512"
proof -
  have "unat (r + of_nat k) mod 512 = (unat r + k) mod 512"
    by (simp add: unat_word_ariths unat_of_nat take_bit_eq_mod mod_mod_cancel mod_add_right_eq)
  then show ?thesis by (simp add: pidx_def PIPESIZE_def unat_mod)
qed

lemma pipe_full_iff: "pipe_ok p \<Longrightarrow> nwrite p = nread p + PIPESIZE \<longleftrightarrow> pipe_count p = 512"
proof -
  have "nwrite p = nread p + PIPESIZE \<longleftrightarrow> nwrite p - nread p = 512" by (auto simp: PIPESIZE_def algebra_simps)
  also have "\<dots> \<longleftrightarrow> pipe_count p = 512" unfolding pipe_count_def
    by (simp add: word_unat_eq_iff)
  finally show ?thesis .
qed

lemma pipe_count_put: "pipe_count p < 512 \<Longrightarrow> nwrite q = nwrite p + 1 \<Longrightarrow> nread q = nread p \<Longrightarrow> pipe_count q = Suc (pipe_count p)"
proof -
  assume a: "pipe_count p < 512" "nwrite q = nwrite p + 1" "nread q = nread p"
  then have "nwrite q - nread q = (nwrite p - nread p) + 1" by simp
  moreover have "unat ((nwrite p - nread p) + 1) = Suc (unat (nwrite p - nread p))"
    using a(1) by (subst unat_word_ariths) (simp add: pipe_count_def)
  ultimately show ?thesis by (simp add: pipe_count_def)
qed

lemma nwrite_count: "nwrite p = nread p + of_nat (pipe_count p)"
  by (simp add: pipe_count_def)

lemma pipe_list_put:
  assumes "pipe_count p < 512"
  shows "pipe_list (p\<lparr>p_data := (p_data p)(pidx (nwrite p) := c), nwrite := nwrite p + 1\<rparr>) = pipe_list p @ [c]"
proof -
  let ?q = "p\<lparr>p_data := (p_data p)(pidx (nwrite p) := c), nwrite := nwrite p + 1\<rparr>"
  have n: "pipe_count ?q = Suc (pipe_count p)" using assms by (intro pipe_count_put) auto
  have w: "pidx (nwrite p) = (unat (nread p) + pipe_count p) mod 512" by (subst nwrite_count) (rule pidx_add)
  have "(unat (nread p) + k) mod 512 \<noteq> (unat (nread p) + pipe_count p) mod 512" if "k < pipe_count p" for k
  proof
    assume "(unat (nread p) + k) mod 512 = (unat (nread p) + pipe_count p) mod 512"
    then have "512 dvd (unat (nread p) + pipe_count p) - (unat (nread p) + k)" by (rule mod_eq_dvd_iff_nat [THEN iffD1, rotated, OF sym]) (use that in simp)
    then have "512 dvd pipe_count p - k" by simp
    then show False using that assms by (auto dest!: dvd_imp_le)
  qed
  then have "map (\<lambda>k. p_data ?q (pidx (nread p + of_nat k))) [0 ..< pipe_count p] = pipe_list p"
    by (simp add: pipe_list_def pidx_add w)
  moreover have "p_data ?q (pidx (nread p + of_nat (pipe_count p))) = c" by (simp add: pidx_add w)
  ultimately show ?thesis unfolding pipe_list_def [of ?q] n by simp
qed

lemma pipe_list_get:
  assumes "nread p \<noteq> nwrite p"
  shows "pipe_list p = p_data p (pidx (nread p)) # pipe_list (p\<lparr>nread := nread p + 1\<rparr>)"
    "pipe_count p = Suc (pipe_count (p\<lparr>nread := nread p + 1\<rparr>))"
proof -
  have nz: "nwrite p - nread p \<noteq> 0" using assms by auto
  then show n: "pipe_count p = Suc (pipe_count (p\<lparr>nread := nread p + 1\<rparr>))"
  proof -
    have "pipe_count (p\<lparr>nread := nread p + 1\<rparr>) = unat (nwrite p - nread p - 1)"
      by (simp add: pipe_count_def diff_diff_eq)
    moreover have "unat (nwrite p - nread p) \<noteq> 0" using nz by (simp add: word_unat_eq_iff)
    ultimately show ?thesis unfolding unat_minus_one [OF nz] by (simp add: pipe_count_def)
  qed
  show "pipe_list p = p_data p (pidx (nread p)) # pipe_list (p\<lparr>nread := nread p + 1\<rparr>)"
    unfolding pipe_list_def n upt_conv_Cons [OF zero_less_Suc] map_Suc_upt [symmetric] by (simp add: ac_simps)
qed

section \<open>Segments\<close>

lemma pipewrite_loop_spec:
  assumes "pipe_ok p" "p_lock p"
  shows "wp (pipewrite_loop killed n cs) (\<lambda>r q. \<exists>k \<le> length cs. pipe_list q = pipe_list p @ take k cs \<and> pipe_ok q \<and> \<not> p_lock q \<and>
      readopen q = readopen p \<and> writeopen q = writeopen p \<and> nread q = nread p \<and> nwrite q = nwrite p + of_nat k \<and> k \<le> 512 \<and>
      (case r of
         Asleep rest \<Rightarrow> rest = drop k cs \<and> rest \<noteq> [] \<and> pipe_count q = 512 \<and> readopen p \<and> \<not> killed
       | Returned v \<Rightarrow> v = n \<and> k = length cs \<or> v = -1 \<and> pipe_count q = 512 \<and> (\<not> readopen p \<or> killed))) p"
  using assms
proof (induction cs arbitrary: p)
  case Nil
  then show ?case by (auto simp: pipewrite_loop.simps wp_rules pipe_list_def pipe_count_def pipe_ok_def)
next
  case (Cons c cs)
  note full = pipe_full_iff [OF Cons.prems(1)]
  show ?case
  proof (cases "pipe_count p = 512")
    case True
    then have "nwrite p = nread p + PIPESIZE" using full by simp
    then show ?thesis
      using True Cons.prems
      by (auto simp: pipewrite_loop.simps wp_rules pipe_list_def pipe_count_def pipe_ok_def intro!: exI [of _ 0])
  next
    case False
    then have lt: "pipe_count p < 512" using Cons.prems by (simp add: pipe_ok_def)
    let ?q = "p\<lparr>p_data := (p_data p)(pidx (nwrite p) := c), nwrite := nwrite p + 1\<rparr>"
    have "pipe_ok ?q" using pipe_count_put [OF lt, of ?q] lt by (simp add: pipe_ok_def)
    from Cons.IH [OF this] Cons.prems(2) obtain r q k where run: "pipewrite_loop killed n cs ?q = Inr (r, q)"
      and k: "k \<le> length cs" "pipe_list q = pipe_list ?q @ take k cs" "pipe_ok q" "\<not> p_lock q" "readopen q = readopen ?q"
        "writeopen q = writeopen ?q" "nread q = nread ?q" "nwrite q = nwrite ?q + of_nat k"
        "case r of Asleep rest \<Rightarrow> rest = drop k cs \<and> rest \<noteq> [] \<and> pipe_count q = 512 \<and> readopen ?q \<and> \<not> killed
          | Returned v \<Rightarrow> v = n \<and> k = length cs \<or> v = -1 \<and> pipe_count q = 512 \<and> (\<not> readopen ?q \<or> killed)"
      by (auto elim!: wpE)
    have "pipewrite_loop killed n (c # cs) p = Inr (r, q)"
      using run False full by (simp add: pipewrite_loop.simps(2) run_simps)
    moreover have "length (pipe_list q) \<le> 512" using k(3) by (simp add: pipe_list_def pipe_ok_def)
    moreover have "pipe_list q = pipe_list p @ take (Suc k) (c # cs)" using k(2) pipe_list_put [OF lt, of c] by simp
    ultimately show ?thesis
      using k by (intro wpI exI [of _ "Suc k"]) (auto split: segment.splits)
  qed
qed

lemma piperead_copy_spec:
  assumes "pipe_ok p"
  shows "wp (piperead_copy n) (\<lambda>cs q. cs = take n (pipe_list p) \<and> pipe_list q = drop n (pipe_list p) \<and> pipe_ok q \<and>
      p_lock q = p_lock p \<and> readopen q = readopen p \<and> writeopen q = writeopen p) p"
  using assms
proof (induction n arbitrary: p)
  case 0
  then show ?case by (simp add: piperead_copy.simps wp_rules)
next
  case (Suc n)
  show ?case
  proof (cases "nread p = nwrite p")
    case True
    then have "pipe_list p = []" by (simp add: pipe_list_def pipe_count_def)
    with True Suc.prems show ?thesis by (simp add: piperead_copy.simps wp_rules)
  next
    case False
    let ?q = "p\<lparr>nread := nread p + 1\<rparr>"
    note g = pipe_list_get [OF False]
    have "pipe_ok ?q" using Suc.prems g(2) by (simp add: pipe_ok_def)
    from Suc.IH [OF this] have "wp (piperead_copy n) (\<lambda>cs q. cs = take n (pipe_list ?q) \<and> pipe_list q = drop n (pipe_list ?q) \<and>
        pipe_ok q \<and> p_lock q = p_lock p \<and> readopen q = readopen p \<and> writeopen q = writeopen p) ?q" by simp
    then show ?thesis
      using False g(1) by (auto simp: piperead_copy.simps(2) wp_rules elim!: wp_mono)
  qed
qed

section \<open>Interleaved calls\<close>

text \<open>
  Any number of processes write and read: a step is a segment of some call, started or resumed, or a
  close of one end. The bytes that went in and came out are recorded in their order; how many bytes a
  segment of \<open>pipewrite\<close> stored is read off its counter.
\<close>

record pipesys =
  ps_pipe :: pipe
  ps_in :: "u8 list"
  ps_out :: "u8 list"

inductive pipe_step :: "pipesys \<Rightarrow> pipesys \<Rightarrow> bool" where
  writes: "pipewrite_resume killed n cs (ps_pipe s) = Inr (r, q) \<Longrightarrow>
    pipe_step s (s\<lparr>ps_pipe := q, ps_in := ps_in s @ take (unat (nwrite q - nwrite (ps_pipe s))) cs\<rparr>)"
| reads: "piperead killed n (ps_pipe s) = Inr ((r, cs), q) \<Longrightarrow>
    pipe_step s (s\<lparr>ps_pipe := q, ps_out := ps_out s @ cs\<rparr>)"
| closes: "pipeclose_end w (ps_pipe s) = Inr (d, q) \<Longrightarrow> pipe_step s (s\<lparr>ps_pipe := q\<rparr>)"

inductive pipe_reach :: "pipesys \<Rightarrow> bool" where
  start: "pipe_reach \<lparr>ps_pipe = pipe_new, ps_in = [], ps_out = []\<rparr>"
| step: "pipe_reach s \<Longrightarrow> pipe_step s t \<Longrightarrow> pipe_reach t"

lemma pipe_lock_upd [simp]:
  "pipe_list (p\<lparr>p_lock := b\<rparr>) = pipe_list p" "pipe_ok (p\<lparr>p_lock := b\<rparr>) = pipe_ok p" "pipe_count (p\<lparr>p_lock := b\<rparr>) = pipe_count p"
  by (simp_all add: pipe_list_def pipe_ok_def pipe_count_def)

lemma pipewrite_segment:
  assumes ok: "pipe_ok p" "\<not> p_lock p" and run: "pipewrite_resume killed n cs p = Inr (r, q)"
  shows "pipe_list q = pipe_list p @ take (unat (nwrite q - nwrite p)) cs" "pipe_ok q" "\<not> p_lock q"
    "r = Asleep rest \<Longrightarrow> pipe_count q = 512 \<and> readopen q \<and> \<not> killed \<and> rest = drop (unat (nwrite q - nwrite p)) cs"
proof -
  let ?p = "p\<lparr>p_lock := True\<rparr>"
  have run': "pipewrite_loop killed n cs ?p = Inr (r, q)"
    using run ok by (auto simp: pipewrite_resume_def run_simps)
  have "pipe_ok ?p" "p_lock ?p" using ok by simp_all
  from pipewrite_loop_spec [OF this, of killed n cs] obtain k where k: "pipe_list q = pipe_list ?p @ take k cs"
    "pipe_ok q" "\<not> p_lock q" "nwrite q = nwrite ?p + of_nat k" "k \<le> 512" "readopen q = readopen ?p"
    "case r of Asleep rest \<Rightarrow> rest = drop k cs \<and> rest \<noteq> [] \<and> pipe_count q = 512 \<and> readopen ?p \<and> \<not> killed
       | Returned v \<Rightarrow> v = n \<and> k = length cs \<or> v = -1 \<and> pipe_count q = 512 \<and> (\<not> readopen ?p \<or> killed)"
    unfolding wp_run [where m = "pipewrite_loop killed n cs", OF run'] by blast
  from k(4,5) have n: "unat (nwrite q - nwrite p) = k" by (simp add: unat_of_nat)
  show "pipe_list q = pipe_list p @ take (unat (nwrite q - nwrite p)) cs" "pipe_ok q" "\<not> p_lock q" using k n by auto
  show "pipe_count q = 512 \<and> readopen q \<and> \<not> killed \<and> rest = drop (unat (nwrite q - nwrite p)) cs" if "r = Asleep rest"
    using that k n by simp
qed

lemma piperead_segment:
  assumes ok: "pipe_ok p" "\<not> p_lock p" and run: "piperead killed n p = Inr ((r, cs), q)"
  shows "pipe_list p = cs @ pipe_list q" "pipe_ok q" "\<not> p_lock q" "r = Asleep rest \<Longrightarrow> pipe_list p = [] \<and> writeopen p \<and> \<not> killed"
    "r = Returned v \<Longrightarrow> v = -1 \<and> killed \<or> v = int (length cs) \<and> cs = take (nat n) (pipe_list p)"
proof -
  let ?p = "p\<lparr>p_lock := True\<rparr>"
  have "pipe_list p = cs @ pipe_list q \<and> pipe_ok q \<and> \<not> p_lock q \<and> (r = Asleep rest \<longrightarrow> pipe_list p = [] \<and> writeopen p \<and> \<not> killed) \<and>
      (r = Returned v \<longrightarrow> v = -1 \<and> killed \<or> v = int (length cs) \<and> cs = take (nat n) (pipe_list p))"
  proof (cases "nread p = nwrite p \<and> writeopen p")
    case True
    then have "pipe_list p = []" by (simp add: pipe_list_def pipe_count_def)
    with True run ok show ?thesis by (auto simp: piperead_def run_simps split: if_splits)
  next
    case False
    obtain cs' q' where c: "piperead_copy (nat n) ?p = Inr (cs', q')" "cs' = take (nat n) (pipe_list p)"
      "pipe_list q' = drop (nat n) (pipe_list p)" "pipe_ok q'" "p_lock q'"
      using piperead_copy_spec [of ?p "nat n"] ok by (auto elim!: wpE)
    with False run ok show ?thesis by (auto simp: piperead_def run_simps)
  qed
  then show "pipe_list p = cs @ pipe_list q" "pipe_ok q" "\<not> p_lock q" "r = Asleep rest \<Longrightarrow> pipe_list p = [] \<and> writeopen p \<and> \<not> killed"
    "r = Returned v \<Longrightarrow> v = -1 \<and> killed \<or> v = int (length cs) \<and> cs = take (nat n) (pipe_list p)" by auto
qed

lemma pipe_new_ok: "pipe_ok pipe_new" "\<not> p_lock pipe_new" "pipe_list pipe_new = []"
  by (simp_all add: pipe_new_def pipe_ok_def pipe_list_def pipe_count_def)

lemma pipe_invariant: "pipe_reach s \<Longrightarrow> pipe_ok (ps_pipe s) \<and> \<not> p_lock (ps_pipe s) \<and> ps_in s = ps_out s @ pipe_list (ps_pipe s)"
proof (induction rule: pipe_reach.induct)
  case start
  then show ?case by (simp add: pipe_new_ok)
next
  case (step s t)
  from step.hyps(2) step.IH show ?case
  proof (cases rule: pipe_step.cases)
    case (writes killed n cs r q)
    with step.IH pipewrite_segment [OF _ _ writes(2)] show ?thesis by simp
  next
    case (reads killed n r cs q)
    with step.IH piperead_segment [OF _ _ reads(2)] show ?thesis by simp
  next
    case (closes w d q)
    have "q = (ps_pipe s)\<lparr>writeopen := False\<rparr> \<or> q = (ps_pipe s)\<lparr>readopen := False\<rparr>"
      using closes step.IH by (cases "ps_pipe s") (auto simp: pipeclose_end_def run_simps split: if_splits)
    then have "pipe_list q = pipe_list (ps_pipe s)" "pipe_ok q = pipe_ok (ps_pipe s)" "p_lock q = p_lock (ps_pipe s)"
      by (auto simp: pipe_list_def pipe_ok_def pipe_count_def)
    with closes step.IH show ?thesis by simp
  qed
qed

lemma pipewrite_loop_of:
  assumes "pipe_ok p" "\<not> p_lock p" "pipewrite_resume killed n cs p = Inr (r, q)"
  shows "\<exists>k. nwrite q = nwrite p + of_nat k \<and> k \<le> 512 \<and> k \<le> length cs \<and> pipe_list q = pipe_list p @ take k cs \<and>
    (case r of Asleep rest \<Rightarrow> rest \<noteq> [] \<and> pipe_count q = 512 | Returned v \<Rightarrow> k = length cs \<or> pipe_count q = 512)"
proof -
  let ?p = "p\<lparr>p_lock := True\<rparr>"
  have run': "pipewrite_loop killed n cs ?p = Inr (r, q)"
    using assms by (auto simp: pipewrite_resume_def run_simps)
  have "pipe_ok ?p" "p_lock ?p" using assms by simp_all
  from pipewrite_loop_spec [OF this, of killed n cs] obtain k where "k \<le> length cs" "pipe_list q = pipe_list ?p @ take k cs"
    "nwrite q = nwrite ?p + of_nat k" "k \<le> 512"
    "case r of Asleep rest \<Rightarrow> rest = drop k cs \<and> rest \<noteq> [] \<and> pipe_count q = 512 \<and> readopen ?p \<and> \<not> killed
       | Returned v \<Rightarrow> v = n \<and> k = length cs \<or> v = -1 \<and> pipe_count q = 512 \<and> (\<not> readopen ?p \<or> killed)"
    unfolding wp_run [where m = "pipewrite_loop killed n cs", OF run'] by blast
  then show ?thesis by (intro exI [of _ k]) (cases r; auto)
qed

lemma sleep_rest:
  "pipe_ok p \<Longrightarrow> \<not> p_lock p \<Longrightarrow> pipewrite_resume killed n cs p = Inr (Asleep rest, q) \<Longrightarrow> rest \<noteq> []"
  using pipewrite_loop_of [of p killed n cs "Asleep rest" q] by auto

lemma resume_stores:
  assumes "pipe_ok p" "\<not> p_lock p" "pipewrite_resume killed n cs p = Inr (r, q)" "cs \<noteq> []" "pipe_count p < 512"
  shows "nwrite q \<noteq> nwrite p"
proof -
  from pipewrite_loop_of [OF assms(1-3)] obtain k where k: "nwrite q = nwrite p + of_nat k" "k \<le> 512" "pipe_list q = pipe_list p @ take k cs"
    "case r of Asleep rest \<Rightarrow> rest \<noteq> [] \<and> pipe_count q = 512 | Returned v \<Rightarrow> k = length cs \<or> pipe_count q = 512" by auto
  have "k \<noteq> 0"
  proof
    assume "k = 0"
    with k(3) have "pipe_count q = pipe_count p" by (metis append_Nil2 length_map length_upt minus_nat.diff_0 pipe_list_def take_0)
    with k(4) assms(4,5) \<open>k = 0\<close> show False by (auto split: segment.splits)
  qed
  moreover have "unat (of_nat k :: u32) = k" using k(2) by (simp add: unat_of_nat)
  ultimately show ?thesis using k(1) by (metis add_cancel_right_right unat_0)
qed

lemma pipewrite_total:
  assumes "pipe_ok p" "\<not> p_lock p"
  shows "\<exists>r q. pipewrite_resume killed n cs p = Inr (r, q)"
  using pipewrite_loop_spec [of "p\<lparr>p_lock := True\<rparr>" killed n cs] assms
  by (auto simp: pipewrite_resume_def run_simps elim!: wpE)

lemma piperead_total:
  assumes "pipe_ok p" "\<not> p_lock p" "nread p \<noteq> nwrite p \<or> \<not> writeopen p"
  shows "\<exists>q. piperead killed n p = Inr ((Returned (int (length (take (nat n) (pipe_list p)))), take (nat n) (pipe_list p)), q)"
  using piperead_copy_spec [of "p\<lparr>p_lock := True\<rparr>" "nat n"] assms
  by (auto simp: piperead_def run_simps elim!: wpE)

text \<open>C9: A pipe is a queue of at most 512 bytes. Whatever calls of \<open>pipewrite\<close> and \<open>piperead\<close> by whatever
  processes are interleaved, with ends closed in between and the counters wrapping around, the bytes that
  went in are the bytes that came out followed by the bytes in the ring, in the same order.\<close>

theorem pipe_fifo:
  assumes "pipe_reach s"
  shows "ps_in s = ps_out s @ pipe_list (ps_pipe s) \<and> length (pipe_list (ps_pipe s)) \<le> 512 \<and>
    unat (nwrite (ps_pipe s) - nread (ps_pipe s)) = length (pipe_list (ps_pipe s))"
  using pipe_invariant [OF assms] by (simp add: pipe_ok_def pipe_list_def pipe_count_def)

definition pipe_one :: pipe where
  "pipe_one = pipe_new\<lparr>p_data := (\<lambda>_. 0)(0 := 104), nwrite := 1\<rparr>"

lemma pipe_one_run: "pipewrite_resume False 1 [104] pipe_new = Inr (Returned 1, pipe_one)"
  by (simp add: pipewrite_resume_def pipewrite_loop.simps run_simps pipe_new_def pipe_one_def PIPESIZE_def pidx_def)

theorem pipe_fifo_witness:
  "ps_in \<lparr>ps_pipe = pipe_one, ps_in = [104], ps_out = []\<rparr> =
   ps_out \<lparr>ps_pipe = pipe_one, ps_in = [104], ps_out = []\<rparr> @ pipe_list pipe_one"
proof -
  have "pipe_step \<lparr>ps_pipe = pipe_new, ps_in = [], ps_out = []\<rparr> \<lparr>ps_pipe = pipe_one, ps_in = [104], ps_out = []\<rparr>"
    using pipe_step.writes [of False 1 "[104]" "\<lparr>ps_pipe = pipe_new, ps_in = [], ps_out = []\<rparr>" "Returned 1" pipe_one] pipe_one_run
    by (simp add: pipe_one_def pipe_new_def)
  from pipe_reach.step [OF pipe_reach.start this]
  have "pipe_reach \<lparr>ps_pipe = pipe_one, ps_in = [104], ps_out = []\<rparr>" .
  from pipe_fifo [OF this] show ?thesis by simp
qed


lemma pipewrite_many:
  assumes "p_lock p" "pipe_ok p" "length cs + pipe_count p \<le> 512"
  shows "\<exists>q. pipewrite_loop killed n (cs @ ds) p = pipewrite_loop killed n ds q \<and> p_lock q \<and> pipe_ok q \<and>
    pipe_list q = pipe_list p @ cs \<and> readopen q = readopen p"
  using assms
proof (induction cs arbitrary: p)
  case Nil
  then show ?case by auto
next
  case (Cons c cs)
  then have lt: "pipe_count p < 512" by simp
  let ?q = "p\<lparr>p_data := (p_data p)(pidx (nwrite p) := c), nwrite := nwrite p + 1\<rparr>"
  have n: "pipe_count ?q = Suc (pipe_count p)" using lt by (intro pipe_count_put) auto
  then have "\<exists>q. pipewrite_loop killed n (cs @ ds) ?q = pipewrite_loop killed n ds q \<and> p_lock q \<and> pipe_ok q \<and>
    pipe_list q = pipe_list ?q @ cs \<and> readopen q = readopen ?q" using Cons.prems lt by (intro Cons.IH) (auto simp: pipe_ok_def)
  moreover have "pipewrite_loop killed n ((c # cs) @ ds) p = pipewrite_loop killed n (cs @ ds) ?q"
    using lt pipe_full_iff [OF Cons.prems(2)] by (simp add: pipewrite_loop.simps(2) run_simps)
  ultimately show ?case using pipe_list_put [OF lt, of c] by auto
qed


end
