(* ===== verification/Kernel.thy ===== *)
theory Kernel
  imports Lru Swap Vm Dir Pipe
begin

text \<open>
  The state of the whole kernel, put together from the components: physical memory with its page tables,
  the list of resident pages, the swap bookkeeping, the file system, the file table with the pipes, and the
  process table. Routines of a component run on their part of the state. The running process is the index
  \<open>cur\<close> of the process table (\<open>myproc()\<close>). The wakeups of pipes and of the log are made here, next to the
  routine that contains them, since they change the process table; those of sleep locks are left out, as a
  process that finds such a lock taken is the fault \<open>Blocked\<close>.
\<close>

section \<open>Processes\<close>

datatype procstate = UNUSED | EMBRYO | SLEEPING | RUNNABLE | RUNNING | ZOMBIE

text \<open>The addresses that processes sleep on: a process, \<open>ticks\<close>, the log, the counters of a pipe, and the console input.\<close>

datatype channel = ChProc nat | ChTicks | ChLog | ChNread u32 | ChNwrite u32 | ChInput

record ph_info =
  ph_filesz :: u32
  ph_memsz :: u32
  ph_vaddr :: u32
  ph_off :: u32

text \<open>The fields of the trap frame that C code reads or writes.\<close>

record trapframe =
  tf_eax :: u32
  tf_eip :: u32
  tf_esp :: u32
  tf_eflags :: u32
  tf_cs :: u16
  tf_ds :: u16
  tf_es :: u16
  tf_ss :: u16
  tf_trapno :: u32
  tf_err :: u32

text \<open>\<open>struct context\<close>: the registers a switch of kernel threads saves.\<close>

record kcontext =
  c_edi :: u32
  c_esi :: u32
  c_ebx :: u32
  c_ebp :: u32
  c_eip :: u32

text \<open>
  \<open>p_names\<close> is the memory of the adjacent arrays \<open>name[16]\<close> and \<open>path[512]\<close>, in this order. Of the
  structure's \<open>ph[2]\<close> the code only ever uses the first entry.
\<close>

record proc =
  p_sz :: u32
  p_pgdir :: u32
  p_kstack :: u32
  p_state :: procstate
  p_pid :: u32
  p_parent :: "nat option"
  p_tf :: trapframe
  p_context :: kcontext
  p_chan :: "channel option"
  p_killed :: bool
  p_ofile :: "nat \<Rightarrow> nat option"
  p_cwd :: "nat option"
  p_names :: "nat \<Rightarrow> u8"
  cdb_size :: u32
  p_ph :: ph_info
  p_ip :: "u32 \<times> u32"
  swap_list :: "nat option"
  p_forked :: bool
  write_buffer :: page
  stack_buffer :: page
  heap_buffer :: page

section \<open>Files\<close>

datatype fd_type = FD_NONE | FD_PIPE | FD_INODE

record kfile =
  f_type :: fd_type
  f_ref :: int
  f_readable :: bool
  f_writable :: bool
  f_pipe :: u32
  f_ip :: nat
  f_off :: u32

section \<open>The kernel\<close>

record kern =
  k_phys :: phys
  k_lru :: lru
  k_swap :: swap
  k_fs :: fsys
  ft_lock :: bool
  ftab :: "nat \<Rightarrow> kfile"
  pipes :: "u32 \<Rightarrow> pipe"
  pt_lock :: bool
  procs :: "nat \<Rightarrow> proc"
  nextpid :: u32
  initproc :: "nat option"
  ticks_lock :: bool
  ticks :: u32
  forkret_first :: bool

definition NPROC :: nat where "NPROC = 64"
definition NOFILE :: nat where "NOFILE = 16"
definition NFILE :: nat where "NFILE = 100"

definition on_phys :: "(phys, 'a) km \<Rightarrow> (kern, 'a) km" where
  "on_phys = zoom k_phys (\<lambda>p s. s\<lparr>k_phys := p\<rparr>)"

definition on_lru :: "(lru, 'a) km \<Rightarrow> (kern, 'a) km" where
  "on_lru = zoom k_lru (\<lambda>l s. s\<lparr>k_lru := l\<rparr>)"

definition on_swap :: "(swap, 'a) km \<Rightarrow> (kern, 'a) km" where
  "on_swap = zoom k_swap (\<lambda>w s. s\<lparr>k_swap := w\<rparr>)"

definition on_fs :: "(fsys, 'a) km \<Rightarrow> (kern, 'a) km" where
  "on_fs = zoom k_fs (\<lambda>f s. s\<lparr>k_fs := f\<rparr>)"

definition on_pipe :: "u32 \<Rightarrow> (pipe, 'a) km \<Rightarrow> (kern, 'a) km" where
  "on_pipe a = zoom (\<lambda>s. pipes s a) (\<lambda>p s. s\<lparr>pipes := (pipes s)(a := p)\<rparr>)"

definition get_proc_at :: "nat \<Rightarrow> (kern, proc) km" where
  "get_proc_at i = gets (\<lambda>s. procs s i)"

definition upd_proc :: "nat \<Rightarrow> (proc \<Rightarrow> proc) \<Rightarrow> (kern, unit) km" where
  "upd_proc i g = modify (\<lambda>s. s\<lparr>procs := (procs s)(i := g (procs s i))\<rparr>)"

definition get_file :: "nat \<Rightarrow> (kern, kfile) km" where
  "get_file i = gets (\<lambda>s. ftab s i)"

definition upd_file :: "nat \<Rightarrow> (kfile \<Rightarrow> kfile) \<Rightarrow> (kern, unit) km" where
  "upd_file i g = modify (\<lambda>s. s\<lparr>ftab := (ftab s)(i := g (ftab s i))\<rparr>)"

text \<open>Weakest preconditions of access to the parts of the state.\<close>

lemma wp_on_phys [wp_rules]: "wp (on_phys m) Q s = wp m (\<lambda>x p. Q x (s\<lparr>k_phys := p\<rparr>)) (k_phys s)"
  by (simp add: on_phys_def wp_zoom)

lemma wp_on_lru [wp_rules]: "wp (on_lru m) Q s = wp m (\<lambda>x p. Q x (s\<lparr>k_lru := p\<rparr>)) (k_lru s)"
  by (simp add: on_lru_def wp_zoom)

lemma wp_on_swap [wp_rules]: "wp (on_swap m) Q s = wp m (\<lambda>x p. Q x (s\<lparr>k_swap := p\<rparr>)) (k_swap s)"
  by (simp add: on_swap_def wp_zoom)

lemma wp_get_proc_at [wp_rules]: "wp (get_proc_at i) Q s = Q (procs s i) s"
  by (simp add: get_proc_at_def wp_rules)

lemma wp_upd_proc [wp_rules]: "wp (upd_proc i g) Q s = Q () (s\<lparr>procs := (procs s)(i := g (procs s i))\<rparr>)"
  by (simp add: upd_proc_def wp_rules)

section \<open>Waking processes\<close>

text \<open>\<open>None\<close> is the null pointer, the channel of a process that does not sleep.\<close>

definition woken :: "channel option \<Rightarrow> proc \<Rightarrow> proc" where
  "woken chan p = (if p_state p = SLEEPING \<and> p_chan p = chan then p\<lparr>p_state := RUNNABLE\<rparr> else p)"

definition wakeup1 :: "channel option \<Rightarrow> (kern, unit) km" where
  "wakeup1 chan = for_each (\<lambda>i. upd_proc i (woken chan)) [0 ..< NPROC]"

definition wakeup :: "channel option \<Rightarrow> (kern, unit) km" where
  "wakeup chan =
     sq (acquire pt_lock pt_lock_update) (
     sq (wakeup1 chan)
        (release pt_lock pt_lock_update))"

text \<open>The log operations with their wakeup; \<open>end_op\<close> wakes the waiting processes on either branch.\<close>

definition k_begin_op :: "(kern, unit) km" where
  "k_begin_op = on_fs (on_log begin_op)"

definition k_end_op :: "(kern, unit) km" where
  "k_end_op = sq (on_fs (on_log end_op)) (wakeup (Some ChLog))"

section \<open>The file table\<close>

definition fileinit :: "(kern, unit) km" where
  "fileinit = modify (\<lambda>s. s\<lparr>ft_lock := False\<rparr>)"

definition filealloc :: "(kern, nat option) km" where
  "filealloc =
     sq (acquire ft_lock ft_lock_update) (
     bnd (gets ftab) (\<lambda>t.
     case scan_from (\<lambda>i. f_ref (t i) = 0) 0 NFILE of
       Some i \<Rightarrow>
         sq (upd_file i (\<lambda>f. f\<lparr>f_ref := 1\<rparr>)) (
         sq (release ft_lock ft_lock_update) (ret (Some i)))
     | None \<Rightarrow>
         sq (release ft_lock ft_lock_update) (ret None)))"

definition filedup :: "nat \<Rightarrow> (kern, nat) km" where
  "filedup i =
     sq (acquire ft_lock ft_lock_update) (
     bnd (get_file i) (\<lambda>f.
     if f_ref f < 1 then panic ''filedup''
     else
       sq (upd_file i (\<lambda>f. f\<lparr>f_ref := f_ref f + 1\<rparr>)) (
       sq (release ft_lock ft_lock_update) (ret i))))"

text \<open>\<open>pipeclose\<close>: after the last end is closed the page of the pipe is freed.\<close>

definition pipeclose :: "u32 \<Rightarrow> bool \<Rightarrow> (kern, unit) km" where
  "pipeclose p writable =
     bnd (on_pipe p (pipeclose_end writable)) (\<lambda>dead.
     sq (wakeup (Some (if writable then ChNread p else ChNwrite p)))
        (if dead then on_phys (kfree p) else ret ()))"

definition fileclose :: "nat \<Rightarrow> (kern, unit) km" where
  "fileclose i =
     sq (acquire ft_lock ft_lock_update) (
     bnd (get_file i) (\<lambda>f.
     if f_ref f < 1 then panic ''fileclose''
     else
       sq (upd_file i (\<lambda>f. f\<lparr>f_ref := f_ref f - 1\<rparr>)) (
       bnd (get_file i) (\<lambda>ff.
       if 0 < f_ref ff then release ft_lock ft_lock_update
       else
         sq (upd_file i (\<lambda>f. f\<lparr>f_ref := 0\<rparr>)) (
         sq (upd_file i (\<lambda>f. f\<lparr>f_type := FD_NONE\<rparr>)) (
         sq (release ft_lock ft_lock_update) (
         case f_type ff of
           FD_PIPE \<Rightarrow> pipeclose (f_pipe ff) (f_writable ff)
         | FD_INODE \<Rightarrow>
             sq k_begin_op (
             sq (on_fs (iput (f_ip ff)))
                k_end_op)
         | FD_NONE \<Rightarrow> ret ())))))))"

definition filestat :: "nat \<Rightarrow> (kern, int \<times> stat option) km" where
  "filestat i =
     bnd (get_file i) (\<lambda>f.
     if f_type f = FD_INODE then
       sq (on_fs (ilock (f_ip f))) (
       bnd (on_fs (stati (f_ip f))) (\<lambda>st.
       sq (on_fs (iunlock (f_ip f))) (ret (0, Some st))))
     else ret (-1, None))"

text \<open>The bytes read are part of the result; a call that would sleep on a pipe is the fault \<open>Blocked\<close>.\<close>

definition fileread :: "devsw \<Rightarrow> bool \<Rightarrow> nat \<Rightarrow> int \<Rightarrow> (kern, int \<times> u8 list) km" where
  "fileread dv killed i n =
     bnd (get_file i) (\<lambda>f.
     if \<not> f_readable f then ret (-1, [])
     else (case f_type f of
       FD_PIPE \<Rightarrow>
         bnd (on_pipe (f_pipe f) (piperead killed n)) (\<lambda>(r, bs).
         case r of
           Returned v \<Rightarrow> sq (if 0 \<le> v then wakeup (Some (ChNwrite (f_pipe f))) else ret ()) (ret (v, bs))
         | Asleep _ \<Rightarrow> fail Blocked)
     | FD_INODE \<Rightarrow>
         sq (on_fs (ilock (f_ip f))) (
         bnd (on_fs (readi dv (f_ip f) (f_off f) (word_of_int n))) (\<lambda>(r, bs).
         sq (if 0 < r then upd_file i (\<lambda>f. f\<lparr>f_off := f_off f + word_of_int r\<rparr>) else ret ()) (
         sq (on_fs (iunlock (f_ip f))) (ret (r, bs)))))
     | FD_NONE \<Rightarrow> panic ''fileread''))"

text \<open>The most bytes \<open>filewrite\<close> puts into one transaction.\<close>

definition filewrite_max :: int where
  "filewrite_max = ((int MAXOPBLOCKS - 1 - 1 - 2) div 2) * 512"

fun filewrite_loop :: "nat \<Rightarrow> devsw \<Rightarrow> nat \<Rightarrow> int \<Rightarrow> int \<Rightarrow> u8 list \<Rightarrow> (kern, int) km" where
  "filewrite_loop 0 dv fi i n src = fail Diverges"
| "filewrite_loop (Suc fuel) dv fi i n src =
     (if i < n then
        (let n1 = min (n - i) filewrite_max in
         bnd (get_file fi) (\<lambda>f.
         sq k_begin_op (
         sq (on_fs (ilock (f_ip f))) (
         bnd (on_fs (writei dv (f_ip f) (take (nat n1) src) (f_off f) (word_of_int n1))) (\<lambda>r.
         sq (if 0 < r then upd_file fi (\<lambda>f. f\<lparr>f_off := f_off f + word_of_int r\<rparr>) else ret ()) (
         sq (on_fs (iunlock (f_ip f))) (
         sq k_end_op (
         if r < 0 then ret i
         else if r \<noteq> n1 then panic ''short filewrite''
         else filewrite_loop fuel dv fi (i + r) n (drop (nat n1) src)))))))))
      else ret i)"

definition filewrite :: "devsw \<Rightarrow> bool \<Rightarrow> nat \<Rightarrow> u8 list \<Rightarrow> int \<Rightarrow> (kern, int) km" where
  "filewrite dv killed fi src n =
     bnd (get_file fi) (\<lambda>f.
     if \<not> f_writable f then ret (-1)
     else (case f_type f of
       FD_PIPE \<Rightarrow>
         bnd (on_pipe (f_pipe f) (pipewrite killed (take (nat n) src))) (\<lambda>r.
         case r of
           Returned v \<Rightarrow> sq (if 0 \<le> v then wakeup (Some (ChNread (f_pipe f))) else ret ()) (ret v)
         | Asleep _ \<Rightarrow> fail Blocked)
     | FD_INODE \<Rightarrow>
         bnd (filewrite_loop (Suc (nat n)) dv fi 0 n src) (\<lambda>i.
         ret (if i = n then n else -1))
     | FD_NONE \<Rightarrow> panic ''filewrite''))"

text \<open>\<open>pipealloc\<close>; the pipe is the page that \<open>kalloc (-1, 0)\<close> returns, seen as a \<open>struct pipe\<close>.\<close>

definition pipealloc :: "(kern, (nat \<times> nat) option) km" where
  "pipealloc =
     bnd filealloc (\<lambda>f0.
     case f0 of
       None \<Rightarrow> ret None
     | Some f0 \<Rightarrow>
         bnd filealloc (\<lambda>f1.
         case f1 of
           None \<Rightarrow> sq (fileclose f0) (ret None)
         | Some f1 \<Rightarrow>
             bnd (on_phys kalloc0) (\<lambda>p.
             if p = 0 then
               sq (fileclose f0) (sq (fileclose f1) (ret None))
             else
               sq (modify (\<lambda>s. s\<lparr>pipes := (pipes s)(p := (pipes s p)\<lparr>readopen := True, writeopen := True, nwrite := 0,
                     nread := 0, p_lock := False\<rparr>)\<rparr>)) (
               sq (upd_file f0 (\<lambda>f. f\<lparr>f_type := FD_PIPE, f_readable := True, f_writable := False, f_pipe := p\<rparr>)) (
               sq (upd_file f1 (\<lambda>f. f\<lparr>f_type := FD_PIPE, f_readable := False, f_writable := True, f_pipe := p\<rparr>))
                  (ret (Some (f0, f1))))))))"

declare filewrite_loop.simps [simp del]

text \<open>A kernel with empty tables, on a disk of 30000 blocks, from which concrete states are built.\<close>

definition proc_zero :: proc where
  "proc_zero = \<lparr>p_sz = 0, p_pgdir = 0, p_kstack = 0, p_state = UNUSED, p_pid = 0, p_parent = None,
     p_tf = \<lparr>tf_eax = 0, tf_eip = 0, tf_esp = 0, tf_eflags = 0, tf_cs = 0, tf_ds = 0, tf_es = 0, tf_ss = 0, tf_trapno = 0, tf_err = 0\<rparr>,
     p_context = \<lparr>c_edi = 0, c_esi = 0, c_ebx = 0, c_ebp = 0, c_eip = 0\<rparr>, p_chan = None, p_killed = False, p_ofile = (\<lambda>_. None),
     p_cwd = None, p_names = (\<lambda>_. 0), cdb_size = 0, p_ph = \<lparr>ph_filesz = 0, ph_memsz = 0, ph_vaddr = 0, ph_off = 0\<rparr>, p_ip = (0, 0),
     swap_list = None, p_forked = False, write_buffer = (\<lambda>_. 0), stack_buffer = (\<lambda>_. 0), heap_buffer = (\<lambda>_. 0)\<rparr>"

definition kern_zero :: kern where
  "kern_zero = \<lparr>k_phys = phys_zero, k_lru = lru_zero, k_swap = swap_zero,
     k_fs = fs_example\<lparr>fs_log := (fs_log fs_example)\<lparr>outstanding := 0,
       lg_blk := \<lparr>bk_data = (\<lambda>_ _. 0), bk_disk = (\<lambda>_ _. 0), bk_size = 30000, bk_held = {}, bk_dirty = {}, bk_writes = []\<rparr>\<rparr>\<rparr>,
     ft_lock = False, ftab = (\<lambda>_. \<lparr>f_type = FD_NONE, f_ref = 0, f_readable = False, f_writable = False, f_pipe = 0, f_ip = 0, f_off = 0\<rparr>),
     pipes = (\<lambda>_. pipe_new), pt_lock = False, procs = (\<lambda>_. proc_zero), nextpid = 1, initproc = None, ticks_lock = False, ticks = 0,
     forkret_first = True\<rparr>"

end
