(* ===== verification/Paging.thy ===== *)
theory Paging
  imports Kernel
begin

text \<open>
  Demand paging: moving pages between memory and the swap area (lru_swap.c, fs.c), the page allocator with
  its resident list (kalloc.c), growing and copying address spaces (vm.c) and the page fault handler
  (demandpage.c). These routines compose the resident list, the swap bookkeeping, the page tables, the
  block layer and the file system over the state of the kernel. A process is named by its index in the
  process table.
\<close>

section \<open>Pages on disk\<close>

definition on_disk_blk :: "(blk, 'a) km \<Rightarrow> (kern, 'a) km" where
  "on_disk_blk m = on_fs (on_log (on_blk m))"

text \<open>Block \<open>i\<close> of a page.\<close>

definition page_block :: "page \<Rightarrow> nat \<Rightarrow> block" where
  "page_block pg i = (\<lambda>k. pg (BSIZE * i + k))"

definition writeswap_body :: "page \<Rightarrow> u32 \<Rightarrow> nat \<Rightarrow> (blk, unit) km" where
  "writeswap_body buf bno i =
     sq (blk_get (bno + of_nat i)) (
     sq (blk_set (bno + of_nat i) (page_block buf i)) (
     sq (blk_write (bno + of_nat i))
        (blk_release (bno + of_nat i))))"

definition writeswap :: "page \<Rightarrow> u32 \<Rightarrow> u32 \<Rightarrow> (kern, unit) km" where
  "writeswap buf dev bno = for_each (\<lambda>i. on_disk_blk (writeswap_body buf bno i)) [0 ..< 8]"

section \<open>Evicting pages\<close>

text \<open>\<open>get_proc\<close>: the first entry of the process table with this pid.\<close>

definition get_proc :: "u32 \<Rightarrow> (kern, nat option) km" where
  "get_proc pid = gets (\<lambda>s. scan_from (\<lambda>i. p_pid (procs s i) = pid) 0 NPROC)"

definition swap_free :: "u32 \<Rightarrow> (kern, unit) km" where
  "swap_free pid =
     bnd (get_proc pid) (\<lambda>r.
     case r of
       None \<Rightarrow> ret ()
     | Some p \<Rightarrow>
         bnd (get_proc_at p) (\<lambda>pr.
         bnd (on_swap (swap_free_list (p_forked pr) (swap_list pr))) (\<lambda>l.
         upd_proc p (\<lambda>pr. pr\<lparr>swap_list := l\<rparr>))))"

text \<open>
  A user address never satisfies \<open>v >= end\<close>, so the callers in the swap code, which pass the virtual
  address of the page, always take the first branch.
\<close>

definition klru_free_swap :: "nat \<Rightarrow> u32 \<Rightarrow> (kern, unit) km" where
  "klru_free_swap p v =
     bnd (on_phys (gets kend)) (\<lambda>e.
     if kfree_bad e v then
       bnd (get_proc_at p) (\<lambda>pr. on_lru (lru_free_frame (p_pid pr) v))
     else on_phys (kfree_push v))"

text \<open>The three routines differ in the swap space number, the buffer and the start of the space.\<close>

definition swap_out_to :: "int \<Rightarrow> (proc \<Rightarrow> page) \<Rightarrow> nat \<Rightarrow> nat \<Rightarrow> u32 \<Rightarrow> (kern, int) km" where
  "swap_out_to space buffer start p vaddr =
     bnd (get_proc_at p) (\<lambda>pr.
     bnd (on_swap (swap_append space vaddr (swap_list pr))) (\<lambda>r.
     case r of
       None \<Rightarrow> ret (-1)
     | Some (findex, l) \<Rightarrow>
         sq (upd_proc p (\<lambda>pr. pr\<lparr>swap_list := l\<rparr>)) (
         bnd (get_proc_at p) (\<lambda>pr.
         sq (writeswap (buffer pr) ROOTDEV (of_nat (start + findex * 8))) (
         sq (on_phys (demappages_swap_out (p_pgdir pr) vaddr)) (
         sq (klru_free_swap p vaddr)
            (ret 1)))))))"

definition swap_out :: "nat \<Rightarrow> u32 \<Rightarrow> (kern, int) km" where
  "swap_out = swap_out_to 0 write_buffer SWAP1_START"

definition swap_out_stack :: "nat \<Rightarrow> u32 \<Rightarrow> (kern, int) km" where
  "swap_out_stack = swap_out_to 1 stack_buffer SWAP2_START"

definition swap_out_heap :: "nat \<Rightarrow> u32 \<Rightarrow> (kern, int) km" where
  "swap_out_heap = swap_out_to 2 heap_buffer SWAP3_START"

text \<open>The first column of the table \<open>swapfunc_ptr_arr\<close>, which has one row for each of the three swap spaces.\<close>

definition swapfunc_out :: "int \<Rightarrow> nat \<Rightarrow> u32 \<Rightarrow> (kern, int) km" where
  "swapfunc_out n = (if n = 0 then swap_out else if n = 1 then swap_out_stack else if n = 2 then swap_out_heap
     else (\<lambda>_ _. fail OutOfBounds))"

text \<open>One round of \<open>get_lru\<close> takes the oldest page off the resident list (\<open>lru_evict\<close>); the process it belongs to
  may be gone.\<close>

fun get_lru_loop :: "nat \<Rightarrow> u32 \<Rightarrow> u32 \<Rightarrow> (kern, unit) km" where
  "get_lru_loop 0 pid vaddr = fail Diverges"
| "get_lru_loop (Suc fuel) pid vaddr =
     bnd (on_lru (lru_insert pid vaddr)) (\<lambda>r.
     if r < 0 then
       bnd (on_lru lru_evict) (\<lambda>(pid_lru, vaddr_lru).
       bnd (get_proc pid_lru) (\<lambda>pr.
       case pr of
         None \<Rightarrow>
           sq (on_lru (lru_free pid_lru)) (
           sq (swap_free pid_lru)
              (get_lru_loop fuel pid vaddr))
       | Some p \<Rightarrow>
           bnd (get_proc_at p) (\<lambda>q.
           bnd (on_phys (read_vaddr (p_pgdir q) vaddr_lru)) (\<lambda>pg.
           case pg of
             None \<Rightarrow> get_lru_loop fuel pid vaddr
           | Some d \<Rightarrow>
               sq (upd_proc p (\<lambda>q. q\<lparr>write_buffer := d\<rparr>)) (
               bnd (swapfunc_out 0 p vaddr_lru) (\<lambda>o'.
               if o' < 0 then panic ''Swap Space is Full''
               else get_lru_loop fuel pid vaddr))))))
     else ret ())"

text \<open>Every round takes one entry off the resident list, so its capacity bounds the rounds.\<close>

definition get_lru :: "u32 \<Rightarrow> u32 \<Rightarrow> (kern, unit) km" where
  "get_lru pid vaddr = get_lru_loop (MAX_FRAME_LRU + 2) pid vaddr"

text \<open>\<open>kalloc\<close>; \<open>-1\<close> is the all-ones word.\<close>

definition kalloc :: "u32 \<Rightarrow> u32 \<Rightarrow> (kern, u32) km" where
  "kalloc pid lru =
     bnd (on_phys kalloc_take) (\<lambda>r.
     sq (if r \<noteq> 0 \<and> pid \<noteq> -1 \<and> lru \<noteq> -1 then get_lru pid lru else ret ()) (
     sq (on_phys kmem_release) (ret r)))"

section \<open>Bringing pages back\<close>

definition readswap_body :: "u32 \<Rightarrow> u32 \<Rightarrow> u32 \<Rightarrow> nat \<Rightarrow> (kern, unit) km" where
  "readswap_body dev mem bno i =
     bnd (on_disk_blk (blk_read dev (bno + of_nat i))) (\<lambda>d.
     sq (on_phys (at_kaddr mem (modify (\<lambda>s. s\<lparr>pmem := (pmem s)(frame_of (V2P mem) :=
           (\<lambda>k. if BSIZE * i \<le> k \<and> k < BSIZE * i + BSIZE then d (k - BSIZE * i) else pmem s (frame_of (V2P mem)) k))\<rparr>))))
        (on_disk_blk (blk_release (bno + of_nat i))))"

definition readswap :: "nat \<Rightarrow> u32 \<Rightarrow> u32 \<Rightarrow> (kern, u32) km" where
  "readswap p dev bno =
     bnd (get_proc_at p) (\<lambda>pr.
     bnd (kalloc (p_pid pr) (-1)) (\<lambda>mem.
     if mem = 0 then panic ''No Free Page''
     else sq (for_each (readswap_body dev mem bno) [0 ..< 8]) (ret mem)))"

definition swap_in_from :: "nat \<Rightarrow> nat \<Rightarrow> u32 \<Rightarrow> (kern, int) km" where
  "swap_in_from start p vaddr =
     bnd (get_proc_at p) (\<lambda>pr.
     bnd (on_swap (swap_take vaddr (swap_list pr))) (\<lambda>r.
     case r of
       None \<Rightarrow> ret (-1)
     | Some (findex, l) \<Rightarrow>
         sq (upd_proc p (\<lambda>pr. pr\<lparr>swap_list := l\<rparr>)) (
         bnd (readswap p ROOTDEV (of_nat (start + findex * 8))) (\<lambda>mem.
         bnd (get_proc_at p) (\<lambda>pr.
         on_phys (mappages_swap_in (p_pgdir pr) mem vaddr))))))"

definition swap_in :: "nat \<Rightarrow> u32 \<Rightarrow> (kern, int) km" where
  "swap_in = swap_in_from SWAP1_START"

definition swap_in_stack :: "nat \<Rightarrow> u32 \<Rightarrow> (kern, int) km" where
  "swap_in_stack = swap_in_from SWAP2_START"

definition swap_in_heap :: "nat \<Rightarrow> u32 \<Rightarrow> (kern, int) km" where
  "swap_in_heap = swap_in_from SWAP3_START"

text \<open>The second column of the table.\<close>

definition swapfunc_in :: "int \<Rightarrow> nat \<Rightarrow> u32 \<Rightarrow> (kern, int) km" where
  "swapfunc_in n = (if n = 0 then swap_in else if n = 1 then swap_in_stack else if n = 2 then swap_in_heap
     else (\<lambda>_ _. fail OutOfBounds))"

section \<open>Address spaces\<close>

fun allocuvm_loop :: "nat \<Rightarrow> nat \<Rightarrow> u32 \<Rightarrow> u32 \<Rightarrow> u32 \<Rightarrow> u32 \<Rightarrow> u32 \<Rightarrow> (kern, u32) km" where
  "allocuvm_loop 0 cur pgdir a newsz setpte mem = fail Diverges"
| "allocuvm_loop (Suc fuel) cur pgdir a newsz setpte mem =
     (if a < newsz then
        bnd (get_proc_at cur) (\<lambda>p.
        bnd (if setpte = 1 then
               bnd (if cdb_size p < a then kalloc (p_pid p) a else kalloc (p_pid p) (-1)) (\<lambda>mem.
               sq (on_phys (memset_page mem 0)) (ret mem))
             else ret mem) (\<lambda>mem.
        bnd (on_phys (mappages pgdir a PGSIZE (V2P mem) (PTE_W OR PTE_U) setpte)) (\<lambda>r.
        if r < 0 then ret 0
        else allocuvm_loop fuel cur pgdir (a + PGSIZE) newsz setpte mem)))
      else ret newsz)"

definition allocuvm :: "nat \<Rightarrow> u32 \<Rightarrow> u32 \<Rightarrow> u32 \<Rightarrow> u32 \<Rightarrow> (kern, u32) km" where
  "allocuvm cur pgdir oldsz newsz setpte =
     (if KERNBASE \<le> newsz then ret 0
      else if newsz < oldsz then ret oldsz
      else allocuvm_loop (2 ^ 20) cur pgdir (PGROUNDUP oldsz) newsz setpte (V2P 0))"

fun loaduvm_loop :: "nat \<Rightarrow> devsw \<Rightarrow> u32 \<Rightarrow> u32 \<Rightarrow> nat \<Rightarrow> u32 \<Rightarrow> u32 \<Rightarrow> u32 \<Rightarrow> (kern, int) km" where
  "loaduvm_loop 0 dv pgdir addr ip off sz i = fail Diverges"
| "loaduvm_loop (Suc fuel) dv pgdir addr ip off sz i =
     (if i < sz then
        bnd (on_phys (walkpgdir pgdir (addr + i) False)) (\<lambda>pte.
        if pte = 0 then panic ''loaduvm: address should exist''
        else
          bnd (on_phys (kld pte)) (\<lambda>e.
          let pa = PTE_ADDR e; n = (if sz - i < PGSIZE then sz - i else PGSIZE) in
          bnd (on_fs (readi dv ip (off + i) n)) (\<lambda>(r, bs).
          sq (on_phys (kwrite (P2V pa) bs)) (
          if r \<noteq> sint n then ret (-1)
          else loaduvm_loop fuel dv pgdir addr ip off sz (i + PGSIZE)))))
      else ret 0)"

definition loaduvm :: "devsw \<Rightarrow> u32 \<Rightarrow> u32 \<Rightarrow> nat \<Rightarrow> u32 \<Rightarrow> u32 \<Rightarrow> (kern, int) km" where
  "loaduvm dv pgdir addr ip off sz =
     (if addr mod PGSIZE \<noteq> 0 then panic ''loaduvm: addr must be page aligned''
      else loaduvm_loop (2 ^ 20) dv pgdir addr ip off sz 0)"

text \<open>The copying loop of \<open>copyuvm\<close>; \<open>False\<close> is its \<open>goto bad\<close>. A page that is not present is entered as
  not present, with whatever address the previous page left in \<open>mem\<close>.\<close>

fun copyuvm_loop :: "nat \<Rightarrow> nat \<Rightarrow> nat \<Rightarrow> u32 \<Rightarrow> u32 \<Rightarrow> u32 \<Rightarrow> (kern, bool) km" where
  "copyuvm_loop 0 old new d i mem = fail Diverges"
| "copyuvm_loop (Suc fuel) old new d i mem =
     bnd (get_proc_at old) (\<lambda>op.
     bnd (get_proc_at new) (\<lambda>np.
     if i < p_sz op then
       bnd (on_phys (walkpgdir (p_pgdir op) i False)) (\<lambda>pte.
       if pte = 0 then panic ''copyuvm: pte should exist''
       else
         bnd (on_phys (kld pte)) (\<lambda>e.
         if e AND PTE_P = 0 then
           bnd (on_phys (mappages d i PGSIZE (V2P mem) (PTE_W OR PTE_U) 0)) (\<lambda>r.
           if r < 0 then ret False else copyuvm_loop fuel old new d (i + PGSIZE) mem)
         else
           bnd (if cdb_size op < i then kalloc (p_pid np) i else kalloc (p_pid np) (-1)) (\<lambda>mem.
           if mem = 0 then ret False
           else
             sq (on_phys (copy_page mem (P2V (PTE_ADDR e)))) (
             bnd (on_phys (mappages d i PGSIZE (V2P mem) (PTE_FLAGS e) 1)) (\<lambda>r.
             if r < 0 then sq (klru_free_swap new mem) (ret False)
             else copyuvm_loop fuel old new d (i + PGSIZE) mem)))))
     else ret True))"

definition copyuvm :: "nat \<Rightarrow> nat \<Rightarrow> (kern, u32) km" where
  "copyuvm old new =
     bnd (on_phys setupkvm) (\<lambda>d.
     if d = 0 then ret 0
     else
       bnd (copyuvm_loop (2 ^ 20) old new d 0 0) (\<lambda>ok.
       if ok then ret d
       else
         bnd (get_proc_at new) (\<lambda>np.
         sq (on_lru (lru_free (p_pid np))) (
         sq (swap_free (p_pid np)) (
         sq (on_phys (freevm d)) (ret 0))))))"

section \<open>Page faults\<close>

text \<open>The body of the handler's loop over the program headers; both rounds look at the first header.\<close>

definition pgflt_load :: "devsw \<Rightarrow> nat \<Rightarrow> u32 \<Rightarrow> u32 \<Rightarrow> nat \<Rightarrow> (kern, unit) km" where
  "pgflt_load dv cur pgflt_addr mem ip =
     bnd (get_proc_at cur) (\<lambda>p.
     let ph = p_ph p in
     if ph_vaddr ph \<le> pgflt_addr \<and> pgflt_addr \<le> ph_vaddr ph + ph_memsz ph then
       (if pgflt_addr + PGSIZE \<le> ph_vaddr ph + ph_filesz ph then
          sq (loaduvm dv (p_pgdir p) (ph_vaddr ph + pgflt_addr) ip (ph_off ph + pgflt_addr) PGSIZE) (ret ())
        else if ph_filesz ph \<le> pgflt_addr then
          (if pgflt_addr + PGSIZE \<le> ph_memsz ph then on_phys (kwrite mem (replicate 4096 0))
           else on_phys (kwrite mem (replicate (unat (ph_memsz ph - pgflt_addr)) 0)))
        else
          sq (loaduvm dv (p_pgdir p) (ph_vaddr ph + pgflt_addr) ip (ph_off ph + pgflt_addr) (ph_filesz ph - pgflt_addr))
             (on_phys (kwrite (mem + (ph_filesz ph - pgflt_addr)) (replicate (unat (PGSIZE - (ph_filesz ph - pgflt_addr))) 0))))
     else ret ())"

definition pgflt_handler :: "devsw \<Rightarrow> nat \<Rightarrow> u32 \<Rightarrow> (kern, unit) km" where
  "pgflt_handler dv cur cr2 =
     (let pgflt_addr = PGROUNDDOWN cr2 in
      if KERNBASE < pgflt_addr then panic ''Over the KERNBASE!''
      else
        bnd (get_proc_at cur) (\<lambda>p.
        bnd (on_swap (swap_check pgflt_addr (swap_list p))) (\<lambda>swapno.
        if 0 \<le> swapno then
          sq (get_lru (p_pid p) pgflt_addr) (
          bnd (swapfunc_in swapno cur pgflt_addr) (\<lambda>r.
          if r < 0 then panic ''Swap In not working!'' else ret ()))
        else
          bnd (kalloc (-1) (-1)) (\<lambda>mem.
          if mem = 0 then panic ''No Free Page''
          else
            bnd (on_phys (mappages (p_pgdir p) pgflt_addr PGSIZE (V2P mem) (PTE_W OR PTE_U OR PTE_P) 1)) (\<lambda>r.
            if r < 0 then panic ''Error in Mappages''
            else
              bnd (on_fs (iget (fst (p_ip p)) (snd (p_ip p)))) (\<lambda>ip.
              for_each (\<lambda>i. pgflt_load dv cur pgflt_addr mem ip) [0 ..< (2 :: nat)]))))))"

declare get_lru_loop.simps [simp del] allocuvm_loop.simps [simp del] loaduvm_loop.simps [simp del]
  copyuvm_loop.simps [simp del]

end
