(* ===== verification/Spinlock.thy ===== *)
theory Spinlock
  imports Memory
begin

text \<open>
  The spin locks of spinlock.c: \<open>pushcli\<close> and \<open>popcli\<close> on the interrupt state of one processor, and a
  lock that several processors contend for, as a step relation in which every access to the lock
  word is one step.
\<close>

section \<open>Interrupt state of a processor\<close>

record cpu =
  ncli :: int
  intena :: bool
  eflags_if :: bool

definition pushcli :: "(cpu, unit) km" where
  "pushcli =
     bnd (gets eflags_if) (\<lambda>eflags.
     sq (modify (\<lambda>c. c\<lparr>eflags_if := False\<rparr>)) (
     bnd (gets ncli) (\<lambda>n.
     sq (if n = 0 then modify (\<lambda>c. c\<lparr>intena := eflags\<rparr>) else ret ())
        (modify (\<lambda>c. c\<lparr>ncli := ncli c + 1\<rparr>)))))"

definition popcli :: "(cpu, unit) km" where
  "popcli =
     bnd (gets eflags_if) (\<lambda>eflags.
     if eflags then panic ''popcli - interruptible''
     else
       sq (modify (\<lambda>c. c\<lparr>ncli := ncli c - 1\<rparr>)) (
       bnd (gets ncli) (\<lambda>n.
       if n < 0 then panic ''popcli''
       else
         bnd (gets intena) (\<lambda>i.
         if n = 0 \<and> i then modify (\<lambda>c. c\<lparr>eflags_if := True\<rparr>) else ret ()))))"

definition cli_ok :: "cpu \<Rightarrow> bool" where
  "cli_ok c \<longleftrightarrow> 0 \<le> ncli c \<and> (0 < ncli c \<longrightarrow> \<not> eflags_if c)"

lemma pushcli_run:
  "pushcli c = Inr ((), c\<lparr>eflags_if := False, intena := (if ncli c = 0 then eflags_if c else intena c), ncli := ncli c + 1\<rparr>)"
  by (cases c) (simp add: pushcli_def run_simps)

lemma popcli_run:
  "cli_ok c \<Longrightarrow> 0 < ncli c \<Longrightarrow>
   popcli c = Inr ((), c\<lparr>ncli := ncli c - 1, eflags_if := (ncli c = 1 \<and> intena c)\<rparr>)"
  by (cases c) (auto simp: popcli_def cli_ok_def run_simps)

text \<open>Critical sections nested \<open>n\<close> deep.\<close>

fun nested :: "nat \<Rightarrow> (cpu, unit) km" where
  "nested 0 = ret ()"
| "nested (Suc n) = sq pushcli (sq (nested n) popcli)"

lemma nested_spec:
  "cli_ok c \<Longrightarrow> wp (nested n) (\<lambda>_ t. cli_ok t \<and> ncli t = ncli c \<and> eflags_if t = eflags_if c \<and>
     (0 < ncli c \<longrightarrow> intena t = intena c)) c"
proof (induction n arbitrary: c)
  case (Suc n)
  let ?c = "c\<lparr>eflags_if := False, intena := (if ncli c = 0 then eflags_if c else intena c), ncli := ncli c + 1\<rparr>"
  have ok: "cli_ok ?c" "0 < ncli ?c" using Suc.prems by (auto simp: cli_ok_def)
  have "wp popcli (\<lambda>_ u. cli_ok u \<and> ncli u = ncli c \<and> eflags_if u = eflags_if c \<and> (0 < ncli c \<longrightarrow> intena u = intena c)) t"
    if "cli_ok t" "ncli t = ncli ?c" "eflags_if t = eflags_if ?c" "0 < ncli ?c \<longrightarrow> intena t = intena ?c" for t
    using that ok Suc.prems by (subst wp_run [OF popcli_run]) (auto simp: cli_ok_def)
  then have "wp (sq (nested n) popcli)
      (\<lambda>_ u. cli_ok u \<and> ncli u = ncli c \<and> eflags_if u = eflags_if c \<and> (0 < ncli c \<longrightarrow> intena u = intena c)) ?c"
    unfolding wp_sq by (intro wp_mono [OF Suc.IH [OF ok(1)]]) blast
  then show ?case by (simp add: wp_sq wp_run [OF pushcli_run])
qed (simp add: wp_ret)

section \<open>The lock\<close>

record spinlock =
  locked :: bool
  lk_cpu :: "nat option"

definition initlock :: spinlock where
  "initlock = \<lparr>locked = False, lk_cpu = None\<rparr>"

definition holding :: "spinlock \<Rightarrow> nat \<Rightarrow> bool" where
  "holding lk c \<longleftrightarrow> locked lk \<and> lk_cpu lk = Some c"

text \<open>\<open>getcallerpcs\<close>: the saved program counters along the chain of frame pointers, ten entries.\<close>

fun getcallerpcs_loop :: "nat \<Rightarrow> (u32 \<Rightarrow> u32) \<Rightarrow> u32 \<Rightarrow> u32 list" where
  "getcallerpcs_loop 0 m ebp = []"
| "getcallerpcs_loop (Suc n) m ebp =
     (if ebp = 0 \<or> ebp < KERNBASE \<or> ebp = 0xffffffff then replicate (Suc n) 0
      else m (ebp + 4) # getcallerpcs_loop n m (m ebp))"

definition getcallerpcs :: "(u32 \<Rightarrow> u32) \<Rightarrow> u32 \<Rightarrow> u32 list" where
  "getcallerpcs m v = getcallerpcs_loop 10 m (v - 8)"

section \<open>Processors contending for the lock\<close>

text \<open>
  Where a processor is in \<open>acquire\<close> and \<open>release\<close>: before \<open>acquire\<close>, spinning on \<open>xchg\<close>, past a
  successful \<open>xchg\<close>, in the critical section, after the owner was cleared, after the lock word
  was cleared, or stopped in \<open>panic\<close>.
\<close>

datatype lock_pc = Idle | Spin | Got | Crit | Cleared | Freed | Stopped

record locksys =
  slock :: spinlock
  cpus :: "nat \<Rightarrow> cpu"
  lpc :: "nat \<Rightarrow> lock_pc"

definition goto_pc :: "nat \<Rightarrow> lock_pc \<Rightarrow> locksys \<Rightarrow> locksys" where
  "goto_pc c p s = s\<lparr>lpc := (lpc s)(c := p)\<rparr>"

inductive lock_step :: "nat \<Rightarrow> locksys \<Rightarrow> locksys \<Rightarrow> bool" where
  acquire_enter: "lpc s c = Idle \<Longrightarrow> pushcli (cpus s c) = Inr (u, k) \<Longrightarrow>
    lock_step c s (goto_pc c (if holding (slock s) c then Stopped else Spin) (s\<lparr>cpus := (cpus s)(c := k)\<rparr>))"
| acquire_spin: "lpc s c = Spin \<Longrightarrow> locked (slock s) \<Longrightarrow> lock_step c s s"
| acquire_xchg: "lpc s c = Spin \<Longrightarrow> \<not> locked (slock s) \<Longrightarrow>
    lock_step c s (goto_pc c Got (s\<lparr>slock := (slock s)\<lparr>locked := True\<rparr>\<rparr>))"
| acquire_owner: "lpc s c = Got \<Longrightarrow>
    lock_step c s (goto_pc c Crit (s\<lparr>slock := (slock s)\<lparr>lk_cpu := Some c\<rparr>\<rparr>))"
| release_check: "lpc s c = Crit \<Longrightarrow> \<not> holding (slock s) c \<Longrightarrow> lock_step c s (goto_pc c Stopped s)"
| release_owner: "lpc s c = Crit \<Longrightarrow> holding (slock s) c \<Longrightarrow>
    lock_step c s (goto_pc c Cleared (s\<lparr>slock := (slock s)\<lparr>lk_cpu := None\<rparr>\<rparr>))"
| release_word: "lpc s c = Cleared \<Longrightarrow>
    lock_step c s (goto_pc c Freed (s\<lparr>slock := (slock s)\<lparr>locked := False\<rparr>\<rparr>))"
| release_popcli: "lpc s c = Freed \<Longrightarrow> popcli (cpus s c) = Inr (u, k) \<Longrightarrow>
    lock_step c s (goto_pc c Idle (s\<lparr>cpus := (cpus s)(c := k)\<rparr>))"
| release_popcli_panic: "lpc s c = Freed \<Longrightarrow> popcli (cpus s c) = Inl e \<Longrightarrow>
    lock_step c s (goto_pc c Stopped s)"

inductive_cases lock_stepE: "lock_step c s t"

definition lock_start :: "locksys \<Rightarrow> bool" where
  "lock_start s \<longleftrightarrow> slock s = initlock \<and> (\<forall>c. lpc s c = Idle \<and> ncli (cpus s c) = 0)"

inductive lock_reach :: "locksys \<Rightarrow> bool" where
  start: "lock_start s \<Longrightarrow> lock_reach s"
| step: "lock_reach s \<Longrightarrow> lock_step c s t \<Longrightarrow> lock_reach t"

text \<open>The invariant, with the processor that owns the lock word, if any.\<close>

definition lock_inv :: "nat option \<Rightarrow> locksys \<Rightarrow> bool" where
  "lock_inv w s \<longleftrightarrow>
     (\<forall>c. lpc s c \<in> {Got, Crit, Cleared} \<longleftrightarrow> w = Some c) \<and> locked (slock s) = (w \<noteq> None) \<and>
     (\<forall>c. lk_cpu (slock s) = Some c \<longleftrightarrow> lpc s c = Crit) \<and>
     (\<forall>c. lpc s c \<noteq> Stopped) \<and>
     (\<forall>c. ncli (cpus s c) = (if lpc s c = Idle then 0 else 1)) \<and>
     (\<forall>c. lpc s c \<noteq> Idle \<longrightarrow> \<not> eflags_if (cpus s c))"

lemma lock_inv_start: "lock_start s \<Longrightarrow> lock_inv None s"
  by (auto simp: lock_start_def lock_inv_def initlock_def)

lemma lock_inv_step:
  assumes inv: "lock_inv w s" and step: "lock_step c s t"
  shows "\<exists>w'. lock_inv w' t"
  using step
proof cases
  case (acquire_enter u k)
  then have "\<not> holding (slock s) c" using inv by (auto simp: lock_inv_def holding_def)
  moreover have "lpc s c \<in> {Got, Crit, Cleared} \<longleftrightarrow> w = Some c" using inv unfolding lock_inv_def by blast
  then have "w \<noteq> Some c" using acquire_enter by simp
  ultimately have "lock_inv w t" using acquire_enter inv
    by (auto simp: lock_inv_def goto_pc_def pushcli_run)
  then show ?thesis ..
next
  case acquire_xchg
  with inv have "lock_inv (Some c) t" by (auto simp: lock_inv_def goto_pc_def)
  then show ?thesis ..
next
  case acquire_owner
  with inv have "w = Some c" by (auto simp: lock_inv_def)
  with acquire_owner inv have "lock_inv (Some c) t" by (auto simp: lock_inv_def goto_pc_def)
  then show ?thesis ..
next
  case release_owner
  with inv have "w = Some c" by (auto simp: lock_inv_def)
  with release_owner inv have "lock_inv (Some c) t" by (auto simp: lock_inv_def goto_pc_def)
  then show ?thesis ..
next
  case release_word
  with inv have "w = Some c" by (auto simp: lock_inv_def)
  with release_word inv have "lock_inv None t" by (auto simp: lock_inv_def goto_pc_def)
  then show ?thesis ..
next
  case (release_popcli u k)
  then have "cli_ok (cpus s c)" "0 < ncli (cpus s c)" using inv by (auto simp: lock_inv_def cli_ok_def)
  moreover have "lpc s c \<in> {Got, Crit, Cleared} \<longleftrightarrow> w = Some c" using inv unfolding lock_inv_def by blast
  then have "w \<noteq> Some c" using release_popcli by simp
  ultimately have "lock_inv w t"
    using release_popcli inv by (auto simp: lock_inv_def goto_pc_def popcli_run)
  then show ?thesis ..
next
  case (release_popcli_panic e)
  then have "cli_ok (cpus s c)" "0 < ncli (cpus s c)" using inv by (auto simp: lock_inv_def cli_ok_def)
  with release_popcli_panic show ?thesis by (simp add: popcli_run)
qed (use inv in \<open>auto simp: lock_inv_def holding_def\<close>)

lemma lock_inv_reach: "lock_reach s \<Longrightarrow> \<exists>w. lock_inv w s"
  by (induction rule: lock_reach.induct) (auto intro: lock_inv_start lock_inv_step)

section \<open>Properties\<close>

text \<open>C27: whatever the interleaving of the processors, at most one of them is between its \<open>xchg\<close> and its
  clearing of the lock word, \<open>lk->cpu\<close> names the processor in the critical section, no processor
  panics in \<open>acquire\<close> or \<open>release\<close>, and interrupts are off from the start of \<open>acquire\<close> to the end
  of \<open>release\<close>.\<close>

theorem spinlock_mutual_exclusion:
  assumes "lock_reach s"
  shows "(lpc s c = Crit \<and> lpc s d = Crit \<longrightarrow> c = d) \<and> (lpc s c = Crit \<longleftrightarrow> holding (slock s) c) \<and>
    lpc s c \<noteq> Stopped \<and> (lpc s c \<noteq> Idle \<longrightarrow> \<not> eflags_if (cpus s c))"
proof -
  obtain w where "lock_inv w s" using lock_inv_reach [OF assms] by blast
  then have facts: "(lpc s x \<in> {Got, Crit, Cleared} \<longleftrightarrow> w = Some x) \<and> (lk_cpu (slock s) = Some x \<longleftrightarrow> lpc s x = Crit) \<and>
    locked (slock s) = (w \<noteq> None) \<and> lpc s x \<noteq> Stopped \<and> (lpc s x \<noteq> Idle \<longrightarrow> \<not> eflags_if (cpus s x))" for x
    by (simp add: lock_inv_def)
  from facts [of c] facts [of d] show ?thesis by (auto simp: holding_def)
qed

definition locksys0 :: locksys where
  "locksys0 = \<lparr>slock = initlock, cpus = (\<lambda>_. \<lparr>ncli = 0, intena = False, eflags_if = True\<rparr>), lpc = (\<lambda>_. Idle)\<rparr>"

theorem spinlock_mutual_exclusion_witness: "\<exists>s. lock_reach s \<and> lpc s 0 = Spin \<and> \<not> eflags_if (cpus s 0)"
proof -
  have r: "lock_reach locksys0" by (rule lock_reach.start) (simp add: locksys0_def lock_start_def)
  let ?t = "goto_pc 0 Spin (locksys0\<lparr>cpus := (cpus locksys0)(0 := (cpus locksys0 0)\<lparr>eflags_if := False, intena := True, ncli := 1\<rparr>)\<rparr>)"
  have "lock_step 0 locksys0 ?t"
    using acquire_enter [of locksys0 0 "()" "(cpus locksys0 0)\<lparr>eflags_if := False, intena := True, ncli := 1\<rparr>"]
    by (simp add: locksys0_def pushcli_run holding_def initlock_def)
  with r have t: "lock_reach ?t" by (rule lock_reach.step)
  moreover have "lpc ?t 0 = Spin" by (simp add: goto_pc_def)
  ultimately show ?thesis using spinlock_mutual_exclusion [OF t, of 0 0] by (intro exI [of _ ?t]) simp
qed

text \<open>C38: critical sections nested to any depth leave the interrupt flag and the nesting count as they
  were, and \<open>popcli\<close> does not panic in them.\<close>

theorem pushcli_popcli_nest:
  assumes "cli_ok c"
  shows "wp (nested n) (\<lambda>_ t. ncli t = ncli c \<and> eflags_if t = eflags_if c) c"
  by (rule wp_mono [OF nested_spec [OF assms]]) blast

theorem pushcli_popcli_nest_witness:
  "wp (nested 3) (\<lambda>_ t. ncli t = 0 \<and> eflags_if t) \<lparr>ncli = 0, intena = False, eflags_if = True\<rparr>"
  using pushcli_popcli_nest [of "\<lparr>ncli = 0, intena = False, eflags_if = True\<rparr>" 3] by (simp add: cli_ok_def)

end
