(* ===== verification/Proc.thy ===== *)
theory Proc
  imports Paging Spinlock
begin

text \<open>
  Processes (proc.c): creation, growth, exit and reaping, and the scheduler. A routine that calls
  \<open>sched\<close> gives up the processor in its middle; it is split there, into the part that runs before the
  switch and the part that runs when the process is scheduled again. The process that runs is the index
  \<open>cur\<close>. The device switch \<open>dv\<close> and the addresses of assembly code are parameters.
\<close>

section \<open>The current processor and process\<close>

definition pinit :: "(kern, unit) km" where
  "pinit = modify (\<lambda>s. s\<lparr>pt_lock := False\<rparr>)"

text \<open>\<open>mycpu\<close> on the interrupt state of the processor with id \<open>lapicid\<close>; \<open>apicids i\<close> is \<open>cpus[i].apicid\<close>.\<close>

definition mycpu :: "(nat \<Rightarrow> u8) \<Rightarrow> nat \<Rightarrow> u8 \<Rightarrow> (cpu, nat) km" where
  "mycpu apicids ncpu lapicid =
     bnd (gets eflags_if) (\<lambda>i.
     if i then panic ''mycpu called with interrupts enabled''
     else (case scan_from (\<lambda>i. apicids i = lapicid) 0 ncpu of
         Some c \<Rightarrow> ret c
       | None \<Rightarrow> panic ''unknown apicid''))"

definition cpuid :: "(nat \<Rightarrow> u8) \<Rightarrow> nat \<Rightarrow> u8 \<Rightarrow> (cpu, nat) km" where
  "cpuid apicids ncpu lapicid = mycpu apicids ncpu lapicid"

definition myproc :: "(nat \<Rightarrow> u8) \<Rightarrow> nat \<Rightarrow> u8 \<Rightarrow> (nat \<Rightarrow> nat option) \<Rightarrow> (cpu, nat option) km" where
  "myproc apicids ncpu lapicid cpu_proc =
     sq pushcli (
     bnd (mycpu apicids ncpu lapicid) (\<lambda>c.
     let p = cpu_proc c in
     sq popcli (ret p)))"

text \<open>The checks of \<open>switchuvm\<close>; the rest of it loads registers of the processor.\<close>

definition switchuvm :: "nat \<Rightarrow> (kern, unit) km" where
  "switchuvm p =
     bnd (get_proc_at p) (\<lambda>pr.
     if p_kstack pr = 0 then panic ''switchuvm: no kstack''
     else if p_pgdir pr = 0 then panic ''switchuvm: no pgdir''
     else ret ())"

section \<open>Creating processes\<close>

definition KSTACKSIZE :: u32 where "KSTACKSIZE = 4096"

text \<open>The sizes of the trap frame and of the context, as they lie on the kernel stack.\<close>

definition TRAPFRAME :: u32 where "TRAPFRAME = 76"

definition new_context :: "u32 \<Rightarrow> kcontext" where
  "new_context eip = \<lparr>c_edi = 0, c_esi = 0, c_ebx = 0, c_ebp = 0, c_eip = eip\<rparr>"

text \<open>
  \<open>allocproc\<close>; \<open>forkret_a\<close> and \<open>trapret_a\<close> are the addresses of these routines. The trap frame at the top of the
  new stack keeps the contents of the entry's old frame until the caller fills it, as both callers do.
\<close>

definition allocproc :: "u32 \<Rightarrow> u32 \<Rightarrow> (kern, nat option) km" where
  "allocproc forkret_a trapret_a =
     sq (acquire pt_lock pt_lock_update) (
     bnd (gets procs) (\<lambda>ps.
     case scan_from (\<lambda>i. p_state (ps i) = UNUSED) 0 NPROC of
       None \<Rightarrow> sq (release pt_lock pt_lock_update) (ret None)
     | Some p \<Rightarrow>
         sq (upd_proc p (\<lambda>q. q\<lparr>p_state := EMBRYO\<rparr>)) (
         bnd (gets nextpid) (\<lambda>pid.
         sq (upd_proc p (\<lambda>q. q\<lparr>p_pid := pid\<rparr>)) (
         sq (modify (\<lambda>s. s\<lparr>nextpid := pid + 1\<rparr>)) (
         sq (release pt_lock pt_lock_update) (
         bnd (kalloc (-1) 0) (\<lambda>k.
         sq (upd_proc p (\<lambda>q. q\<lparr>p_kstack := k\<rparr>)) (
         if k = 0 then
           sq (upd_proc p (\<lambda>q. q\<lparr>p_state := UNUSED\<rparr>)) (ret None)
         else
           (let sp = k + KSTACKSIZE - TRAPFRAME - 4 in
            sq (on_phys (kst sp trapret_a)) (
            sq (upd_proc p (\<lambda>q. q\<lparr>p_context := new_context forkret_a\<rparr>))
               (ret (Some p)))))))))))))"

text \<open>Copying a string to offset \<open>off\<close> of a process's name memory, as \<open>safestrcpy\<close> does.\<close>

definition name_copy :: "nat \<Rightarrow> bytes \<Rightarrow> bytes \<Rightarrow> int \<Rightarrow> bytes" where
  "name_copy off dst src n = (let m = safestrcpy (\<lambda>k. if k < 1024 then dst k else src (k - 1024)) off 1024 n
     in (\<lambda>k. if k < 1024 then m k else dst k))"

definition lit :: "u8 list \<Rightarrow> bytes" where
  "lit bs = (\<lambda>k. if k < length bs then bs ! k else 0)"

definition SEG_UCODE :: u16 where "SEG_UCODE = 3"
definition SEG_UDATA :: u16 where "SEG_UDATA = 4"
definition DPL_USER :: u16 where "DPL_USER = 3"
definition FL_IF :: u32 where "FL_IF = 0x200"

definition user_frame :: trapframe where
  "user_frame = \<lparr>tf_eax = 0, tf_eip = 0, tf_esp = PGSIZE, tf_eflags = FL_IF, tf_cs = push_bit 3 SEG_UCODE OR DPL_USER,
     tf_ds = push_bit 3 SEG_UDATA OR DPL_USER, tf_es = push_bit 3 SEG_UDATA OR DPL_USER,
     tf_ss = push_bit 3 SEG_UDATA OR DPL_USER, tf_trapno = 0, tf_err = 0\<rparr>"

text \<open>\<open>userinit\<close>; \<open>initcode\<close> is the program linked into the kernel. \<open>allocproc\<close>'s result is not tested.\<close>

definition userinit_rest :: "devsw \<Rightarrow> u8 list \<Rightarrow> nat \<Rightarrow> (kern, unit) km" where
  "userinit_rest dv initcode p =
     bnd (on_phys setupkvm) (\<lambda>d.
     sq (upd_proc p (\<lambda>q. q\<lparr>p_pgdir := d\<rparr>)) (
     if d = 0 then panic ''userinit: out of memory?''
     else
       sq (on_phys (inituvm d initcode)) (
       sq (upd_proc p (\<lambda>q. q\<lparr>p_sz := PGSIZE, swap_list := None, p_tf := user_frame,
             p_names := name_copy 0 (p_names q) (lit [105, 110, 105, 116, 99, 111, 100, 101]) 16\<rparr>)) (
       bnd (on_fs (namei dv 0 [slash] (replicate DIRSIZ 0))) (\<lambda>cwd.
       sq (upd_proc p (\<lambda>q. q\<lparr>p_cwd := cwd\<rparr>)) (
       sq (acquire pt_lock pt_lock_update) (
       sq (upd_proc p (\<lambda>q. q\<lparr>p_state := RUNNABLE\<rparr>))
          (release pt_lock pt_lock_update))))))))"

definition userinit :: "u32 \<Rightarrow> u32 \<Rightarrow> devsw \<Rightarrow> u8 list \<Rightarrow> (kern, unit) km" where
  "userinit forkret_a trapret_a dv initcode =
     bnd (allocproc forkret_a trapret_a) (\<lambda>r.
     sq (modify (\<lambda>s. s\<lparr>initproc := r\<rparr>)) (
     bnd (deref r)
         (userinit_rest dv initcode)))"

text \<open>The heap pages of \<open>growproc\<close>: a zero page is written to swap space 2 for each.\<close>

fun growproc_swap :: "nat \<Rightarrow> u32 \<Rightarrow> nat list \<Rightarrow> (kern, bool) km" where
  "growproc_swap cur sz [] = ret True"
| "growproc_swap cur sz (i # is) =
     sq (upd_proc cur (\<lambda>q. q\<lparr>heap_buffer := (\<lambda>_. 0)\<rparr>)) (
     bnd (swapfunc_out 2 cur (sz + of_nat i * PGSIZE)) (\<lambda>r.
     if r < 0 then ret False else growproc_swap cur sz is))"

definition growproc :: "nat \<Rightarrow> int \<Rightarrow> (kern, int) km" where
  "growproc cur n =
     bnd (get_proc_at cur) (\<lambda>p.
     if n = 0 then ret 0
     else
       bnd (if 0 < n then
              bnd (allocuvm cur (p_pgdir p) (p_sz p) (p_sz p + word_of_int n) 0) (\<lambda>sz.
              if sz = 0 then ret None
              else
                (let pages = (PGROUNDUP sz - PGROUNDUP (p_sz p)) div PGSIZE in
                 bnd (growproc_swap cur (p_sz p) [0 ..< unat pages]) (\<lambda>ok.
                 ret (if ok then Some sz else None))))
            else
              bnd (on_phys (deallocuvm (p_pgdir p) (p_sz p) (p_sz p + word_of_int n))) (\<lambda>sz.
              ret (if sz = 0 then None else Some sz))) (\<lambda>r.
       case r of
         None \<Rightarrow> ret (-1)
       | Some sz \<Rightarrow>
           sq (upd_proc cur (\<lambda>q. q\<lparr>p_sz := sz\<rparr>)) (
           sq (switchuvm cur) (ret 0))))"

definition fork_file :: "nat \<Rightarrow> nat \<Rightarrow> nat \<Rightarrow> (kern, unit) km" where
  "fork_file cur np i =
     bnd (get_proc_at cur) (\<lambda>p.
     case p_ofile p i of
       None \<Rightarrow> ret ()
     | Some f \<Rightarrow>
         bnd (filedup f) (\<lambda>g. upd_proc np (\<lambda>q. q\<lparr>p_ofile := (p_ofile q)(i := Some g)\<rparr>)))"

text \<open>
  \<open>fork\<close> from the point where the page table is copied. The child gets the parent's \<open>swap_list\<close>, but neither
  \<open>cdb_size\<close> nor \<open>ph\<close> nor \<open>ip\<close>.
\<close>

definition fork_rest :: "nat \<Rightarrow> nat \<Rightarrow> proc \<Rightarrow> (kern, int) km" where
  "fork_rest cur np p =
     sq (for_each (fork_file cur np) [0 ..< NOFILE]) (
     bnd (deref (p_cwd p)) (\<lambda>c.
     bnd (on_fs (idup c)) (\<lambda>c.
     sq (upd_proc np (\<lambda>q. q\<lparr>p_cwd := Some c, p_forked := False\<rparr>)) (
     sq (upd_proc cur (\<lambda>q. q\<lparr>p_forked := True\<rparr>)) (
     sq (upd_proc np (\<lambda>q. q\<lparr>swap_list := swap_list p\<rparr>)) (
     sq (on_swap (swap_fork (swap_list p))) (
     sq (upd_proc np (\<lambda>q. q\<lparr>p_names := name_copy 0 (p_names q) (p_names p) 16\<rparr>)) (
     bnd (get_proc_at np) (\<lambda>q.
     sq (acquire pt_lock pt_lock_update) (
     sq (upd_proc np (\<lambda>q. q\<lparr>p_state := RUNNABLE\<rparr>)) (
     sq (release pt_lock pt_lock_update)
        (ret (sint (p_pid q))))))))))))))"

definition fork :: "u32 \<Rightarrow> u32 \<Rightarrow> nat \<Rightarrow> (kern, int) km" where
  "fork forkret_a trapret_a cur =
     bnd (allocproc forkret_a trapret_a) (\<lambda>r.
     case r of
       None \<Rightarrow> ret (-1)
     | Some np \<Rightarrow>
         bnd (copyuvm cur np) (\<lambda>d.
         sq (upd_proc np (\<lambda>q. q\<lparr>p_pgdir := d\<rparr>)) (
         if d = 0 then
           bnd (get_proc_at np) (\<lambda>q.
           sq (on_phys (kfree (p_kstack q))) (
           sq (upd_proc np (\<lambda>q. q\<lparr>p_kstack := 0, p_state := UNUSED\<rparr>)) (ret (-1))))
         else
           bnd (get_proc_at cur) (\<lambda>p.
           sq (upd_proc np (\<lambda>q. q\<lparr>p_sz := p_sz p, p_parent := Some cur, p_tf := (p_tf p)\<lparr>tf_eax := 0\<rparr>\<rparr>))
              (fork_rest cur np p)))))"

section \<open>Giving up the processor\<close>

text \<open>
  \<open>sched\<close> up to the switch. The test of \<open>ncli\<close> is commented out in the source; the callers hold
  \<open>ptable.lock\<close>, whose \<open>acquire\<close> turned interrupts off, so that \<open>interruptible\<close> is false for them.
\<close>

definition sched :: "bool \<Rightarrow> nat \<Rightarrow> (kern, unit) km" where
  "sched interruptible cur =
     bnd (gets pt_lock) (\<lambda>l.
     if \<not> l then panic ''sched ptable.lock''
     else
       bnd (get_proc_at cur) (\<lambda>p.
       if p_state p = RUNNING then panic ''sched running''
       else if interruptible then panic ''sched interruptible''
       else ret ()))"

text \<open>One iteration of the scheduler's loop, with \<open>ptable.lock\<close> held; the result says whether it switched to \<open>p\<close>.\<close>

definition scheduler_try :: "nat \<Rightarrow> (kern, bool) km" where
  "scheduler_try p =
     bnd (get_proc_at p) (\<lambda>q.
     if p_state q \<noteq> RUNNABLE then ret False
     else
       sq (switchuvm p) (
       sq (upd_proc p (\<lambda>q. q\<lparr>p_state := RUNNING\<rparr>))
          (ret True)))"

definition yield_enter :: "nat \<Rightarrow> (kern, unit) km" where
  "yield_enter cur =
     sq (acquire pt_lock pt_lock_update) (
     sq (upd_proc cur (\<lambda>q. q\<lparr>p_state := RUNNABLE\<rparr>))
        (sched False cur))"

definition yield_return :: "(kern, unit) km" where
  "yield_return = release pt_lock pt_lock_update"

text \<open>The first thing a new process runs, with \<open>ptable.lock\<close> held by the scheduler.\<close>

definition forkret :: "(kern, unit) km" where
  "forkret =
     sq (release pt_lock pt_lock_update) (
     bnd (gets forkret_first) (\<lambda>first.
     if first then
       sq (modify (\<lambda>s. s\<lparr>forkret_first := False\<rparr>)) (
       sq (on_fs (iinit ROOTDEV))
          (on_fs (on_log (initlog ROOTDEV))))
     else ret ()))"

text \<open>
  \<open>sleep (chan, lk)\<close>, before and after the switch. \<open>lk\<close> is \<open>None\<close> for \<open>ptable.lock\<close> itself and otherwise
  how \<open>lk\<close> is released or acquired again; no process is the panic at the start.
\<close>

definition sleep_enter :: "nat option \<Rightarrow> channel \<Rightarrow> (kern, unit) km option \<Rightarrow> (kern, unit) km" where
  "sleep_enter curp chan lk_release =
     (case curp of
        None \<Rightarrow> panic ''sleep''
      | Some cur \<Rightarrow>
          sq (case lk_release of
                None \<Rightarrow> ret ()
              | Some rel \<Rightarrow> sq (acquire pt_lock pt_lock_update) rel) (
          sq (upd_proc cur (\<lambda>q. q\<lparr>p_chan := Some chan\<rparr>)) (
          sq (upd_proc cur (\<lambda>q. q\<lparr>p_state := SLEEPING\<rparr>))
             (sched False cur))))"

definition sleep_return :: "nat \<Rightarrow> (kern, unit) km option \<Rightarrow> (kern, unit) km" where
  "sleep_return cur lk_acquire =
     sq (upd_proc cur (\<lambda>q. q\<lparr>p_chan := None\<rparr>)) (
     case lk_acquire of
       None \<Rightarrow> ret ()
     | Some acq \<Rightarrow> sq (release pt_lock pt_lock_update) acq)"

definition kill :: "u32 \<Rightarrow> (kern, int) km" where
  "kill pid =
     sq (acquire pt_lock pt_lock_update) (
     bnd (gets procs) (\<lambda>ps.
     case scan_from (\<lambda>i. p_pid (ps i) = pid) 0 NPROC of
       Some p \<Rightarrow>
         sq (upd_proc p (\<lambda>q. q\<lparr>p_killed := True\<rparr>)) (
         sq (upd_proc p (\<lambda>q. if p_state q = SLEEPING then q\<lparr>p_state := RUNNABLE\<rparr> else q)) (
         sq (release pt_lock pt_lock_update) (ret 0)))
     | None \<Rightarrow> sq (release pt_lock pt_lock_update) (ret (-1))))"

section \<open>Exit and wait\<close>

definition exit_file :: "nat \<Rightarrow> nat \<Rightarrow> (kern, unit) km" where
  "exit_file cur fd =
     bnd (get_proc_at cur) (\<lambda>p.
     case p_ofile p fd of
       None \<Rightarrow> ret ()
     | Some f \<Rightarrow>
         sq (fileclose f)
            (upd_proc cur (\<lambda>q. q\<lparr>p_ofile := (p_ofile q)(fd := None)\<rparr>)))"

definition adopt :: "nat \<Rightarrow> nat \<Rightarrow> (kern, unit) km" where
  "adopt cur i =
     bnd (get_proc_at i) (\<lambda>q.
     if p_parent q = Some cur then
       bnd (gets initproc) (\<lambda>ini.
       sq (upd_proc i (\<lambda>q. q\<lparr>p_parent := ini\<rparr>)) (
       if p_state q = ZOMBIE then wakeup1 (map_option ChProc ini) else ret ()))
     else ret ())"

text \<open>\<open>exit\<close> up to the switch from which it does not come back; the part under \<open>ptable.lock\<close> is a definition of its own.\<close>

definition exit_zombie :: "nat \<Rightarrow> (kern, unit) km" where
  "exit_zombie cur =
     sq (acquire pt_lock pt_lock_update) (
     bnd (get_proc_at cur) (\<lambda>p.
     sq (wakeup1 (map_option ChProc (p_parent p))) (
     sq (for_each (adopt cur) [0 ..< NPROC]) (
     sq (upd_proc cur (\<lambda>q. q\<lparr>p_state := ZOMBIE\<rparr>))
        (sched False cur)))))"

definition exit :: "nat \<Rightarrow> (kern, unit) km" where
  "exit cur =
     bnd (gets initproc) (\<lambda>ini.
     if ini = Some cur then panic ''init exiting''
     else
       sq (for_each (exit_file cur) [0 ..< NOFILE]) (
       sq k_begin_op (
       bnd (get_proc_at cur) (\<lambda>p.
       bnd (deref (p_cwd p)) (\<lambda>c.
       sq (on_fs (iput c)) (
       sq k_end_op (
       sq (upd_proc cur (\<lambda>q. q\<lparr>p_cwd := None\<rparr>))
          (exit_zombie cur))))))))"

text \<open>What \<open>wait\<close> does with an exited child.\<close>

definition reap :: "nat \<Rightarrow> (kern, u32) km" where
  "reap i =
     bnd (get_proc_at i) (\<lambda>q.
     sq (on_phys (kfree (p_kstack q))) (
     sq (upd_proc i (\<lambda>q. q\<lparr>p_kstack := 0\<rparr>)) (
     sq (on_lru (lru_free (p_pid q))) (
     sq (swap_free (p_pid q)) (
     sq (on_phys (freevm (p_pgdir q))) (
     sq (upd_proc i (\<lambda>q. q\<lparr>p_pid := 0, p_parent := None, p_names := (p_names q)(0 := 0), p_killed := False, p_state := UNUSED\<rparr>))
        (ret (p_pid q))))))))"

text \<open>One round of \<open>wait\<close>'s loop, entered with \<open>ptable.lock\<close> held: the first exited child in the table is
  reaped; otherwise the process goes to sleep on itself, and the round is repeated after it was woken.\<close>

definition wait_round :: "nat \<Rightarrow> (kern, unit segment) km" where
  "wait_round cur =
     bnd (gets procs) (\<lambda>ps.
     case scan_from (\<lambda>i. p_parent (ps i) = Some cur \<and> p_state (ps i) = ZOMBIE) 0 NPROC of
       Some i \<Rightarrow>
         bnd (reap i) (\<lambda>pid.
         sq (release pt_lock pt_lock_update) (ret (Returned (sint pid))))
     | None \<Rightarrow>
         if scan_from (\<lambda>i. p_parent (ps i) = Some cur) 0 NPROC = None \<or> p_killed (ps cur) then
           sq (release pt_lock pt_lock_update) (ret (Returned (-1)))
         else
           sq (sleep_enter (Some cur) (ChProc cur) None) (ret (Asleep ())))"

definition wait :: "nat \<Rightarrow> (kern, unit segment) km" where
  "wait cur =
     sq (acquire pt_lock pt_lock_update)
        (wait_round cur)"

definition wait_resume :: "nat \<Rightarrow> (kern, unit segment) km" where
  "wait_resume cur =
     sq (sleep_return cur None)
        (wait_round cur)"


end
