(* ===== verification/Syscall.thy ===== *)
theory Syscall
  imports Proc
begin

text \<open>
  Access to the memory of a process, the arguments of system calls (syscall.c) and the system calls on
  processes (sysproc.c). A result \<open>Asleep ()\<close> of a system call says that the process gave up the processor
  in the middle of it.
\<close>

section \<open>User memory\<close>

text \<open>
  The kernel reads and writes user memory through the page table of the running process; a page that is
  not present raises a page fault, which \<open>pgflt_handler\<close> serves before the access is repeated. An access
  that the handler does not make possible would fault forever.
\<close>

definition user_entry :: "nat \<Rightarrow> u32 \<Rightarrow> (kern, u32) km" where
  "user_entry cur va =
     bnd (get_proc_at cur) (\<lambda>p.
     bnd (on_phys (walkpgdir (p_pgdir p) va False)) (\<lambda>pte.
     if pte = 0 then ret 0 else on_phys (kld pte)))"

definition user_ka :: "devsw \<Rightarrow> nat \<Rightarrow> u32 \<Rightarrow> (kern, u32) km" where
  "user_ka dv cur va =
     bnd (user_entry cur va) (\<lambda>e.
     bnd (if e AND PTE_P \<noteq> 0 then ret e
          else sq (pgflt_handler dv cur va) (user_entry cur va)) (\<lambda>e.
     if e AND PTE_P \<noteq> 0 then ret (P2V (PTE_ADDR e) + (va AND 0xFFF))
     else fail Diverges))"

definition uload :: "devsw \<Rightarrow> nat \<Rightarrow> u32 \<Rightarrow> (kern, u8) km" where
  "uload dv cur va = bnd (user_ka dv cur va) (\<lambda>ka. on_phys (kldb ka))"

definition ustore :: "devsw \<Rightarrow> nat \<Rightarrow> u32 \<Rightarrow> u8 \<Rightarrow> (kern, unit) km" where
  "ustore dv cur va b = bnd (user_ka dv cur va) (\<lambda>ka. on_phys (kstb ka b))"

fun uread :: "devsw \<Rightarrow> nat \<Rightarrow> u32 \<Rightarrow> nat \<Rightarrow> (kern, u8 list) km" where
  "uread dv cur va 0 = ret []"
| "uread dv cur va (Suc n) = bnd (uload dv cur va) (\<lambda>b. bnd (uread dv cur (va + 1) n) (\<lambda>bs. ret (b # bs)))"

fun uwrite :: "devsw \<Rightarrow> nat \<Rightarrow> u32 \<Rightarrow> u8 list \<Rightarrow> (kern, unit) km" where
  "uwrite dv cur va [] = ret ()"
| "uwrite dv cur va (b # bs) = sq (ustore dv cur va b) (uwrite dv cur (va + 1) bs)"

text \<open>Words in memory are stored with the low byte first.\<close>

definition word_bytes :: "u32 \<Rightarrow> u8 list" where
  "word_bytes w = [ucast w, ucast (drop_bit 8 w), ucast (drop_bit 16 w), ucast (drop_bit 24 w)]"

definition bytes_word :: "u8 list \<Rightarrow> u32" where
  "bytes_word bs = ld32 (lit bs) 0"

definition short_bytes :: "u16 \<Rightarrow> u8 list" where
  "short_bytes w = [ucast w, ucast (drop_bit 8 w)]"

section \<open>Arguments of system calls\<close>

text \<open>\<open>None\<close> is the result -1; the value fetched is what the C routine stores through its pointer argument.\<close>

definition fetchint :: "devsw \<Rightarrow> nat \<Rightarrow> u32 \<Rightarrow> (kern, u32 option) km" where
  "fetchint dv cur addr =
     bnd (get_proc_at cur) (\<lambda>p.
     if p_sz p \<le> addr \<or> p_sz p < addr + 4 then ret None
     else bnd (uread dv cur addr 4) (\<lambda>bs. ret (Some (bytes_word bs))))"

fun fetchstr_loop :: "devsw \<Rightarrow> nat \<Rightarrow> nat \<Rightarrow> u32 \<Rightarrow> (kern, u8 list option) km" where
  "fetchstr_loop dv cur 0 s = ret None"
| "fetchstr_loop dv cur (Suc n) s =
     bnd (uload dv cur s) (\<lambda>b.
     if b = 0 then ret (Some [])
     else bnd (fetchstr_loop dv cur n (s + 1)) (\<lambda>r. ret (map_option (Cons b) r)))"

text \<open>\<open>fetchstr\<close>, whose result here is the string up to its final zero; the loop ends at \<open>curproc->sz\<close>.\<close>

definition fetchstr :: "devsw \<Rightarrow> nat \<Rightarrow> u32 \<Rightarrow> (kern, u8 list option) km" where
  "fetchstr dv cur addr =
     bnd (get_proc_at cur) (\<lambda>p.
     if p_sz p \<le> addr then ret None
     else fetchstr_loop dv cur (unat (p_sz p - addr)) addr)"

definition argint :: "devsw \<Rightarrow> nat \<Rightarrow> nat \<Rightarrow> (kern, u32 option) km" where
  "argint dv cur n =
     bnd (get_proc_at cur) (\<lambda>p. fetchint dv cur (tf_esp (p_tf p) + 4 + 4 * of_nat n))"

definition argptr :: "devsw \<Rightarrow> nat \<Rightarrow> nat \<Rightarrow> int \<Rightarrow> (kern, u32 option) km" where
  "argptr dv cur n sz =
     bnd (argint dv cur n) (\<lambda>r.
     bnd (get_proc_at cur) (\<lambda>p.
     case r of
       None \<Rightarrow> ret None
     | Some i \<Rightarrow>
         if sz < 0 \<or> p_sz p \<le> i \<or> p_sz p < i + word_of_int sz then ret None
         else ret (Some i)))"

definition argstr :: "devsw \<Rightarrow> nat \<Rightarrow> nat \<Rightarrow> (kern, u8 list option) km" where
  "argstr dv cur n =
     bnd (argint dv cur n) (\<lambda>r.
     case r of None \<Rightarrow> ret None | Some addr \<Rightarrow> fetchstr dv cur addr)"

text \<open>The shape \<open>if (... < 0) return -1\<close>.\<close>

definition guard :: "(kern, 'a option) km \<Rightarrow> ('a \<Rightarrow> (kern, int) km) \<Rightarrow> (kern, int) km" where
  "guard m k = bnd m (\<lambda>r. case r of None \<Rightarrow> ret (-1) | Some x \<Rightarrow> k x)"

section \<open>System calls on processes\<close>

definition sys_fork :: "u32 \<Rightarrow> u32 \<Rightarrow> nat \<Rightarrow> (kern, int) km" where
  "sys_fork forkret_a trapret_a cur = fork forkret_a trapret_a cur"

definition sys_exit :: "nat \<Rightarrow> (kern, unit segment) km" where
  "sys_exit cur = sq (exit cur) (ret (Asleep ()))"

definition sys_wait :: "nat \<Rightarrow> (kern, unit segment) km" where
  "sys_wait cur = wait cur"

definition sys_kill :: "devsw \<Rightarrow> nat \<Rightarrow> (kern, int) km" where
  "sys_kill dv cur = guard (argint dv cur 0) kill"

definition sys_getpid :: "nat \<Rightarrow> (kern, int) km" where
  "sys_getpid cur = bnd (get_proc_at cur) (\<lambda>p. ret (sint (p_pid p)))"

definition sys_sbrk :: "devsw \<Rightarrow> nat \<Rightarrow> (kern, int) km" where
  "sys_sbrk dv cur =
     guard (argint dv cur 0) (\<lambda>n.
     bnd (get_proc_at cur) (\<lambda>p.
     bnd (growproc cur (sint n)) (\<lambda>r.
     if r < 0 then ret (-1) else ret (sint (p_sz p)))))"

text \<open>The loop of \<open>sys_sleep\<close>, entered with \<open>tickslock\<close> held; the comparison with \<open>n\<close> is unsigned.\<close>

definition sleep_round :: "nat \<Rightarrow> u32 \<Rightarrow> u32 \<Rightarrow> (kern, unit segment) km" where
  "sleep_round cur ticks0 n =
     bnd (gets ticks) (\<lambda>t.
     if t - ticks0 < n then
       bnd (get_proc_at cur) (\<lambda>p.
       if p_killed p then sq (release ticks_lock ticks_lock_update) (ret (Returned (-1)))
       else
         sq (sleep_enter (Some cur) ChTicks (Some (release ticks_lock ticks_lock_update)))
            (ret (Asleep ())))
     else sq (release ticks_lock ticks_lock_update) (ret (Returned 0)))"

definition sys_sleep :: "devsw \<Rightarrow> nat \<Rightarrow> (kern, unit segment) km" where
  "sys_sleep dv cur =
     bnd (argint dv cur 0) (\<lambda>r.
     case r of
       None \<Rightarrow> ret (Returned (-1))
     | Some n \<Rightarrow>
         sq (acquire ticks_lock ticks_lock_update) (
         bnd (gets ticks) (\<lambda>ticks0. sleep_round cur ticks0 n)))"

definition sys_sleep_resume :: "nat \<Rightarrow> u32 \<Rightarrow> u32 \<Rightarrow> (kern, unit segment) km" where
  "sys_sleep_resume cur ticks0 n =
     sq (sleep_return cur (Some (acquire ticks_lock ticks_lock_update)))
        (sleep_round cur ticks0 n)"

definition sys_uptime :: "(kern, int) km" where
  "sys_uptime =
     sq (acquire ticks_lock ticks_lock_update) (
     bnd (gets ticks) (\<lambda>xticks.
     sq (release ticks_lock ticks_lock_update) (ret (sint xticks))))"

text \<open>The two listings of this kernel; the result is what they print. Both are declared to return \<open>int\<close> where
  they are called but return nothing.\<close>

definition sys_lrur :: "(kern, (u32 \<times> nat \<times> u32) list) km" where
  "sys_lrur = on_lru lru_read"

definition sys_swapr :: "nat \<Rightarrow> (kern, (nat \<times> u32 \<times> int \<times> int) list) km" where
  "sys_swapr cur = bnd (get_proc_at cur) (\<lambda>p. on_swap (swap_read (swap_list p)))"

declare uread.simps [simp del] uwrite.simps [simp del] fetchstr_loop.simps [simp del]


end
