(* ===== verification/Exec.thy ===== *)
theory Exec
  imports Syscall
begin

text \<open>
  \<open>exec\<close> (exec.c). The path and the arguments are given by their bytes: the memory they lie in is not
  changed before \<open>exec\<close> has copied them.
\<close>

definition ELF_MAGIC :: u32 where "ELF_MAGIC = 0x464C457F"
definition ELF_PROG_LOAD :: u32 where "ELF_PROG_LOAD = 1"
definition MAXARG :: nat where "MAXARG = 32"

text \<open>The fields of \<open>struct elfhdr\<close> and \<open>struct proghdr\<close> that are used, at their offsets.\<close>

record elfhdr =
  eh_magic :: u32
  eh_entry :: u32
  eh_phoff :: u32
  eh_phnum :: u16

definition elfhdr_of :: "u8 list \<Rightarrow> elfhdr" where
  "elfhdr_of bs = \<lparr>eh_magic = ld32 (lit bs) 0, eh_entry = ld32 (lit bs) 24, eh_phoff = ld32 (lit bs) 28,
     eh_phnum = ld16 (lit bs) 44\<rparr>"

record proghdr =
  phd_type :: u32
  phd_off :: u32
  phd_vaddr :: u32
  phd_filesz :: u32
  phd_memsz :: u32

definition proghdr_of :: "u8 list \<Rightarrow> proghdr" where
  "proghdr_of bs = \<lparr>phd_type = ld32 (lit bs) 0, phd_off = ld32 (lit bs) 4, phd_vaddr = ld32 (lit bs) 8,
     phd_filesz = ld32 (lit bs) 16, phd_memsz = ld32 (lit bs) 20\<rparr>"

text \<open>Looking up a path from the current directory of the running process.\<close>

definition k_cwd :: "nat \<Rightarrow> u8 list \<Rightarrow> (kern, nat) km" where
  "k_cwd cur path =
     bnd (get_proc_at cur) (\<lambda>p.
     if path \<noteq> [] \<and> hd path = slash then ret 0 else deref (p_cwd p))"

definition k_namei :: "devsw \<Rightarrow> nat \<Rightarrow> u8 list \<Rightarrow> (kern, nat option) km" where
  "k_namei dv cur path = bnd (k_cwd cur path) (\<lambda>c. on_fs (namei dv c path (replicate DIRSIZ 0)))"

definition k_nameiparent :: "devsw \<Rightarrow> nat \<Rightarrow> u8 list \<Rightarrow> (kern, (nat \<times> u8 list) option) km" where
  "k_nameiparent dv cur path = bnd (k_cwd cur path) (\<lambda>c. on_fs (nameiparent dv c path (replicate DIRSIZ 0)))"

definition getinode :: "nat \<Rightarrow> nat \<Rightarrow> (kern, unit) km" where
  "getinode cur ip =
     bnd (on_fs (get_inode ip)) (\<lambda>i. upd_proc cur (\<lambda>q. q\<lparr>p_ip := (i_dev i, i_inum i)\<rparr>))"

text \<open>The label \<open>bad\<close>: what was set up is given back.\<close>

definition exec_bad :: "nat \<Rightarrow> u32 \<Rightarrow> nat option \<Rightarrow> (kern, int) km" where
  "exec_bad cur pgdir ip =
     bnd (get_proc_at cur) (\<lambda>p.
     sq (if pgdir \<noteq> 0 then
           sq (on_lru (lru_free (p_pid p))) (
           sq (swap_free (p_pid p))
              (on_phys (freevm pgdir)))
         else ret ()) (
     sq (case ip of None \<Rightarrow> ret () | Some ip \<Rightarrow> sq (on_fs (iunlockput ip)) k_end_op)
        (ret (-1))))"

text \<open>The loop over the program headers; every loaded segment overwrites the process's first \<open>ph\<close>.\<close>

fun exec_load :: "devsw \<Rightarrow> nat \<Rightarrow> nat \<Rightarrow> u32 \<Rightarrow> nat \<Rightarrow> u32 \<Rightarrow> u32 \<Rightarrow> (kern, u32 option) km" where
  "exec_load dv cur ip pgdir 0 off sz = ret (Some sz)"
| "exec_load dv cur ip pgdir (Suc n) off sz =
     bnd (on_fs (readi dv ip off 32)) (\<lambda>(r, bs).
     let ph = proghdr_of bs in
     if r \<noteq> 32 then ret None
     else if phd_type ph \<noteq> ELF_PROG_LOAD then exec_load dv cur ip pgdir n (off + 32) sz
     else if phd_memsz ph < phd_filesz ph then ret None
     else if phd_vaddr ph + phd_memsz ph < phd_vaddr ph then ret None
     else if phd_vaddr ph mod PGSIZE \<noteq> 0 then ret None
     else
       sq (upd_proc cur (\<lambda>q. q\<lparr>p_ph := \<lparr>ph_filesz = phd_filesz ph, ph_memsz = phd_memsz ph, ph_vaddr = phd_vaddr ph, ph_off = phd_off ph\<rparr>\<rparr>)) (
       bnd (allocuvm cur pgdir sz (phd_vaddr ph + phd_memsz ph) 0) (\<lambda>sz.
       if sz = 0 then ret None else exec_load dv cur ip pgdir n (off + 32) sz)))"

text \<open>Storing into \<open>stack_buffer\<close>; the source does not check that the bytes fit.\<close>

definition stack_put :: "nat \<Rightarrow> u32 \<Rightarrow> u8 list \<Rightarrow> (kern, unit) km" where
  "stack_put cur sp bs =
     (if unat sp + length bs \<le> 4096 then upd_proc cur (\<lambda>q. q\<lparr>stack_buffer := put_bytes (stack_buffer q) (unat sp) bs\<rparr>)
      else fail OutOfBounds)"

fun exec_args :: "nat \<Rightarrow> u32 \<Rightarrow> u8 list list \<Rightarrow> nat \<Rightarrow> u32 \<Rightarrow> u32 list \<Rightarrow> (kern, (nat \<times> u32 \<times> u32 list) option) km" where
  "exec_args cur base [] argc sp us = ret (Some (argc, sp, us))"
| "exec_args cur base (a # as) argc sp us =
     (if MAXARG \<le> argc then ret None
      else
        (let sp = (sp - of_nat (length a + 1)) AND NOT 3 in
         sq (stack_put cur sp (a @ [0])) (
         exec_args cur base as (argc + 1) sp (us @ [base + sp]))))"

definition last_elem :: "u8 list \<Rightarrow> u8 list" where
  "last_elem path = rev (takeWhile (\<lambda>c. c \<noteq> slash) (rev path))"

text \<open>The copies of the path and of its last element; \<open>name\<close> is at offset 0 and \<open>path\<close> at offset 16.\<close>

definition exec_names :: "nat \<Rightarrow> u8 list \<Rightarrow> (kern, unit) km" where
  "exec_names cur path =
     (if 512 < length path + 1 then fail OutOfBounds
      else upd_proc cur (\<lambda>q. q\<lparr>p_names :=
        name_copy 0 (name_copy 16 (p_names q) (lit path) (int (length path) + 1)) (lit (last_elem path)) 512\<rparr>))"

text \<open>From the allocation of the stack on; \<open>start\<close> is the program's entry point.\<close>

definition exec_stack :: "nat \<Rightarrow> u8 list \<Rightarrow> u8 list list \<Rightarrow> u32 \<Rightarrow> u32 \<Rightarrow> u32 \<Rightarrow> (kern, int) km" where
  "exec_stack cur path argv start pgdir sz =
     bnd (allocuvm cur pgdir (PGROUNDUP sz) (PGROUNDUP sz + 2 * PGSIZE) 0) (\<lambda>sz.
     if sz = 0 then exec_bad cur pgdir None
     else
       sq (on_phys (clearpteu pgdir (sz - 2 * PGSIZE))) (
       bnd (get_proc_at cur) (\<lambda>p.
       let base = PGROUNDUP (cdb_size p) + PGSIZE in
       bnd (exec_args cur base argv 0 PGSIZE []) (\<lambda>r.
       case r of
         None \<Rightarrow> exec_bad cur pgdir None
       | Some (argc, sp, us) \<Rightarrow>
           (let sp' = sp - of_nat ((3 + argc + 1) * 4);
                ustack = [0xffffffff, of_nat argc, base + (sp - of_nat ((argc + 1) * 4))] @ us @ [0] in
            sq (stack_put cur sp' (concat (map word_bytes ustack))) (
            sq (exec_names cur path) (
            sq (upd_proc cur (\<lambda>q. q\<lparr>p_pgdir := pgdir, p_sz := sz, p_tf := (p_tf q)\<lparr>tf_eip := start, tf_esp := base + sp'\<rparr>\<rparr>)) (
            sq (switchuvm cur) (
            bnd (swapfunc_out 1 cur (sz - PGSIZE)) (\<lambda>r.
            if r < 0 then panic ''Swap Space is Full''
            else sq (on_phys (freevm (p_pgdir p))) (ret 0)))))))))))"

definition exec :: "devsw \<Rightarrow> nat \<Rightarrow> u8 list \<Rightarrow> u8 list list \<Rightarrow> (kern, int) km" where
  "exec dv cur path argv =
     sq k_begin_op (
     bnd (k_namei dv cur path) (\<lambda>r.
     case r of
       None \<Rightarrow> sq k_end_op (ret (-1))
     | Some ip \<Rightarrow>
         sq (on_fs (ilock ip)) (
         sq (getinode cur ip) (
         bnd (on_fs (readi dv ip 0 52)) (\<lambda>(r, bs).
         let elf = elfhdr_of bs in
         if r \<noteq> 52 then exec_bad cur 0 (Some ip)
         else if eh_magic elf \<noteq> ELF_MAGIC then exec_bad cur 0 (Some ip)
         else
           bnd (on_phys setupkvm) (\<lambda>pgdir.
           if pgdir = 0 then exec_bad cur 0 (Some ip)
           else
             bnd (exec_load dv cur ip pgdir (unat (eh_phnum elf)) (eh_phoff elf) 0) (\<lambda>r.
             case r of
               None \<Rightarrow> exec_bad cur pgdir (Some ip)
             | Some sz \<Rightarrow>
                 sq (upd_proc cur (\<lambda>q. q\<lparr>cdb_size := sz\<rparr>)) (
                 sq (on_fs (iunlockput ip)) (
                 sq k_end_op
                    (exec_stack cur path argv (eh_entry elf) pgdir sz))))))))))"

declare exec_load.simps [simp del] exec_args.simps [simp del]

end
