(* ===== verification/Sysfile.thy ===== *)
theory Sysfile
  imports Exec
begin

text \<open>
  System calls on files (sysfile.c). Reading and writing move the bytes between user memory and the file
  layer in one piece, after the read and before the write.
\<close>

section \<open>File descriptors\<close>

definition argfd :: "devsw \<Rightarrow> nat \<Rightarrow> nat \<Rightarrow> (kern, (nat \<times> nat) option) km" where
  "argfd dv cur n =
     bnd (argint dv cur n) (\<lambda>r.
     bnd (get_proc_at cur) (\<lambda>p.
     case r of
       None \<Rightarrow> ret None
     | Some w \<Rightarrow>
         (let fd = sint w in
          if fd < 0 \<or> int NOFILE \<le> fd then ret None
          else (case p_ofile p (nat fd) of
              None \<Rightarrow> ret None
            | Some f \<Rightarrow> ret (Some (nat fd, f))))))"

definition fdalloc :: "nat \<Rightarrow> nat \<Rightarrow> (kern, nat option) km" where
  "fdalloc cur f =
     bnd (get_proc_at cur) (\<lambda>p.
     case scan_from (\<lambda>fd. p_ofile p fd = None) 0 NOFILE of
       Some fd \<Rightarrow> sq (upd_proc cur (\<lambda>q. q\<lparr>p_ofile := (p_ofile q)(fd := Some f)\<rparr>)) (ret (Some fd))
     | None \<Rightarrow> ret None)"

definition sys_dup :: "devsw \<Rightarrow> nat \<Rightarrow> (kern, int) km" where
  "sys_dup dv cur =
     guard (argfd dv cur 0) (\<lambda>(_, f).
     guard (fdalloc cur f) (\<lambda>fd.
     sq (filedup f) (ret (int fd))))"

definition sys_read :: "devsw \<Rightarrow> nat \<Rightarrow> (kern, int) km" where
  "sys_read dv cur =
     guard (argfd dv cur 0) (\<lambda>(_, f).
     guard (argint dv cur 2) (\<lambda>n.
     guard (argptr dv cur 1 (sint n)) (\<lambda>p.
     bnd (get_proc_at cur) (\<lambda>q.
     bnd (fileread dv (p_killed q) f (sint n)) (\<lambda>(r, bs).
     sq (uwrite dv cur p bs) (ret r))))))"

definition sys_write :: "devsw \<Rightarrow> nat \<Rightarrow> (kern, int) km" where
  "sys_write dv cur =
     guard (argfd dv cur 0) (\<lambda>(_, f).
     guard (argint dv cur 2) (\<lambda>n.
     guard (argptr dv cur 1 (sint n)) (\<lambda>p.
     bnd (get_proc_at cur) (\<lambda>q.
     bnd (uread dv cur p (nat (sint n))) (\<lambda>bs.
     filewrite dv (p_killed q) f bs (sint n))))))"

definition sys_close :: "devsw \<Rightarrow> nat \<Rightarrow> (kern, int) km" where
  "sys_close dv cur =
     guard (argfd dv cur 0) (\<lambda>(fd, f).
     sq (upd_proc cur (\<lambda>q. q\<lparr>p_ofile := (p_ofile q)(fd := None)\<rparr>)) (
     sq (fileclose f) (ret 0)))"

text \<open>The fields of \<open>struct stat\<close> in user memory, which has two padding bytes after each short.\<close>

definition sys_fstat :: "devsw \<Rightarrow> nat \<Rightarrow> (kern, int) km" where
  "sys_fstat dv cur =
     guard (argfd dv cur 0) (\<lambda>(_, f).
     guard (argptr dv cur 1 20) (\<lambda>st.
     bnd (filestat f) (\<lambda>(r, x).
     sq (case x of
           None \<Rightarrow> ret ()
         | Some x \<Rightarrow>
             sq (uwrite dv cur (st + 4) (word_bytes (st_dev x))) (
             sq (uwrite dv cur (st + 8) (word_bytes (st_ino x))) (
             sq (uwrite dv cur st (short_bytes (st_type x))) (
             sq (uwrite dv cur (st + 12) (short_bytes (st_nlink x)))
                (uwrite dv cur (st + 16) (word_bytes (st_size x)))))))
        (ret r))))"

section \<open>Names and directories\<close>

text \<open>Changing the link count of an inode and writing the inode back.\<close>

definition add_link :: "nat \<Rightarrow> u16 \<Rightarrow> (fsys, unit) km" where
  "add_link ip d = sq (upd_inode ip (\<lambda>i. i\<lparr>i_nlink := i_nlink i + d\<rparr>)) (iupdate ip)"

definition link_bad :: "nat \<Rightarrow> (kern, int) km" where
  "link_bad ip =
     sq (on_fs (ilock ip)) (
     sq (on_fs (add_link ip (-1))) (
     sq (on_fs (iunlockput ip)) (
     sq k_end_op (ret (-1)))))"

definition sys_link :: "devsw \<Rightarrow> nat \<Rightarrow> (kern, int) km" where
  "sys_link dv cur =
     guard (argstr dv cur 0) (\<lambda>old.
     guard (argstr dv cur 1) (\<lambda>new.
     sq k_begin_op (
     bnd (k_namei dv cur old) (\<lambda>r.
     case r of
       None \<Rightarrow> sq k_end_op (ret (-1))
     | Some ip \<Rightarrow>
         sq (on_fs (ilock ip)) (
         bnd (on_fs (get_inode ip)) (\<lambda>i.
         if i_type i = T_DIR then
           sq (on_fs (iunlockput ip)) (sq k_end_op (ret (-1)))
         else
           sq (on_fs (add_link ip 1)) (
           sq (on_fs (iunlock ip)) (
           bnd (k_nameiparent dv cur new) (\<lambda>r.
           case r of
             None \<Rightarrow> link_bad ip
           | Some (dp, name) \<Rightarrow>
               sq (on_fs (ilock dp)) (
               bnd (on_fs (get_inode dp)) (\<lambda>d.
               bnd (on_fs (get_inode ip)) (\<lambda>i.
               bnd (if i_dev d \<noteq> i_dev i then ret (-1) else on_fs (dirlink dv dp name (i_inum i))) (\<lambda>r.
               if r < 0 then sq (on_fs (iunlockput dp)) (link_bad ip)
               else
                 sq (on_fs (iunlockput dp)) (
                 sq (on_fs (iput ip)) (
                 sq k_end_op (ret 0))))))))))))))))"

text \<open>\<open>isdirempty\<close>, over the entries after the first two.\<close>

fun isdirempty_from :: "nat \<Rightarrow> devsw \<Rightarrow> nat \<Rightarrow> u32 \<Rightarrow> (fsys, bool) km" where
  "isdirempty_from 0 dv dp off = fail Diverges"
| "isdirempty_from (Suc fuel) dv dp off =
     bnd (get_inode dp) (\<lambda>d.
     if off < i_size d then
       bnd (read_dirent dv dp off ''isdirempty: readi'') (\<lambda>de.
       if de_inum de \<noteq> 0 then ret False
       else isdirempty_from fuel dv dp (off + of_nat DIRENT))
     else ret True)"

definition isdirempty :: "devsw \<Rightarrow> nat \<Rightarrow> (fsys, bool) km" where
  "isdirempty dv dp = bnd (get_inode dp) (\<lambda>d.
     isdirempty_from (Suc (unat (i_size d) div DIRENT)) dv dp (of_nat (2 * DIRENT)))"

definition dot :: "u8 list" where "dot = [46, 0]"
definition dotdot :: "u8 list" where "dotdot = [46, 46, 0]"

definition unlink_bad :: "nat \<Rightarrow> (kern, int) km" where
  "unlink_bad dp = sq (on_fs (iunlockput dp)) (sq k_end_op (ret (-1)))"

definition unlink_entry :: "devsw \<Rightarrow> nat \<Rightarrow> nat \<Rightarrow> u32 \<Rightarrow> (fsys, unit) km" where
  "unlink_entry dv dp ip off =
     bnd (writei dv dp (replicate DIRENT 0) off (of_nat DIRENT)) (\<lambda>r.
     if r \<noteq> int DIRENT then panic ''unlink: writei''
     else
       bnd (get_inode ip) (\<lambda>i.
       sq (if i_type i = T_DIR then add_link dp (-1) else ret ()) (
       sq (iunlockput dp) (
       sq (add_link ip (-1))
          (iunlockput ip)))))"

definition sys_unlink :: "devsw \<Rightarrow> nat \<Rightarrow> (kern, int) km" where
  "sys_unlink dv cur =
     guard (argstr dv cur 0) (\<lambda>path.
     sq k_begin_op (
     bnd (k_nameiparent dv cur path) (\<lambda>r.
     case r of
       None \<Rightarrow> sq k_end_op (ret (-1))
     | Some (dp, name) \<Rightarrow>
         sq (on_fs (ilock dp)) (
         if namecmp name dot = 0 \<or> namecmp name dotdot = 0 then unlink_bad dp
         else
           bnd (on_fs (dirlookup dv dp name)) (\<lambda>r.
           case r of
             None \<Rightarrow> unlink_bad dp
           | Some (ip, off) \<Rightarrow>
               sq (on_fs (ilock ip)) (
               bnd (on_fs (get_inode ip)) (\<lambda>i.
               if sint (i_nlink i) < 1 then panic ''unlink: nlink < 1''
               else
                 bnd (if i_type i = T_DIR then on_fs (isdirempty dv ip) else ret True) (\<lambda>empty.
                 if \<not> empty then sq (on_fs (iunlockput ip)) (unlink_bad dp)
                 else
                   sq (on_fs (unlink_entry dv dp ip off)) (
                   sq k_end_op (ret 0))))))))))"

text \<open>The new inode of \<open>create\<close>, locked, and linked into \<open>dp\<close>; a directory gets its two first entries.\<close>

definition create_new :: "devsw \<Rightarrow> nat \<Rightarrow> u8 list \<Rightarrow> u16 \<Rightarrow> u16 \<Rightarrow> u16 \<Rightarrow> (fsys, nat) km" where
  "create_new dv dp name ty major minor =
     bnd (get_inode dp) (\<lambda>d.
     bnd (ialloc (i_dev d) ty) (\<lambda>ip.
     sq (ilock ip) (
     sq (upd_inode ip (\<lambda>i. i\<lparr>i_major := major, i_minor := minor, i_nlink := 1\<rparr>)) (
     sq (iupdate ip) (
     bnd (get_inode ip) (\<lambda>i.
     sq (if ty = T_DIR then
           sq (add_link dp 1) (
           bnd (dirlink dv ip dot (i_inum i)) (\<lambda>r.
           if r < 0 then panic ''create dots''
           else bnd (dirlink dv ip dotdot (i_inum d)) (\<lambda>r.
             if r < 0 then panic ''create dots'' else ret ())))
         else ret ()) (
     bnd (dirlink dv dp name (i_inum i)) (\<lambda>r.
     if r < 0 then panic ''create: dirlink''
     else sq (iunlockput dp) (ret ip)))))))))"

definition create :: "devsw \<Rightarrow> nat \<Rightarrow> u8 list \<Rightarrow> u16 \<Rightarrow> u16 \<Rightarrow> u16 \<Rightarrow> (kern, nat option) km" where
  "create dv cur path ty major minor =
     bnd (k_nameiparent dv cur path) (\<lambda>r.
     case r of
       None \<Rightarrow> ret None
     | Some (dp, name) \<Rightarrow>
         sq (on_fs (ilock dp)) (
         bnd (on_fs (dirlookup dv dp name)) (\<lambda>r.
         case r of
           Some (ip, _) \<Rightarrow>
             sq (on_fs (iunlockput dp)) (
             sq (on_fs (ilock ip)) (
             bnd (on_fs (get_inode ip)) (\<lambda>i.
             if ty = T_FILE \<and> i_type i = T_FILE then ret (Some ip)
             else sq (on_fs (iunlockput ip)) (ret None))))
         | None \<Rightarrow> bnd (on_fs (create_new dv dp name ty major minor)) (\<lambda>ip. ret (Some ip)))))"

text \<open>The inode that \<open>sys_open\<close> works on, locked; \<open>None\<close> where it ends the transaction and returns -1.\<close>

definition open_inode :: "devsw \<Rightarrow> nat \<Rightarrow> u8 list \<Rightarrow> u32 \<Rightarrow> (kern, nat option) km" where
  "open_inode dv cur path omode =
     (if omode AND O_CREATE \<noteq> 0 then
        bnd (create dv cur path T_FILE 0 0) (\<lambda>r.
        case r of
          None \<Rightarrow> sq k_end_op (ret None)
        | Some ip \<Rightarrow> ret (Some ip))
      else
        bnd (k_namei dv cur path) (\<lambda>r.
        case r of
          None \<Rightarrow> sq k_end_op (ret None)
        | Some ip \<Rightarrow>
            sq (on_fs (ilock ip)) (
            bnd (on_fs (get_inode ip)) (\<lambda>i.
            if i_type i = T_DIR \<and> omode \<noteq> O_RDONLY then
              sq (on_fs (iunlockput ip)) (sq k_end_op (ret None))
            else ret (Some ip)))))"

definition open_bad :: "nat option \<Rightarrow> nat \<Rightarrow> (kern, int) km" where
  "open_bad f ip =
     sq (case f of None \<Rightarrow> ret () | Some f \<Rightarrow> fileclose f) (
     sq (on_fs (iunlockput ip)) (
     sq k_end_op (ret (-1))))"

definition sys_open :: "devsw \<Rightarrow> nat \<Rightarrow> (kern, int) km" where
  "sys_open dv cur =
     guard (argstr dv cur 0) (\<lambda>path.
     guard (argint dv cur 1) (\<lambda>omode.
     sq k_begin_op (
     guard (open_inode dv cur path omode) (\<lambda>ip.
     bnd filealloc (\<lambda>f.
     case f of
       None \<Rightarrow> open_bad None ip
     | Some f \<Rightarrow>
         bnd (fdalloc cur f) (\<lambda>fd.
         case fd of
           None \<Rightarrow> open_bad (Some f) ip
         | Some fd \<Rightarrow>
             sq (on_fs (iunlock ip)) (
             sq k_end_op (
             sq (upd_file f (\<lambda>g. g\<lparr>f_type := FD_INODE, f_ip := ip, f_off := 0, f_readable := (omode AND O_WRONLY = 0),
                   f_writable := (omode AND O_WRONLY \<noteq> 0 \<or> omode AND O_RDWR \<noteq> 0)\<rparr>))
                (ret (int fd))))))))))"

text \<open>The end of \<open>sys_mkdir\<close> and \<open>sys_mknod\<close>, given the inode they created if any.\<close>

definition made :: "nat option \<Rightarrow> (kern, int) km" where
  "made r =
     (case r of
        None \<Rightarrow> sq k_end_op (ret (-1))
      | Some ip \<Rightarrow> sq (on_fs (iunlockput ip)) (sq k_end_op (ret 0)))"

definition sys_mkdir :: "devsw \<Rightarrow> nat \<Rightarrow> (kern, int) km" where
  "sys_mkdir dv cur =
     sq k_begin_op (
     bnd (argstr dv cur 0) (\<lambda>r.
     case r of
       None \<Rightarrow> made None
     | Some path \<Rightarrow> bnd (create dv cur path T_DIR 0 0) made))"

definition sys_mknod :: "devsw \<Rightarrow> nat \<Rightarrow> (kern, int) km" where
  "sys_mknod dv cur =
     sq k_begin_op (
     bnd (argstr dv cur 0) (\<lambda>r.
     case r of
       None \<Rightarrow> made None
     | Some path \<Rightarrow>
         bnd (argint dv cur 1) (\<lambda>r.
         case r of
           None \<Rightarrow> made None
         | Some major \<Rightarrow>
             bnd (argint dv cur 2) (\<lambda>r.
             case r of
               None \<Rightarrow> made None
             | Some minor \<Rightarrow> bnd (create dv cur path T_DEV (ucast major) (ucast minor)) made))))"

definition sys_chdir :: "devsw \<Rightarrow> nat \<Rightarrow> (kern, int) km" where
  "sys_chdir dv cur =
     sq k_begin_op (
     bnd (argstr dv cur 0) (\<lambda>r.
     bnd (case r of None \<Rightarrow> ret None | Some path \<Rightarrow> k_namei dv cur path) (\<lambda>r.
     case r of
       None \<Rightarrow> sq k_end_op (ret (-1))
     | Some ip \<Rightarrow>
         sq (on_fs (ilock ip)) (
         bnd (on_fs (get_inode ip)) (\<lambda>i.
         if i_type i \<noteq> T_DIR then
           sq (on_fs (iunlockput ip)) (sq k_end_op (ret (-1)))
         else
           sq (on_fs (iunlock ip)) (
           bnd (get_proc_at cur) (\<lambda>p.
           bnd (deref (p_cwd p)) (\<lambda>c.
           sq (on_fs (iput c)) (
           sq k_end_op (
           sq (upd_proc cur (\<lambda>q. q\<lparr>p_cwd := Some ip\<rparr>)) (ret 0)))))))))))"

section \<open>exec and pipe\<close>

text \<open>The argument vector: at most \<open>MAXARG\<close> pointers, the last of them null, each to a string.\<close>

fun fetch_argv :: "devsw \<Rightarrow> nat \<Rightarrow> nat \<Rightarrow> u32 \<Rightarrow> (kern, u8 list list option) km" where
  "fetch_argv dv cur 0 uargv = ret None"
| "fetch_argv dv cur (Suc n) uargv =
     bnd (fetchint dv cur uargv) (\<lambda>r.
     case r of
       None \<Rightarrow> ret None
     | Some uarg \<Rightarrow>
         if uarg = 0 then ret (Some [])
         else
           bnd (fetchstr dv cur uarg) (\<lambda>r.
           case r of
             None \<Rightarrow> ret None
           | Some a \<Rightarrow> bnd (fetch_argv dv cur n (uargv + 4)) (\<lambda>r. ret (map_option (Cons a) r))))"

definition sys_exec :: "devsw \<Rightarrow> nat \<Rightarrow> (kern, int) km" where
  "sys_exec dv cur =
     guard (argstr dv cur 0) (\<lambda>path.
     guard (argint dv cur 1) (\<lambda>uargv.
     guard (fetch_argv dv cur MAXARG uargv) (\<lambda>argv.
     exec dv cur path argv)))"

definition sys_pipe :: "devsw \<Rightarrow> nat \<Rightarrow> (kern, int) km" where
  "sys_pipe dv cur =
     guard (argptr dv cur 0 8) (\<lambda>fd.
     guard pipealloc (\<lambda>(rf, wf).
     bnd (fdalloc cur rf) (\<lambda>fd0.
     case fd0 of
       None \<Rightarrow> sq (fileclose rf) (sq (fileclose wf) (ret (-1)))
     | Some fd0 \<Rightarrow>
         bnd (fdalloc cur wf) (\<lambda>fd1.
         case fd1 of
           None \<Rightarrow>
             sq (upd_proc cur (\<lambda>q. q\<lparr>p_ofile := (p_ofile q)(fd0 := None)\<rparr>)) (
             sq (fileclose rf) (sq (fileclose wf) (ret (-1))))
         | Some fd1 \<Rightarrow>
             sq (uwrite dv cur fd (word_bytes (of_nat fd0))) (
             sq (uwrite dv cur (fd + 4) (word_bytes (of_nat fd1))) (ret 0))))))"

declare isdirempty_from.simps [simp del] fetch_argv.simps [simp del]


end
