(* ===== verification/Trap.thy ===== *)
theory Trap
  imports Sysfile
begin

text \<open>
  The system call table (syscall.c) and the trap handler (trap.c). What the kernel is linked with and the
  interrupt handlers of the devices, which work on state of their own, are the parameter \<open>pf\<close>.
\<close>

text \<open>
  \<open>pf_void\<close> is what a system call without a result leaves in the register that holds results.
\<close>

record platform =
  pf_dv :: devsw
  pf_forkret :: u32
  pf_trapret :: u32
  pf_void :: int
  pf_ideintr :: "(kern, unit) km"
  pf_kbdintr :: "(kern, unit) km"
  pf_uartintr :: "(kern, unit) km"

section \<open>System calls\<close>

definition returned :: "(kern, int) km \<Rightarrow> (kern, unit segment) km" where
  "returned m = bnd m (\<lambda>r. ret (Returned r))"

definition syscalls :: "platform \<Rightarrow> nat \<Rightarrow> (kern, unit segment) km option list" where
  "syscalls pf cur = (let dv = pf_dv pf in
    [None,
     Some (returned (sys_fork (pf_forkret pf) (pf_trapret pf) cur)),
     Some (sys_exit cur),
     Some (sys_wait cur),
     Some (returned (sys_pipe dv cur)),
     Some (returned (sys_read dv cur)),
     Some (returned (sys_kill dv cur)),
     Some (returned (sys_exec dv cur)),
     Some (returned (sys_fstat dv cur)),
     Some (returned (sys_chdir dv cur)),
     Some (returned (sys_dup dv cur)),
     Some (returned (sys_getpid cur)),
     Some (returned (sys_sbrk dv cur)),
     Some (sys_sleep dv cur),
     Some (returned sys_uptime),
     Some (returned (sys_open dv cur)),
     Some (returned (sys_write dv cur)),
     Some (returned (sys_mknod dv cur)),
     Some (returned (sys_unlink dv cur)),
     Some (returned (sys_link dv cur)),
     Some (returned (sys_mkdir dv cur)),
     Some (returned (sys_close dv cur)),
     Some (returned (sq sys_lrur (ret (pf_void pf)))),
     Some (returned (sq (sys_swapr cur) (ret (pf_void pf))))])"

definition set_eax :: "nat \<Rightarrow> int \<Rightarrow> (kern, unit) km" where
  "set_eax cur v = upd_proc cur (\<lambda>q. q\<lparr>p_tf := (p_tf q)\<lparr>tf_eax := word_of_int v\<rparr>\<rparr>)"

definition syscall :: "platform \<Rightarrow> nat \<Rightarrow> (kern, unit segment) km" where
  "syscall pf cur =
     bnd (get_proc_at cur) (\<lambda>p.
     let num = sint (tf_eax (p_tf p)); tab = syscalls pf cur in
     case (if 0 < num \<and> num < int (length tab) then tab ! nat num else None) of
       Some f \<Rightarrow>
         bnd f (\<lambda>r.
         case r of
           Returned v \<Rightarrow> sq (set_eax cur v) (ret (Returned v))
         | Asleep _ \<Rightarrow> ret (Asleep ()))
     | None \<Rightarrow> sq (set_eax cur (-1)) (ret (Returned (-1))))"

section \<open>Traps\<close>

definition T_PGFLT :: u32 where "T_PGFLT = 14"
definition T_SYSCALL :: u32 where "T_SYSCALL = 64"
definition T_IRQ0 :: u32 where "T_IRQ0 = 32"
definition IRQ_TIMER :: u32 where "IRQ_TIMER = 0"
definition IRQ_KBD :: u32 where "IRQ_KBD = 1"
definition IRQ_COM1 :: u32 where "IRQ_COM1 = 4"
definition IRQ_IDE :: u32 where "IRQ_IDE = 14"
definition IRQ_SPURIOUS :: u32 where "IRQ_SPURIOUS = 31"

text \<open>\<open>exit\<close>, from which the trap handler does not come back.\<close>

definition trap_exit :: "nat \<Rightarrow> (kern, unit segment) km" where
  "trap_exit cur = sq (exit cur) (ret (Asleep ()))"

text \<open>The test \<open>myproc() && myproc()->killed && (tf->cs & 3) == DPL_USER\<close>.\<close>

definition killed_in_user :: "nat option \<Rightarrow> trapframe \<Rightarrow> (kern, bool) km" where
  "killed_in_user curp tf =
     (case curp of
        None \<Rightarrow> ret False
      | Some cur \<Rightarrow> bnd (get_proc_at cur) (\<lambda>p. ret (p_killed p \<and> tf_cs tf AND 3 = DPL_USER)))"

definition timer_tick :: "nat \<Rightarrow> (kern, unit) km" where
  "timer_tick cpu =
     (if cpu = 0 then
        sq (acquire ticks_lock ticks_lock_update) (
        sq (modify (\<lambda>s. s\<lparr>ticks := ticks s + 1\<rparr>)) (
        sq (wakeup (Some ChTicks))
           (release ticks_lock ticks_lock_update)))
      else ret ())"

text \<open>The \<open>switch\<close> over the trap number; \<open>cr2\<close> is the address of a page fault.\<close>

definition trap_switch :: "platform \<Rightarrow> nat \<Rightarrow> nat option \<Rightarrow> trapframe \<Rightarrow> u32 \<Rightarrow> (kern, unit) km" where
  "trap_switch pf cpu curp tf cr2 =
     (let n = tf_trapno tf in
      if n = T_PGFLT then bnd (deref curp) (\<lambda>cur. pgflt_handler (pf_dv pf) cur cr2)
      else if n = T_IRQ0 + IRQ_TIMER then timer_tick cpu
      else if n = T_IRQ0 + IRQ_IDE then pf_ideintr pf
      else if n = T_IRQ0 + IRQ_IDE + 1 then ret ()
      else if n = T_IRQ0 + IRQ_KBD then pf_kbdintr pf
      else if n = T_IRQ0 + IRQ_COM1 then pf_uartintr pf
      else if n = T_IRQ0 + 7 \<or> n = T_IRQ0 + IRQ_SPURIOUS then ret ()
      else (case curp of
          None \<Rightarrow> panic ''trap''
        | Some cur \<Rightarrow>
            if tf_cs tf AND 3 = 0 then panic ''trap''
            else upd_proc cur (\<lambda>q. q\<lparr>p_killed := True\<rparr>)))"

text \<open>The handler up to its return or to the point where the process gives up the processor.\<close>

definition trap :: "platform \<Rightarrow> nat \<Rightarrow> nat option \<Rightarrow> trapframe \<Rightarrow> u32 \<Rightarrow> (kern, unit segment) km" where
  "trap pf cpu curp tf cr2 =
     (if tf_trapno tf = T_SYSCALL then
        bnd (deref curp) (\<lambda>cur.
        bnd (get_proc_at cur) (\<lambda>p.
        if p_killed p then trap_exit cur
        else
          sq (upd_proc cur (\<lambda>q. q\<lparr>p_tf := tf\<rparr>)) (
          bnd (syscall pf cur) (\<lambda>r.
          case r of
            Asleep _ \<Rightarrow> ret (Asleep ())
          | Returned _ \<Rightarrow>
              bnd (get_proc_at cur) (\<lambda>p.
              if p_killed p then trap_exit cur else ret (Returned 0))))))
      else
        sq (trap_switch pf cpu curp tf cr2) (
        bnd (killed_in_user curp tf) (\<lambda>k.
        case curp of
          None \<Rightarrow> ret (Returned 0)
        | Some cur \<Rightarrow>
            if k then trap_exit cur
            else
              bnd (get_proc_at cur) (\<lambda>p.
              if p_state p = RUNNING \<and> tf_trapno tf = T_IRQ0 + IRQ_TIMER then
                sq (yield_enter cur) (ret (Asleep ()))
              else ret (Returned 0)))))"

text \<open>The rest of the handler for a process that yielded in it.\<close>

definition trap_resume :: "nat \<Rightarrow> trapframe \<Rightarrow> (kern, unit segment) km" where
  "trap_resume cur tf =
     sq yield_return (
     bnd (killed_in_user (Some cur) tf) (\<lambda>k.
     if k then trap_exit cur else ret (Returned 0)))"

end
