(* ===== verification/Swapping.thy ===== *)
theory Swapping
  imports Paging
begin

text \<open>
  Moving pages to the swap area and back: the copies between pages and disk blocks, the effect of
  \<open>swap_out\<close> and \<open>swap_in\<close> on the whole kernel state, and the replacement loop of \<open>get_lru\<close>.
\<close>

section \<open>The block layer inside the kernel\<close>

abbreviation kblk :: "kern \<Rightarrow> blk" where "kblk s \<equiv> lg_blk (fs_log (k_fs s))"

definition set_blk :: "blk \<Rightarrow> kern \<Rightarrow> kern" where
  "set_blk b s = s\<lparr>k_fs := (k_fs s)\<lparr>fs_log := (fs_log (k_fs s))\<lparr>lg_blk := b\<rparr>\<rparr>\<rparr>"

lemma set_blk_simps [simp]:
  "kblk (set_blk b s) = b" "k_phys (set_blk b s) = k_phys s" "k_lru (set_blk b s) = k_lru s"
  "k_swap (set_blk b s) = k_swap s" "procs (set_blk b s) = procs s" "set_blk b (set_blk c s) = set_blk b s"
  "set_blk (kblk s) s = s" "set_blk b (s\<lparr>k_phys := x\<rparr>) = (set_blk b s)\<lparr>k_phys := x\<rparr>"
  by (simp_all add: set_blk_def)

lemma set_blk_idle [simp]: "bk_held (kblk s) = {} \<Longrightarrow> set_blk ((kblk s)\<lparr>bk_held := {}\<rparr>) s = s"
proof -
  assume "bk_held (kblk s) = {}"
  then have "(kblk s)\<lparr>bk_held := {}\<rparr> = kblk s" by (cases "kblk s") simp
  then show ?thesis by (simp only: set_blk_simps)
qed

lemma wp_on_disk_blk [wp_rules]: "wp (on_disk_blk m) Q s = wp m (\<lambda>x b. Q x (set_blk b s)) (kblk s)"
  by (simp add: on_disk_blk_def on_fs_def on_log_def on_blk_def wp_zoom set_blk_def)

lemma on_disk_blk_run: "on_disk_blk m s = (case m (kblk s) of Inl e \<Rightarrow> Inl e | Inr (x, b) \<Rightarrow> Inr (x, set_blk b s))"
  by (auto simp: on_disk_blk_def on_fs_def on_log_def on_blk_def zoom_run set_blk_def split: sum.splits)

section \<open>Pages and blocks\<close>

text \<open>The eight blocks from \<open>bno\<close> on exist on the disk, and nobody holds a block.\<close>

definition area_ok :: "blk \<Rightarrow> u32 \<Rightarrow> bool" where
  "area_ok b bno \<longleftrightarrow> bk_held b = {} \<and> (\<forall>i < 8. bno + of_nat i < bk_size b)"

definition area :: "u32 \<Rightarrow> nat \<Rightarrow> u32 set" where
  "area bno k = {bno + of_nat i |i. i < k}"

text \<open>The blocks of \<open>area bno k\<close> hold the page \<open>pg\<close>, and the others what they held in \<open>a\<close>.\<close>

definition stored :: "page \<Rightarrow> u32 \<Rightarrow> nat \<Rightarrow> blk \<Rightarrow> blk \<Rightarrow> bool" where
  "stored pg bno k a b \<longleftrightarrow> bk_held b = {} \<and> bk_size b = bk_size a \<and> bk_dirty b = bk_dirty a - area bno k \<and>
     (\<forall>i < k. bk_data b (bno + of_nat i) = page_block pg i \<and> bk_disk b (bno + of_nat i) = page_block pg i) \<and>
     (\<forall>m. m \<notin> area bno k \<longrightarrow> bk_data b m = bk_data a m \<and> bk_disk b m = bk_disk a m)"

lemma area_inj: "i < 8 \<Longrightarrow> j < 8 \<Longrightarrow> bno + of_nat i = (bno + of_nat j :: u32) \<longleftrightarrow> i = j"
proof -
  assume "i < 8" "j < 8"
  then have "unat (of_nat i :: u32) = i" "unat (of_nat j :: u32) = j" by (simp_all add: unat_of_nat)
  then show ?thesis by (metis add_left_cancel)
qed

lemma area_Suc: "area bno (Suc k) = insert (bno + of_nat k) (area bno k)"
  by (auto simp: area_def less_Suc_eq)

lemma area_last: "k < 8 \<Longrightarrow> bno + of_nat k \<notin> area bno k"
  using area_inj by (force simp: area_def)

lemma stored_step:
  assumes "stored pg bno k a b" "k < 8" "bno + of_nat k < bk_size a"
  shows "wp (writeswap_body pg bno k) (\<lambda>_ c. stored pg bno (Suc k) a c) b"
proof -
  have ne: "bno + of_nat i \<noteq> (bno + of_nat k :: u32)" if "i < k" for i
    using that assms(2) area_inj [of i k bno] by simp
  have h: "bk_held b = {}" "bno + of_nat k < bk_size b" using assms by (auto simp: stored_def)
  then show ?thesis
    using assms(1) ne by (auto simp: writeswap_body_def wp_def run_simps stored_def area_Suc less_Suc_eq)
qed

lemma writeswap_spec:
  assumes "area_ok (kblk s) bno"
  shows "wp (writeswap pg dev bno) (\<lambda>_ t. \<exists>b. t = set_blk b s \<and> stored pg bno 8 (kblk s) b) s"
  unfolding writeswap_def
proof (rule wp_for_each [where I = "\<lambda>k t. \<exists>b. t = set_blk b s \<and> stored pg bno k (kblk s) b"])
  show "\<exists>b. s = set_blk b s \<and> stored pg bno 0 (kblk s) b"
    using assms by (auto simp: stored_def area_def area_ok_def intro!: exI [of _ "kblk s"])
next
  fix k t
  assume "k < 8" "\<exists>b. t = set_blk b s \<and> stored pg bno k (kblk s) b"
  then obtain b where b: "t = set_blk b s" "stored pg bno k (kblk s) b" by blast
  have "wp (writeswap_body pg bno k) (\<lambda>_ c. stored pg bno (Suc k) (kblk s) c) b"
    using b(2) \<open>k < 8\<close> assms by (intro stored_step) (auto simp: area_ok_def)
  then show "wp (on_disk_blk (writeswap_body pg bno k)) (\<lambda>_ u. \<exists>c. u = set_blk c s \<and> stored pg bno (Suc k) (kblk s) c) t"
    unfolding b(1) wp_on_disk_blk by (auto elim!: wp_mono)
qed

text \<open>What \<open>readswap\<close> has copied after \<open>k\<close> blocks into the frame \<open>f\<close>.\<close>

definition loaded :: "u32 \<Rightarrow> nat \<Rightarrow> nat \<Rightarrow> kern \<Rightarrow> kern \<Rightarrow> bool" where
  "loaded bno f k s t \<longleftrightarrow> (\<exists>pg. t = s\<lparr>k_phys := (k_phys s)\<lparr>pmem := (pmem (k_phys s))(f := pg)\<rparr>\<rparr> \<and>
     (\<forall>i < BSIZE * k. pg i = bk_data (kblk s) (bno + of_nat (i div BSIZE)) (i mod BSIZE)))"

lemma loaded_step:
  assumes "loaded bno f k s t" "k < 8" "area_ok (kblk s) bno" "f < 57344" "blk_ok (kblk s)" "area bno 8 \<inter> bk_dirty (kblk s) = {}"
  shows "wp (readswap_body 1 (kva f) bno k) (\<lambda>_ u. loaded bno f (Suc k) s u) t"
proof -
  from assms(1) obtain pg where pg: "t = s\<lparr>k_phys := (k_phys s)\<lparr>pmem := (pmem (k_phys s))(f := pg)\<rparr>\<rparr>"
    "\<forall>i < BSIZE * k. pg i = bk_data (kblk s) (bno + of_nat (i div BSIZE)) (i mod BSIZE)" by (auto simp: loaded_def)
  let ?n = "bno + of_nat k" let ?d = "bk_data (kblk s) (bno + of_nat k)"
  let ?pg = "\<lambda>i. if BSIZE * k \<le> i \<and> i < BSIZE * k + BSIZE then ?d (i - BSIZE * k) else pg i"
  have "?n \<in> area bno 8" using assms(2) by (auto simp: area_def)
  then have n: "?n \<notin> bk_held (kblk s)" "?n < bk_size (kblk s)" "bk_disk (kblk s) ?n = ?d" "?n \<notin> bk_dirty (kblk s)"
    "bk_held (kblk s) = {}"
    using assms by (auto simp: area_ok_def blk_ok_def)
  have new: "?pg i = bk_data (kblk s) (bno + of_nat (i div BSIZE)) (i mod BSIZE)" if "i < BSIZE * Suc k" for i
  proof (cases "i < BSIZE * k")
    case False
    with that have k: "i div BSIZE = k" by (simp add: BSIZE_def div_nat_eqI mult.commute)
    then have "i mod BSIZE = i - BSIZE * k" using minus_mult_div_eq_mod [of i BSIZE] by simp
    with k False that show ?thesis by simp
  qed (use pg(2) in auto)
  have same: "(bk_data (kblk s))(?n := bk_disk (kblk s) ?n) = bk_data (kblk s)" using n(3) by auto
  have "readswap_body 1 (kva f) bno k t = Inr ((), s\<lparr>k_phys := (k_phys s)\<lparr>pmem := (pmem (k_phys s))(f := ?pg)\<rparr>\<rparr>)"
    using n assms(4) same unfolding pg(1)
    by (simp add: readswap_body_def on_phys_def run_simps on_disk_blk_run fun_upd_def if_distrib cong: if_cong)
  then show ?thesis using new by (auto simp: wp_def loaded_def)
qed

lemma kalloc_untracked: "kalloc pid (-1) = on_phys kalloc0"
  by (auto simp: kalloc_def kalloc0_def on_phys_def fun_eq_iff run_simps split: sum.splits)

lemma kalloc_nobody: "kalloc (-1) v = on_phys kalloc0"
  by (auto simp: kalloc_def kalloc0_def on_phys_def fun_eq_iff run_simps split: sum.splits)

text \<open>\<open>readswap\<close> takes the first free page and fills it with the eight blocks.\<close>

lemma readswap_spec:
  assumes "free_rep (k_phys s) (f # fs)" "area_ok (kblk s) bno" "blk_ok (kblk s)" "area bno 8 \<inter> bk_dirty (kblk s) = {}"
  shows "wp (readswap p 1 bno) (\<lambda>r t. r = kva f \<and> (\<exists>pg. t = s\<lparr>k_phys := (k_phys s)\<lparr>freelist := ld32 (pmem (k_phys s) f) 0,
      pmem := (pmem (k_phys s))(f := pg)\<rparr>\<rparr> \<and>
      (\<forall>i < 4096. pg i = bk_data (kblk s) (bno + of_nat (i div BSIZE)) (i mod BSIZE)))) s"
proof -
  let ?s = "s\<lparr>k_phys := (k_phys s)\<lparr>freelist := ld32 (pmem (k_phys s) f) 0\<rparr>\<rparr>"
  have f: "f < 57344" using assms(1) by (simp add: free_rep_def page_ok_def)
  have "wp (for_each (readswap_body 1 (kva f) bno) [0 ..< 8]) (\<lambda>_ t. loaded bno f 8 ?s t) ?s"
  proof (rule wp_for_each)
    show "loaded bno f 0 ?s ?s" by (auto simp: loaded_def intro!: exI [of _ "pmem (k_phys s) f"])
  qed (use f assms in \<open>auto intro!: loaded_step\<close>)
  then show ?thesis
    using kalloc0_some [OF assms(1)] f
    by (auto simp: readswap_def wp_rules kalloc_untracked wp_run kva_neq_0 loaded_def BSIZE_def elim!: wp_mono)
qed

section \<open>Swapping a page out and in\<close>

text \<open>
  \<open>swap_ready p d fs es les s\<close>: process \<open>p\<close> has its page directory in frame \<open>d\<close>; \<open>fs\<close> are the free pages,
  \<open>es\<close> its swapped pages and \<open>les\<close> the resident pages; the disk has room for the swap spaces, which lie
  behind the file system, so that no block of them is pinned by the log.
\<close>

definition swap_ready :: "nat \<Rightarrow> nat \<Rightarrow> nat list \<Rightarrow> (u32 \<times> int \<times> nat) list \<Rightarrow> (u32 \<times> u32) list \<Rightarrow> kern \<Rightarrow> bool" where
  "swap_ready p d fs es les s \<longleftrightarrow> p_pgdir (procs s p) = kva d \<and> pt_wf (k_phys s) d fs \<and> KERNBASE \<le> kend (k_phys s) \<and>
     swap_holds (k_swap s) (swap_list (procs s p)) es \<and> lru_holds (k_lru s) les \<and>
     bk_held (kblk s) = {} \<and> blk_ok (kblk s) \<and> 23760 \<le> unat (bk_size (kblk s)) \<and>
     (\<forall>m \<in> bk_dirty (kblk s). unat m < SWAP1_START)"

definition swap_start :: "nat \<Rightarrow> bool" where
  "swap_start start \<longleftrightarrow> start = SWAP1_START \<or> start = SWAP2_START \<or> start = SWAP3_START"

lemma swap_area_nat:
  assumes "swap_start start" "n < MAX_FRAME_SWAP" "i < 8"
  shows "unat (of_nat (start + n * 8) + of_nat i :: u32) = start + n * 8 + i"
proof -
  have "start + n * 8 + i < 2 ^ 32"
    using assms by (auto simp: swap_start_def SWAP1_START_def SWAP2_START_def SWAP3_START_def MAX_FRAME_SWAP_def)
  moreover have "of_nat (start + n * 8) + of_nat i = (of_nat (start + n * 8 + i) :: u32)" by simp
  ultimately show ?thesis by (simp only: unat_of_nat) simp
qed

lemma swap_area_ok:
  assumes "swap_ready p d fs es les s" "swap_start start" "n < MAX_FRAME_SWAP"
  shows "area_ok (kblk s) (of_nat (start + n * 8))" "area (of_nat (start + n * 8)) 8 \<inter> bk_dirty (kblk s) = {}"
proof -
  have b: "unat (of_nat (start + n * 8) + of_nat i :: u32) < 23760" "SWAP1_START \<le> unat (of_nat (start + n * 8) + of_nat i :: u32)"
    if "i < 8" for i
    using assms(2,3) that unfolding swap_area_nat [OF assms(2,3) that]
    by (auto simp: swap_start_def SWAP1_START_def SWAP2_START_def SWAP3_START_def MAX_FRAME_SWAP_def)
  show "area_ok (kblk s) (of_nat (start + n * 8))"
    using assms(1) b(1) unfolding area_ok_def swap_ready_def word_less_nat_alt by (meson order_less_le_trans)
  show "area (of_nat (start + n * 8)) 8 \<inter> bk_dirty (kblk s) = {}"
    using assms(1) b(2) unfolding area_def swap_ready_def by (auto simp: not_less [symmetric] simp del: of_nat_add)
qed

lemma swap_holds_bound: "swap_holds s l es \<Longrightarrow> (va, sp, n) \<in> set es \<Longrightarrow> n < MAX_FRAME_SWAP"
  using spath_bound [of "swap_frame_list s" "hdp l" "map (\<lambda>(va, sp, n). n) es" "-1" n]
  by (force simp: swap_holds_def swap_rep_def swap_wf_def)

text \<open>A user address is never one of the kernel's pages, so only the resident list changes.\<close>

lemma klru_free_swap_user:
  assumes "va < kend (k_phys s)" "lru_holds (k_lru s) les" "les \<noteq> [(p_pid (procs s p), va)]"
  shows "wp (klru_free_swap p va) (\<lambda>_ t. \<exists>l. t = s\<lparr>k_lru := l\<rparr> \<and> lru_holds l (remove1 (p_pid (procs s p), va) les)) s"
  using lru_free_frame_spec [OF assms(2,3)] assms(1)
  by (auto simp: klru_free_swap_def wp_rules kfree_bad_def elim!: wp_mono)

definition swapped_out :: "nat \<Rightarrow> nat \<Rightarrow> u32 \<Rightarrow> kern \<Rightarrow> nat option \<Rightarrow> swap \<Rightarrow> lru \<Rightarrow> blk \<Rightarrow> kern" where
  "swapped_out p d va s l sw lr b = set_blk b (s\<lparr>procs := (procs s)(p := (procs s p)\<lparr>swap_list := l\<rparr>), k_swap := sw, k_lru := lr,
     k_phys := set_pte (k_phys s) d (vpn va) (ptn (k_phys s) d (vpn va) AND NOT PTE_P)\<rparr>)"

lemma swap_out_spec:
  assumes r: "swap_ready p d fs es les s" and room: "swap_room (k_swap s)" and start: "swap_start start"
    and va: "va < KERNBASE" "ptn (k_phys s) d (vpn va) \<noteq> 0" and one: "les \<noteq> [(p_pid (procs s p), va)]"
    and buffer: "\<And>q l. buffer (q\<lparr>swap_list := l\<rparr>) = buffer q"
  shows "wp (swap_out_to space buffer start p va) (\<lambda>r t. r = 1 \<and> (\<exists>n l sw lr b. n < MAX_FRAME_SWAP \<and>
      t = swapped_out p d va s l sw lr b \<and> swap_holds sw l (es @ [(va, space, n)]) \<and>
      stored (buffer (procs s p)) (of_nat (start + n * 8)) 8 (kblk s) b \<and> lru_holds lr (remove1 (p_pid (procs s p), va) les))) s"
proof -
  have wf: "pt_wf (k_phys s) d fs" "p_pgdir (procs s p) = kva d" "KERNBASE \<le> kend (k_phys s)" "lru_holds (k_lru s) les"
    "swap_holds (k_swap s) (swap_list (procs s p)) es" using r by (auto simp: swap_ready_def)
  let ?s = "\<lambda>l sw. s\<lparr>k_swap := sw, procs := (procs s)(p := (procs s p)\<lparr>swap_list := l\<rparr>)\<rparr>"
  let ?R = "\<lambda>lr. lru_holds lr (remove1 (p_pid (procs s p), va) les)"
  have demap: "wp (demappages_swap_out (kva d) va) Q (k_phys s) = Q 0 (set_pte (k_phys s) d (vpn va) (ptn (k_phys s) d (vpn va) AND NOT PTE_P))" for Q
    using demappages_run [OF wf(1) va(2)] by (simp add: wp_def)
  have unmap: "wp (sq (on_phys (demappages_swap_out (kva d) va)) (sq (klru_free_swap p va) (ret 1)))
      (\<lambda>r t. r = 1 \<and> (\<exists>lr. t = swapped_out p d va s l sw lr b \<and> ?R lr)) (set_blk b (?s l sw))" for l sw b
  proof -
    let ?t = "(set_blk b (?s l sw))\<lparr>k_phys := set_pte (k_phys s) d (vpn va) (ptn (k_phys s) d (vpn va) AND NOT PTE_P)\<rparr>"
    have "kend (k_phys ?t) = kend (k_phys s)" by (simp add: set_pte_def)
    then have "wp (klru_free_swap p va) (\<lambda>_ t. \<exists>lr. t = ?t\<lparr>k_lru := lr\<rparr> \<and> ?R lr) ?t"
      using klru_free_swap_user [of va ?t les p] wf va(1) one by simp
    moreover have "?t\<lparr>k_lru := lr\<rparr> = swapped_out p d va s l sw lr b" for lr by (simp add: swapped_out_def set_blk_def)
    ultimately show ?thesis by (simp add: wp_rules demap)
  qed
  have store: "wp (sq (writeswap (buffer (procs s p)) ROOTDEV (of_nat (start + n * 8)))
      (sq (on_phys (demappages_swap_out (kva d) va)) (sq (klru_free_swap p va) (ret 1))))
    (\<lambda>r t. r = 1 \<and> (\<exists>lr b. t = swapped_out p d va s l sw lr b \<and> stored (buffer (procs s p)) (of_nat (start + n * 8)) 8 (kblk s) b \<and> ?R lr))
    (?s l sw)" if "n < MAX_FRAME_SWAP" for n l sw
    unfolding wp_sq [of "writeswap _ _ _"]
  proof (rule wp_mono [OF writeswap_spec])
    show "area_ok (kblk (?s l sw)) (of_nat (start + n * 8))" using swap_area_ok(1) [OF r start that] by simp
    fix t
    assume "\<exists>b. t = set_blk b (?s l sw) \<and> stored (buffer (procs s p)) (of_nat (start + n * 8)) 8 (kblk (?s l sw)) b"
    then obtain b where b: "t = set_blk b (?s l sw)" "stored (buffer (procs s p)) (of_nat (start + n * 8)) 8 (kblk s) b" by auto
    show "wp (sq (on_phys (demappages_swap_out (kva d) va)) (sq (klru_free_swap p va) (ret 1)))
      (\<lambda>r t. r = 1 \<and> (\<exists>lr b. t = swapped_out p d va s l sw lr b \<and> stored (buffer (procs s p)) (of_nat (start + n * 8)) 8 (kblk s) b \<and> ?R lr)) t"
      unfolding b(1) by (rule wp_mono [OF unmap]) (use b(2) in blast)
  qed
  show ?thesis
    unfolding swap_out_to_def wp_bnd wp_get_proc_at wp_on_swap
  proof (rule wp_mono [OF swapl.enter_law [OF wf(5) room]])
    fix r sw
    assume "\<exists>n l. r = Some (n, l) \<and> swap_holds sw l (es @ [(va, space, n)])"
    then obtain n l where n: "r = Some (n, l)" "swap_holds sw l (es @ [(va, space, n)])" by blast
    have "n < MAX_FRAME_SWAP" using swap_holds_bound [OF n(2), of va space n] by simp
    note st = store [OF this, of l sw]
    show "wp (case r of None \<Rightarrow> ret (-1) | Some (findex, l) \<Rightarrow> sq (upd_proc p (\<lambda>pr. pr\<lparr>swap_list := l\<rparr>))
        (bnd (get_proc_at p) (\<lambda>pr. sq (writeswap (buffer pr) ROOTDEV (of_nat (start + findex * 8)))
          (sq (on_phys (demappages_swap_out (p_pgdir pr) va)) (sq (klru_free_swap p va) (ret 1))))))
      (\<lambda>r t. r = 1 \<and> (\<exists>n l sw lr b. n < MAX_FRAME_SWAP \<and>
      t = swapped_out p d va s l sw lr b \<and> swap_holds sw l (es @ [(va, space, n)]) \<and>
      stored (buffer (procs s p)) (of_nat (start + n * 8)) 8 (kblk s) b \<and> ?R lr)) (s\<lparr>k_swap := sw\<rparr>)"
      apply (simp add: n(1) wp_bnd wp_sq [of "upd_proc _ _"] wp_upd_proc wp_get_proc_at buffer wf(2) del: of_nat_add of_nat_mult)
      by (rule wp_mono [OF st]) (use \<open>n < MAX_FRAME_SWAP\<close> n(2) in blast)
  qed
qed

text \<open>Mapping one page whose page table exists.\<close>

lemma mappages_one:
  assumes wf: "pt_wf s d fs" "pres s d (vpn va div 1024)" and va: "va AND 0xFFF = 0" "va < KERNBASE"
  shows "mappages (kva d) va PGSIZE pa perm sp s = Inr (0, set_pte s d (vpn va) (pa OR perm OR sp))"
proof -
  have nat: "unat va = vpn va * 4096" "unat va < 2147483648"
    using page_aligned [OF va(1)] va(2) by (simp_all add: word_less_nat_alt KERNBASE_def)
  then have v: "va = vaddr_of (vpn va)" using vaddr_of_nat [OF vpn_less] by (simp add: word_unat_eq_iff)
  have "unat (va + (PGSIZE - 1)) = unat va + 4095" using nat by (simp add: unat_word_ariths PGSIZE_def)
  then have "vpn (va + (PGSIZE - 1)) = (vpn va * 4096 + 4095) div 4096" unfolding vpn_def [of "va + _"] nat(1) by simp
  then have "vpn (va + (PGSIZE - 1)) = vpn va" by simp
  then have "PGROUNDDOWN (va + PGSIZE - 1) = va" "PGROUNDDOWN va = va"
    using v by (simp_all add: PGROUNDDOWN_vpn add_diff_eq)
  moreover have nz: "kva (tab s d (vpn va div 1024)) + 4 * PTX va \<noteq> 0"
    using pt_wf_bounds(4) [OF wf(1) vpn_div wf(2)] PTX_less by (intro slot_frame(4))
  have "mappages_loop (Suc k) (kva d) va va pa perm sp s = Inr (0, set_pte s d (vpn va) (pa OR perm OR sp))" for k
    using walk_present [OF wf, of True] set_pte_run [OF wf] nz by (simp add: mappages_loop.simps run_simps)
  from this [of "2 ^ 20 - 1"] have "mappages_loop (2 ^ 20) (kva d) va va pa perm sp s = Inr (0, set_pte s d (vpn va) (pa OR perm OR sp))"
    by (simp only: Suc_diff_1 zero_less_power zero_less_numeral)
  ultimately show ?thesis by (simp only: mappages_def)
qed

text \<open>Taking the first free page and filling it leaves the page tables as they are.\<close>

lemma pt_wf_take:
  fixes pg :: page
  assumes wf: "pt_wf s d (f # fs)"
  defines "t \<equiv> s\<lparr>freelist := ld32 (pmem s f) 0, pmem := (pmem s)(f := pg)\<rparr>"
  shows "pt_wf t d fs" "pres t d = pres s d" "tab t d = tab s d" "tables t d = tables s d" "n < 2 ^ 20 \<Longrightarrow> ptn t d n = ptn s d n"
proof -
  have f: "f \<notin> tables s d" "f \<notin> set fs" using wf by (auto simp: pt_wf_def tables_def free_rep_def)
  then have c: "\<forall>g \<in> tables s d. pmem t g = pmem s g" by (auto simp: t_def)
  show "pres t d = pres s d" "tab t d = tab s d" "tables t d = tables s d" "n < 2 ^ 20 \<Longrightarrow> ptn t d n = ptn s d n"
    using pmem_cong [OF c] by auto
  have "fchain (pmem t) v fs = fchain (pmem s) v fs" for v using f(2) by (intro fchain_cong) (auto simp: t_def)
  moreover have "free_rep (s\<lparr>freelist := ld32 (pmem s f) 0\<rparr>) fs" using wf by (intro free_rep_tail) (simp add: pt_wf_def)
  ultimately have "free_rep t fs" by (simp add: free_rep_def) (simp add: t_def)
  moreover have "kend t = kend s" by (simp add: t_def)
  ultimately show "pt_wf t d fs" using wf by (auto simp: pt_wf_def pmem_cong [OF c])
qed

definition swapped_in :: "nat \<Rightarrow> nat \<Rightarrow> u32 \<Rightarrow> nat \<Rightarrow> page \<Rightarrow> kern \<Rightarrow> nat option \<Rightarrow> swap \<Rightarrow> kern" where
  "swapped_in p d va f pg s l sw = s\<lparr>procs := (procs s)(p := (procs s p)\<lparr>swap_list := l\<rparr>), k_swap := sw,
     k_phys := set_pte ((k_phys s)\<lparr>freelist := ld32 (pmem (k_phys s) f) 0, pmem := (pmem (k_phys s))(f := pg)\<rparr>) d (vpn va)
       (V2P (kva f) OR (PTE_W OR PTE_U) OR 1)\<rparr>"

lemma swap_in_spec:
  assumes r: "swap_ready p d (f # fs) (es1 @ (va, space, n) # es2) les s" and first: "va \<notin> fst ` set es1"
    and start: "swap_start start" and va: "va < KERNBASE" "va AND 0xFFF = 0" "pres (k_phys s) d (vpn va div 1024)"
  shows "wp (swap_in_from start p va) (\<lambda>r t. r = 0 \<and> (\<exists>pg l sw. t = swapped_in p d va f pg s l sw \<and>
      swap_holds sw l (es1 @ es2) \<and>
      (\<forall>i < 4096. pg i = bk_data (kblk s) (of_nat (start + n * 8) + of_nat (i div BSIZE)) (i mod BSIZE)))) s"
proof -
  have wf: "pt_wf (k_phys s) d (f # fs)" "p_pgdir (procs s p) = kva d" "blk_ok (kblk s)"
    "swap_holds (k_swap s) (swap_list (procs s p)) (es1 @ (va, space, n) # es2)" using r by (auto simp: swap_ready_def)
  have n: "n < MAX_FRAME_SWAP" using swap_holds_bound [OF wf(4), of va space n] by simp
  note area = swap_area_ok [OF r start n]
  let ?s = "\<lambda>l sw. s\<lparr>k_swap := sw, procs := (procs s)(p := (procs s p)\<lparr>swap_list := l\<rparr>)\<rparr>"
  let ?P = "\<lambda>pg. \<forall>i < 4096. pg i = bk_data (kblk s) (of_nat (start + n * 8) + of_nat (i div BSIZE)) (i mod BSIZE)"
  have load: "wp (bnd (readswap p ROOTDEV (of_nat (start + n * 8))) (\<lambda>mem. bnd (get_proc_at p) (\<lambda>pr. on_phys (mappages_swap_in (p_pgdir pr) mem va))))
      (\<lambda>r t. r = 0 \<and> (\<exists>pg. t = swapped_in p d va f pg s l sw \<and> ?P pg)) (?s l sw)" for l sw
    unfolding wp_bnd [of "readswap _ _ _"] ROOTDEV_def
  proof (rule wp_mono [OF readswap_spec])
    show "free_rep (k_phys (?s l sw)) (f # fs)" using wf(1) by (simp add: pt_wf_def)
    fix r t
    assume "r = kva f \<and> (\<exists>pg. t = (?s l sw)\<lparr>k_phys := (k_phys (?s l sw))\<lparr>freelist := ld32 (pmem (k_phys (?s l sw)) f) 0,
      pmem := (pmem (k_phys (?s l sw)))(f := pg)\<rparr>\<rparr> \<and>
      (\<forall>i < 4096. pg i = bk_data (kblk (?s l sw)) (of_nat (start + n * 8) + of_nat (i div BSIZE)) (i mod BSIZE)))"
    then obtain pg where t: "r = kva f" "t = (?s l sw)\<lparr>k_phys := (k_phys s)\<lparr>freelist := ld32 (pmem (k_phys s) f) 0,
      pmem := (pmem (k_phys s))(f := pg)\<rparr>\<rparr>" and pg: "?P pg" by auto
    note m = mappages_one [OF pt_wf_take(1) [OF wf(1), of pg] _ va(2,1), of "V2P (kva f)" "PTE_W OR PTE_U" 1]
    show "wp (bnd (get_proc_at p) (\<lambda>pr. on_phys (mappages_swap_in (p_pgdir pr) r va)))
      (\<lambda>r t. r = 0 \<and> (\<exists>pg. t = swapped_in p d va f pg s l sw \<and> ?P pg)) t"
      unfolding t(1) wp_bnd wp_get_proc_at wp_on_phys mappages_swap_in_def
      using m pt_wf_take(2) [OF wf(1), of pg] va(3) pg
      by (auto simp: wp_rules t(2) wf(2) wp_def run_simps swapped_in_def intro!: exI [of _ pg])
  qed (use area wf in auto)
  show ?thesis
    unfolding swap_in_from_def wp_bnd wp_get_proc_at wp_on_swap
  proof (rule wp_mono [OF swapl.take_law [OF wf(4) first]])
    fix r sw
    assume "\<exists>l. r = Some (n, l) \<and> swap_holds sw l (es1 @ es2)"
    then obtain l where l: "r = Some (n, l)" "swap_holds sw l (es1 @ es2)" by blast
    show "wp (case r of None \<Rightarrow> ret (-1) | Some (findex, l) \<Rightarrow> sq (upd_proc p (\<lambda>pr. pr\<lparr>swap_list := l\<rparr>))
        (bnd (readswap p ROOTDEV (of_nat (start + findex * 8))) (\<lambda>mem. bnd (get_proc_at p) (\<lambda>pr. on_phys (mappages_swap_in (p_pgdir pr) mem va)))))
      (\<lambda>r t. r = 0 \<and> (\<exists>pg l sw. t = swapped_in p d va f pg s l sw \<and> swap_holds sw l (es1 @ es2) \<and> ?P pg)) (s\<lparr>k_swap := sw\<rparr>)"
      apply (simp add: l(1) wp_sq [of "upd_proc _ _"] wp_upd_proc del: of_nat_add of_nat_mult)
      by (rule wp_mono [OF load [of l sw]]) (use l(2) in blast)
  qed
qed

text \<open>The page \<open>va\<close> of a process in physical memory, and the state between the two transfers.\<close>

definition upage :: "phys \<Rightarrow> nat \<Rightarrow> u32 \<Rightarrow> page" where
  "upage s d va = pmem s (uframe s d (vpn va))"

lemma page_block_index: "i < 4096 \<Longrightarrow> page_block pg (i div BSIZE) (i mod BSIZE) = pg i"
  by (simp add: page_block_def BSIZE_def)

lemma stored_byte:
  assumes "stored pg bno 8 a b" "i < 4096"
  shows "bk_data b (bno + of_nat (i div BSIZE)) (i mod BSIZE) = pg i"
proof -
  have "i div BSIZE < 8" using assms(2) by (simp add: BSIZE_def)
  with assms show ?thesis by (simp add: stored_def page_block_index)
qed

lemma stored_ok: "stored pg bno 8 a b \<Longrightarrow> blk_ok a \<Longrightarrow> bk_held a = {} \<Longrightarrow> blk_ok b"
  unfolding blk_ok_def
proof (intro allI impI)
  fix n
  assume "stored pg bno 8 a b" "\<forall>n. n \<notin> bk_held a \<and> n \<notin> bk_dirty a \<longrightarrow> bk_data a n = bk_disk a n"
    "bk_held a = {}" "n \<notin> bk_held b \<and> n \<notin> bk_dirty b"
  then show "bk_data b n = bk_disk b n" by (cases "n \<in> area bno 8") (auto simp: stored_def area_def)
qed

lemma swapped_out_ready:
  assumes r: "swap_ready p d fs es les s" and dir: "pres (k_phys s) d (vpn va div 1024)"
    and sw: "swap_holds sw l es'" and lr: "lru_holds lr les'" and b: "stored pg bno 8 (kblk s) b"
  shows "swap_ready p d fs es' les' (swapped_out p d va s l sw lr b)" "pres (k_phys (swapped_out p d va s l sw lr b)) d (vpn va div 1024)"
proof -
  have wf: "pt_wf (k_phys s) d fs" "blk_ok (kblk s)" "bk_held (kblk s) = {}" using r by (auto simp: swap_ready_def)
  have k: "kend (set_pte (k_phys s) d (vpn va) x) = kend (k_phys s)" for x by (simp add: set_pte_def)
  show "swap_ready p d fs es' les' (swapped_out p d va s l sw lr b)"
    using r sw lr set_pte_wf [OF wf(1) dir vpn_less] stored_ok [OF b wf(2,3)] b k
    by (auto simp: swap_ready_def swapped_out_def stored_def)
  show "pres (k_phys (swapped_out p d va s l sw lr b)) d (vpn va div 1024)"
    using dir set_pte_dir(2) [OF wf(1) dir vpn_less] by (simp add: swapped_out_def)
qed

lemma swap_pte:
  assumes "f < 57344"
  shows "frame_of (V2P (kva f) OR (PTE_W OR PTE_U) OR 1) = f" "(V2P (kva f) OR (PTE_W OR PTE_U) OR 1) AND PTE_P \<noteq> 0"
proof -
  have "V2P (kva f) OR (PTE_W OR PTE_U) OR 1 = V2P (kva f) OR PTE_P OR PTE_W OR PTE_U"
    unfolding PTE_P_def by (simp only: or.assoc or.left_commute or.commute)
  then show "frame_of (V2P (kva f) OR (PTE_W OR PTE_U) OR 1) = f" "(V2P (kva f) OR (PTE_W OR PTE_U) OR 1) AND PTE_P \<noteq> 0"
    using new_pde [OF assms] by simp_all
qed

lemma swapped_in_page:
  fixes pg :: page
  assumes r: "swap_ready p d (f # fs) es les s" and dir: "pres (k_phys s) d (vpn va div 1024)" and sw: "swap_holds sw l es'"
  defines "u \<equiv> swapped_in p d va f pg s l sw"
  shows "ppres (k_phys u) d (vpn va)" "uframe (k_phys u) d (vpn va) = f" "upage (k_phys u) d va = pg"
    "m < 2 ^ 20 \<Longrightarrow> m \<noteq> vpn va \<Longrightarrow> ptn (k_phys u) d m = ptn (k_phys s) d m" "swap_ready p d fs es' les u"
proof -
  have wf: "pt_wf (k_phys s) d (f # fs)" using r by (simp add: swap_ready_def)
  note t = pt_wf_take [OF wf, where pg = pg]
  have dir': "pres ((k_phys s)\<lparr>freelist := ld32 (pmem (k_phys s) f) 0, pmem := (pmem (k_phys s))(f := pg)\<rparr>) d (vpn va div 1024)"
    using dir t(2) by simp
  note e = set_pte_ptn [OF t(1) dir' vpn_less]
  have f: "f < 57344" "f \<noteq> tab (k_phys s) d (vpn va div 1024)"
    using wf pt_wf_bounds(6) [OF wf vpn_div dir] by (auto simp: pt_wf_def free_rep_def page_ok_def)
  have up: "ptn (k_phys u) d m = (if m = vpn va then V2P (kva f) OR (PTE_W OR PTE_U) OR 1 else ptn (k_phys s) d m)" if "m < 2 ^ 20" for m
    using e [OF that] t(5) [OF that] by (simp add: u_def swapped_in_def)
  show "ppres (k_phys u) d (vpn va)" and fr: "uframe (k_phys u) d (vpn va) = f"
    using up [OF vpn_less, of va] swap_pte [OF f(1)] by (simp_all add: ppres_def uframe_def)
  show "upage (k_phys u) d va = pg"
    using f(2) t(3) unfolding upage_def fr by (simp add: u_def swapped_in_def set_pte_def)
  show "m < 2 ^ 20 \<Longrightarrow> m \<noteq> vpn va \<Longrightarrow> ptn (k_phys u) d m = ptn (k_phys s) d m" using up by simp
  show "swap_ready p d fs es' les u"
    using r sw set_pte_wf [OF t(1) dir' vpn_less] by (auto simp: swap_ready_def u_def swapped_in_def set_pte_def)
qed

lemma swapped_out_absent:
  assumes "swap_ready p d fs es les s" "pres (k_phys s) d (vpn va div 1024)" "m < 2 ^ 20"
  shows "ptn (k_phys (swapped_out p d va s l sw lr b)) d m =
    (if m = vpn va then ptn (k_phys s) d (vpn va) AND NOT PTE_P else ptn (k_phys s) d m)"
  using set_pte_ptn [of "k_phys s" d fs "vpn va" m] assms vpn_less by (simp add: swap_ready_def swapped_out_def)

lemma not_present: "(e AND NOT PTE_P) AND PTE_P = 0"
  by (simp add: and.assoc)

section \<open>Replacement\<close>

lemma lru_insert_room_wp:
  assumes "lru_holds (k_lru s) es" "length es < MAX_FRAME_LRU"
  shows "wp (get_lru_loop (Suc k) pid va) (\<lambda>_ t. \<exists>l. t = s\<lparr>k_lru := l\<rparr> \<and> lru_holds l (es @ [(pid, va)])) s"
  using lruq.ins_room [OF assms, of "(pid, va)"]
  by (auto simp: get_lru_loop.simps wp_rules elim!: wp_mono)

text \<open>The state in which \<open>get_lru\<close> calls \<open>swap_out\<close>: the page of the victim is in its buffer.\<close>

definition victim_read :: "nat \<Rightarrow> nat \<Rightarrow> u32 \<Rightarrow> lru \<Rightarrow> kern \<Rightarrow> kern" where
  "victim_read p d va lr s = s\<lparr>k_lru := lr, procs := (procs s)(p := (procs s p)\<lparr>write_buffer := upage (k_phys s) d va\<rparr>)\<rparr>"

lemma victim_read_ready:
  "swap_ready p d fs es (e # les) s \<Longrightarrow> lru_holds lr les \<Longrightarrow> swap_ready p d fs es les (victim_read p d va lr s)"
  by (simp add: swap_ready_def victim_read_def)

lemma victim_read_simps [simp]:
  "k_phys (victim_read p d va lr s) = k_phys s" "kblk (victim_read p d va lr s) = kblk s" "k_swap (victim_read p d va lr s) = k_swap s"
  "p_pid (procs (victim_read p d va lr s) p) = p_pid (procs s p)" "write_buffer (procs (victim_read p d va lr s) p) = upage (k_phys s) d va"
  by (simp_all add: victim_read_def)

text \<open>What a replacement of the page \<open>va\<close> of process \<open>p\<close> leaves behind.\<close>

definition replaced :: "nat \<Rightarrow> nat \<Rightarrow> u32 \<Rightarrow> nat list \<Rightarrow> (u32 \<times> int \<times> nat) list \<Rightarrow> (u32 \<times> u32) list \<Rightarrow> kern \<Rightarrow> kern \<Rightarrow> bool" where
  "replaced p d va fs es les s t \<longleftrightarrow>
     (\<exists>n < MAX_FRAME_SWAP. swap_ready p d fs (es @ [(va, 0, n)]) les t \<and>
        stored (upage (k_phys s) d va) (of_nat (SWAP1_START + n * 8)) 8 (kblk s) (kblk t)) \<and>
     k_phys t = set_pte (k_phys s) d (vpn va) (ptn (k_phys s) d (vpn va) AND NOT PTE_P) \<and>
     (\<exists>wb l. procs t = (procs s)(p := (procs s p)\<lparr>write_buffer := wb, swap_list := l\<rparr>))"

lemma replaced_holds:
  assumes "replaced p d va fs es les s t" "pt_wf (k_phys s) d fs" "ptn (k_phys s) d (vpn va) \<noteq> 0"
  shows "lru_holds (k_lru t) les" "\<not> ppres (k_phys t) d (vpn va)"
    "\<exists>n. swap_holds (k_swap t) (swap_list (procs t p)) (es @ [(va, 0, n)]) \<and>
       stored (upage (k_phys s) d va) (of_nat (SWAP1_START + n * 8)) 8 (kblk s) (kblk t)"
proof -
  have "pres (k_phys s) d (vpn va div 1024)" using assms(3) by (auto simp: ptn_def split: if_splits)
  then have "ptn (k_phys t) d (vpn va) = ptn (k_phys s) d (vpn va) AND NOT PTE_P"
    using set_pte_ptn [OF assms(2) _ vpn_less vpn_less] assms(1) by (simp add: replaced_def)
  then show "\<not> ppres (k_phys t) d (vpn va)" by (simp add: ppres_def not_present)
qed (use assms(1) in \<open>auto simp: replaced_def swap_ready_def\<close>)

lemma replaced_lru: "replaced p d va fs es les s t \<Longrightarrow> lru_holds l les' \<Longrightarrow> replaced p d va fs es les' s (t\<lparr>k_lru := l\<rparr>)"
  unfolding replaced_def swap_ready_def by (elim conjE exE, intro conjI exI) simp_all

lemma victim_out:
  assumes r: "swap_ready p d fs es ((p_pid (procs s p), va) # les) s" "swap_room (k_swap s)" and va: "va < KERNBASE" "ptn (k_phys s) d (vpn va) \<noteq> 0"
    and lr: "lru_holds lr les" "2 \<le> length les"
  shows "wp (swapfunc_out 0 p va) (\<lambda>r t. r = 1 \<and> replaced p d va fs es (remove1 (p_pid (procs s p), va) les) s t) (victim_read p d va lr s)"
proof -
  let ?s = "victim_read p d va lr s"
  have start: "swap_start SWAP1_START" by (simp add: swap_start_def)
  have dir: "pres (k_phys s) d (vpn va div 1024)" using va(2) by (auto simp: ptn_def split: if_splits)
  have ready: "swap_ready p d fs es les ?s" by (rule victim_read_ready [OF r(1) lr(1)])
  have "wp (swap_out_to 0 write_buffer SWAP1_START p va) (\<lambda>r t. r = 1 \<and> (\<exists>n l sw lr' b. n < MAX_FRAME_SWAP \<and>
      t = swapped_out p d va ?s l sw lr' b \<and> swap_holds sw l (es @ [(va, 0, n)]) \<and>
      stored (write_buffer (procs ?s p)) (of_nat (SWAP1_START + n * 8)) 8 (kblk ?s) b \<and> lru_holds lr' (remove1 (p_pid (procs ?s p), va) les))) ?s"
    using r(2) va lr(2) by (intro swap_out_spec [OF ready _ start]) auto
  then show ?thesis
    unfolding swapfunc_out_def swap_out_def if_P [OF refl]
  proof (rule wp_mono)
    fix q t
    assume a: "q = 1 \<and> (\<exists>n l sw lr' b. n < MAX_FRAME_SWAP \<and>
      t = swapped_out p d va ?s l sw lr' b \<and> swap_holds sw l (es @ [(va, 0, n)]) \<and>
      stored (write_buffer (procs ?s p)) (of_nat (SWAP1_START + n * 8)) 8 (kblk ?s) b \<and> lru_holds lr' (remove1 (p_pid (procs ?s p), va) les))"
    then obtain n l sw lr' b where n: "n < MAX_FRAME_SWAP" and t: "t = swapped_out p d va ?s l sw lr' b" "swap_holds sw l (es @ [(va, 0, n)])"
      "stored (upage (k_phys s) d va) (of_nat (SWAP1_START + n * 8)) 8 (kblk s) b" "lru_holds lr' (remove1 (p_pid (procs s p), va) les)"
      unfolding victim_read_simps by blast
    show "q = 1 \<and> replaced p d va fs es (remove1 (p_pid (procs s p), va) les) s t"
      using a t n swapped_out_ready(1) [OF ready _ t(2,4), of va "upage (k_phys s) d va" _ b] dir unfolding replaced_def
      by (auto simp: swapped_out_def victim_read_def set_blk_def simp del: of_nat_add of_nat_mult intro!: exI [of _ n])
  qed
qed

lemma get_lru_full:
  assumes r: "swap_ready p d fs es ((p_pid (procs s p), va) # les) s" "swap_room (k_swap s)" and va: "va < KERNBASE" "ptn (k_phys s) d (vpn va) \<noteq> 0"
    and full: "length les + 1 = MAX_FRAME_LRU" and p: "scan_from (\<lambda>i. p_pid (procs s i) = p_pid (procs s p)) 0 NPROC = Some p"
  shows "wp (get_lru pid v) (\<lambda>_ t. replaced p d va fs es (remove1 (p_pid (procs s p), va) les @ [(pid, v)]) s t) s"
proof -
  let ?e = "(p_pid (procs s p), va)" let ?les = "remove1 (p_pid (procs s p), va) les"
  have holds: "lru_holds (k_lru s) (?e # les)" and wf: "pt_wf (k_phys s) d fs" "p_pgdir (procs s p) = kva d" using r(1) by (auto simp: swap_ready_def)
  have "lru_insert pid v (k_lru s) = Inr (-1, k_lru s)"
    using lruq.ins_full [OF holds, of "(pid, v)"] full by simp
  then have ins: "wp (on_lru (lru_insert pid v)) Q s = Q (-1) s" for Q by (simp add: wp_on_lru wp_run)
  have "les \<noteq> []" "2 \<le> length les" using full by (auto simp: MAX_FRAME_LRU_def)
  then have evict: "wp lru_evict (\<lambda>x lr. x = ?e \<and> lru_holds lr les) (k_lru s)" by (intro lruq.evict_first [OF holds])
  have short: "length ?les < MAX_FRAME_LRU" using full length_remove1 [of ?e les] by (simp split: if_splits)
  have again: "wp (get_lru_loop (Suc k) pid v) (\<lambda>_ u. replaced p d va fs es (?les @ [(pid, v)]) s u) t" if "replaced p d va fs es ?les s t" for t k
  proof (rule wp_mono [OF lru_insert_room_wp [of t ?les k pid v]])
    show "lru_holds (k_lru t) ?les" using that by (auto simp: replaced_def swap_ready_def)
  qed (use short replaced_lru [OF that] in auto)
  have round: "wp (bnd (get_proc_at p) (\<lambda>q. bnd (on_phys (read_vaddr (p_pgdir q) va)) (\<lambda>pg. case pg of
        None \<Rightarrow> get_lru_loop (Suc k) pid v
      | Some d \<Rightarrow> sq (upd_proc p (\<lambda>q. q\<lparr>write_buffer := d\<rparr>)) (bnd (swapfunc_out 0 p va) (\<lambda>o'.
          if o' < 0 then panic ''Swap Space is Full'' else get_lru_loop (Suc k) pid v)))))
      (\<lambda>_ u. replaced p d va fs es (?les @ [(pid, v)]) s u) (s\<lparr>k_lru := lr\<rparr>)" if "lru_holds lr les" for lr k
  proof -
    have "wp (bnd (swapfunc_out 0 p va) (\<lambda>o'. if o' < 0 then panic ''Swap Space is Full'' else get_lru_loop (Suc k) pid v))
        (\<lambda>_ u. replaced p d va fs es (?les @ [(pid, v)]) s u) (victim_read p d va lr s)"
      unfolding wp_bnd by (rule wp_mono [OF victim_out [OF r va that \<open>2 \<le> length les\<close>]]) (use again in auto)
    then show ?thesis
      using read_vaddr_run [OF wf(1), of va] va(2)
      by (simp add: wp_bnd wp_sq wp_get_proc_at wp_on_phys wp_upd_proc wf(2) wp_run [of "read_vaddr _ _"] upage_def victim_read_def)
  qed
  show ?thesis
    unfolding get_lru_def numeral_2_eq_2 add_Suc_right add_0_right get_lru_loop.simps(2) [of "Suc MAX_FRAME_LRU"] wp_bnd ins
    using round p by (simp add: wp_bnd wp_on_lru get_proc_def wp_gets) (rule wp_mono [OF evict], clarsimp simp: wp_bnd wp_gets)
qed

text \<open>A process with page 0 resident and one free page.\<close>

definition swap_example :: kern where
  "swap_example = kern_zero\<lparr>k_phys := ufreed user_one 100, k_lru := lru_build [(1, 0), (1, 0x3000)], k_swap := fst (swap_build []),
     procs := (\<lambda>_. proc_zero)(0 := proc_zero\<lparr>p_pgdir := kva 400, p_pid := 1, p_state := RUNNING\<rparr>)\<rparr>"

lemma swap_example_ready:
  "swap_ready 0 400 [100] [] [(1, 0), (1, 0x3000)] swap_example" "swap_room (k_swap swap_example)" "ppres (k_phys swap_example) 400 0"
  "uframe (k_phys swap_example) 400 0 = 200" "p_pid (procs swap_example 0) = 1"
proof -
  have u: "as_wf user_one 400 []" "tables user_one 400 = {400, 300}" using user_one_wf by auto
  have k: "kend user_one = 0x80010000" by (simp add: user_one_def)
  have "pt_wf (ufreed user_one 100) 400 [100]"
    using u k by (intro ufreed_wf) (auto simp: as_wf_def page_ok_def kva_def P2V_def KERNBASE_def)
  then show "swap_ready 0 400 [100] [] [(1, 0), (1, 0x3000)] swap_example"
    using swap_build_empty lru_build_holds [of "[(1, 0), (1, 0x3000)]"] k
    by (simp add: swap_ready_def swap_example_def kern_zero_def blk_ok_def ufreed_def KERNBASE_def MAX_FRAME_LRU_def proc_zero_def)
  show "swap_room (k_swap swap_example)" using swap_build_empty by (simp add: swap_example_def)
  have c: "ptn (ufreed user_one 100) 400 0 = ptn user_one 400 0"
    using u(2) by (intro pmem_cong(5)) (auto simp: ufreed_def)
  show "ppres (k_phys swap_example) 400 0" "uframe (k_phys swap_example) 400 0 = 200"
    using c by (simp_all add: swap_example_def ppres_def uframe_def user_one_ptn PTE_P_def frame_of_nat)
  show "p_pid (procs swap_example 0) = 1" by (simp add: swap_example_def)
qed

text \<open>The page is mapped again, in frame \<open>f\<close>; nothing else of the process has changed since \<open>s\<close>.\<close>

definition brought_back :: "nat \<Rightarrow> nat \<Rightarrow> u32 \<Rightarrow> nat \<Rightarrow> nat list \<Rightarrow> (u32 \<times> int \<times> nat) list \<Rightarrow> (u32 \<times> u32) list \<Rightarrow> kern \<Rightarrow> kern \<Rightarrow> bool" where
  "brought_back p d va f fs es les s u \<longleftrightarrow> ppres (k_phys u) d (vpn va) \<and> uframe (k_phys u) d (vpn va) = f \<and>
     (\<forall>i < 4096. upage (k_phys u) d va i = upage (k_phys s) d va i) \<and>
     (\<forall>m < 2 ^ 20. m \<noteq> vpn va \<longrightarrow> ptn (k_phys u) d m = ptn (k_phys s) d m) \<and>
     (\<forall>m. unat m < SWAP1_START \<longrightarrow> bk_data (kblk u) m = bk_data (kblk s) m) \<and> swap_ready p d fs es les u"

lemma swap_back:
  assumes r: "swap_ready p d (f # fs) es les s" and va: "va < KERNBASE" "va AND 0xFFF = 0" "va \<notin> fst ` set es"
    and dir: "pres (k_phys s) d (vpn va div 1024)" and n: "n < MAX_FRAME_SWAP"
    and t: "t = swapped_out p d va s l sw lr b" and sw: "swap_holds sw l (es @ [(va, 0, n)])"
    and st: "stored (upage (k_phys s) d va) (of_nat (SWAP1_START + n * 8)) 8 (kblk s) b" and lr: "lru_holds lr les'"
  shows "wp (swap_in p va) (\<lambda>r u. r = 0 \<and> brought_back p d va f fs es les' s u) t"
proof -
  have start: "swap_start SWAP1_START" by (simp add: swap_start_def)
  note t' = swapped_out_ready [OF r dir sw lr st, folded t]
  note ptn_t = swapped_out_absent [OF r dir, where l = l and sw = sw and lr = lr and b = b, folded t]
  have low: "m \<notin> area (of_nat (SWAP1_START + n * 8)) 8" if "unat m < SWAP1_START" for m
    using that swap_area_nat [OF start n] unfolding area_def by (auto simp del: of_nat_add of_nat_mult)
  have kb: "kblk t = b" by (simp add: t swapped_out_def)
  have "wp (swap_in_from SWAP1_START p va) (\<lambda>r u. r = 0 \<and> (\<exists>pg l sw. u = swapped_in p d va f pg t l sw \<and> swap_holds sw l (es @ []) \<and>
      (\<forall>i < 4096. pg i = bk_data (kblk t) (of_nat (SWAP1_START + n * 8) + of_nat (i div BSIZE)) (i mod BSIZE)))) t"
    using t' va start by (intro swap_in_spec) auto
  then show ?thesis
    unfolding swap_in_def
  proof (rule wp_mono)
    fix q u
    assume "q = 0 \<and> (\<exists>pg l sw. u = swapped_in p d va f pg t l sw \<and> swap_holds sw l (es @ []) \<and>
      (\<forall>i < 4096. pg i = bk_data (kblk t) (of_nat (SWAP1_START + n * 8) + of_nat (i div BSIZE)) (i mod BSIZE)))"
    then obtain pg l' sw' where u: "q = 0" "u = swapped_in p d va f pg t l' sw'" "swap_holds sw' l' es"
      and byte: "\<forall>i < 4096. pg i = bk_data b (of_nat (SWAP1_START + n * 8) + of_nat (i div BSIZE)) (i mod BSIZE)"
      unfolding kb by auto
    note u' = swapped_in_page [OF t' u(3), where pg = pg, folded u(2)]
    have "kblk u = b" by (simp add: u(2) swapped_in_def kb)
    then show "q = 0 \<and> brought_back p d va f fs es les' s u"
      using u' u(1) byte stored_byte [OF st] ptn_t st low by (simp add: brought_back_def stored_def)
  qed
qed

section \<open>Properties\<close>

text \<open>C3: A page survives the trip to the swap area. With the page in \<open>write_buffer\<close>, as \<open>read_vaddr\<close> leaves
  it, \<open>swap_out\<close> returns 1 and takes the page out of the page table and of the resident list; \<open>swap_in\<close> then
  returns 0 and maps the page again, in the first free frame and with the bytes it had. No other page of the
  process is mapped differently, the list of swapped pages is the one from before, and no block of the
  file system has changed.\<close>

theorem swap_page_round_trip:
  assumes r: "swap_ready p d (f # fs) es les s" "swap_room (k_swap s)" and va: "va < KERNBASE" "va AND 0xFFF = 0"
    and pg: "ppres (k_phys s) d (vpn va)" "va \<notin> fst ` set es" "les \<noteq> [(p_pid (procs s p), va)]"
    and buf: "write_buffer (procs s p) = upage (k_phys s) d va"
  shows "wp (swap_out p va) (\<lambda>r t. r = 1 \<and> \<not> ppres (k_phys t) d (vpn va) \<and>
    wp (swap_in p va) (\<lambda>r u. r = 0 \<and> ppres (k_phys u) d (vpn va) \<and> uframe (k_phys u) d (vpn va) = f \<and>
      (\<forall>i < 4096. upage (k_phys u) d va i = upage (k_phys s) d va i) \<and>
      (\<forall>m < 2 ^ 20. m \<noteq> vpn va \<longrightarrow> ptn (k_phys u) d m = ptn (k_phys s) d m) \<and>
      (\<forall>m. unat m < SWAP1_START \<longrightarrow> bk_data (kblk u) m = bk_data (kblk s) m) \<and>
      swap_ready p d fs es (remove1 (p_pid (procs s p), va) les) u) t) s"
proof -
  have e: "ptn (k_phys s) d (vpn va) \<noteq> 0" using pg(1) by (auto simp: ppres_def)
  then have dir: "pres (k_phys s) d (vpn va div 1024)" by (auto simp: ptn_def split: if_splits)
  have start: "swap_start SWAP1_START" by (simp add: swap_start_def)
  have out: "\<not> ppres (k_phys (swapped_out p d va s l sw lr b)) d (vpn va)" for l sw lr b
    using swapped_out_absent [OF r(1) dir vpn_less [of va]] by (simp add: ppres_def not_present)
  show ?thesis
    unfolding swap_out_def brought_back_def [symmetric]
    by (rule wp_mono [OF swap_out_spec [OF r start va(1) e pg(3)]])
      (use out swap_back [OF r(1) va pg(2) dir] in \<open>auto simp: buf simp del: of_nat_add of_nat_mult\<close>)
qed

theorem swap_page_round_trip_witness:
  "\<exists>s. ppres (k_phys s) 400 0 \<and> wp (swap_out 0 0) (\<lambda>r t. r = 1 \<and> \<not> ppres (k_phys t) 400 0 \<and>
    wp (swap_in 0 0) (\<lambda>r u. r = 0 \<and> uframe (k_phys u) 400 0 = 100 \<and> (\<forall>i < 4096. upage (k_phys u) 400 0 i = upage (k_phys s) 400 0 i)) t) s"
proof (intro exI conjI)
  let ?s = "swap_example\<lparr>procs := (procs swap_example)(0 := (procs swap_example 0)\<lparr>write_buffer := upage (k_phys swap_example) 400 0\<rparr>)\<rparr>"
  have s: "swap_ready 0 400 [100] [] [(1, 0), (1, 0x3000)] ?s" "swap_room (k_swap ?s)" "ppres (k_phys ?s) 400 (vpn 0)"
    using swap_example_ready by (simp_all add: swap_ready_def vpn_def)
  show "ppres (k_phys ?s) 400 0" using swap_example_ready(3) by simp
  show "wp (swap_out 0 0) (\<lambda>r t. r = 1 \<and> \<not> ppres (k_phys t) 400 0 \<and>
    wp (swap_in 0 0) (\<lambda>r u. r = 0 \<and> uframe (k_phys u) 400 0 = 100 \<and> (\<forall>i < 4096. upage (k_phys u) 400 0 i = upage (k_phys ?s) 400 0 i)) t) ?s"
    by (rule wp_mono [OF swap_page_round_trip [OF s(1,2) _ _ s(3)]])
      (auto simp: KERNBASE_def vpn_def elim!: wp_mono)
qed

text \<open>C4: Replacement composes. When the list of resident pages is full, \<open>get_lru\<close> terminates: it evicts the oldest
  page, whose bytes it writes to a free frame of the swap area, where the list of its process records them; the
  page is no longer present, and the new page is the youngest of the resident ones.\<close>

theorem get_lru_replaces_oldest:
  assumes "swap_ready p d fs es ((p_pid (procs s p), va) # les) s" "swap_room (k_swap s)" "va < KERNBASE" "ptn (k_phys s) d (vpn va) \<noteq> 0"
    "length les + 1 = MAX_FRAME_LRU" "scan_from (\<lambda>i. p_pid (procs s i) = p_pid (procs s p)) 0 NPROC = Some p"
  shows "wp (get_lru pid v) (\<lambda>_ t. lru_holds (k_lru t) (remove1 (p_pid (procs s p), va) les @ [(pid, v)]) \<and>
    \<not> ppres (k_phys t) d (vpn va) \<and> (\<exists>n. swap_holds (k_swap t) (swap_list (procs t p)) (es @ [(va, 0, n)]) \<and>
      stored (upage (k_phys s) d va) (of_nat (SWAP1_START + n * 8)) 8 (kblk s) (kblk t))) s"
proof (rule wp_mono [OF get_lru_full [OF assms]])
  fix t
  assume t: "replaced p d va fs es (remove1 (p_pid (procs s p), va) les @ [(pid, v)]) s t"
  have "pt_wf (k_phys s) d fs" using assms(1) by (simp add: swap_ready_def)
  from replaced_holds [OF t this assms(4)] show "lru_holds (k_lru t) (remove1 (p_pid (procs s p), va) les @ [(pid, v)]) \<and>
    \<not> ppres (k_phys t) d (vpn va) \<and> (\<exists>n. swap_holds (k_swap t) (swap_list (procs t p)) (es @ [(va, 0, n)]) \<and>
      stored (upage (k_phys s) d va) (of_nat (SWAP1_START + n * 8)) 8 (kblk s) (kblk t))" by blast
qed

theorem get_lru_replaces_oldest_witness:
  "\<exists>s. wp (get_lru 1 0x4000) (\<lambda>_ t. lru_holds (k_lru t) (replicate 999 (1, 0x3000) @ [(1, 0x4000)]) \<and> \<not> ppres (k_phys t) 400 0) s"
proof
  let ?s = "swap_example\<lparr>k_lru := lru_build ((1, 0) # replicate 999 (1, 0x3000))\<rparr>"
  have l: "lru_holds (lru_build ((1, 0) # replicate 999 (1, 0x3000))) ((1, 0) # replicate 999 (1, 0x3000))"
    by (rule lru_build_holds) (simp add: MAX_FRAME_LRU_def)
  have s: "swap_ready 0 400 [100] [] ((p_pid (procs ?s 0), 0) # replicate 999 (1, 0x3000)) ?s" "swap_room (k_swap ?s)"
    using swap_example_ready l by (simp_all add: swap_ready_def)
  have "ptn (k_phys ?s) 400 (vpn 0) \<noteq> 0" using swap_example_ready(3) by (auto simp: ppres_def vpn_def)
  moreover have "scan_from (\<lambda>i. p_pid (procs ?s i) = p_pid (procs ?s 0)) 0 NPROC = Some 0" by (simp add: scan_from.simps NPROC_def)
  ultimately show "wp (get_lru 1 0x4000) (\<lambda>_ t. lru_holds (k_lru t) (replicate 999 (1, 0x3000) @ [(1, 0x4000)]) \<and> \<not> ppres (k_phys t) 400 0) ?s"
    using swap_example_ready(5)
    by (intro wp_mono [OF get_lru_replaces_oldest [OF s]]) (auto simp: KERNBASE_def MAX_FRAME_LRU_def vpn_def remove1_idem)
qed

text \<open>C39: The physical page is never given back. \<open>swap_out\<close> passes the virtual address of the page to
  \<open>klru_free_swap\<close>, which frees nothing for an address below the kernel: afterwards the list of free pages is
  the same, and the frame of the page is not on it, not mapped by the process and not one of its page tables.\<close>

theorem swap_out_leaks_frame:
  assumes r: "swap_ready p d fs es les s" "as_wf (k_phys s) d fs" "swap_room (k_swap s)" and va: "va < KERNBASE" "ppres (k_phys s) d (vpn va)"
    and one: "les \<noteq> [(p_pid (procs s p), va)]"
  shows "wp (swap_out p va) (\<lambda>r t. r = 1 \<and> pt_wf (k_phys t) d fs \<and>
    uframe (k_phys s) d (vpn va) \<notin> set fs \<and> uframe (k_phys s) d (vpn va) \<notin> tables (k_phys t) d \<and>
    (\<forall>m < 524288. ppres (k_phys t) d m \<longrightarrow> uframe (k_phys t) d m \<noteq> uframe (k_phys s) d (vpn va))) s"
proof -
  let ?g = "uframe (k_phys s) d (vpn va)"
  have e: "ptn (k_phys s) d (vpn va) \<noteq> 0" using va(2) by (auto simp: ppres_def)
  then have dir: "pres (k_phys s) d (vpn va div 1024)" by (auto simp: ptn_def split: if_splits)
  have start: "swap_start SWAP1_START" by (simp add: swap_start_def)
  have n: "vpn va < 524288" using va(1) by (simp add: vpn_def word_less_nat_alt KERNBASE_def)
  have wf: "pt_wf (k_phys s) d fs" using r(1) by (simp add: swap_ready_def)
  have g: "?g \<notin> set fs" "?g \<notin> tables (k_phys s) d" "\<And>m. m < 524288 \<Longrightarrow> ppres (k_phys s) d m \<Longrightarrow> uframe (k_phys s) d m = ?g \<Longrightarrow> m = vpn va"
    using r(2) n va(2) by (auto simp: as_wf_def)
  have out: "?g \<notin> tables (k_phys t) d \<and> pt_wf (k_phys t) d fs \<and> (\<forall>m < 524288. ppres (k_phys t) d m \<longrightarrow> uframe (k_phys t) d m \<noteq> ?g)"
    if t: "t = swapped_out p d va s l sw lr b" for t l sw lr b
  proof -
    have "k_phys t = set_pte (k_phys s) d (vpn va) (ptn (k_phys s) d (vpn va) AND NOT PTE_P)" by (simp add: t swapped_out_def)
    then have "tables (k_phys t) d = tables (k_phys s) d" "pt_wf (k_phys t) d fs"
      using set_pte_dir(4) [OF wf dir vpn_less] set_pte_wf [OF wf dir vpn_less] by simp_all
    moreover have "uframe (k_phys t) d m \<noteq> ?g" if "m < 524288" "ppres (k_phys t) d m" for m
      using swapped_out_absent [OF r(1) dir, of m l sw lr b] g(3) [of m] that
      by (auto simp: t ppres_def uframe_def not_present split: if_splits)
    ultimately show ?thesis using g(2) by simp
  qed
  show ?thesis
    unfolding swap_out_def
    by (rule wp_mono [OF swap_out_spec [OF r(1,3) start va(1) e one]]) (use out g(1) in \<open>simp_all, blast\<close>)
qed

theorem swap_out_leaks_frame_witness:
  "wp (swap_out 0 0) (\<lambda>r t. pt_wf (k_phys t) 400 [100] \<and> 200 \<notin> set [100 :: nat] \<and> 200 \<notin> tables (k_phys t) 400) swap_example"
proof -
  have u: "as_wf user_one 400 []" "tables user_one 400 = {400, 300}" "kend user_one = 0x80010000"
    using user_one_wf by (auto simp: user_one_def)
  have c: "\<forall>g \<in> tables user_one 400. pmem (ufreed user_one 100) g = pmem user_one g" using u(2) by (auto simp: ufreed_def)
  have "ppres (ufreed user_one 100) 400 m \<longleftrightarrow> m = 0" if "m < 524288" for m
    using pmem_cong(5) [OF c, of m] that by (simp add: ppres_def user_one_ptn PTE_P_def)
  moreover have "uframe (ufreed user_one 100) 400 0 = 200" using swap_example_ready(4) by (simp add: swap_example_def)
  moreover have "tables (ufreed user_one 100) 400 = {400, 300}" using pmem_cong(4) [OF c] u(2) by simp
  moreover have "pt_wf (k_phys swap_example) 400 [100]" using swap_example_ready(1) by (simp add: swap_ready_def)
  ultimately have wf: "as_wf (k_phys swap_example) 400 [100]"
    using u(3) by (auto simp: as_wf_def swap_example_def ufreed_def KERNBASE_def page_ok_def kva_def P2V_def)
  show ?thesis
    by (rule wp_mono [OF swap_out_leaks_frame [OF swap_example_ready(1) wf swap_example_ready(2)]])
      (use swap_example_ready in \<open>auto simp: KERNBASE_def vpn_def\<close>)
qed

end
