(* ===== verification/Files.thy ===== *)
theory Files
  imports Fs
begin

text \<open>
  The contents of files: \<open>bmap\<close>, \<open>readi\<close> and \<open>writei\<close> of fs.c on an inode whose blocks are allocated. A file is
  its function from positions to bytes; \<open>readi\<close> returns a piece of it, and \<open>writei\<close> replaces one.
\<close>

section \<open>The bytes of a file\<close>

text \<open>The disk block of block \<open>j\<close> of the inode in slot \<open>k\<close> of the cache, direct or through the indirect block.\<close>

definition file_block :: "fsys \<Rightarrow> nat \<Rightarrow> nat \<Rightarrow> u32" where
  "file_block s k j = (if j < NDIRECT then i_addrs (inodes s k) j
     else ld32 (fdata s (i_addrs (inodes s k) NDIRECT)) (4 * (j - NDIRECT)))"

definition file_byte :: "fsys \<Rightarrow> nat \<Rightarrow> nat \<Rightarrow> u8" where
  "file_byte s k i = fdata s (file_block s k (i div BSIZE)) (i mod BSIZE)"

abbreviation file_size :: "fsys \<Rightarrow> nat \<Rightarrow> nat" where
  "file_size s k \<equiv> unat (i_size (inodes s k))"

text \<open>
  The blocks of a file: they are allocated, lie outside the log, and are different from each other and from the indirect
  block.
\<close>

definition file_wf :: "fsys \<Rightarrow> nat \<Rightarrow> bool" where
  "file_wf s k \<longleftrightarrow> i_dev (inodes s k) = 1 \<and> i_type (inodes s k) \<noteq> T_DEV \<and> file_size s k \<le> MAXFILE * BSIZE \<and>
     (\<forall>j. j * BSIZE < file_size s k \<longrightarrow> file_block s k j \<noteq> 0 \<and> usable s (file_block s k j) \<and>
        (\<forall>i < j. file_block s k i \<noteq> file_block s k j) \<and>
        (NDIRECT * BSIZE < file_size s k \<longrightarrow> file_block s k j \<noteq> i_addrs (inodes s k) NDIRECT)) \<and>
     (NDIRECT * BSIZE < file_size s k \<longrightarrow> i_addrs (inodes s k) NDIRECT \<noteq> 0 \<and> usable s (i_addrs (inodes s k) NDIRECT))"

lemma BSIZE_pos: "0 < BSIZE"
  by (simp add: BSIZE_def)

lemma file_wfD:
  assumes "file_wf s k"
  shows "i_dev (inodes s k) = 1" "file_size s k \<le> 71680"
    "j * BSIZE < file_size s k \<Longrightarrow> file_block s k j \<noteq> 0" "j * BSIZE < file_size s k \<Longrightarrow> usable s (file_block s k j)"
    "NDIRECT * BSIZE < file_size s k \<Longrightarrow> i_addrs (inodes s k) NDIRECT \<noteq> 0 \<and> usable s (i_addrs (inodes s k) NDIRECT)"
  using assms by (auto simp: file_wf_def MAXFILE_def NDIRECT_def NINDIRECT_def BSIZE_def)

lemma file_block_inj:
  assumes "file_wf s k" "i * BSIZE < file_size s k" "j * BSIZE < file_size s k"
  shows "file_block s k i = file_block s k j \<longleftrightarrow> i = j"
  using assms by (cases i j rule: linorder_cases) (fastforce simp: file_wf_def)+

text \<open>The block of a position inside the file.\<close>

lemma file_block_at: "o' < file_size s k \<Longrightarrow> o' div BSIZE * BSIZE < file_size s k"
  by (rule le_less_trans [OF div_times_less_eq_dividend])

section \<open>Reading\<close>

lemma bmap_run:
  assumes wf: "file_wf s k" and idle: "fs_idle s" and bn: "unat bn * BSIZE < file_size s k"
  shows "bmap k bn s = Inr (file_block s k (unat bn), s)"
proof -
  note w = file_wfD [OF wf]
  have dir: "bn < of_nat NDIRECT \<longleftrightarrow> unat bn < NDIRECT" by (simp add: word_less_nat_alt NDIRECT_def)
  show ?thesis
  proof (cases "unat bn < NDIRECT")
    case True
    then show ?thesis using w(3) [OF bn] dir by (simp add: bmap_def run_simps get_inode_def file_block_def Let_def)
  next
    case False
    have b: "unat bn < 140" using bn w(2) by (simp add: BSIZE_def)
    have sub: "unat (bn - of_nat NDIRECT) = unat bn - NDIRECT"
      using False by (subst unat_sub) (simp_all add: word_le_nat_alt NDIRECT_def)
    then have ind: "bn - of_nat NDIRECT < of_nat NINDIRECT"
      using b by (simp add: word_less_nat_alt NDIRECT_def NINDIRECT_def BSIZE_def)
    have "NDIRECT * BSIZE \<le> unat bn * BSIZE" using False by simp
    then have big: "NDIRECT * BSIZE < file_size s k" using bn by linarith
    have rd: "fs_bread 1 (i_addrs (inodes s k) NDIRECT) s =
        Inr (fdata s (i_addrs (inodes s k) NDIRECT), holding_block (i_addrs (inodes s k) NDIRECT) s)"
      using w(5) [OF big] idle by (intro fs_bread_run) (auto simp: fs_idle_def usable_def)
    show ?thesis
      using False dir ind w(1) w(3) [OF bn] w(5) [OF big] rd fs_brelse_run [OF idle]
      by (simp add: bmap_def run_simps get_inode_def file_block_def Let_def sub w(1))
  qed
qed

text \<open>One round of the loops of \<open>readi\<close> and \<open>writei\<close> moves \<open>round_len\<close> bytes, all in one block.\<close>

definition round_len :: "nat \<Rightarrow> nat \<Rightarrow> nat" where
  "round_len o' r = min r (BSIZE - o' mod BSIZE)"

lemma round_len_block:
  "0 < r \<Longrightarrow> 0 < round_len o' r" "round_len o' r \<le> r" "o' mod BSIZE + round_len o' r \<le> BSIZE"
  "i < round_len o' r \<Longrightarrow> (o' + i) div BSIZE = o' div BSIZE \<and> (o' + i) mod BSIZE = o' mod BSIZE + i"
proof -
  have m: "o' mod 512 < 512" by simp
  show "0 < r \<Longrightarrow> 0 < round_len o' r" "round_len o' r \<le> r" "o' mod BSIZE + round_len o' r \<le> BSIZE"
    using m by (simp_all add: round_len_def BSIZE_def)
  assume "i < round_len o' r"
  then have "o' mod 512 + i < 512" by (simp add: round_len_def BSIZE_def less_diff_conv add.commute)
  moreover have "o' + i = (o' div 512) * 512 + (o' mod 512 + i)" by simp
  ultimately show "(o' + i) div BSIZE = o' div BSIZE \<and> (o' + i) mod BSIZE = o' mod BSIZE + i"
    using div_mult_self3 [of 512 "o' div 512" "o' mod 512 + i"] mod_mult_self3 [of "o' div 512" 512 "o' mod 512 + i"]
    by (simp add: BSIZE_def)
qed

text \<open>The words of such a round.\<close>

lemma round_words:
  fixes tot off n :: u32
  assumes "tot < n" "unat off + unat (n - tot) \<le> 71680"
  defines "m \<equiv> min (n - tot) (of_nat BSIZE - off mod of_nat BSIZE)"
  shows "unat m = round_len (unat off) (unat (n - tot))" "unat (off + m) = unat off + unat m" "tot + m \<le> n"
    "unat (n - (tot + m)) = unat (n - tot) - unat m" "unat (off mod of_nat BSIZE) = unat off mod BSIZE"
    "unat (off div of_nat BSIZE) = unat off div BSIZE" "0 < unat (n - tot)"
proof -
  show o1: "unat (off mod of_nat BSIZE) = unat off mod BSIZE" "unat (off div of_nat BSIZE) = unat off div BSIZE"
    by (simp_all add: BSIZE_def unat_mod unat_div)
  have "unat (of_nat BSIZE - off mod of_nat BSIZE) = BSIZE - unat off mod BSIZE"
    using o1(1) by (subst unat_sub) (simp_all add: word_le_nat_alt BSIZE_def)
  then show m: "unat m = round_len (unat off) (unat (n - tot))"
    by (simp add: m_def round_len_def min_def word_le_nat_alt)
  then have le: "unat m \<le> unat (n - tot)" by (simp add: round_len_block)
  with assms(2) show "unat (off + m) = unat off + unat m" by (subst unat_plus_simple [THEN iffD1]) (auto simp: word_le_nat_alt unat_word_ariths)
  have "unat (n - tot) = unat n - unat tot" using assms(1) by (intro unat_sub) simp
  then have "unat tot + unat m \<le> unat n" using le assms(1) by (simp add: word_less_nat_alt)
  moreover from this have "unat (tot + m) = unat tot + unat m" using unat_bound [of n] by (simp add: unat_word_ariths)
  ultimately show "tot + m \<le> n" by (simp add: word_le_nat_alt)
  have e: "n - (tot + m) = n - tot - m" by (simp add: algebra_simps)
  show "unat (n - (tot + m)) = unat (n - tot) - unat m" unfolding e using le by (intro unat_sub) (simp add: word_le_nat_alt)
  show "0 < unat (n - tot)" using assms(1) by (auto simp: word_less_nat_alt unat_gt_0)
qed

lemma readi_loop_run:
  assumes wf: "file_wf s k" and idle: "fs_idle s"
  shows "unat off + unat (n - tot) \<le> file_size s k \<Longrightarrow> unat (n - tot) < fuel \<Longrightarrow> tot \<le> n \<Longrightarrow>
    readi_loop fuel k tot off n s = Inr (map (file_byte s k) [unat off ..< unat off + unat (n - tot)], s)"
proof (induction fuel arbitrary: tot off)
  case (Suc fuel)
  show ?case
  proof (cases "tot < n")
    case False
    then have "n = tot" using Suc.prems(3) by simp
    then show ?thesis by (subst readi_loop.simps) (simp add: run_simps)
  next
    case True
    define m where "m = min (n - tot) (of_nat BSIZE - off mod of_nat BSIZE)"
    let ?o = "unat off" let ?r = "unat (n - tot)"
    note w = round_words [OF True, of off, folded m_def] file_wfD [OF wf]
    have sz: "?o + ?r \<le> 71680" using Suc.prems(1) w(9) by simp
    note w = w(1-7) [OF sz] w(8-)
    have in_file: "?o div BSIZE * BSIZE < file_size s k" using Suc.prems(1) w(7) by (intro file_block_at) linarith
    let ?b = "file_block s k (?o div BSIZE)"
    have rd: "fs_bread 1 ?b s = Inr (fdata s ?b, holding_block ?b s)"
      using w(11) [OF in_file] idle by (intro fs_bread_run) (auto simp: fs_idle_def usable_def)
    have m: "0 < unat m" "unat m \<le> ?r" using w(1) round_len_block(1,2) w(7) by simp_all
    have "readi_loop fuel k (tot + m) (off + m) n s = Inr (map (file_byte s k) [?o + unat m ..< ?o + ?r], s)"
      using Suc.IH [of "off + m" "tot + m"] Suc.prems m w(2-4) by simp
    moreover have "bytes_at (fdata s ?b) (?o mod BSIZE) (unat m) = map (file_byte s k) [?o ..< ?o + unat m]"
      using round_len_block(4) [of _ ?o ?r] w(1) by (intro nth_equalityI) (simp_all add: bytes_at_def file_byte_def)
    moreover have "[?o ..< ?o + ?r] = [?o ..< ?o + unat m] @ [?o + unat m ..< ?o + ?r]"
      using m(2) upt_add_eq_append [of ?o "?o + unat m" "?r - unat m"] by simp
    ultimately show ?thesis
      using True bmap_run [OF wf idle, of "off div of_nat BSIZE"] in_file rd fs_brelse_run [OF idle, of ?b]
      by (subst readi_loop.simps) (simp add: run_simps get_inode_def w(5,6,8) m_def [symmetric] Let_def)
  qed
qed simp

text \<open>\<open>readi\<close> returns the bytes from \<open>off\<close> on, as far as the file goes, and changes nothing.\<close>

lemma readi_run:
  assumes wf: "file_wf s k" and idle: "fs_idle s" and off: "unat off \<le> file_size s k" "unat off + unat n < 2 ^ 32"
  shows "readi dv k off n s = Inr ((int (min (unat n) (file_size s k - unat off)),
    map (file_byte s k) [unat off ..< unat off + min (unat n) (file_size s k - unat off)]), s)"
proof -
  let ?n = "if i_size (inodes s k) < off + n then i_size (inodes s k) - off else n"
  have plus: "unat (off + n) = unat off + unat n" using off(2) by (simp add: unat_word_ariths)
  then have nowrap: "\<not> off + n < off" "\<not> i_size (inodes s k) < off" using off(1) by (simp_all add: word_less_nat_alt)
  have sub: "unat (i_size (inodes s k) - off) = file_size s k - unat off" using off(1) by (intro unat_sub) (simp add: word_le_nat_alt)
  have n: "unat ?n = min (unat n) (file_size s k - unat off)"
    using plus sub off(1) by (auto simp: word_less_nat_alt min_def)
  then have small: "unat ?n \<le> 71680" using file_wfD(2) [OF wf] by simp
  then have "sint ?n = int (unat ?n)" using sint_small [of "unat ?n"] by simp
  moreover have "readi_loop (Suc (unat ?n)) k 0 off ?n s = Inr (map (file_byte s k) [unat off ..< unat off + unat ?n], s)"
    using readi_loop_run [OF wf idle, of off ?n 0 "Suc (unat ?n)"] n off(1) by simp
  moreover have "i_type (inodes s k) \<noteq> T_DEV" using wf by (simp add: file_wf_def)
  ultimately show ?thesis using nowrap n by (simp add: readi_def run_simps get_inode_def Let_def)
qed

section \<open>Writing\<close>

text \<open>From \<open>s\<close> to \<open>t\<close> the bytes of file \<open>k\<close> from position \<open>o'\<close> on have been replaced by \<open>bs\<close>, and nothing else has changed.\<close>

definition rewritten :: "nat \<Rightarrow> nat \<Rightarrow> u8 list \<Rightarrow> fsys \<Rightarrow> fsys \<Rightarrow> bool" where
  "rewritten k o' bs s t \<longleftrightarrow> fs_frame s t \<and>
     (\<forall>j. j * BSIZE < file_size s k \<longrightarrow> file_block t k j = file_block s k j) \<and>
     (\<forall>i < file_size s k. file_byte t k i = (if o' \<le> i \<and> i < o' + length bs then bs ! (i - o') else file_byte s k i)) \<and>
     (\<forall>n. (\<forall>j. j * BSIZE < file_size s k \<longrightarrow> n \<noteq> file_block s k j) \<longrightarrow> fdata t n = fdata s n)"

lemma rewritten_inodes: "rewritten k o' bs s t \<Longrightarrow> inodes t = inodes s"
  by (simp add: rewritten_def fs_frame_def)

lemma rewritten_wf:
  assumes "rewritten k o' bs s t" "file_wf s k"
  shows "file_wf t k"
proof -
  have "fs_frame s t" using assms(1) by (simp add: rewritten_def)
  then have i: "inodes t = inodes s" "\<And>n. usable t n = usable s n" by (simp_all add: usable_frame) (simp add: fs_frame_def)
  have b: "j * BSIZE < file_size s k \<Longrightarrow> file_block t k j = file_block s k j" for j using assms(1) by (simp add: rewritten_def)
  have less: "i * BSIZE < file_size s k" if "i < j" "j * BSIZE < file_size s k" for i j
    using that by (meson less_imp_le_nat mult_le_mono1 order_le_less_trans)
  have "file_block t k j \<noteq> 0 \<and> usable s (file_block t k j) \<and> (\<forall>i < j. file_block t k i \<noteq> file_block t k j) \<and>
      (NDIRECT * BSIZE < file_size s k \<longrightarrow> file_block t k j \<noteq> i_addrs (inodes s k) NDIRECT)" if j: "j * BSIZE < file_size s k" for j
  proof -
    have "\<forall>i < j. file_block t k i = file_block s k i" using b less [OF _ j] by blast
    then show ?thesis using assms(2) j unfolding file_wf_def b [OF j] by auto
  qed
  then show ?thesis using assms(2) unfolding file_wf_def i by blast
qed

lemma rewritten_refl: "rewritten k o' [] s s"
  by (auto simp: rewritten_def)

lemma rewritten_trans:
  assumes "rewritten k o' bs s t" "rewritten k (o' + length bs) cs t u"
  shows "rewritten k o' (bs @ cs) s u"
proof -
  have i: "inodes t = inodes s" using rewritten_inodes [OF assms(1)] .
  have "file_byte u k j = (if o' \<le> j \<and> j < o' + length (bs @ cs) then (bs @ cs) ! (j - o') else file_byte s k j)"
    if "j < file_size s k" for j
  proof -
    have "file_byte t k j = (if o' \<le> j \<and> j < o' + length bs then bs ! (j - o') else file_byte s k j)"
      "file_byte u k j = (if o' + length bs \<le> j \<and> j < o' + length bs + length cs then cs ! (j - (o' + length bs)) else file_byte t k j)"
      using assms that unfolding rewritten_def i by blast+
    moreover have "j - o' < length bs \<longleftrightarrow> j < o' + length bs" if "o' \<le> j" using that by linarith
    ultimately show ?thesis by (auto simp: nth_append diff_diff_add)
  qed
  moreover have "fs_frame s u" using assms fs_frame_trans by (auto simp: rewritten_def)
  ultimately show ?thesis using assms unfolding rewritten_def i by simp
qed

text \<open>Storing into one block of the file.\<close>

lemma store_rewrites:
  assumes wf: "file_wf s k" and r: "fs_ready (Suc q) s" and o': "o' < file_size s k" and bs: "o' mod BSIZE + length bs \<le> BSIZE"
  defines "b \<equiv> file_block s k (o' div BSIZE)"
  shows "\<exists>t. sq (fs_bset b (put_bytes (fdata s b) (o' mod BSIZE) bs)) (sq (on_log (log_write b)) (fs_brelse b)) (holding_block b s) =
      Inr ((), t) \<and> fs_ready q t \<and> rewritten k o' bs s t"
proof -
  note in_file = file_block_at [OF o']
  have "usable s b" unfolding b_def by (rule file_wfD(4) [OF wf in_file])
  from fs_store_run [OF r this, of "put_bytes (fdata s b) (o' mod BSIZE) bs"] obtain t
    where t: "sq (fs_bset b (put_bytes (fdata s b) (o' mod BSIZE) bs)) (sq (on_log (log_write b)) (fs_brelse b)) (holding_block b s) = Inr ((), t)"
      "fs_ready q t" "fs_frame s t" "fdata t = (fdata s)(b := put_bytes (fdata s b) (o' mod BSIZE) bs)" by blast
  have i: "inodes t = inodes s" using t(3) by (simp add: fs_frame_def)
  have same: "file_block t k j = file_block s k j" if j: "j * BSIZE < file_size s k" for j
  proof (cases "j < NDIRECT")
    case False
    then have "NDIRECT * BSIZE \<le> j * BSIZE" by simp
    then have "NDIRECT * BSIZE < file_size s k" using j by linarith
    then have "i_addrs (inodes s k) NDIRECT \<noteq> b" using wf in_file unfolding file_wf_def b_def by metis
    then show ?thesis by (simp add: file_block_def i t(4))
  qed (simp add: file_block_def i)
  have byte: "file_byte t k j = (if o' \<le> j \<and> j < o' + length bs then bs ! (j - o') else file_byte s k j)" if j: "j < file_size s k" for j
  proof (cases "j div BSIZE = o' div BSIZE")
    case True
    then have j': "j = o' div BSIZE * BSIZE + j mod BSIZE" using div_mult_mod_eq [of j BSIZE] by simp
    have "o' \<le> j \<longleftrightarrow> o' mod BSIZE \<le> j mod BSIZE" "j < o' + length bs \<longleftrightarrow> j mod BSIZE < o' mod BSIZE + length bs" "j - o' = j mod BSIZE - o' mod BSIZE"
      using j' div_mult_mod_eq [of o' BSIZE] by linarith+
    then show ?thesis
      using True same [OF file_block_at [OF j]] by (simp add: file_byte_def t(4) b_def put_bytes_def)
  next
    case False
    have "\<not> (o' \<le> j \<and> j < o' + length bs)"
    proof
      assume a: "o' \<le> j \<and> j < o' + length bs"
      then have "j - o' < BSIZE - o' mod BSIZE" using bs by linarith
      then have "j - o' < round_len o' BSIZE" by (simp add: round_len_def)
      then have "(o' + (j - o')) div BSIZE = o' div BSIZE" using round_len_block(4) by blast
      with False a show False by simp
    qed
    moreover have "file_block s k (j div BSIZE) \<noteq> b"
      using file_block_inj [OF wf file_block_at [OF j] in_file] False by (simp add: b_def)
    ultimately show ?thesis using same [OF file_block_at [OF j]] by (auto simp: file_byte_def t(4))
  qed
  have "fdata t n = fdata s n" if "\<forall>j. j * BSIZE < file_size s k \<longrightarrow> n \<noteq> file_block s k j" for n
    using that in_file by (simp add: t(4) b_def)
  with t same byte show ?thesis unfolding rewritten_def by blast
qed

text \<open>
  \<open>writei_loop\<close> inside the file, in a transaction with room for the \<open>q\<close> blocks that it touches.
\<close>

lemma sq_three: "sq a (sq b c) s = Inr (x, t) \<Longrightarrow> sq a (sq b (sq c d)) s = d t"
  by (auto simp: sq_run split: sum.splits)

lemma writei_loop_run:
  "file_wf s k \<Longrightarrow> fs_ready q s \<Longrightarrow> unat off + unat (n - tot) \<le> file_size s k \<Longrightarrow>
   unat off + unat (n - tot) \<le> (unat off div BSIZE + q) * BSIZE \<Longrightarrow> length src = unat (n - tot) \<Longrightarrow> unat (n - tot) < fuel \<Longrightarrow> tot \<le> n \<Longrightarrow>
   \<exists>t q'. writei_loop fuel k tot off n src s = Inr (off + (n - tot), t) \<and> fs_ready q' t \<and> rewritten k (unat off) src s t"
proof (induction fuel arbitrary: tot off src s q)
  case (Suc fuel)
  show ?case
  proof (cases "tot < n")
    case False
    then have "n = tot" using Suc.prems(7) by simp
    then show ?thesis using Suc.prems rewritten_refl by (subst writei_loop.simps) (auto simp: run_simps)
  next
    case True
    note wf = Suc.prems(1) and r = Suc.prems(2)
    define m where "m = min (n - tot) (of_nat BSIZE - off mod of_nat BSIZE)"
    let ?o = "unat off" let ?r = "unat (n - tot)" let ?b = "file_block s k (unat off div BSIZE)"
    have sz: "?o + ?r \<le> 71680" using Suc.prems(3) file_wfD(2) [OF wf] by simp
    note w = round_words [OF True sz, folded m_def]
    have m: "0 < unat m" "unat m \<le> ?r" "?o mod BSIZE + unat m \<le> BSIZE" using w(1) round_len_block(1-3) w(7) by simp_all
    have in_file: "?o < file_size s k" using Suc.prems(3) w(7) by linarith
    have "?o div BSIZE * BSIZE \<le> ?o" by simp
    moreover have "?o < (?o div BSIZE + q) * BSIZE" using Suc.prems(4) w(7) by linarith
    ultimately have "q \<noteq> 0" by (metis add.right_neutral not_le)
    then obtain q0 where q: "q = Suc q0" by (cases q) auto
    have rd: "fs_bread 1 ?b s = Inr (fdata s ?b, holding_block ?b s)"
      using file_wfD(4) [OF wf file_block_at [OF in_file]] r by (intro fs_bread_run) (auto simp: fs_ready_def usable_def)
    obtain t where t: "sq (fs_bset ?b (put_bytes (fdata s ?b) (?o mod BSIZE) (take (unat m) src))) (sq (on_log (log_write ?b)) (fs_brelse ?b))
        (holding_block ?b s) = Inr ((), t)" "fs_ready q0 t" "rewritten k ?o (take (unat m) src) s t"
      using store_rewrites [OF wf r [unfolded q] in_file, of "take (unat m) src"] m Suc.prems(5) by auto
    have i: "inodes t = inodes s" by (rule rewritten_inodes [OF t(3)])
    have cover: "?o + ?r \<le> ((?o + unat m) div BSIZE + q0) * BSIZE \<or> unat m = ?r"
    proof (cases "unat m = ?r")
      case False
      then have "unat m = BSIZE - ?o mod BSIZE" using w(1) by (simp add: round_len_def min_def split: if_splits)
      moreover have "?o mod BSIZE < BSIZE" by (simp add: BSIZE_def)
      ultimately have "?o + unat m = ?o div BSIZE * BSIZE + BSIZE" using div_mult_mod_eq [of ?o BSIZE] by linarith
      then have "(?o + unat m) div BSIZE = ?o div BSIZE + 1" by (metis BSIZE_pos div_add_self2 div_mult_self_is_m neq0_conv)
      then show ?thesis using Suc.prems(4) q by simp
    qed simp
    have "?o + unat m + (?r - unat m) \<le> ((?o + unat m) div BSIZE + q0) * BSIZE \<or> ?r - unat m = 0" using cover m(2) by auto
    then have "\<exists>u q'. writei_loop fuel k (tot + m) (off + m) n (drop (unat m) src) t = Inr (off + m + (n - (tot + m)), u) \<and>
        fs_ready q' u \<and> rewritten k (?o + unat m) (drop (unat m) src) t u"
    proof
      assume "?o + unat m + (?r - unat m) \<le> ((?o + unat m) div BSIZE + q0) * BSIZE"
      then show ?thesis
        using Suc.IH [OF rewritten_wf [OF t(3) wf] t(2), of "off + m" "tot + m" "drop (unat m) src"] Suc.prems m w(2-4) i by simp
    next
      assume z: "?r - unat m = 0"
      then have "n = tot + m" using w(4) by (metis unat_eq_zero eq_iff_diff_eq_0)
      moreover have "drop (unat m) src = []" using z Suc.prems(5) by simp
      ultimately show ?thesis using t(2) rewritten_refl Suc.prems(6) m by (cases fuel) (auto simp: writei_loop.simps run_simps)
    qed
    then obtain u q' where u: "writei_loop fuel k (tot + m) (off + m) n (drop (unat m) src) t = Inr (off + (n - tot), u)"
      "fs_ready q' u" "rewritten k (?o + length (take (unat m) src)) (drop (unat m) src) t u"
      using m Suc.prems(5) by auto
    have "writei_loop (Suc fuel) k tot off n src s = Inr (off + (n - tot), u)"
      using True bmap_run [OF wf fs_ready_idle [OF r], of "off div of_nat BSIZE"] file_block_at [OF in_file] rd u(1)
      by (subst writei_loop.simps)
        (simp add: bnd_run gets_run get_inode_def w(5,6) file_wfD(1) [OF wf] m_def [symmetric] Let_def sq_three [OF t(1)])
    moreover have "rewritten k ?o src s u" using rewritten_trans [OF t(3) u(3)] by simp
    ultimately show ?thesis using u(2) by blast
  qed
qed simp

lemma writei_run:
  assumes wf: "file_wf s k" and r: "fs_ready q s" and off: "unat off + length src \<le> file_size s k"
    and room: "unat off + length src \<le> (unat off div BSIZE + q) * BSIZE"
  shows "\<exists>t q'. writei dv k src off (of_nat (length src)) s = Inr (int (length src), t) \<and> fs_ready q' t \<and> rewritten k (unat off) src s t"
proof -
  let ?n = "of_nat (length src) :: u32"
  have len: "length src \<le> 71680" using off file_wfD(2) [OF wf] by simp
  then have n: "unat ?n = length src" "sint ?n = int (length src)" by (simp_all add: unat_of_nat sint_small)
  have sum: "unat (off + ?n) = unat off + length src" using off file_wfD(2) [OF wf] n(1) by (simp add: unat_word_ariths)
  have guards: "\<not> i_size (inodes s k) < off" "\<not> off + ?n < off" "\<not> of_nat (MAXFILE * BSIZE) < off + ?n" "\<not> i_size (inodes s k) < off + ?n"
    using off file_wfD(2) [OF wf] sum
    by (simp_all add: word_less_nat_alt MAXFILE_def NDIRECT_def NINDIRECT_def BSIZE_def)
  obtain t q' where t: "writei_loop (Suc (unat ?n)) k 0 off ?n src s = Inr (off + ?n, t)" "fs_ready q' t" "rewritten k (unat off) src s t"
    using writei_loop_run [OF wf r, of off ?n 0 src "Suc (unat ?n)"] off room n by auto
  have "i_type (inodes s k) \<noteq> T_DEV" using wf by (simp add: file_wf_def)
  then have "writei dv k src off ?n s = Inr (int (length src), t)"
    using guards t(1) n rewritten_inodes [OF t(3)] by (simp add: writei_def run_simps get_inode_def)
  with t show ?thesis by blast
qed

section \<open>Properties\<close>

text \<open>C8: Reading after writing. \<open>writei\<close> of bytes that lie inside the file, in a transaction with room for the blocks they touch,
  returns their number; a \<open>readi\<close> of any range then ends and returns these bytes at their positions and the old bytes of the file
  elsewhere, as far as the file goes. The inodes and every block that is not a block of the file are unchanged.\<close>

theorem file_read_write:
  assumes "file_wf s k" "fs_ready q s" "unat off + length src \<le> file_size s k"
    "unat off + length src \<le> (unat off div BSIZE + q) * BSIZE" "unat roff \<le> file_size s k" "unat roff + unat n < 2 ^ 32"
  shows "wp (writei dv k src off (of_nat (length src))) (\<lambda>r t. r = int (length src) \<and> inodes t = inodes s \<and>
      (\<forall>b. (\<forall>j. j * BSIZE < file_size s k \<longrightarrow> b \<noteq> file_block s k j) \<longrightarrow> fdata t b = fdata s b) \<and>
      wp (readi dv k roff n) (\<lambda>(r, bs) u. u = t \<and> r = int (length bs) \<and> length bs = min (unat n) (file_size s k - unat roff) \<and>
        bs = map (\<lambda>i. if unat off \<le> i \<and> i < unat off + length src then src ! (i - unat off) else file_byte s k i)
          [unat roff ..< unat roff + length bs]) t) s"
proof -
  obtain t q' where t: "writei dv k src off (of_nat (length src)) s = Inr (int (length src), t)" "fs_ready q' t" "rewritten k (unat off) src s t"
    using writei_run [OF assms(1-4)] by blast
  note i = rewritten_inodes [OF t(3)]
  have "readi dv k roff n t = Inr ((int (min (unat n) (file_size s k - unat roff)),
      map (file_byte t k) [unat roff ..< unat roff + min (unat n) (file_size s k - unat roff)]), t)"
    using readi_run [OF rewritten_wf [OF t(3) assms(1)] fs_ready_idle [OF t(2)]] assms(5,6) i by simp
  moreover have "map (file_byte t k) [unat roff ..< unat roff + min (unat n) (file_size s k - unat roff)] =
      map (\<lambda>i. if unat off \<le> i \<and> i < unat off + length src then src ! (i - unat off) else file_byte s k i)
        [unat roff ..< unat roff + min (unat n) (file_size s k - unat roff)]"
    using t(3) assms(5) by (intro map_cong) (auto simp: rewritten_def)
  ultimately show ?thesis using t i by (auto simp: wp_def rewritten_def)
qed

text \<open>A file of 5000 bytes in the blocks from 60 on; four bytes are stored across the border of two blocks.\<close>

definition ip_example :: inode where
  "ip_example = inode_zero\<lparr>i_dev := 1, i_inum := 7, i_ref := 1, i_valid := True, i_type := T_FILE, i_nlink := 1, i_size := 5000,
     i_addrs := (\<lambda>j. if j < 12 then of_nat (60 + j) else 0)\<rparr>"

definition file_example :: fsys where
  "file_example = fs_example\<lparr>inodes := (inodes fs_example)(0 := ip_example)\<rparr>"

lemma ip_example_wf:
  assumes ip: "inodes s k = ip_example" and u: "\<And>j. j < 10 \<Longrightarrow> usable s (of_nat (60 + j))"
  shows "file_wf s k"
proof -
  have j: "j * BSIZE < 5000 \<longleftrightarrow> j < 10" for j by (auto simp: BSIZE_def)
  have b: "file_block s k j = of_nat (60 + j) \<and> unat (of_nat (60 + j) :: u32) = 60 + j" if "j < 10" for j
    using that by (simp add: file_block_def ip ip_example_def NDIRECT_def unat_of_nat del: of_nat_add)
  have "file_block s k j \<noteq> 0 \<and> (\<forall>i < j. file_block s k i \<noteq> file_block s k j)" if "j < 10" for j
    using that b [OF that] b by (metis add_left_cancel less_trans nat_neq_iff unat_0 add_is_0 zero_neq_numeral)
  moreover have "unat (i_size (inodes s k)) = 5000" "i_dev (inodes s k) = 1" "i_type (inodes s k) \<noteq> T_DEV" "\<not> NDIRECT * BSIZE < 5000"
      "5000 \<le> MAXFILE * BSIZE"
    by (simp_all add: ip ip_example_def T_FILE_def T_DEV_def NDIRECT_def BSIZE_def MAXFILE_def NINDIRECT_def)
  ultimately show ?thesis using b u unfolding file_wf_def by (simp add: j del: of_nat_add)
qed

lemma example_usable:
  assumes "lg_start (fs_log s) = 2" "lg_size (fs_log s) = 30" "1000 \<le> unat (bk_size (fblk s))" "j < 10"
  shows "usable s (of_nat (60 + j))"
proof -
  have "unat (of_nat (60 + j) :: u32) = 60 + j" using assms(4) by (simp add: unat_of_nat del: of_nat_add)
  then show ?thesis using assms by (auto simp: usable_def log_area_def word_less_nat_alt simp del: of_nat_add)
qed

lemma file_example_wf: "file_wf file_example 0"
  by (rule ip_example_wf) (auto intro!: example_usable simp: file_example_def fs_example_def Let_def simp del: of_nat_add)

definition devsw_none :: devsw where
  "devsw_none = \<lparr>dev_read = (\<lambda>_. None), dev_write = (\<lambda>_. None)\<rparr>"

theorem file_read_write_witness:
  "wp (writei devsw_none 0 [1, 2, 3, 4] 510 4) (\<lambda>r t. r = 4 \<and>
     wp (readi devsw_none 0 509 6) (\<lambda>(r, bs) u. r = 6 \<and> bs = [0, 1, 2, 3, 4, 0]) t) file_example"
proof -
  have r: "fs_ready 2 file_example" using fs_example_ready by (simp add: fs_ready_def file_example_def)
  have z: "file_size file_example 0 = 5000" by (simp add: file_example_def ip_example_def)
  have b: "file_byte file_example 0 509 = 0" "file_byte file_example 0 514 = 0"
    by (simp_all add: file_byte_def file_block_def BSIZE_def NDIRECT_def file_example_def ip_example_def fs_example_def Let_def)
  have l: "length bs = 6 \<Longrightarrow> [509 ..< 509 + length bs] = [509, 510, 511, 512, 513, 514]" for bs :: "u8 list" by (simp add: upt_rec)
  have f: "wp (writei devsw_none 0 [1, 2, 3, 4] 510 (of_nat (length [1 :: u8, 2, 3, 4]))) (\<lambda>r t. r = int (length [1 :: u8, 2, 3, 4]) \<and>
      inodes t = inodes file_example \<and>
      (\<forall>b. (\<forall>j. j * BSIZE < file_size file_example 0 \<longrightarrow> b \<noteq> file_block file_example 0 j) \<longrightarrow> fdata t b = fdata file_example b) \<and>
      wp (readi devsw_none 0 509 6) (\<lambda>(r, bs) u. u = t \<and> r = int (length bs) \<and>
        length bs = min (unat (6 :: u32)) (file_size file_example 0 - unat (509 :: u32)) \<and>
        bs = map (\<lambda>i. if unat (510 :: u32) \<le> i \<and> i < unat (510 :: u32) + length [1 :: u8, 2, 3, 4] then [1, 2, 3, 4] ! (i - unat (510 :: u32))
            else file_byte file_example 0 i) [unat (509 :: u32) ..< unat (509 :: u32) + length bs]) t) file_example"
    by (rule file_read_write [OF file_example_wf r]) (simp_all add: z BSIZE_def)
  have "wp (writei devsw_none 0 [1, 2, 3, 4] 510 (of_nat (length [1 :: u8, 2, 3, 4]))) (\<lambda>r t. r = 4 \<and>
     wp (readi devsw_none 0 509 6) (\<lambda>(r, bs) u. r = 6 \<and> bs = [0, 1, 2, 3, 4, 0]) t) file_example"
    by (rule wp_mono [OF f]) (auto simp: z b l elim!: wp_mono)
  then show ?thesis by simp
qed

end
