(* ===== verification/Faults.thy ===== *)
theory Faults
  imports Trap Swapping Files
begin

text \<open>
  Page faults: the trap handler and \<open>pgflt_handler\<close> over the whole kernel. A fault on a page in the swap area brings the
  page back, at the price of the oldest resident page when the resident list is full; a fault on a page that was never
  loaded brings it from the program's file, or fills it with zeros.
\<close>

section \<open>The trap around the handler\<close>

text \<open>A page fault returns to the process unless the process has been killed.\<close>

lemma trap_pgflt:
  assumes "tf_trapno tf = T_PGFLT" "\<not> p_killed (procs s p)"
    "wp (pgflt_handler (pf_dv pf) p cr2) (\<lambda>_ t. Q t \<and> p_killed (procs t p) = p_killed (procs s p)) s"
  shows "wp (trap pf cpu (Some p) tf cr2) (\<lambda>r t. r = Returned 0 \<and> Q t) s"
proof -
  have n: "tf_trapno tf \<noteq> T_SYSCALL" "tf_trapno tf \<noteq> T_IRQ0 + IRQ_TIMER"
    using assms(1) by (simp_all add: T_PGFLT_def T_SYSCALL_def T_IRQ0_def IRQ_TIMER_def)
  have "wp (trap_switch pf cpu (Some p) tf cr2) (\<lambda>_ t. Q t \<and> \<not> p_killed (procs t p)) s"
    using assms by (simp add: trap_switch_def Let_def wp_rules)
  then show ?thesis
    using n by (auto simp: trap_def killed_in_user_def wp_rules elim!: wp_mono)
qed

lemma page_start: "PGROUNDDOWN a AND 0xFFF = 0" "unat (PGROUNDDOWN a) = vpn (PGROUNDDOWN a) * 4096"
proof -
  show z: "PGROUNDDOWN a AND 0xFFF = 0"
    using PGROUNDDOWN_nat [of a] unat_and_mask [of "PGROUNDDOWN a" 12] by (simp add: mask_12 word_unat_eq_iff)
  show "unat (PGROUNDDOWN a) = vpn (PGROUNDDOWN a) * 4096" by (rule page_aligned [OF z])
qed

section \<open>Swapped-out pages\<close>

lemma swap_frames_distinct:
  assumes "swap_holds w l (es1 @ (va, a, n) # es2 @ [(vb, b, m)])"
  shows "m \<noteq> n"
  using assms by (auto simp: swap_holds_def swap_rep_def swap_wf_def)

text \<open>The bytes of swap frame \<open>n\<close> of the first swap space.\<close>

definition swap_bytes :: "blk \<Rightarrow> nat \<Rightarrow> page" where
  "swap_bytes b n i = bk_data b (of_nat (SWAP1_START + n * 8) + of_nat (i div BSIZE)) (i mod BSIZE)"

lemma swap_bytes_other:
  assumes "stored pg (of_nat (SWAP1_START + m * 8)) 8 a b" "m \<noteq> n" "m < MAX_FRAME_SWAP" "n < MAX_FRAME_SWAP" "i < 4096"
  shows "swap_bytes b n i = swap_bytes a n i"
proof -
  have start: "swap_start SWAP1_START" by (simp add: swap_start_def)
  have i: "i div BSIZE < 8" using assms(5) by (simp add: BSIZE_def)
  have "of_nat (SWAP1_START + n * 8) + of_nat (i div BSIZE) \<noteq> (of_nat (SWAP1_START + m * 8) + of_nat j :: u32)" if "j < 8" for j
  proof
    assume "of_nat (SWAP1_START + n * 8) + of_nat (i div BSIZE) = (of_nat (SWAP1_START + m * 8) + of_nat j :: u32)"
    then have "SWAP1_START + n * 8 + i div BSIZE = SWAP1_START + m * 8 + j"
      using swap_area_nat [OF start assms(4) i] swap_area_nat [OF start assms(3) that] by metis
    then have "n * 8 + i div BSIZE = m * 8 + j" by simp
    with i that assms(2) show False by linarith
  qed
  then have "of_nat (SWAP1_START + n * 8) + of_nat (i div BSIZE) \<notin> area (of_nat (SWAP1_START + m * 8)) 8"
    by (auto simp: area_def simp del: of_nat_add of_nat_mult)
  with assms(1) show ?thesis by (simp add: stored_def swap_bytes_def del: of_nat_add of_nat_mult)
qed

text \<open>
  \<open>arrives p d v f fs es1 n les R u\<close>: \<open>get_lru\<close> has led to a state with \<open>R\<close>, and from there the page \<open>v\<close> of swap frame \<open>n\<close> has been
  mapped in frame \<open>f\<close>.
\<close>

definition arrives :: "nat \<Rightarrow> nat \<Rightarrow> u32 \<Rightarrow> nat \<Rightarrow> nat list \<Rightarrow> (u32 \<times> int \<times> nat) list \<Rightarrow> nat \<Rightarrow> (u32 \<times> u32) list \<Rightarrow>
    ((u32 \<times> int \<times> nat) list \<Rightarrow> kern \<Rightarrow> bool) \<Rightarrow> kern \<Rightarrow> bool" where
  "arrives p d v f fs es1 n les R u \<longleftrightarrow> (\<exists>es2 t pg l sw. R es2 t \<and> swap_ready p d (f # fs) (es1 @ (v, 0, n) # es2) les t \<and>
     pres (k_phys t) d (vpn v div 1024) \<and> u = swapped_in p d v f pg t l sw \<and> swap_holds sw l (es1 @ es2) \<and>
     (\<forall>i < 4096. pg i = swap_bytes (kblk t) n i))"

text \<open>The handler for a page of the first swap space, for whatever \<open>get_lru\<close> does to make room for it.\<close>

lemma pgflt_swap_in:
  assumes v: "v = PGROUNDDOWN cr2" "v < KERNBASE"
    and hit: "swap_holds (k_swap s) (swap_list (procs s p)) (es1 @ (v, 0, n) # es)" and first: "v \<notin> fst ` set es1"
    and lru: "wp (get_lru (p_pid (procs s p)) v) (\<lambda>_ t. \<exists>es2. swap_ready p d (f # fs) (es1 @ (v, 0, n) # es2) les t \<and>
      pres (k_phys t) d (vpn v div 1024) \<and> R es2 t) s"
  shows "wp (pgflt_handler dv p cr2) (\<lambda>_ u. arrives p d v f fs es1 n les R u) s"
proof -
  have start: "swap_start SWAP1_START" by (simp add: swap_start_def)
  have guard: "\<not> KERNBASE < v" using v(2) by simp
  have check: "wp (swap_check v (swap_list (procs s p))) Q (k_swap s) = Q 0 (k_swap s)" for Q
    using swapl.check_hit [OF hit first] by (simp add: wp_run)
  have al: "v AND 0xFFF = 0" using page_start(1) [of cr2] v(1) by simp
  have step: "wp (swap_in_from SWAP1_START p v) (\<lambda>r u. r = 0 \<and> arrives p d v f fs es1 n les R u) t"
    if t: "swap_ready p d (f # fs) (es1 @ (v, 0, n) # es2) les t" "pres (k_phys t) d (vpn v div 1024)" "R es2 t" for t es2
    by (rule wp_mono [OF swap_in_spec [OF t(1) first start v(2) al t(2)]]) (unfold arrives_def swap_bytes_def, use t in blast)
  have "wp (bnd (swapfunc_in 0 p v) (\<lambda>r. if r < 0 then panic ''Swap In not working!'' else ret ())) (\<lambda>_ u. arrives p d v f fs es1 n les R u) t"
    if "\<exists>es2. swap_ready p d (f # fs) (es1 @ (v, 0, n) # es2) les t \<and> pres (k_phys t) d (vpn v div 1024) \<and> R es2 t" for t
  proof -
    from that obtain es2 where "wp (swap_in_from SWAP1_START p v) (\<lambda>r u. r = 0 \<and> arrives p d v f fs es1 n les R u) t" using step by blast
    then show ?thesis unfolding wp_bnd swapfunc_in_def swap_in_def by (auto simp: wp_ret elim!: wp_mono)
  qed
  note after = wp_mono [OF lru this]
  show ?thesis
    unfolding pgflt_handler_def Let_def v(1) [symmetric] if_not_P [OF guard]
    by (simp add: wp_bnd [of "get_proc_at _"] wp_bnd [of "on_swap _"] wp_get_proc_at wp_on_swap check wp_sq [of "get_lru _ _"] after)
qed

lemma swapped_in_killed [simp]: "p_killed (procs (swapped_in p d v f pg t l sw) q) = p_killed (procs t q)"
  by (simp add: swapped_in_def)

lemma swapped_in_blk [simp]: "kblk (swapped_in p d v f pg t l sw) = kblk t"
  by (simp add: swapped_in_def)

text \<open>After the fault page \<open>v\<close> is mapped in frame \<open>f\<close> with the bytes of swap frame \<open>n\<close>.\<close>

definition page_back :: "nat \<Rightarrow> u32 \<Rightarrow> nat \<Rightarrow> nat \<Rightarrow> kern \<Rightarrow> kern \<Rightarrow> bool" where
  "page_back d v f n s u \<longleftrightarrow> ppres (k_phys u) d (vpn v) \<and> uframe (k_phys u) d (vpn v) = f \<and>
     (\<forall>i < 4096. upage (k_phys u) d v i = swap_bytes (kblk s) n i)"

lemma pgflt_room:
  assumes v: "v = PGROUNDDOWN cr2" "v < KERNBASE" "v \<notin> fst ` set es1" "pres (k_phys s) d (vpn v div 1024)"
    and r: "swap_ready p d (f # fs) (es1 @ (v, 0, n) # es2) les s" "length les < MAX_FRAME_LRU"
  shows "wp (pgflt_handler dv p cr2) (\<lambda>_ u. (page_back d v f n s u \<and> swap_ready p d fs (es1 @ es2) (les @ [(p_pid (procs s p), v)]) u \<and>
    (\<forall>m < 2 ^ 20. m \<noteq> vpn v \<longrightarrow> ptn (k_phys u) d m = ptn (k_phys s) d m)) \<and> p_killed (procs u p) = p_killed (procs s p)) s"
proof -
  let ?les = "les @ [(p_pid (procs s p), v)]" let ?R = "\<lambda>es t. es = es2 \<and> (\<exists>l. t = s\<lparr>k_lru := l\<rparr>)"
  have hit: "swap_holds (k_swap s) (swap_list (procs s p)) (es1 @ (v, 0, n) # es2)" and l: "lru_holds (k_lru s) les"
    using r(1) by (auto simp: swap_ready_def)
  have "wp (get_lru (p_pid (procs s p)) v) (\<lambda>_ t. \<exists>es2. swap_ready p d (f # fs) (es1 @ (v, 0, n) # es2) ?les t \<and>
      pres (k_phys t) d (vpn v div 1024) \<and> ?R es2 t) s"
    unfolding get_lru_def add_2_eq_Suc'
    by (rule wp_mono [OF lru_insert_room_wp [OF l r(2)]]) (use r(1) v(4) in \<open>auto simp: swap_ready_def\<close>)
  then have "wp (pgflt_handler dv p cr2) (\<lambda>_ u. arrives p d v f fs es1 n ?les ?R u) s" by (rule pgflt_swap_in [OF v(1,2) hit v(3)])
  then show ?thesis
  proof (rule wp_mono)
    fix u
    assume "arrives p d v f fs es1 n ?les ?R u"
    then obtain t pg l sw lr where t: "t = s\<lparr>k_lru := lr\<rparr>" "swap_ready p d (f # fs) (es1 @ (v, 0, n) # es2) ?les t"
      "pres (k_phys t) d (vpn v div 1024)" "u = swapped_in p d v f pg t l sw" "swap_holds sw l (es1 @ es2)"
      "\<forall>i < 4096. pg i = swap_bytes (kblk t) n i" by (auto simp: arrives_def)
    from swapped_in_page [OF t(2,3,5), where pg = pg, folded t(4)] t(1,4,6)
    show "(page_back d v f n s u \<and> swap_ready p d fs (es1 @ es2) ?les u \<and>
      (\<forall>m < 2 ^ 20. m \<noteq> vpn v \<longrightarrow> ptn (k_phys u) d m = ptn (k_phys s) d m)) \<and> p_killed (procs u p) = p_killed (procs s p)"
      by (simp add: page_back_def)
  qed
qed

text \<open>The full list: after \<open>get_lru\<close> the oldest page is in a swap frame that is not the one of the faulting page.\<close>

lemma replaced_fault:
  assumes rep: "replaced p d va (f # fs) (es1 @ (v, 0, n) # es2) les s t" and wf: "pt_wf (k_phys s) d (f # fs)" and va: "ptn (k_phys s) d (vpn va) \<noteq> 0"
    and v: "pres (k_phys s) d (vpn v div 1024)"
  shows "\<exists>m. m < MAX_FRAME_SWAP \<and> m \<noteq> n \<and> swap_ready p d (f # fs) (es1 @ (v, 0, n) # es2 @ [(va, 0, m)]) les t \<and> pres (k_phys t) d (vpn v div 1024) \<and>
    stored (upage (k_phys s) d va) (of_nat (SWAP1_START + m * 8)) 8 (kblk s) (kblk t)"
proof -
  have dir: "pres (k_phys s) d (vpn va div 1024)" using va by (auto simp: ptn_def split: if_splits)
  have "pres (k_phys t) d (vpn v div 1024)" using rep v set_pte_dir(2) [OF wf dir vpn_less] by (simp add: replaced_def)
  moreover obtain m where m: "m < MAX_FRAME_SWAP" "swap_ready p d (f # fs) (es1 @ (v, 0, n) # es2 @ [(va, 0, m)]) les t"
      "stored (upage (k_phys s) d va) (of_nat (SWAP1_START + m * 8)) 8 (kblk s) (kblk t)"
    using rep by (auto simp: replaced_def simp del: of_nat_add of_nat_mult)
  moreover have "m \<noteq> n" using m(2) by (intro swap_frames_distinct) (auto simp: swap_ready_def)
  ultimately show ?thesis by blast
qed

lemma pgflt_full:
  assumes v: "v = PGROUNDDOWN cr2" "v < KERNBASE" "v \<notin> fst ` set es1" "pres (k_phys s) d (vpn v div 1024)"
    and r: "swap_ready p d (f # fs) (es1 @ (v, 0, n) # es2) ((p_pid (procs s p), va) # les) s" "length les + 1 = MAX_FRAME_LRU" "swap_room (k_swap s)"
    and va: "va < KERNBASE" "ptn (k_phys s) d (vpn va) \<noteq> 0" "vpn va \<noteq> vpn v"
    and p: "scan_from (\<lambda>i. p_pid (procs s i) = p_pid (procs s p)) 0 NPROC = Some p"
  shows "wp (pgflt_handler dv p cr2) (\<lambda>_ u. (page_back d v f n s u \<and> \<not> ppres (k_phys u) d (vpn va) \<and>
    (\<exists>m. swap_ready p d fs (es1 @ es2 @ [(va, 0, m)]) (remove1 (p_pid (procs s p), va) les @ [(p_pid (procs s p), v)]) u \<and>
      (\<forall>i < 4096. swap_bytes (kblk u) m i = upage (k_phys s) d va i))) \<and> p_killed (procs u p) = p_killed (procs s p)) s"
proof -
  let ?les = "remove1 (p_pid (procs s p), va) les @ [(p_pid (procs s p), v)]" let ?es = "es1 @ (v, 0, n) # es2"
  let ?R = "\<lambda>es t. replaced p d va (f # fs) ?es ?les s t \<and> (\<exists>m. m < MAX_FRAME_SWAP \<and> m \<noteq> n \<and> es = es2 @ [(va, 0, m)] \<and>
    stored (upage (k_phys s) d va) (of_nat (SWAP1_START + m * 8)) 8 (kblk s) (kblk t))"
  have hit: "swap_holds (k_swap s) (swap_list (procs s p)) ?es" and wf: "pt_wf (k_phys s) d (f # fs)"
    using r(1) by (auto simp: swap_ready_def)
  have n: "n < MAX_FRAME_SWAP" using swap_holds_bound [OF hit, of v 0 n] by simp
  have "wp (get_lru (p_pid (procs s p)) v) (\<lambda>_ t. \<exists>es2. swap_ready p d (f # fs) (es1 @ (v, 0, n) # es2) ?les t \<and>
      pres (k_phys t) d (vpn v div 1024) \<and> ?R es2 t) s"
    by (rule wp_mono [OF get_lru_full [OF r(1,3) va(1,2) r(2) p]]) (use replaced_fault [OF _ wf va(2) v(4)] in blast)
  then have "wp (pgflt_handler dv p cr2) (\<lambda>_ u. arrives p d v f fs es1 n ?les ?R u) s" by (rule pgflt_swap_in [OF v(1,2) hit v(3)])
  then show ?thesis
  proof (rule wp_mono)
    fix u
    assume "arrives p d v f fs es1 n ?les ?R u"
    then obtain m t pg l sw where rep: "replaced p d va (f # fs) ?es ?les s t" and m: "m < MAX_FRAME_SWAP" "m \<noteq> n"
      "stored (upage (k_phys s) d va) (of_nat (SWAP1_START + m * 8)) 8 (kblk s) (kblk t)"
      and t: "swap_ready p d (f # fs) (es1 @ (v, 0, n) # es2 @ [(va, 0, m)]) ?les t" "pres (k_phys t) d (vpn v div 1024)"
      "swap_holds sw l (es1 @ es2 @ [(va, 0, m)])" "u = swapped_in p d v f pg t l sw" "\<forall>i < 4096. pg i = swap_bytes (kblk t) n i"
      by (auto simp: arrives_def simp del: of_nat_add of_nat_mult)
    note u = swapped_in_page [OF t(1-3), where pg = pg, folded t(4)]
    have "page_back d v f n s u" using u(1-3) t(5) swap_bytes_other [OF m(3,2,1) n] by (simp add: page_back_def)
    moreover have "\<not> ppres (k_phys u) d (vpn va)"
      using u(4) [OF vpn_less va(3)] replaced_holds(2) [OF rep wf va(2)] by (simp add: ppres_def)
    moreover have "\<forall>i < 4096. swap_bytes (kblk u) m i = upage (k_phys s) d va i"
      using stored_byte [OF m(3)] by (simp add: t(4) swap_bytes_def)
    moreover have "p_killed (procs u p) = p_killed (procs s p)" using rep by (auto simp: t(4) replaced_def)
    ultimately show "(page_back d v f n s u \<and> \<not> ppres (k_phys u) d (vpn va) \<and>
      (\<exists>m. swap_ready p d fs (es1 @ es2 @ [(va, 0, m)]) ?les u \<and>
        (\<forall>i < 4096. swap_bytes (kblk u) m i = upage (k_phys s) d va i))) \<and> p_killed (procs u p) = p_killed (procs s p)"
      using u(5) by blast
  qed
qed

section \<open>Pages of the program file\<close>

text \<open>The slot of the inode cache that \<open>iget\<close> picks: the one that holds the inode, or else the first free one.\<close>

definition iget_slot :: "fsys \<Rightarrow> u32 \<times> u32 \<Rightarrow> nat option" where
  "iget_slot s i = (case scan_from (\<lambda>k. 0 < i_ref (inodes s k) \<and> i_dev (inodes s k) = fst i \<and> i_inum (inodes s k) = snd i) 0 NINODE of
     Some k \<Rightarrow> Some k | None \<Rightarrow> scan_from (\<lambda>k. i_ref (inodes s k) = 0) 0 NINODE)"

lemma iget_run:
  assumes "iget_slot s i = Some k" "\<not> ic_lock s"
  shows "\<exists>g. iget (fst i) (snd i) s = Inr (k, s\<lparr>inodes := (inodes s)(k := g)\<rparr>) \<and> i_dev g = fst i \<and> i_size g = i_size (inodes s k) \<and>
    i_addrs g = i_addrs (inodes s k) \<and> i_type g = i_type (inodes s k)"
proof -
  have lk: "s\<lparr>inodes := x, ic_lock := False\<rparr> = s\<lparr>inodes := x\<rparr>" for x using assms(2) by (cases s) simp
  show ?thesis
  proof (cases "scan_from (\<lambda>k. 0 < i_ref (inodes s k) \<and> i_dev (inodes s k) = fst i \<and> i_inum (inodes s k) = snd i) 0 NINODE")
    case None
    then show ?thesis using assms
      by (simp add: iget_slot_def iget_def run_simps upd_inode_def lk) (intro exI conjI, rule refl, simp_all)
  next
    case (Some j)
    then have "i_dev (inodes s j) = fst i" using scan_from_Some [OF Some] by simp
    then show ?thesis using Some assms
      by (simp add: iget_slot_def iget_def run_simps upd_inode_def lk) (intro exI conjI, rule refl, simp_all)
  qed
qed

text \<open>Only the size and the addresses of an inode count for the contents of its file.\<close>

lemma file_inode_cong:
  assumes "i_dev g = 1" "i_size g = i_size (inodes s k)" "i_addrs g = i_addrs (inodes s k)" "i_type g = i_type (inodes s k)"
  defines "t \<equiv> s\<lparr>inodes := (inodes s)(k := g)\<rparr>"
  shows "file_byte t k = file_byte s k" "file_size t k = file_size s k" "file_wf s k \<Longrightarrow> file_wf t k" "fs_idle t = fs_idle s"
proof -
  have b: "file_block t k = file_block s k" using assms by (auto simp: file_block_def fun_eq_iff)
  then show "file_byte t k = file_byte s k" by (auto simp: file_byte_def fun_eq_iff t_def)
  show "file_size t k = file_size s k" using assms by simp
  have "usable t n = usable s n" for n by (simp add: usable_def t_def)
  then show "file_wf s k \<Longrightarrow> file_wf t k" using assms b unfolding file_wf_def by (simp add: t_def)
  show "fs_idle t = fs_idle s" by (simp add: fs_idle_def t_def)
qed

text \<open>The state with other bytes in frame \<open>f\<close>.\<close>

definition fill_frame :: "nat \<Rightarrow> page \<Rightarrow> kern \<Rightarrow> kern" where
  "fill_frame f pg s = s\<lparr>k_phys := (k_phys s)\<lparr>pmem := (pmem (k_phys s))(f := pg)\<rparr>\<rparr>"

text \<open>Page \<open>v\<close> is mapped in frame \<open>f\<close>, which is neither free nor a page table.\<close>

definition mapped_at :: "nat \<Rightarrow> nat list \<Rightarrow> u32 \<Rightarrow> nat \<Rightarrow> kern \<Rightarrow> bool" where
  "mapped_at d fs v f s \<longleftrightarrow> pt_wf (k_phys s) d fs \<and> pres (k_phys s) d (vpn v div 1024) \<and> uframe (k_phys s) d (vpn v) = f \<and>
     f < 57344 \<and> f \<notin> tables (k_phys s) d \<and> f \<notin> set fs"

lemma fill_frame_fill [simp]: "fill_frame f pg (fill_frame f pg' s) = fill_frame f pg s" "k_fs (fill_frame f pg s) = k_fs s"
  "procs (fill_frame f pg s) = procs s" "pmem (k_phys (fill_frame f pg s)) f = pg"
  by (simp_all add: fill_frame_def)

lemma mapped_at_fill: "mapped_at d fs v f s \<Longrightarrow> mapped_at d fs v f (fill_frame f pg s)"
  and ptn_fill: "mapped_at d fs v f s \<Longrightarrow> m < 2 ^ 20 \<Longrightarrow> ptn (k_phys (fill_frame f pg s)) d m = ptn (k_phys s) d m"
proof -
  assume m: "mapped_at d fs v f s"
  let ?t = "fill_frame f pg s"
  have c: "\<forall>g \<in> tables (k_phys s) d. pmem (k_phys ?t) g = pmem (k_phys s) g" using m by (auto simp: mapped_at_def fill_frame_def)
  show "m < 2 ^ 20 \<Longrightarrow> ptn (k_phys ?t) d m = ptn (k_phys s) d m" for m by (rule pmem_cong(5) [OF c])
  have "fchain (pmem (k_phys ?t)) x fs = fchain (pmem (k_phys s)) x fs" for x
    using m by (intro fchain_cong) (auto simp: mapped_at_def fill_frame_def)
  then have "pt_wf (k_phys ?t) d fs"
    using m by (simp add: mapped_at_def pt_wf_def free_rep_def pmem_cong [OF c]) (simp add: fill_frame_def)
  then show "mapped_at d fs v f ?t"
    using m pmem_cong(5) [OF c vpn_less] by (simp add: mapped_at_def pmem_cong(1-4) [OF c] uframe_def)
qed

lemma kwrite_fill:
  assumes "f < 57344" "i + length bs \<le> 4096"
  shows "on_phys (kwrite (kva f + of_nat i) bs) s = Inr ((), fill_frame f (overlay (pmem (k_phys s) f) i bs) s)"
  using kwrite_run [OF assms] by (simp add: on_phys_def run_simps fill_frame_def)

text \<open>\<open>loaduvm\<close> of at most a page.\<close>

lemma loaduvm_one:
  assumes m: "mapped_at d fs v f s" and wf: "file_wf (k_fs s) k" "fs_idle (k_fs s)" and v: "v AND 0xFFF = 0"
    and sz: "0 < sz" "sz \<le> PGSIZE" "unat off + unat sz \<le> file_size (k_fs s) k"
  shows "loaduvm dv (kva d) v k off sz s =
    Inr (0, fill_frame f (overlay (pmem (k_phys s) f) 0 (map (file_byte (k_fs s) k) [unat off ..< unat off + unat sz])) s)"
proof -
  let ?bs = "map (file_byte (k_fs s) k) [unat off ..< unat off + unat sz]"
  have z: "unat sz \<le> 4096" using sz(2) by (simp add: word_le_nat_alt PGSIZE_def)
  have al: "v mod PGSIZE = 0" using page_aligned [OF v] by (simp add: word_unat_eq_iff unat_mod PGSIZE_def)
  have pt: "pt_wf (k_phys s) d fs" "pres (k_phys s) d (vpn v div 1024)" "f < 57344" "frame_of (ptn (k_phys s) d (vpn v)) = f"
    using m by (auto simp: mapped_at_def uframe_def)
  have nz: "kva (tab (k_phys s) d (vpn v div 1024)) + 4 * PTX v \<noteq> 0"
    using pt_wf_bounds(4) [OF pt(1) vpn_div pt(2)] PTX_less by (intro slot_frame(4))
  have "unat off \<le> file_size (k_fs s) k" "unat off + unat sz < 2 ^ 32" "min (unat sz) (file_size (k_fs s) k - unat off) = unat sz"
    using sz(3) file_wfD(2) [OF wf(1)] by auto
  then have rd: "readi dv k off sz (k_fs s) = Inr ((int (unat sz), ?bs), k_fs s)" using readi_run [OF wf, of off sz dv] by simp
  have si: "sint sz = int (unat sz)" using z sint_small [of "unat sz"] by simp
  have w: "on_phys (kwrite (kva f) ?bs) s = Inr ((), fill_frame f (overlay (pmem (k_phys s) f) 0 ?bs) s)"
    using kwrite_fill [OF pt(3), of 0 ?bs s] z by simp
  have stop: "loaduvm_loop (Suc c) dv (kva d) v k off sz PGSIZE t = Inr (0, t)" for c t
    using leD [OF sz(2)] by (simp add: loaduvm_loop.simps run_simps)
  have "loaduvm_loop (Suc (Suc c)) dv (kva d) v k off sz 0 s = Inr (0, fill_frame f (overlay (pmem (k_phys s) f) 0 ?bs) s)" for c
  proof (cases "sz = PGSIZE")
    case True
    then show ?thesis using sz(1) walk_present [OF pt(1,2), of False] get_pte_run [OF pt(1,2)] nz rd si w stop
      by (subst loaduvm_loop.simps) (simp add: run_simps on_phys_def on_fs_def Let_def PTE_ADDR_kva pt(4))
  next
    case False
    then have "sz < PGSIZE" using sz(2) by simp
    then show ?thesis using sz(1) walk_present [OF pt(1,2), of False] get_pte_run [OF pt(1,2)] nz rd si w stop
      by (subst loaduvm_loop.simps) (simp add: run_simps on_phys_def on_fs_def Let_def PTE_ADDR_kva pt(4))
  qed
  note loop = this [of "2 ^ 20 - 2"]
  have "Suc (Suc (2 ^ 20 - 2)) = (2 ^ 20 :: nat)" by simp
  with loop al show ?thesis by (simp only: loaduvm_def simp_thms if_False)
qed

text \<open>The byte at address \<open>a\<close> of the segment \<open>ph\<close>, which starts at address 0: from the file, or zero behind its part in the file.\<close>

definition seg_byte :: "fsys \<Rightarrow> nat \<Rightarrow> ph_info \<Rightarrow> nat \<Rightarrow> u8" where
  "seg_byte s k ph a = (if a < unat (ph_filesz ph) then file_byte s k (unat (ph_off ph) + a) else 0)"

definition seg_page :: "fsys \<Rightarrow> nat \<Rightarrow> ph_info \<Rightarrow> u32 \<Rightarrow> page \<Rightarrow> bool" where
  "seg_page s k ph v pg \<longleftrightarrow> (\<forall>i < 4096. unat v + i < unat (ph_memsz ph) \<longrightarrow> pg i = seg_byte s k ph (unat v + i))"

text \<open>A segment of the file in slot \<open>k\<close>.\<close>

definition seg_ok :: "fsys \<Rightarrow> nat \<Rightarrow> ph_info \<Rightarrow> bool" where
  "seg_ok s k ph \<longleftrightarrow> ph_vaddr ph = 0 \<and> ph_filesz ph \<le> ph_memsz ph \<and> ph_memsz ph \<le> KERNBASE \<and> file_wf s k \<and>
     unat (ph_off ph) + unat (ph_filesz ph) \<le> file_size s k"

text \<open>One round of the handler's loop loads the page, whatever was in the frame before.\<close>

lemma pgflt_load_page:
  assumes m: "mapped_at d fs v f s" and p: "p_pgdir (procs s p) = kva d" "p_ph (procs s p) = ph"
    and seg: "seg_ok (k_fs s) k ph" "fs_idle (k_fs s)" and v: "v AND 0xFFF = 0" "v < ph_memsz ph"
  shows "wp (pgflt_load dv p v (kva f) k) (\<lambda>_ t. \<exists>pg. t = fill_frame f pg s \<and> seg_page (k_fs s) k ph v pg) s"
proof -
  let ?V = "unat v" let ?F = "unat (ph_filesz ph)" let ?M = "unat (ph_memsz ph)" let ?O = "unat (ph_off ph)" let ?P = "pmem (k_phys s) f"
  have wf: "file_wf (k_fs s) k" and ph: "ph_vaddr ph = 0" and sz: "?F \<le> ?M" "?M \<le> 2147483648" "?O + ?F \<le> file_size (k_fs s) k"
    using seg(1) by (auto simp: seg_ok_def word_le_nat_alt KERNBASE_def)
  have VM: "?V < ?M" using v(2) by (simp add: word_less_nat_alt)
  have f: "f < 57344" using m by (simp add: mapped_at_def)
  have P: "unat (v + PGSIZE) = ?V + 4096" using VM sz(2) by (simp add: unat_word_ariths PGSIZE_def)
  have inside: "v \<le> ph_memsz ph" using v(2) by simp
  have off: "?V \<le> ?F \<Longrightarrow> unat (ph_off ph + v) = ?O + ?V"
    using sz(3) file_wfD(2) [OF wf] by (simp add: unat_word_ariths)
  have fill: "wp (on_phys (kwrite (kva f + of_nat i) bs)) Q t = Q () (fill_frame f (overlay (pmem (k_phys t) f) i bs) t)"
    if "i + length bs \<le> 4096" for i bs Q t using kwrite_fill [OF f that, of t] by (simp add: wp_run)
  consider "v + PGSIZE \<le> ph_filesz ph" | "\<not> v + PGSIZE \<le> ph_filesz ph" "ph_filesz ph \<le> v" | "\<not> v + PGSIZE \<le> ph_filesz ph" "\<not> ph_filesz ph \<le> v"
    by blast
  then show ?thesis
  proof cases
    case 1
    then have F: "?V + 4096 \<le> ?F" using P by (simp add: word_le_nat_alt)
    have n: "unat PGSIZE = 4096" by (simp add: PGSIZE_def)
    have "loaduvm dv (kva d) v k (ph_off ph + v) PGSIZE s =
        Inr (0, fill_frame f (overlay ?P 0 (map (file_byte (k_fs s) k) [?O + ?V ..< ?O + ?V + 4096])) s)"
      using loaduvm_one [OF m wf seg(2) v(1), of PGSIZE "ph_off ph + v" dv] off F sz n by (simp add: PGSIZE_def)
    moreover have "seg_page (k_fs s) k ph v (overlay ?P 0 (map (file_byte (k_fs s) k) [?O + ?V ..< ?O + ?V + 4096]))"
      using F by (auto simp: seg_page_def seg_byte_def overlay_def add.assoc)
    ultimately show ?thesis using 1 inside by (auto simp: pgflt_load_def wp_rules Let_def p ph wp_run)
  next
    case 2
    let ?n = "if v + PGSIZE \<le> ph_memsz ph then 4096 else unat (ph_memsz ph - v)"
    have d: "unat (ph_memsz ph - v) = ?M - ?V" using inside by (rule unat_sub)
    then have n: "?n \<le> 4096" "\<forall>i < 4096. ?V + i < ?M \<longrightarrow> i < ?n" using P by (auto simp: word_le_nat_alt)
    have "seg_page (k_fs s) k ph v (overlay ?P 0 (replicate ?n 0))"
      using n(2) 2(2) by (auto simp: seg_page_def seg_byte_def overlay_def word_le_nat_alt)
    moreover have "wp (on_phys (kwrite (kva f) (replicate ?n 0))) Q s = Q () (fill_frame f (overlay ?P 0 (replicate ?n 0)) s)" for Q
      using fill [of 0 "replicate ?n 0"] n(1) by simp
    ultimately show ?thesis
      using 2 inside by (auto simp: pgflt_load_def wp_bnd wp_get_proc_at Let_def p ph split: if_splits)
  next
    case 3
    then have F: "?V < ?F" "?F < ?V + 4096" using P by (auto simp: word_le_nat_alt)
    have d: "unat (ph_filesz ph - v) = ?F - ?V" using 3(2) by (intro unat_sub) simp
    have w: "ph_filesz ph - v = of_nat (?F - ?V)" by (simp flip: d)
    have d': "unat (PGSIZE - (ph_filesz ph - v)) = 4096 - (?F - ?V)"
      using d F by (subst unat_sub) (simp_all add: word_le_nat_alt PGSIZE_def)
    let ?pg = "overlay ?P 0 (map (file_byte (k_fs s) k) [?O + ?V ..< ?O + ?F])"
    have ld: "loaduvm dv (kva d) v k (ph_off ph + v) (ph_filesz ph - v) s = Inr (0, fill_frame f ?pg s)"
      using loaduvm_one [OF m wf seg(2) v(1), of "ph_filesz ph - v" "ph_off ph + v" dv] off F sz d
      by (simp add: word_less_nat_alt word_le_nat_alt PGSIZE_def)
    have "seg_page (k_fs s) k ph v (overlay ?pg (?F - ?V) (replicate (4096 - (?F - ?V)) 0))"
      using F by (auto simp: seg_page_def seg_byte_def overlay_def add.assoc)
    then show ?thesis
      using 3 inside F fill [of "?F - ?V" "replicate (4096 - (?F - ?V)) 0"] d'
      by (auto simp: pgflt_load_def wp_bnd wp_get_proc_at wp_sq Let_def p ph wp_run [where m = "loaduvm _ _ _ _ _ _", OF ld] w [symmetric])
  qed
qed

lemma taken_page:
  assumes "swap_ready p d (f # fs) es les s"
  shows "f < 57344 \<and> f \<notin> tables (k_phys s) d \<and> f \<notin> set fs"
proof -
  have wf: "pt_wf (k_phys s) d (f # fs)" using assms by (simp add: swap_ready_def)
  then have "f < 57344" by (simp add: pt_wf_def free_rep_def page_ok_def)
  moreover have "f \<notin> tables (k_phys s) d" "f \<notin> set fs" using wf by (auto simp: pt_wf_def tables_def free_rep_def)
  ultimately show ?thesis by blast
qed

text \<open>The state in which the handler starts to load: a free frame is mapped, with what was in it.\<close>

lemma pgflt_map:
  assumes r: "swap_ready p d (f # fs) es les s" and v: "v AND 0xFFF = 0" "v < KERNBASE" "pres (k_phys s) d (vpn v div 1024)"
  defines "t \<equiv> swapped_in p d v f (pmem (k_phys s) f) s (swap_list (procs s p)) (k_swap s)"
  shows "wp (kalloc (-1) (-1)) (\<lambda>mem u. mem = kva f \<and>
      wp (on_phys (mappages (kva d) v PGSIZE (V2P (kva f)) (PTE_W OR PTE_U OR PTE_P) 1)) (\<lambda>r w. r = 0 \<and> w = t) u) s"
    "mapped_at d fs v f t"
proof -
  have wf: "pt_wf (k_phys s) d (f # fs)" using r by (simp add: swap_ready_def)
  then have fr: "free_rep (k_phys s) (f # fs)" by (simp add: pt_wf_def)
  note take = pt_wf_take [OF wf, where pg = "pmem (k_phys s) f", unfolded fun_upd_triv]
  let ?w = "(k_phys s)\<lparr>freelist := ld32 (pmem (k_phys s) f) 0\<rparr>"
  have w: "(k_phys s)\<lparr>freelist := ld32 (pmem (k_phys s) f) 0, pmem := pmem (k_phys s)\<rparr> = ?w" by (cases "k_phys s") simp
  note take = take [unfolded w]
  have dir: "pres ?w d (vpn v div 1024)" using take(2) v(3) by simp
  have "V2P (kva f) OR (PTE_W OR PTE_U OR PTE_P) OR 1 = V2P (kva f) OR (PTE_W OR PTE_U) OR 1" by (simp add: PTE_P_def or.assoc)
  then have m: "mappages (kva d) v PGSIZE (V2P (kva f)) (PTE_W OR PTE_U OR PTE_P) 1 ?w =
      Inr (0, set_pte ?w d (vpn v) (V2P (kva f) OR (PTE_W OR PTE_U) OR 1))"
    using mappages_one [OF take(1) dir v(1,2), of "V2P (kva f)" "PTE_W OR PTE_U OR PTE_P" 1] by simp
  have t: "t = s\<lparr>k_phys := set_pte ?w d (vpn v) (V2P (kva f) OR (PTE_W OR PTE_U) OR 1)\<rparr>"
    by (simp add: t_def swapped_in_def w)
  show "wp (kalloc (-1) (-1)) (\<lambda>mem u. mem = kva f \<and>
      wp (on_phys (mappages (kva d) v PGSIZE (V2P (kva f)) (PTE_W OR PTE_U OR PTE_P) 1)) (\<lambda>r w. r = 0 \<and> w = t) u) s"
    using kalloc0_some [OF fr] m by (simp add: kalloc_nobody wp_on_phys wp_run t)
  have "swap_holds (k_swap s) (swap_list (procs s p)) es" using r by (simp add: swap_ready_def)
  note u = swapped_in_page [OF r v(3) this, where pg = "pmem (k_phys s) f", folded t_def]
  show "mapped_at d fs v f t"
    using u(2,5) taken_page [OF r] set_pte_dir(2,4) [OF take(1) dir vpn_less] take(4) dir
    by (simp add: mapped_at_def swap_ready_def) (simp add: t)
qed

lemma pgflt_demand:
  assumes r: "swap_ready p d (f # fs) es les s"
    and v: "v = PGROUNDDOWN cr2" "v \<notin> fst ` set es" "pres (k_phys s) d (vpn v div 1024)" "v < ph_memsz (p_ph (procs s p))"
    and ip: "iget_slot (k_fs s) (p_ip (procs s p)) = Some k" "fst (p_ip (procs s p)) = 1" "\<not> ic_lock (k_fs s)"
    and seg: "seg_ok (k_fs s) k (p_ph (procs s p))"
  shows "wp (pgflt_handler dv p cr2) (\<lambda>_ u. (ppres (k_phys u) d (vpn v) \<and> uframe (k_phys u) d (vpn v) = f \<and>
    seg_page (k_fs s) k (p_ph (procs s p)) v (upage (k_phys u) d v) \<and> swap_ready p d fs es les u \<and>
    (\<forall>m < 2 ^ 20. m \<noteq> vpn v \<longrightarrow> ptn (k_phys u) d m = ptn (k_phys s) d m)) \<and> p_killed (procs u p) = p_killed (procs s p)) s"
proof -
  let ?ph = "p_ph (procs s p)"
  define t where "t = swapped_in p d v f (pmem (k_phys s) f) s (swap_list (procs s p)) (k_swap s)"
  have hold: "swap_holds (k_swap s) (swap_list (procs s p)) es" and pg: "p_pgdir (procs s p) = kva d" and idle: "fs_idle (k_fs s)"
    using r by (auto simp: swap_ready_def fs_idle_def)
  have al: "v AND 0xFFF = 0" using page_start(1) v(1) by simp
  have low: "v < KERNBASE" using v(4) seg by (auto simp: seg_ok_def)
  have check: "wp (swap_check v (swap_list (procs s p))) Q (k_swap s) = Q (-1) (k_swap s)" for Q
    using swapl.check_miss [OF hold v(2)] by (simp add: wp_run)
  note map = pgflt_map [OF r al low v(3), folded t_def]
  note t = swapped_in_page [OF r v(3) hold, where pg = "pmem (k_phys s) f", folded t_def]
  have kt: "k_fs t = k_fs s" "procs t = procs s" by (simp_all add: t_def swapped_in_def)
  obtain g where g: "iget (fst (p_ip (procs s p))) (snd (p_ip (procs s p))) (k_fs s) = Inr (k, (k_fs s)\<lparr>inodes := (inodes (k_fs s))(k := g)\<rparr>)"
    "i_dev g = 1" "i_size g = i_size (inodes (k_fs s) k)" "i_addrs g = i_addrs (inodes (k_fs s) k)" "i_type g = i_type (inodes (k_fs s) k)"
    using iget_run [OF ip(1,3)] ip(2) by auto
  define w where "w = t\<lparr>k_fs := (k_fs s)\<lparr>inodes := (inodes (k_fs s))(k := g)\<rparr>\<rparr>"
  note c = file_inode_cong [OF g(2-5)]
  have kw: "k_phys w = k_phys t" "procs w = procs s" "kblk w = kblk t" "k_swap w = k_swap t" "k_lru w = k_lru t"
    using kt by (simp_all add: w_def)
  have fs: "file_byte (k_fs w) k = file_byte (k_fs s) k" "fs_idle (k_fs w)" "seg_ok (k_fs w) k ?ph"
    using c idle seg by (simp_all add: w_def seg_ok_def)
  have m: "mapped_at d fs v f w" using map(2) by (simp add: mapped_at_def kw)
  have load: "wp (for_each (\<lambda>i. pgflt_load dv p v (kva f) k) [0 ..< (2 :: nat)])
      (\<lambda>_ u. \<exists>q. u = fill_frame f q w \<and> (0 < (2 :: nat) \<longrightarrow> seg_page (k_fs w) k ?ph v q)) w"
  proof (rule wp_for_each [where I = "\<lambda>j u. \<exists>q. u = fill_frame f q w \<and> (0 < j \<longrightarrow> seg_page (k_fs w) k ?ph v q)"])
    show "\<exists>q. w = fill_frame f q w \<and> (0 < (0 :: nat) \<longrightarrow> seg_page (k_fs w) k ?ph v q)"
      by (intro exI [of _ "pmem (k_phys w) f"]) (simp add: fill_frame_def)
    fix j :: nat and x
    assume "\<exists>q. x = fill_frame f q w \<and> (0 < j \<longrightarrow> seg_page (k_fs w) k ?ph v q)"
    then obtain q where x: "x = fill_frame f q w" by blast
    have "wp (pgflt_load dv p v (kva f) k) (\<lambda>_ u. \<exists>q. u = fill_frame f q x \<and> seg_page (k_fs x) k ?ph v q) x"
      unfolding x by (rule pgflt_load_page [OF mapped_at_fill [OF m]]) (use fs al v(4) pg kw in simp_all)
    then show "wp (pgflt_load dv p v (kva f) k) (\<lambda>_ u. \<exists>q. u = fill_frame f q w \<and> (0 < Suc j \<longrightarrow> seg_page (k_fs w) k ?ph v q)) x"
      unfolding x by simp
  qed
  have fin: "(ppres (k_phys u) d (vpn v) \<and> uframe (k_phys u) d (vpn v) = f \<and> seg_page (k_fs s) k ?ph v (upage (k_phys u) d v) \<and> swap_ready p d fs es les u \<and>
      (\<forall>m < 2 ^ 20. m \<noteq> vpn v \<longrightarrow> ptn (k_phys u) d m = ptn (k_phys s) d m)) \<and> p_killed (procs u p) = p_killed (procs s p)"
    if u: "u = fill_frame f q w" "seg_page (k_fs w) k ?ph v q" for u q
  proof -
    have e: "ptn (k_phys u) d m = ptn (k_phys t) d m" if "m < 2 ^ 20" for m using ptn_fill [OF m that, of q] kw by (simp add: u(1))
    have "swap_ready p d fs es les u"
      using t(5) mapped_at_fill [OF m, of q] kw kt by (simp add: swap_ready_def u(1) mapped_at_def) (simp add: fill_frame_def)
    moreover have fr: "uframe (k_phys u) d (vpn v) = f" using t(2) e [OF vpn_less] by (simp add: uframe_def)
    moreover have "seg_page (k_fs s) k ?ph v (upage (k_phys u) d v)"
      using u(2) fs(1) unfolding upage_def fr by (simp add: u(1) seg_page_def seg_byte_def)
    ultimately show ?thesis using t(1,4) e vpn_less [of v] kw by (simp add: ppres_def u(1))
  qed
  have iget: "wp (on_fs (iget (fst (p_ip (procs s p))) (snd (p_ip (procs s p))))) Q t = Q k w" for Q
    using g(1) kt by (simp add: on_fs_def wp_zoom wp_run w_def)
  have guard: "\<not> KERNBASE < v" using low by simp
  let ?Q = "\<lambda>u. (ppres (k_phys u) d (vpn v) \<and> uframe (k_phys u) d (vpn v) = f \<and> seg_page (k_fs s) k ?ph v (upage (k_phys u) d v) \<and>
    swap_ready p d fs es les u \<and> (\<forall>m < 2 ^ 20. m \<noteq> vpn v \<longrightarrow> ptn (k_phys u) d m = ptn (k_phys s) d m)) \<and>
    p_killed (procs u p) = p_killed (procs s p)"
  have loop: "wp (for_each (\<lambda>i. pgflt_load dv p v (kva f) k) [0 ..< (2 :: nat)]) (\<lambda>_ u. ?Q u) w"
  proof (rule wp_mono [OF load])
    fix u
    assume "\<exists>q. u = fill_frame f q w \<and> (0 < (2 :: nat) \<longrightarrow> seg_page (k_fs w) k ?ph v q)"
    then obtain q where "u = fill_frame f q w" "seg_page (k_fs w) k ?ph v q" by auto
    then show "?Q u" by (rule fin)
  qed
  have rest: "wp (bnd (on_phys (mappages (kva d) v PGSIZE (V2P (kva f)) (PTE_W OR PTE_U OR PTE_P) 1)) (\<lambda>r.
      if r < 0 then panic ''Error in Mappages'' else bnd (on_fs (iget (fst (p_ip (procs s p))) (snd (p_ip (procs s p))))) (\<lambda>ip.
        for_each (\<lambda>i. pgflt_load dv p v (kva f) ip) [0 ..< (2 :: nat)]))) (\<lambda>_ u. ?Q u) x"
    if "wp (on_phys (mappages (kva d) v PGSIZE (V2P (kva f)) (PTE_W OR PTE_U OR PTE_P) 1)) (\<lambda>r w. r = 0 \<and> w = t) x" for x
    unfolding wp_bnd [of "on_phys _"] by (rule wp_mono [OF that]) (use loop in \<open>simp add: wp_bnd [of "on_fs _"] iget\<close>)
  have "wp (bnd (kalloc (-1) (-1)) (\<lambda>mem. if mem = 0 then panic ''No Free Page'' else
      bnd (on_phys (mappages (kva d) v PGSIZE (V2P mem) (PTE_W OR PTE_U OR PTE_P) 1)) (\<lambda>r.
      if r < 0 then panic ''Error in Mappages'' else bnd (on_fs (iget (fst (p_ip (procs s p))) (snd (p_ip (procs s p))))) (\<lambda>ip.
        for_each (\<lambda>i. pgflt_load dv p v mem ip) [0 ..< (2 :: nat)])))) (\<lambda>_ u. ?Q u) s"
    unfolding wp_bnd [of "kalloc _ _"]
  proof (rule wp_mono [OF map(1)])
    have "f < 57344" using taken_page [OF r] by simp
    then show "wp (if mem = 0 then panic ''No Free Page'' else
      bnd (on_phys (mappages (kva d) v PGSIZE (V2P mem) (PTE_W OR PTE_U OR PTE_P) 1)) (\<lambda>r.
      if r < 0 then panic ''Error in Mappages'' else bnd (on_fs (iget (fst (p_ip (procs s p))) (snd (p_ip (procs s p))))) (\<lambda>ip.
        for_each (\<lambda>i. pgflt_load dv p v mem ip) [0 ..< (2 :: nat)]))) (\<lambda>_ u. ?Q u) x"
      if "mem = kva f \<and> wp (on_phys (mappages (kva d) v PGSIZE (V2P (kva f)) (PTE_W OR PTE_U OR PTE_P) 1)) (\<lambda>r w. r = 0 \<and> w = t) x" for mem x
      unfolding conjunct1 [OF that] by (subst if_not_P) (use rest [OF conjunct2 [OF that]] \<open>f < 57344\<close> in \<open>simp_all only: kva_neq_0 simp_thms\<close>)
  qed
  from this [folded pg] show ?thesis
    unfolding pgflt_handler_def Let_def v(1) [symmetric] if_not_P [OF guard]
    by (simp add: wp_bnd [of "get_proc_at _"] wp_bnd [of "on_swap _"] wp_get_proc_at wp_on_swap check)
qed

section \<open>Properties\<close>



text \<open>A platform without devices, and a trap frame of a page fault in user mode.\<close>

definition pf_example :: platform where
  "pf_example = \<lparr>pf_dv = devsw_none, pf_forkret = 0, pf_trapret = 0, pf_void = 0, pf_ideintr = ret (), pf_kbdintr = ret (), pf_uartintr = ret ()\<rparr>"

definition tf_example :: trapframe where
  "tf_example = (p_tf proc_zero)\<lparr>tf_trapno := T_PGFLT, tf_cs := 3\<rparr>"


text \<open>A program of 4352 bytes, 0x1100 in hexadecimal, with 12288 bytes of memory; the fault is on its second page, of which 256 bytes are
  in the file, all of them 9.\<close>

definition load_example :: kern where
  "load_example = swap_example\<lparr>
     k_fs := (k_fs swap_example)\<lparr>inodes := (inodes (k_fs swap_example))(0 := ip_example),
       fs_log := (fs_log (k_fs swap_example))\<lparr>lg_blk := (kblk swap_example)\<lparr>bk_data := (\<lambda>n _. if n = 68 then 9 else 0),
         bk_disk := (\<lambda>n _. if n = 68 then 9 else 0)\<rparr>\<rparr>\<rparr>,
     procs := (procs swap_example)(0 := (procs swap_example 0)\<lparr>p_ph := \<lparr>ph_filesz = 0x1100, ph_memsz = 0x3000, ph_vaddr = 0, ph_off = 0\<rparr>,
       p_ip := (1, 7)\<rparr>)\<rparr>"


end
