(* ===== verification/Effects.thy ===== *)
theory Effects
  imports Proc
begin

text \<open>
  What the routines of the kernel leave of the process table. Most of them change no state, pid, parent or
  channel of a process, except that they may wake processes up. This is shown routine by routine, from rules
  for the combinators of the monad.
\<close>

section \<open>Effects of routines\<close>

text \<open>Every run of \<open>m\<close> that returns takes a state to one related by \<open>R\<close>.\<close>

definition effect :: "('s \<Rightarrow> 's \<Rightarrow> bool) \<Rightarrow> ('s, 'a) km \<Rightarrow> bool" where
  "effect R m \<longleftrightarrow> (\<forall>s x t. m s = Inr (x, t) \<longrightarrow> R s t)"

lemma effectD: "effect R m \<Longrightarrow> m s = Inr (x, t) \<Longrightarrow> R s t"
  by (auto simp: effect_def)

text \<open>The rules for a reflexive and transitive relation.\<close>

locale effect_order =
  fixes R :: "'s \<Rightarrow> 's \<Rightarrow> bool"
  assumes refl: "R s s" and trans: "R s t \<Longrightarrow> R t u \<Longrightarrow> R s u"
begin

lemma ret: "effect R (ret x)"
  using refl by (simp add: effect_def run_simps)

lemma fail: "effect R (fail e)"
  by (simp add: effect_def run_simps)

lemma panic: "effect R (panic msg)"
  by (simp add: effect_def run_simps)

lemma gets: "effect R (gets f)"
  using refl by (simp add: effect_def run_simps)

lemma deref: "effect R (deref p)"
  using refl by (cases p) (simp_all add: effect_def run_simps)

lemma bnd: "effect R m \<Longrightarrow> (\<And>x. effect R (f x)) \<Longrightarrow> effect R (bnd m f)"
  unfolding effect_def bnd_run by (fastforce split: sum.splits intro: trans)

lemma sq: "effect R m \<Longrightarrow> effect R n \<Longrightarrow> effect R (sq m n)"
  unfolding sq_def by (rule bnd)

lemma for_each: "(\<And>x. effect R (f x)) \<Longrightarrow> effect R (for_each f xs)"
  by (induction xs) (simp_all add: ret sq)

lemma if_else: "(b \<Longrightarrow> effect R m) \<Longrightarrow> (\<not> b \<Longrightarrow> effect R n) \<Longrightarrow> effect R (if b then m else n)"
  by simp

lemma case_opt: "effect R m \<Longrightarrow> (\<And>x. effect R (f x)) \<Longrightarrow> effect R (case_option m f r)"
  by (cases r) simp_all

lemma case_pair: "(\<And>x y. effect R (f x y)) \<Longrightarrow> effect R (case_prod f p)"
  by (cases p) simp

lemmas rules = ret fail panic gets deref bnd sq for_each if_else case_opt case_pair

end

section \<open>Mild changes of the process table\<close>

text \<open>
  \<open>mild s t\<close>: from \<open>s\<close> to \<open>t\<close> the table keeps its lock, pids, parents and channels, and no state changes except that
  sleeping processes may become runnable.
\<close>

definition pmild :: "proc \<Rightarrow> proc \<Rightarrow> bool" where
  "pmild q r \<longleftrightarrow> p_pid r = p_pid q \<and> p_parent r = p_parent q \<and> p_chan r = p_chan q \<and>
     (p_state r = p_state q \<or> p_state q = SLEEPING \<and> p_state r = RUNNABLE)"

definition mild :: "kern \<Rightarrow> kern \<Rightarrow> bool" where
  "mild s t \<longleftrightarrow> pt_lock t = pt_lock s \<and> nextpid t = nextpid s \<and> initproc t = initproc s \<and>
     (\<forall>i. pmild (procs s i) (procs t i))"

lemma pmild_refl [simp]: "pmild q q"
  by (simp add: pmild_def)

lemma pmild_trans: "pmild q r \<Longrightarrow> pmild r w \<Longrightarrow> pmild q w"
  by (auto simp: pmild_def)

lemma pmild_woken [simp]: "pmild q (woken chan q)"
  by (simp add: pmild_def woken_def)

interpretation mildly: effect_order mild
proof unfold_locales
  show "mild s s" for s by (simp add: mild_def)
  show "mild s t \<Longrightarrow> mild t u \<Longrightarrow> mild s u" for s t u by (auto simp: mild_def intro: pmild_trans)
qed

named_theorems mild_rules \<open>routines with a mild effect on the process table\<close>

lemma mild_on [mild_rules]: "effect mild (on_phys m1)" "effect mild (on_lru m2)" "effect mild (on_swap m3)" "effect mild (on_fs m4)"
    "effect mild (on_pipe a m5)" "effect mild (get_proc_at i)" "effect mild (get_file i)" "effect mild (upd_file i g)"
  by (auto simp: effect_def on_phys_def on_lru_def on_swap_def on_fs_def on_pipe_def get_proc_at_def get_file_def upd_file_def
      run_simps mild_def split: sum.splits)

lemma mild_upd_proc:
  "(\<And>q. p_pid (g q) = p_pid q \<and> p_parent (g q) = p_parent q \<and> p_chan (g q) = p_chan q \<and> p_state (g q) = p_state q) \<Longrightarrow>
   effect mild (upd_proc i g)"
  by (auto simp: effect_def upd_proc_def run_simps mild_def pmild_def)

lemma mild_locks [mild_rules]:
  "effect mild (acquire ft_lock ft_lock_update)" "effect mild (release ft_lock ft_lock_update)"
  "effect mild (acquire ticks_lock ticks_lock_update)" "effect mild (release ticks_lock ticks_lock_update)"
  by (auto simp: effect_def run_simps mild_def split: if_splits)

lemma wakeup1_run: "wakeup1 chan s = Inr ((), s\<lparr>procs := (\<lambda>i. if i < NPROC then woken chan (procs s i) else procs s i)\<rparr>)"
proof -
  have "wp (wakeup1 chan) (\<lambda>_ t. t = s\<lparr>procs := (\<lambda>i. if i < NPROC then woken chan (procs s i) else procs s i)\<rparr>) s"
    unfolding wakeup1_def
    by (rule wp_for_each [where I = "\<lambda>k t. t = s\<lparr>procs := (\<lambda>i. if i < k then woken chan (procs s i) else procs s i)\<rparr>"])
      (auto simp: wp_rules fun_eq_iff less_Suc_eq intro!: arg_cong [of _ _ "\<lambda>f. s\<lparr>procs := f\<rparr>"])
  then show ?thesis by (auto elim: wpE)
qed

lemma mild_wakeup1 [mild_rules]: "effect mild (wakeup1 chan)"
  by (auto simp: effect_def wakeup1_run mild_def)

lemma pt_unlock: "\<not> pt_lock s \<Longrightarrow> s\<lparr>pt_lock := False\<rparr> = s"
  by (cases s) simp

lemma wakeup_run:
  "\<not> pt_lock s \<Longrightarrow> wakeup chan s = Inr ((), s\<lparr>procs := (\<lambda>i. if i < NPROC then woken chan (procs s i) else procs s i)\<rparr>)"
  using pt_unlock [of s] by (simp add: wakeup_def run_simps wakeup1_run cong: if_cong)

lemma mild_wakeup [mild_rules]: "effect mild (wakeup chan)"
  by (auto simp: effect_def wakeup_def run_simps wakeup1_run mild_def split: if_splits)

lemma mild_kernel [mild_rules]:
  "effect mild k_begin_op" "effect mild k_end_op" "effect mild (get_proc pid)" "effect mild (writeswap pg dev bno)"
  unfolding k_begin_op_def k_end_op_def get_proc_def writeswap_def on_disk_blk_def
  by (intro mildly.rules mild_rules)+

lemma mild_swap_free [mild_rules]: "effect mild (swap_free pid)"
  unfolding swap_free_def by (intro mildly.rules mild_rules mild_upd_proc) simp_all

lemma mild_klru_free_swap [mild_rules]: "effect mild (klru_free_swap p v)"
  unfolding klru_free_swap_def by (intro mildly.rules mild_rules)

lemma mild_swap_out_to [mild_rules]: "effect mild (swap_out_to space buffer start p va)"
  unfolding swap_out_to_def by (intro mildly.rules mild_rules mild_upd_proc) simp_all

lemma mild_swapfunc_out [mild_rules]: "effect mild (swapfunc_out n p va)"
  unfolding swapfunc_out_def swap_out_def swap_out_stack_def swap_out_heap_def by (auto intro: mildly.rules mild_rules)

lemma mild_get_lru_loop [mild_rules]: "effect mild (get_lru_loop k pid va)"
  by (induction k) (unfold get_lru_loop.simps, (intro mildly.rules mild_rules mild_upd_proc | simp)+)

lemma mild_kalloc [mild_rules]: "effect mild (kalloc pid v)"
  unfolding kalloc_def get_lru_def by (intro mildly.rules mild_rules)

lemma mild_copyuvm_loop [mild_rules]: "effect mild (copyuvm_loop k old new d i mem)"
  by (induction k arbitrary: i mem) (unfold copyuvm_loop.simps, (intro mildly.rules mild_rules | simp)+)

lemma mild_copyuvm [mild_rules]: "effect mild (copyuvm old new)"
  unfolding copyuvm_def by (intro mildly.rules mild_rules)

lemma mild_files [mild_rules]: "effect mild (filedup i)" "effect mild (pipeclose p w)"
  unfolding filedup_def pipeclose_def by (intro mildly.rules mild_rules)+

lemma mild_fileclose [mild_rules]: "effect mild (fileclose i)"
  unfolding fileclose_def by (intro mildly.rules mild_rules) (auto split: fd_type.split intro!: mildly.rules mild_rules)

lemma mild_fork_file [mild_rules]: "effect mild (fork_file cur np i)"
  unfolding fork_file_def by (intro mildly.rules mild_rules mild_upd_proc) simp_all

lemma mild_exit_file [mild_rules]: "effect mild (exit_file cur i)"
  unfolding exit_file_def by (intro mildly.rules mild_rules mild_upd_proc) simp_all

lemma mild_switchuvm [mild_rules]: "effect mild (switchuvm p)"
  unfolding switchuvm_def by (intro mildly.rules mild_rules)

lemma mild_sched [mild_rules]: "effect mild (sched b cur)"
  unfolding sched_def by (intro mildly.rules mild_rules)

end
