(* ===== verification/Scheduling.thy ===== *)
theory Scheduling
  imports Effects
begin

text \<open>
  The life of processes on several processors, as a step relation over the kernel state and what runs on
  each processor. The steps are the routines of proc.c, each up to the point where the processor changes hands.
  The invariants of the process table hold in every reachable state.
\<close>

section \<open>What the routines do to the process table\<close>

lemma bndE: "bnd m f s = Inr (y, u) \<Longrightarrow> (\<And>x t. m s = Inr (x, t) \<Longrightarrow> f x t = Inr (y, u) \<Longrightarrow> P) \<Longrightarrow> P"
  by (auto simp: bnd_run split: sum.splits)

lemma sqE: "sq m n s = Inr (y, u) \<Longrightarrow> (\<And>x t. m s = Inr (x, t) \<Longrightarrow> n t = Inr (y, u) \<Longrightarrow> P) \<Longrightarrow> P"
  by (auto simp: sq_run split: sum.splits)

text \<open>Everything but the process \<open>np\<close> changes mildly; the lock is not looked at.\<close>

definition around :: "nat \<Rightarrow> kern \<Rightarrow> kern \<Rightarrow> bool" where
  "around np s t \<longleftrightarrow> nextpid t = nextpid s \<and> initproc t = initproc s \<and> p_pid (procs t np) = p_pid (procs s np) \<and>
     p_parent (procs t np) = p_parent (procs s np) \<and> (\<forall>i. i \<noteq> np \<longrightarrow> pmild (procs s i) (procs t i))"

interpretation framed: effect_order "around np" for np
  by unfold_locales (auto simp: around_def intro: pmild_trans)

lemma mild_frame: "effect mild m \<Longrightarrow> effect (around np) m"
  by (auto simp: effect_def mild_def around_def pmild_def)

lemma frame_upd: "(\<And>q. p_pid (g q) = p_pid q \<and> p_parent (g q) = p_parent q) \<Longrightarrow> effect (around np) (upd_proc np g)"
  by (auto simp: effect_def upd_proc_def run_simps around_def)

lemma frame_lock: "effect (around np) (acquire pt_lock pt_lock_update)" "effect (around np) (release pt_lock pt_lock_update)"
  by (auto simp: effect_def run_simps around_def split: if_splits)

text \<open>A free entry was taken: it has the next pid, and is in state \<open>st\<close>.\<close>

definition took :: "nat \<Rightarrow> procstate \<Rightarrow> kern \<Rightarrow> kern \<Rightarrow> bool" where
  "took np st s t \<longleftrightarrow> np < NPROC \<and> p_state (procs s np) = UNUSED \<and> nextpid t = nextpid s + 1 \<and> initproc t = initproc s \<and> \<not> pt_lock t \<and>
     p_pid (procs t np) = nextpid s \<and> p_state (procs t np) = st \<and> (\<forall>i. i \<noteq> np \<longrightarrow> pmild (procs s i) (procs t i))"

lemma allocproc_effect:
  assumes run: "allocproc fa ta s = Inr (r, t)" and lk: "\<not> pt_lock s"
  shows "case r of None \<Rightarrow> mild s t \<or> (\<exists>np. took np UNUSED s t \<and> p_parent (procs t np) = p_parent (procs s np))
    | Some np \<Rightarrow> took np EMBRYO s t \<and> p_parent (procs t np) = p_parent (procs s np)"
proof (cases "scan_from (\<lambda>i. p_state (procs s i) = UNUSED) 0 NPROC")
  case None
  with run lk pt_unlock [OF lk] show ?thesis by (auto simp: allocproc_def run_simps mildly.refl)
next
  case (Some np)
  note np = scan_from_Some [OF Some]
  define u where "u = s\<lparr>procs := (procs s)(np := (procs s np)\<lparr>p_state := EMBRYO, p_pid := nextpid s\<rparr>), nextpid := nextpid s + 1, pt_lock := False\<rparr>"
  have "allocproc fa ta s = bnd (kalloc (-1) 0) (\<lambda>k.
         sq (upd_proc np (\<lambda>q. q\<lparr>p_kstack := k\<rparr>)) (
         if k = 0 then sq (upd_proc np (\<lambda>q. q\<lparr>p_state := UNUSED\<rparr>)) (ret None)
         else (let sp = k + KSTACKSIZE - TRAPFRAME - 4 in
            sq (on_phys (kst sp ta)) (
            sq (upd_proc np (\<lambda>q. q\<lparr>p_context := new_context fa\<rparr>)) (ret (Some np)))))) u"
    using Some lk pt_unlock [OF lk] by (simp add: allocproc_def run_simps upd_proc_def u_def)
  with run obtain k v where k: "kalloc (-1) 0 u = Inr (k, v)" and rest: "sq (upd_proc np (\<lambda>q. q\<lparr>p_kstack := k\<rparr>)) (
         if k = 0 then sq (upd_proc np (\<lambda>q. q\<lparr>p_state := UNUSED\<rparr>)) (ret None)
         else (let sp = k + KSTACKSIZE - TRAPFRAME - 4 in
            sq (on_phys (kst sp ta)) (
            sq (upd_proc np (\<lambda>q. q\<lparr>p_context := new_context fa\<rparr>)) (ret (Some np))))) v = Inr (r, t)"
    by (auto elim!: bndE)
  have m: "mild u v" by (rule effectD [OF mild_kalloc k])
  have new: "p_pid (procs v np) = nextpid s" "p_state (procs v np) = EMBRYO" "p_parent (procs v np) = p_parent (procs s np)"
    "nextpid v = nextpid s + 1" "initproc v = initproc s" "\<not> pt_lock v" "\<And>i. i \<noteq> np \<Longrightarrow> pmild (procs s i) (procs v i)"
    using m lk by (auto simp: mild_def u_def pmild_def split: if_splits)
  show ?thesis
    using rest np new
    by (auto simp: run_simps upd_proc_def on_phys_def Let_def took_def split: if_splits sum.splits)
qed

text \<open>What \<open>fork\<close> by process \<open>cur\<close> leaves behind, whether it succeeds or not.\<close>

definition forked :: "nat \<Rightarrow> kern \<Rightarrow> kern \<Rightarrow> bool" where
  "forked cur s t \<longleftrightarrow> mild s t \<or> (\<exists>np. took np UNUSED s t \<and> p_parent (procs t np) = p_parent (procs s np)) \<or>
     (\<exists>np. took np RUNNABLE s t \<and> p_parent (procs t np) = Some cur)"

lemma frame_took:
  assumes "took np st s u" "around np u t" "\<not> pt_lock t" "p_state (procs t np) = st'"
  shows "took np st' s t"
  using assms by (auto simp: took_def around_def intro: pmild_trans)

lemma mild_pmild: "mild s t \<Longrightarrow> pmild (procs s i) (procs t i)"
  by (simp add: mild_def)

lemma mild_took:
  assumes "took np EMBRYO s u" "mild u t"
  shows "took np EMBRYO s t" "p_parent (procs t np) = p_parent (procs u np)"
proof -
  have "p_state (procs t np) = EMBRYO \<and> p_pid (procs t np) = p_pid (procs u np) \<and> p_parent (procs t np) = p_parent (procs u np)"
    using mild_pmild [OF assms(2), of np] assms(1) by (auto simp: took_def pmild_def)
  with assms show "took np EMBRYO s t" "p_parent (procs t np) = p_parent (procs u np)"
    by (auto simp: took_def mild_def intro: pmild_trans)
qed

text \<open>Facts about the final state of a sequence come from its last part.\<close>

lemma post_bnd: "(\<And>x. effect (\<lambda>_. Q) (f x)) \<Longrightarrow> effect (\<lambda>_. Q) (bnd m f)"
  by (auto simp: effect_def elim!: bndE)

lemma post_sq: "effect (\<lambda>_. Q) n \<Longrightarrow> effect (\<lambda>_. Q) (sq m n)"
  by (auto simp: effect_def elim!: sqE)

lemma post_if: "effect R m \<Longrightarrow> effect R n \<Longrightarrow> effect R (if b then m else n)"
  by simp

lemma fork_rest_effect:
  "effect (around np) (fork_rest cur np p)" "effect (\<lambda>_ t. p_state (procs t np) = RUNNABLE \<and> \<not> pt_lock t) (fork_rest cur np p)"
proof -
  have g: "effect (around np) (upd_proc cur (\<lambda>q. q\<lparr>p_forked := True\<rparr>))"
    by (intro mild_frame mild_upd_proc) simp
  show "effect (around np) (fork_rest cur np p)"
    unfolding fork_rest_def
    by (intro framed.rules g frame_lock frame_upd mild_frame [OF mild_fork_file] mild_frame [OF mild_on(3)] mild_frame [OF mild_on(4)]
        mild_frame [OF mild_on(6)]) simp_all
  have "effect (\<lambda>_ t. p_state (procs t np) = RUNNABLE \<and> \<not> pt_lock t) (sq (acquire pt_lock pt_lock_update) (
     sq (upd_proc np (\<lambda>q. q\<lparr>p_state := RUNNABLE\<rparr>)) (sq (release pt_lock pt_lock_update) (ret x))))" for x :: int
    by (auto simp: effect_def run_simps upd_proc_def split: if_splits)
  then show "effect (\<lambda>_ t. p_state (procs t np) = RUNNABLE \<and> \<not> pt_lock t) (fork_rest cur np p)"
    unfolding fork_rest_def by (intro post_sq [of _ _ "for_each _ _"] post_sq [of _ _ "upd_proc _ _"] post_sq [of _ _ "on_swap _"] post_bnd)
qed

lemma fork_effect:
  assumes run: "fork fa ta cur s = Inr (r, t)" and lk: "\<not> pt_lock s"
  shows "forked cur s t"
proof -
  from run obtain a u where a: "allocproc fa ta s = Inr (a, u)" and rest: "(case a of None \<Rightarrow> ret (-1)
     | Some np \<Rightarrow>
         bnd (copyuvm cur np) (\<lambda>d.
         sq (upd_proc np (\<lambda>q. q\<lparr>p_pgdir := d\<rparr>)) (
         if d = 0 then
           bnd (get_proc_at np) (\<lambda>q.
           sq (on_phys (kfree (p_kstack q))) (
           sq (upd_proc np (\<lambda>q. q\<lparr>p_kstack := 0, p_state := UNUSED\<rparr>)) (ret (-1))))
         else
           bnd (get_proc_at cur) (\<lambda>p.
           sq (upd_proc np (\<lambda>q. q\<lparr>p_sz := p_sz p, p_parent := Some cur, p_tf := (p_tf p)\<lparr>tf_eax := 0\<rparr>\<rparr>))
              (fork_rest cur np p))))) u = Inr (r, t)"
    unfolding fork_def by (elim bndE)
  show ?thesis
  proof (cases a)
    case None
    with rest allocproc_effect [OF a lk] show ?thesis by (auto simp: run_simps forked_def)
  next
    case (Some np)
    with allocproc_effect [OF a lk] have u: "took np EMBRYO s u" "p_parent (procs u np) = p_parent (procs s np)" by simp_all
    from rest Some obtain d v where v: "copyuvm cur np u = Inr (d, v)" and rest':
      "(sq (upd_proc np (\<lambda>q. q\<lparr>p_pgdir := d\<rparr>)) (
         if d = 0 then
           bnd (get_proc_at np) (\<lambda>q.
           sq (on_phys (kfree (p_kstack q))) (
           sq (upd_proc np (\<lambda>q. q\<lparr>p_kstack := 0, p_state := UNUSED\<rparr>)) (ret (-1))))
         else
           bnd (get_proc_at cur) (\<lambda>p.
           sq (upd_proc np (\<lambda>q. q\<lparr>p_sz := p_sz p, p_parent := Some cur, p_tf := (p_tf p)\<lparr>tf_eax := 0\<rparr>\<rparr>))
              (fork_rest cur np p)))) v = Inr (r, t)"
      by (auto elim!: bndE)
    have m: "mild u v" by (rule effectD [OF mild_copyuvm v])
    define w where "w = v\<lparr>procs := (procs v)(np := (procs v np)\<lparr>p_pgdir := d\<rparr>)\<rparr>"
    have w: "took np EMBRYO s w" "p_parent (procs w np) = p_parent (procs s np)"
      using mild_took [OF u(1) m] u(2) by (auto simp: took_def w_def)
    show ?thesis
    proof (cases "d = 0")
      case True
      with rest' have "p_state (procs t np) = UNUSED \<and> around np w t \<and> pt_lock t = pt_lock w"
        by (auto simp: run_simps upd_proc_def get_proc_at_def on_phys_def around_def w_def split: sum.splits)
      with w frame_took [of np EMBRYO s w t UNUSED] show ?thesis
        by (auto simp: forked_def around_def took_def)
    next
      case False
      define x where "x = w\<lparr>procs := (procs w)(np := (procs w np)\<lparr>p_sz := p_sz (procs w cur), p_parent := Some cur,
        p_tf := (p_tf (procs w cur))\<lparr>tf_eax := 0\<rparr>\<rparr>)\<rparr>"
      from rest' False have r: "fork_rest cur np (procs w cur) x = Inr (r, t)"
        by (simp add: run_simps upd_proc_def get_proc_at_def w_def x_def)
      have "took np EMBRYO s x" "p_parent (procs x np) = Some cur"
        using w by (auto simp: took_def x_def)
      with effectD [OF fork_rest_effect(1) r] effectD [OF fork_rest_effect(2) r] frame_took [of np EMBRYO s x t RUNNABLE]
      show ?thesis by (auto simp: forked_def around_def)
    qed
  qed
qed

text \<open>One process \<open>p\<close> goes to state \<open>st\<close>, while the others change mildly; \<open>ptable.lock\<close> is free afterwards.\<close>

definition moved :: "nat \<Rightarrow> procstate \<Rightarrow> channel option \<Rightarrow> kern \<Rightarrow> kern \<Rightarrow> bool" where
  "moved p st ch s t \<longleftrightarrow> \<not> pt_lock t \<and> nextpid t = nextpid s \<and> initproc t = initproc s \<and>
     p_pid (procs t p) = p_pid (procs s p) \<and> p_parent (procs t p) = p_parent (procs s p) \<and>
     p_state (procs t p) = st \<and> (st = SLEEPING \<longrightarrow> p_chan (procs t p) = ch) \<and>
     (\<forall>i. i \<noteq> p \<longrightarrow> pmild (procs s i) (procs t i))"

lemma switchuvm_same: "switchuvm p s = Inr (x, t) \<Longrightarrow> t = s"
  by (auto simp: switchuvm_def get_proc_at_def run_simps split: if_splits)

lemma yield_effect: "sq (yield_enter p) (release pt_lock pt_lock_update) s = Inr (x, t) \<Longrightarrow> moved p RUNNABLE ch s t"
  by (auto simp: yield_enter_def sched_def get_proc_at_def upd_proc_def run_simps moved_def split: if_splits)

lemma sleep_effect:
  assumes run: "sq (sleep_enter (Some p) ch (Some rel)) (release pt_lock pt_lock_update) s = Inr (x, t)" and rel: "effect mild rel"
  shows "moved p SLEEPING (Some ch) s t"
proof -
  from run obtain u where u: "rel (s\<lparr>pt_lock := True\<rparr>) = Inr ((), u)"
    and t: "t = u\<lparr>procs := (procs u)(p := (procs u p)\<lparr>p_chan := Some ch, p_state := SLEEPING\<rparr>), pt_lock := False\<rparr>"
    by (auto simp: sleep_enter_def sched_def get_proc_at_def upd_proc_def run_simps split: if_splits sum.splits)
  from effectD [OF rel u] show ?thesis by (auto simp: t mild_def moved_def pmild_def)
qed

text \<open>What the process goes on with when the scheduler switches to it, other than in \<open>wait\<close>: in \<open>yield\<close>, in \<open>forkret\<close>
  or after \<open>sleep\<close>, where it takes back the lock it gave up.\<close>

inductive resumes :: "nat \<Rightarrow> (kern, unit) km \<Rightarrow> bool" for p :: nat where
  in_yield: "resumes p yield_return"
| in_fork: "resumes p forkret"
| in_sleep: "effect mild acq \<Longrightarrow> resumes p (sleep_return p (Some acq))"

lemma scheduler_try_switched:
  assumes "sq (acquire pt_lock pt_lock_update) (scheduler_try p) s = Inr (True, u)"
  shows "u = s\<lparr>pt_lock := True, procs := (procs s)(p := (procs s p)\<lparr>p_state := RUNNING\<rparr>)\<rparr>" "p_state (procs s p) = RUNNABLE"
  using assms
  by (auto simp: scheduler_try_def get_proc_at_def upd_proc_def run_simps split: if_splits sum.splits dest!: switchuvm_same)

lemma dispatch_effect:
  assumes run: "sq (acquire pt_lock pt_lock_update) (scheduler_try p) s = Inr (True, u)" "k u = Inr ((), t)" and k: "resumes p k"
  shows "moved p RUNNING ch s t \<and> p_state (procs s p) = RUNNABLE"
proof -
  note u = scheduler_try_switched [OF run(1)]
  from k show ?thesis
  proof cases
    case in_yield
    with run(2) show ?thesis by (auto simp: u yield_return_def run_simps moved_def)
  next
    case in_fork
    with run(2) show ?thesis
      by (auto simp: u forkret_def run_simps moved_def on_fs_def split: if_splits sum.splits)
  next
    case (in_sleep acq)
    then obtain v where v: "acq v = Inr ((), t)" "v = u\<lparr>procs := (procs u)(p := (procs u p)\<lparr>p_chan := None\<rparr>), pt_lock := False\<rparr>"
      using run(2) by (auto simp: u sleep_return_def upd_proc_def run_simps)
    from effectD [OF in_sleep(2) v(1)] show ?thesis by (auto simp: v(2) u mild_def moved_def pmild_def split: if_splits)
  qed
qed

subsection \<open>Exit\<close>

text \<open>\<open>asleep_wait t q\<close>: \<open>q\<close> sleeps in \<open>wait\<close>. \<open>pstill\<close> is \<open>pmild\<close> without the parent.\<close>

definition asleep_wait :: "kern \<Rightarrow> nat \<Rightarrow> bool" where
  "asleep_wait t q \<longleftrightarrow> p_state (procs t q) = SLEEPING \<and> p_chan (procs t q) = Some (ChProc q)"

definition pstill :: "proc \<Rightarrow> proc \<Rightarrow> bool" where
  "pstill q r \<longleftrightarrow> p_pid r = p_pid q \<and> p_chan r = p_chan q \<and>
     (p_state r = p_state q \<or> p_state q = SLEEPING \<and> p_state r = RUNNABLE)"

lemma pstill_refl [simp]: "pstill q q" "pstill q (q\<lparr>p_parent := x\<rparr>)"
  by (simp_all add: pstill_def)

lemma pmild_pstill: "pmild q r \<longleftrightarrow> pstill q r \<and> p_parent r = p_parent q"
  by (auto simp: pmild_def pstill_def)

lemma pstill_trans: "pstill q r \<Longrightarrow> pstill r w \<Longrightarrow> pstill q w"
  by (auto simp: pstill_def)

lemma asleep_still: "pstill (procs s q) (procs t q) \<Longrightarrow> asleep_wait t q \<Longrightarrow> asleep_wait s q"
  by (auto simp: asleep_wait_def pstill_def)

lemma pstill_state:
  assumes "pstill q r"
  shows "p_state r = ZOMBIE \<longleftrightarrow> p_state q = ZOMBIE" "p_state r = UNUSED \<longleftrightarrow> p_state q = UNUSED"
    "p_state r = RUNNING \<longleftrightarrow> p_state q = RUNNING" "p_state r = SLEEPING \<Longrightarrow> p_state q = SLEEPING"
    "p_pid r = p_pid q" "p_chan r = p_chan q"
  using assms by (auto simp: pstill_def)

lemma pstill_woken [simp]: "pstill q (woken ch q)" "pstill q (woken ch (q\<lparr>p_parent := x\<rparr>))"
  by (simp_all add: pstill_def woken_def)

text \<open>The state of the adoption loop after the first \<open>k\<close> entries.\<close>

definition adopted :: "nat \<Rightarrow> kern \<Rightarrow> nat \<Rightarrow> kern \<Rightarrow> bool" where
  "adopted cur s k t \<longleftrightarrow> pt_lock t = pt_lock s \<and> nextpid t = nextpid s \<and> initproc t = initproc s \<and>
     (\<forall>i. pstill (procs s i) (procs t i) \<and>
          p_parent (procs t i) = (if i < k \<and> p_parent (procs s i) = Some cur then initproc s else p_parent (procs s i))) \<and>
     (\<forall>i<k. \<forall>q<NPROC. p_parent (procs s i) = Some cur \<longrightarrow> p_state (procs s i) = ZOMBIE \<longrightarrow> initproc s = Some q \<longrightarrow>
        \<not> asleep_wait t q)"

lemma adopt_run:
  "adopt cur i s = Inr ((), if p_parent (procs s i) = Some cur
     then let t = s\<lparr>procs := (procs s)(i := (procs s i)\<lparr>p_parent := initproc s\<rparr>)\<rparr>
       in if p_state (procs s i) = ZOMBIE
          then t\<lparr>procs := (\<lambda>j. if j < NPROC then woken (map_option ChProc (initproc s)) (procs t j) else procs t j)\<rparr>
          else t
     else s)"
  by (simp add: adopt_def get_proc_at_def upd_proc_def run_simps wakeup1_run Let_def cong: if_cong)

lemma adopted_step:
  assumes a: "adopted cur s k t" and k: "k < NPROC"
  shows "wp (adopt cur k) (\<lambda>_ u. adopted cur s (Suc k) u) t"
proof -
  obtain u where u: "adopt cur k t = Inr ((), u)" by (simp add: adopt_run)
  have st: "pstill (procs s k) (procs t k)" and par: "p_parent (procs t k) = p_parent (procs s k)"
    using a by (auto simp: adopted_def)
  note zom = pstill_state(1) [OF st]
  have still: "pstill (procs t i) (procs u i)" for i
    using u by (auto simp: adopt_run Let_def)
  have parent: "p_parent (procs u i) = (if i = k \<and> p_parent (procs t k) = Some cur then initproc t else p_parent (procs t i))" for i
    using u by (auto simp: adopt_run Let_def woken_def)
  have same: "pt_lock u = pt_lock t" "nextpid u = nextpid t" "initproc u = initproc t"
    using u by (auto simp: adopt_run Let_def split: if_splits)
  have wake: "\<not> asleep_wait u q" if "p_parent (procs t k) = Some cur" "p_state (procs t k) = ZOMBIE" "initproc t = Some q" "q < NPROC" for q
    using u that by (auto simp: adopt_run Let_def asleep_wait_def woken_def split: if_splits)
  have "adopted cur s (Suc k) u"
    using a still parent same wake par zom asleep_still [OF still]
    unfolding adopted_def by (auto simp: less_Suc_eq intro: pstill_trans)
  then show ?thesis by (simp add: wp_def u)
qed

lemma adopt_loop:
  obtains t where "for_each (adopt cur) [0 ..< NPROC] s = Inr ((), t)" "adopted cur s NPROC t"
proof -
  have "wp (for_each (adopt cur) [0 ..< NPROC]) (\<lambda>_ t. adopted cur s NPROC t) s"
    by (rule wp_for_each [where I = "adopted cur s"]) (simp add: adopted_def, rule adopted_step)
  then show ?thesis by (rule wpE) (auto intro: that)
qed

text \<open>What \<open>exit\<close> leaves: the process is a zombie, its parent is not asleep in \<open>wait\<close>, its children are those of the
  first process, which is not asleep in \<open>wait\<close> if a zombie was among them.\<close>

definition exited :: "nat \<Rightarrow> kern \<Rightarrow> kern \<Rightarrow> bool" where
  "exited cur s t \<longleftrightarrow> \<not> pt_lock t \<and> nextpid t = nextpid s \<and> initproc t = initproc s \<and> initproc s \<noteq> Some cur \<and>
     p_state (procs t cur) = ZOMBIE \<and> p_pid (procs t cur) = p_pid (procs s cur) \<and>
     (\<forall>i. i \<noteq> cur \<longrightarrow> pstill (procs s i) (procs t i)) \<and>
     (\<forall>i. p_parent (procs t i) = (if i < NPROC \<and> p_parent (procs s i) = Some cur then initproc s else p_parent (procs s i))) \<and>
     (\<forall>q<NPROC. q \<noteq> cur \<longrightarrow> p_parent (procs s cur) = Some q \<longrightarrow> \<not> asleep_wait t q) \<and>
     (\<forall>i<NPROC. \<forall>q<NPROC. i \<noteq> cur \<longrightarrow> p_parent (procs s i) = Some cur \<longrightarrow> p_state (procs s i) = ZOMBIE \<longrightarrow> initproc s = Some q \<longrightarrow>
        \<not> asleep_wait t q)"

lemma exit_zombie_effect:
  assumes run: "sq (exit_zombie cur) (release pt_lock pt_lock_update) s = Inr (x, t)" and ini: "initproc s \<noteq> Some cur"
  shows "exited cur s t"
proof -
  define w where "w = s\<lparr>pt_lock := True, procs := (\<lambda>i. if i < NPROC then woken (map_option ChProc (p_parent (procs s cur))) (procs s i) else procs s i)\<rparr>"
  obtain v where v: "for_each (adopt cur) [0 ..< NPROC] w = Inr ((), v)" "adopted cur w NPROC v" by (rule adopt_loop)
  have t: "t = v\<lparr>procs := (procs v)(cur := (procs v cur)\<lparr>p_state := ZOMBIE\<rparr>), pt_lock := False\<rparr>"
    using run v(1)
    by (auto simp: exit_zombie_def sched_def get_proc_at_def upd_proc_def run_simps wakeup1_run w_def split: if_splits cong: if_cong)
  have w: "pstill (procs s i) (procs w i)" "p_parent (procs w i) = p_parent (procs s i)" for i
    by (auto simp: w_def woken_def pstill_def)
  have par: "\<not> asleep_wait w q" if "p_parent (procs s cur) = Some q" "q < NPROC" for q
    using that by (auto simp: w_def asleep_wait_def woken_def split: if_splits)
  have z: "p_state (procs w i) = ZOMBIE \<longleftrightarrow> p_state (procs s i) = ZOMBIE" for i
    by (rule pstill_state) (rule w)
  have vs: "pstill (procs w i) (procs v i)" for i using v(2) by (simp add: adopted_def)
  have tv: "asleep_wait t q \<longleftrightarrow> asleep_wait v q" if "q \<noteq> cur" for q using that by (simp add: t asleep_wait_def)
  show ?thesis
    unfolding exited_def
  proof (intro conjI allI impI)
    show "pstill (procs s i) (procs t i)" if "i \<noteq> cur" for i
      using that pstill_trans [OF w(1) vs] by (simp add: t)
    show "p_parent (procs t i) = (if i < NPROC \<and> p_parent (procs s i) = Some cur then initproc s else p_parent (procs s i))" for i
      using v(2) w(2) by (auto simp: t adopted_def w_def)
    show "\<not> asleep_wait t q" if "q < NPROC" "q \<noteq> cur" "p_parent (procs s cur) = Some q" for q
      using that par asleep_still [OF vs] tv by blast
    show "\<not> asleep_wait t q" if "i < NPROC" "q < NPROC" "i \<noteq> cur" "p_parent (procs s i) = Some cur" "p_state (procs s i) = ZOMBIE" "initproc s = Some q" for i q
    proof -
      have "initproc w = Some q" "q \<noteq> cur" using that ini by (auto simp: w_def)
      then show ?thesis using that v(2) w(2) z tv by (simp add: adopted_def)
    qed
    show "p_pid (procs t cur) = p_pid (procs s cur)"
      using pstill_trans [OF w(1) vs, of cur] by (simp add: t pstill_state)
  qed (use v(2) ini in \<open>auto simp: t adopted_def w_def\<close>)
qed

lemma mild_exited:
  assumes m: "mild s w" and e: "exited cur w t"
  shows "exited cur s t"
proof -
  have p: "pstill (procs s i) (procs w i)" "p_parent (procs w i) = p_parent (procs s i)" for i
    using mild_pmild [OF m, of i] by (simp_all add: pmild_pstill)
  have g: "nextpid w = nextpid s" "initproc w = initproc s" using m by (simp_all add: mild_def)
  show ?thesis
    using e pstill_trans [OF p(1)] pstill_state(5) [OF p(1)] pstill_state(1) [OF p(1)] unfolding exited_def p(2) g by auto
qed

lemma exit_effect:
  assumes run: "sq (exit cur) (release pt_lock pt_lock_update) s = Inr (x, t)"
  shows "exited cur s t"
proof -
  have ini: "initproc s \<noteq> Some cur"
    using run by (auto simp: exit_def run_simps)
  have eff: "effect (\<lambda>s w. mild s w) (sq (for_each (exit_file cur) [0 ..< NOFILE]) (sq k_begin_op (
       bnd (get_proc_at cur) (\<lambda>p. bnd (deref (p_cwd p)) (\<lambda>c. sq (on_fs (iput c)) (sq k_end_op (
       upd_proc cur (\<lambda>q. q\<lparr>p_cwd := None\<rparr>))))))))"
    by (intro mildly.rules mild_rules mild_upd_proc) simp
  from run ini obtain y w where w: "(sq (for_each (exit_file cur) [0 ..< NOFILE]) (sq k_begin_op (
       bnd (get_proc_at cur) (\<lambda>p. bnd (deref (p_cwd p)) (\<lambda>c. sq (on_fs (iput c)) (sq k_end_op (
       upd_proc cur (\<lambda>q. q\<lparr>p_cwd := None\<rparr>)))))))) s = Inr (y, w)"
    and z: "sq (exit_zombie cur) (release pt_lock pt_lock_update) w = Inr (x, t)"
    by (auto simp: exit_def sq_run bnd_run run_simps split: sum.splits)
  have m: "mild s w" by (rule effectD [OF eff w])
  with ini exit_zombie_effect [OF z] show ?thesis by (intro mild_exited [OF m]) (simp add: mild_def)
qed

subsection \<open>Wait\<close>

text \<open>A zombie child of \<open>cur\<close> was reaped: its entry is free and nobody's child.\<close>

definition reaped :: "nat \<Rightarrow> nat \<Rightarrow> kern \<Rightarrow> kern \<Rightarrow> bool" where
  "reaped cur i s t \<longleftrightarrow> i < NPROC \<and> p_state (procs s i) = ZOMBIE \<and> p_parent (procs s i) = Some cur \<and>
     \<not> pt_lock t \<and> nextpid t = nextpid s \<and> initproc t = initproc s \<and>
     p_state (procs t i) = UNUSED \<and> p_parent (procs t i) = None \<and> (\<forall>j. j \<noteq> i \<longrightarrow> pmild (procs s j) (procs t j))"

definition no_zombie :: "nat \<Rightarrow> kern \<Rightarrow> bool" where
  "no_zombie cur s \<longleftrightarrow> (\<forall>i<NPROC. p_parent (procs s i) = Some cur \<longrightarrow> p_state (procs s i) \<noteq> ZOMBIE)"

lemma reap_effect:
  assumes "reap i s = Inr (r, t)"
  shows "pt_lock t = pt_lock s \<and> nextpid t = nextpid s \<and> initproc t = initproc s \<and>
     p_state (procs t i) = UNUSED \<and> p_parent (procs t i) = None \<and> (\<forall>j. j \<noteq> i \<longrightarrow> pmild (procs s j) (procs t j))"
proof -
  have m: "effect mild (sq (on_phys (kfree (p_kstack q))) (sq (upd_proc i (\<lambda>q. q\<lparr>p_kstack := 0\<rparr>)) (
     sq (on_lru (lru_free (p_pid q))) (sq (swap_free (p_pid q)) (on_phys (freevm (p_pgdir q)))))))" for q
    by (intro mildly.rules mild_rules mild_upd_proc) simp
  from assms obtain y w where w: "(sq (on_phys (kfree (p_kstack (procs s i)))) (sq (upd_proc i (\<lambda>q. q\<lparr>p_kstack := 0\<rparr>)) (
     sq (on_lru (lru_free (p_pid (procs s i)))) (sq (swap_free (p_pid (procs s i))) (on_phys (freevm (p_pgdir (procs s i)))))))) s = Inr (y, w)"
    and t: "t = w\<lparr>procs := (procs w)(i := (procs w i)\<lparr>p_pid := 0, p_parent := None, p_names := (p_names (procs w i))(0 := 0),
        p_killed := False, p_state := UNUSED\<rparr>)\<rparr>"
    by (auto simp: reap_def get_proc_at_def sq_run bnd_run run_simps split: sum.splits) (auto simp: upd_proc_def run_simps)
  from effectD [OF m w] show ?thesis by (auto simp: t mild_def)
qed

lemma wait_round_returned:
  assumes run: "wait_round cur s = Inr (Returned r, t)"
  shows "t = s\<lparr>pt_lock := False\<rparr> \<or> (\<exists>i. reaped cur i s t)"
proof (cases "scan_from (\<lambda>i. p_parent (procs s i) = Some cur \<and> p_state (procs s i) = ZOMBIE) 0 NPROC")
  case None
  with run show ?thesis
    by (auto simp: wait_round_def run_simps split: if_splits sum.splits)
next
  case (Some i)
  with run obtain pid u where u: "reap i s = Inr (pid, u)" and t: "t = u\<lparr>pt_lock := False\<rparr>"
    by (auto simp: wait_round_def run_simps split: sum.splits if_splits)
  from reap_effect [OF u] scan_from_Some [OF Some] show ?thesis by (auto simp: reaped_def t)
qed

lemma wait_round_asleep:
  assumes run: "wait_round cur s = Inr (Asleep x, t)"
  shows "t = s\<lparr>procs := (procs s)(cur := (procs s cur)\<lparr>p_chan := Some (ChProc cur), p_state := SLEEPING\<rparr>)\<rparr> \<and> pt_lock s \<and> no_zombie cur s"
proof (cases "scan_from (\<lambda>i. p_parent (procs s i) = Some cur \<and> p_state (procs s i) = ZOMBIE) 0 NPROC")
  case None
  with run iffD1 [OF scan_from_None None] show ?thesis
    by (auto simp: wait_round_def run_simps sleep_enter_def sched_def upd_proc_def get_proc_at_def no_zombie_def split: if_splits)
next
  case (Some i)
  with run show ?thesis by (auto simp: wait_round_def run_simps split: sum.splits if_splits)
qed

section \<open>The machine\<close>

text \<open>The kernel state and, for each processor, the process it runs; \<open>None\<close> is the processor's scheduler.\<close>

record machine =
  mk :: kern
  on_cpu :: "nat \<Rightarrow> nat option"

text \<open>
  One step of one processor \<open>c\<close>. A process computes, or calls \<open>fork\<close>, \<open>yield\<close>, \<open>sleep\<close>, \<open>exit\<close> or \<open>wait\<close>; the
  scheduler switches to a runnable process, which goes on behind its \<open>swtch\<close>. After a switch back the scheduler holds
  \<open>ptable.lock\<close> until the end of its pass over the table, here until the end of the step. A process that computes may
  do anything with a mild effect on the table, such as \<open>wakeup\<close>, \<open>kill\<close>, allocating memory and the file system.
  Only \<open>wait\<close> sleeps on a process. \<open>nextpid\<close> is an \<open>int\<close>, and \<open>fork\<close> is taken only while it does not overflow.
\<close>

inductive mstep :: "machine \<Rightarrow> machine \<Rightarrow> bool" where
  compute: "effect mild r \<Longrightarrow> r (mk m) = Inr ((), t) \<Longrightarrow> mstep m (m\<lparr>mk := t\<rparr>)"
| forks: "on_cpu m c = Some p \<Longrightarrow> nextpid (mk m) < 0x7fffffff \<Longrightarrow> fork fa ta p (mk m) = Inr (r, t) \<Longrightarrow> mstep m (m\<lparr>mk := t\<rparr>)"
| dispatches: "on_cpu m c = None \<Longrightarrow> p < NPROC \<Longrightarrow> sq (acquire pt_lock pt_lock_update) (scheduler_try p) (mk m) = Inr (True, u) \<Longrightarrow>
    resumes p k \<Longrightarrow> k u = Inr ((), t) \<Longrightarrow> mstep m (m\<lparr>mk := t, on_cpu := (on_cpu m)(c := Some p)\<rparr>)"
| resumes_wait: "on_cpu m c = None \<Longrightarrow> p < NPROC \<Longrightarrow> sq (acquire pt_lock pt_lock_update) (scheduler_try p) (mk m) = Inr (True, u) \<Longrightarrow>
    wait_resume p u = Inr (Returned r, t) \<Longrightarrow> mstep m (m\<lparr>mk := t, on_cpu := (on_cpu m)(c := Some p)\<rparr>)"
| sleeps_again: "on_cpu m c = None \<Longrightarrow> p < NPROC \<Longrightarrow> sq (acquire pt_lock pt_lock_update) (scheduler_try p) (mk m) = Inr (True, u) \<Longrightarrow>
    wait_resume p u = Inr (Asleep x, v) \<Longrightarrow> release pt_lock pt_lock_update v = Inr (y, t) \<Longrightarrow> mstep m (m\<lparr>mk := t\<rparr>)"
| yields: "on_cpu m c = Some p \<Longrightarrow> sq (yield_enter p) (release pt_lock pt_lock_update) (mk m) = Inr (x, t) \<Longrightarrow>
    mstep m (m\<lparr>mk := t, on_cpu := (on_cpu m)(c := None)\<rparr>)"
| sleeps: "on_cpu m c = Some p \<Longrightarrow> (\<forall>q. ch \<noteq> ChProc q) \<Longrightarrow> effect mild rel \<Longrightarrow>
    sq (sleep_enter (Some p) ch (Some rel)) (release pt_lock pt_lock_update) (mk m) = Inr (x, t) \<Longrightarrow>
    mstep m (m\<lparr>mk := t, on_cpu := (on_cpu m)(c := None)\<rparr>)"
| exits: "on_cpu m c = Some p \<Longrightarrow> sq (exit p) (release pt_lock pt_lock_update) (mk m) = Inr (x, t) \<Longrightarrow>
    mstep m (m\<lparr>mk := t, on_cpu := (on_cpu m)(c := None)\<rparr>)"
| waits: "on_cpu m c = Some p \<Longrightarrow> wait p (mk m) = Inr (Returned r, t) \<Longrightarrow> mstep m (m\<lparr>mk := t\<rparr>)"
| waits_asleep: "on_cpu m c = Some p \<Longrightarrow> wait p (mk m) = Inr (Asleep x, v) \<Longrightarrow> release pt_lock pt_lock_update v = Inr (y, t) \<Longrightarrow>
    mstep m (m\<lparr>mk := t, on_cpu := (on_cpu m)(c := None)\<rparr>)"

text \<open>The invariant of the table. \<open>ini\<close> is the process that \<open>userinit\<close> makes.\<close>

definition live :: "procstate \<Rightarrow> bool" where
  "live st \<longleftrightarrow> st \<noteq> UNUSED \<and> st \<noteq> ZOMBIE"

definition pids_ok :: "kern \<Rightarrow> bool" where
  "pids_ok s \<longleftrightarrow> 0 < nextpid s \<and>
     (\<forall>i. p_state (procs s i) \<noteq> UNUSED \<longrightarrow> i < NPROC \<and> 0 < p_pid (procs s i) \<and> p_pid (procs s i) < nextpid s) \<and>
     (\<forall>i j. p_state (procs s i) \<noteq> UNUSED \<longrightarrow> p_state (procs s j) \<noteq> UNUSED \<longrightarrow> p_pid (procs s i) = p_pid (procs s j) \<longrightarrow> i = j)"

definition parents_ok :: "nat \<Rightarrow> kern \<Rightarrow> bool" where
  "parents_ok ini s \<longleftrightarrow> initproc s = Some ini \<and> live (p_state (procs s ini)) \<and> p_parent (procs s ini) = None \<and>
     (\<forall>i. p_state (procs s i) \<noteq> UNUSED \<longrightarrow> i \<noteq> ini \<longrightarrow> p_parent (procs s i) \<noteq> None) \<and>
     (\<forall>i q. p_parent (procs s i) = Some q \<longrightarrow> q \<noteq> i \<and> live (p_state (procs s q)) \<and> p_state (procs s i) \<noteq> UNUSED)"

definition sleep_ok :: "kern \<Rightarrow> bool" where
  "sleep_ok s \<longleftrightarrow> (\<forall>i. p_state (procs s i) = SLEEPING \<longrightarrow> p_chan (procs s i) \<noteq> None) \<and> (\<forall>q. asleep_wait s q \<longrightarrow> no_zombie q s)"

definition pt_ok :: "nat \<Rightarrow> kern \<Rightarrow> bool" where
  "pt_ok ini s \<longleftrightarrow> \<not> pt_lock s \<and> pids_ok s \<and> parents_ok ini s \<and> sleep_ok s"

text \<open>A process is running exactly if a processor runs it, and one processor does.\<close>

definition cpus_ok :: "machine \<Rightarrow> bool" where
  "cpus_ok m \<longleftrightarrow> (\<forall>i. p_state (procs (mk m) i) = RUNNING \<longleftrightarrow> (\<exists>c. on_cpu m c = Some i)) \<and>
     (\<forall>c d i. on_cpu m c = Some i \<longrightarrow> on_cpu m d = Some i \<longrightarrow> c = d)"

lemma still_live: "pstill q r \<Longrightarrow> live (p_state r) \<longleftrightarrow> live (p_state q)"
  using pstill_state [of q r] by (simp add: live_def)

lemma pids_keep:
  assumes "pids_ok s" "nextpid t = nextpid s"
    "\<And>i. p_state (procs t i) \<noteq> UNUSED \<Longrightarrow> p_state (procs s i) \<noteq> UNUSED \<and> p_pid (procs t i) = p_pid (procs s i)"
  shows "pids_ok t"
  unfolding pids_ok_def
proof (intro conjI allI impI)
  show "i = j" if "p_state (procs t i) \<noteq> UNUSED" "p_state (procs t j) \<noteq> UNUSED" "p_pid (procs t i) = p_pid (procs t j)" for i j
    using assms(1) assms(3) [OF that(1)] assms(3) [OF that(2)] that(3) unfolding pids_ok_def by auto
qed (use assms(1,2) assms(3) in \<open>auto simp: pids_ok_def\<close>)

lemma pt_ok_mild:
  assumes "pt_ok ini s" "mild s t"
  shows "pt_ok ini t"
proof -
  have p: "pstill (procs s i) (procs t i)" "p_parent (procs t i) = p_parent (procs s i)" for i
    using mild_pmild [OF assms(2), of i] by (simp_all add: pmild_pstill)
  note st = pstill_state [OF p(1)]
  have g: "pt_lock t = pt_lock s" "nextpid t = nextpid s" "initproc t = initproc s" using assms(2) by (simp_all add: mild_def)
  have ok: "\<not> pt_lock s" "pids_ok s" "parents_ok ini s" "sleep_ok s" using assms(1) by (simp_all add: pt_ok_def)
  have "pids_ok t"
    by (rule pids_keep [OF ok(2)]) (simp_all add: st(2,5) g)
  moreover have "parents_ok ini t"
    using ok(3) by (simp add: parents_ok_def g still_live [OF p(1)] st(2) p(2))
  moreover have "sleep_ok t"
    using ok(4) by (auto simp: sleep_ok_def no_zombie_def p(2) st(1,6) dest: st(4) asleep_still [OF p(1)])
  ultimately show ?thesis using ok(1) by (simp add: pt_ok_def g)
qed

lemma pid_succ:
  fixes n :: u32
  assumes "n < 0x7fffffff"
  shows "n < n + 1" "0 < n + 1" "x < n \<Longrightarrow> x < n + 1"
proof -
  have "unat (n + 1) = unat n + 1" using assms by (simp add: word_less_nat_alt unat_word_ariths)
  then show "n < n + 1" "0 < n + 1" "x < n \<Longrightarrow> x < n + 1" by (simp_all add: word_less_nat_alt)
qed

lemma pids_took:
  assumes ok: "pids_ok s" and t: "took np st s t" and n: "nextpid s < 0x7fffffff"
  shows "pids_ok t"
proof -
  have o: "p_pid (procs t i) = p_pid (procs s i)" "p_state (procs t i) = UNUSED \<longleftrightarrow> p_state (procs s i) = UNUSED" if "i \<noteq> np" for i
    using t that pstill_state [of "procs s i" "procs t i"] by (auto simp: took_def pmild_pstill)
  have new: "p_pid (procs t np) = nextpid s" "np < NPROC" "nextpid t = nextpid s + 1" using t by (simp_all add: took_def)
  have old: "i < NPROC" "0 < p_pid (procs t i)" "p_pid (procs t i) < nextpid s" if "p_state (procs t i) \<noteq> UNUSED" "i \<noteq> np" for i
    using ok that o [of i] by (auto simp: pids_ok_def)
  show ?thesis
    unfolding pids_ok_def
  proof (intro conjI allI impI)
    show "0 < nextpid t" using pid_succ(2) [OF n] new by simp
    fix i assume i: "p_state (procs t i) \<noteq> UNUSED"
    show "i < NPROC" "0 < p_pid (procs t i)" using old(1,2) [OF i] new ok by (cases "i = np", auto simp: pids_ok_def)+
    show "p_pid (procs t i) < nextpid t" using old(3) [OF i] new pid_succ [OF n] by (cases "i = np") auto
    fix j assume j: "p_state (procs t j) \<noteq> UNUSED" and e: "p_pid (procs t i) = p_pid (procs t j)"
    show "i = j"
      using old(3) [OF i] old(3) [OF j] i j e new o ok by (cases "i = np"; cases "j = np") (auto simp: pids_ok_def)
  qed
qed

text \<open>A new process, or an entry given back, with \<open>cur\<close> alive.\<close>

lemma pt_ok_took:
  assumes ok: "pt_ok ini s" and t: "took np st s t" and n: "nextpid s < 0x7fffffff" and cur: "live (p_state (procs s cur))"
    and c: "st = UNUSED \<and> p_parent (procs t np) = p_parent (procs s np) \<or> st = RUNNABLE \<and> p_parent (procs t np) = Some cur"
  shows "pt_ok ini t"
proof -
  have ok': "pids_ok s" "parents_ok ini s" "sleep_ok s" using ok by (simp_all add: pt_ok_def)
  have np: "p_state (procs s np) = UNUSED" "p_state (procs t np) = st" "\<not> pt_lock t" "initproc t = initproc s" using t by (simp_all add: took_def)
  have un: "np \<noteq> ini" "p_parent (procs s np) = None" "\<And>i. p_parent (procs s i) \<noteq> Some np" "np \<noteq> cur"
    using ok'(2) np(1) cur by (auto simp: parents_ok_def live_def)
  have p: "pstill (procs s i) (procs t i)" "p_parent (procs t i) = p_parent (procs s i)" if "i \<noteq> np" for i
    using t that by (auto simp: took_def pmild_pstill)
  note st = pstill_state [OF p(1)]
  have "parents_ok ini t"
    unfolding parents_ok_def
  proof (intro conjI allI impI)
    show "initproc t = Some ini" "live (p_state (procs t ini))" "p_parent (procs t ini) = None"
      using ok'(2) un(1) np(4) by (simp_all add: parents_ok_def still_live [OF p(1)] p(2))
    show "p_parent (procs t i) \<noteq> None" if "p_state (procs t i) \<noteq> UNUSED" "i \<noteq> ini" for i
      using that c np ok'(2) by (cases "i = np") (auto simp: parents_ok_def p(2) st(2))
    fix i q assume i: "p_parent (procs t i) = Some q"
    have l: "q \<noteq> np \<and> live (p_state (procs s q)) \<and> q \<noteq> i"
      using i c cur un ok'(2) by (cases "i = np") (auto simp: parents_ok_def p(2))
    then show "q \<noteq> i" "live (p_state (procs t q))" by (simp_all add: still_live [OF p(1)])
    show "p_state (procs t i) \<noteq> UNUSED"
      using i c np un(2) ok'(2) by (cases "i = np") (auto simp: parents_ok_def p(2) st(2))
  qed
  moreover have "sleep_ok t"
    unfolding sleep_ok_def no_zombie_def
  proof (intro conjI allI impI)
    show "p_chan (procs t i) \<noteq> None" if "p_state (procs t i) = SLEEPING" for i
      using that c np ok'(3) st(4) [of i] by (cases "i = np") (auto simp: sleep_ok_def st(6))
    fix q i assume q: "asleep_wait t q" and i: "i < NPROC" "p_parent (procs t i) = Some q"
    have "asleep_wait s q" using q c np asleep_still [OF p(1), of q] by (cases "q = np") (auto simp: asleep_wait_def)
    then show "p_state (procs t i) \<noteq> ZOMBIE"
      using i c np ok'(3) by (cases "i = np") (auto simp: sleep_ok_def no_zombie_def p(2) st(1))
  qed
  ultimately show ?thesis using pids_took [OF ok'(1) t n] np(3) by (simp add: pt_ok_def)
qed

lemma pt_ok_moved:
  assumes ok: "pt_ok ini s" and m: "moved p st ch s t" and l: "live (p_state (procs s p))" "live st"
    and c: "st = SLEEPING \<Longrightarrow> ch \<noteq> None \<and> (ch = Some (ChProc p) \<longrightarrow> no_zombie p s)"
  shows "pt_ok ini t"
proof -
  have ok': "pids_ok s" "parents_ok ini s" "sleep_ok s" using ok by (simp_all add: pt_ok_def)
  have g: "\<not> pt_lock t" "nextpid t = nextpid s" "initproc t = initproc s" "p_pid (procs t p) = p_pid (procs s p)"
      "p_state (procs t p) = st" "st = SLEEPING \<Longrightarrow> p_chan (procs t p) = ch"
    and par: "p_parent (procs t i) = p_parent (procs s i)"
    and o: "i \<noteq> p \<Longrightarrow> pstill (procs s i) (procs t i)" for i
    using m by (cases "i = p", auto simp: moved_def pmild_pstill)+
  note st = pstill_state [OF o]
  have un: "p_state (procs t i) = UNUSED \<longleftrightarrow> p_state (procs s i) = UNUSED" and
    lv: "live (p_state (procs t i)) \<longleftrightarrow> live (p_state (procs s i))" and
    zo: "p_state (procs t i) = ZOMBIE \<longleftrightarrow> p_state (procs s i) = ZOMBIE" and
    pid: "p_pid (procs t i) = p_pid (procs s i)" for i
    using l g st [of i] by (cases "i = p", auto simp: live_def)+
  have "pids_ok t" by (rule pids_keep [OF ok'(1)]) (simp_all add: g un pid)
  moreover have "parents_ok ini t" using ok'(2) by (simp add: parents_ok_def g lv un par)
  moreover have "sleep_ok t"
    unfolding sleep_ok_def
  proof (intro conjI allI impI)
    show "p_chan (procs t i) \<noteq> None" if "p_state (procs t i) = SLEEPING" for i
      using that c g ok'(3) st(4) [of i] by (cases "i = p") (auto simp: sleep_ok_def st(6))
    fix q assume q: "asleep_wait t q"
    have "no_zombie q s"
      using q c g ok'(3) asleep_still [OF o, of q] by (cases "q = p") (auto simp: asleep_wait_def sleep_ok_def)
    then show "no_zombie q t" by (simp add: no_zombie_def par zo)
  qed
  ultimately show ?thesis using g by (simp add: pt_ok_def)
qed

lemma pt_ok_exited:
  assumes ok: "pt_ok ini s" and e: "exited cur s t" and l: "live (p_state (procs s cur))"
  shows "pt_ok ini t"
proof -
  have ok': "pids_ok s" "parents_ok ini s" "sleep_ok s" using ok by (simp_all add: pt_ok_def)
  have ini: "initproc s = Some ini" "cur \<noteq> ini" and small: "p_state (procs s i) \<noteq> UNUSED \<Longrightarrow> i < NPROC" for i
    using ok'(1,2) e by (auto simp: parents_ok_def exited_def pids_ok_def)
  have g: "\<not> pt_lock t" "nextpid t = nextpid s" "initproc t = initproc s" "p_pid (procs t cur) = p_pid (procs s cur)"
      "p_state (procs t cur) = ZOMBIE"
    and par: "p_parent (procs t i) = (if p_parent (procs s i) = Some cur then Some ini else p_parent (procs s i))"
    and o: "i \<noteq> cur \<Longrightarrow> pstill (procs s i) (procs t i)" for i
    using e ini small [of i] ok'(2) by (auto simp: exited_def parents_ok_def)
  note st = pstill_state [OF o]
  have un: "p_state (procs t i) = UNUSED \<longleftrightarrow> p_state (procs s i) = UNUSED" and
    pid: "p_pid (procs t i) = p_pid (procs s i)" for i
    using l g st [of i] by (cases "i = cur", auto simp: live_def)+
  have "pids_ok t" by (rule pids_keep [OF ok'(1)]) (simp_all add: g un pid)
  moreover have "parents_ok ini t"
    using ok'(2) ini unfolding parents_ok_def g un par
    by (auto simp: still_live [OF o] split: if_splits)
  moreover have "sleep_ok t"
    unfolding sleep_ok_def no_zombie_def
  proof (intro conjI allI impI)
    show "p_chan (procs t i) \<noteq> None" if "p_state (procs t i) = SLEEPING" for i
      using that g ok'(3) st(4) [of i] by (cases "i = cur") (auto simp: sleep_ok_def st(6))
    fix q i assume q: "asleep_wait t q" and i: "i < NPROC" "p_parent (procs t i) = Some q"
    have qc: "q \<noteq> cur" "q < NPROC" using q g small [of q] un [of q] by (auto simp: asleep_wait_def)
    then have z: "no_zombie q s" using q asleep_still [OF o] ok'(3) by (auto simp: sleep_ok_def)
    show "p_state (procs t i) \<noteq> ZOMBIE"
    proof (cases "i = cur")
      case True
      with e q qc i par [of i] ok'(2) show ?thesis by (auto simp: exited_def parents_ok_def split: if_splits)
    next
      case False
      with e q qc i par [of i] z ini st(1) [OF False] show ?thesis
        by (auto simp: exited_def no_zombie_def split: if_splits)
    qed
  qed
  ultimately show ?thesis using g by (simp add: pt_ok_def)
qed

lemma pt_ok_reaped:
  assumes ok: "pt_ok ini s" and r: "reaped cur i s t"
  shows "pt_ok ini t"
proof -
  have ok': "pids_ok s" "parents_ok ini s" "sleep_ok s" using ok by (simp_all add: pt_ok_def)
  have g: "\<not> pt_lock t" "nextpid t = nextpid s" "initproc t = initproc s" "p_state (procs s i) = ZOMBIE"
      "p_state (procs t i) = UNUSED" "p_parent (procs t i) = None"
    and o: "j \<noteq> i \<Longrightarrow> pstill (procs s j) (procs t j)" and par: "j \<noteq> i \<Longrightarrow> p_parent (procs t j) = p_parent (procs s j)" for j
    using r by (auto simp: reaped_def pmild_pstill)
  note st = pstill_state [OF o]
  have nc: "p_parent (procs s j) \<noteq> Some i" "ini \<noteq> i" for j using ok'(2) g(4) by (auto simp: parents_ok_def live_def)
  have "pids_ok t"
  proof (rule pids_keep [OF ok'(1) g(2)])
    show "p_state (procs s j) \<noteq> UNUSED \<and> p_pid (procs t j) = p_pid (procs s j)" if "p_state (procs t j) \<noteq> UNUSED" for j
      using that g st [of j] by (cases "j = i") auto
  qed
  moreover have "parents_ok ini t"
    unfolding parents_ok_def
  proof (intro conjI allI impI)
    show "initproc t = Some ini" "live (p_state (procs t ini))" "p_parent (procs t ini) = None"
      using ok'(2) nc g by (simp_all add: parents_ok_def still_live [OF o] par)
    show "p_parent (procs t j) \<noteq> None" if "p_state (procs t j) \<noteq> UNUSED" "j \<noteq> ini" for j
      using that g ok'(2) by (cases "j = i") (auto simp: parents_ok_def par st(2))
    fix j q assume j: "p_parent (procs t j) = Some q"
    then have ji: "j \<noteq> i" using g by auto
    then have q: "q \<noteq> i" "q \<noteq> j" "live (p_state (procs s q))" "p_state (procs s j) \<noteq> UNUSED"
      using j nc ok'(2) by (auto simp: par parents_ok_def)
    then show "q \<noteq> j" "live (p_state (procs t q))" "p_state (procs t j) \<noteq> UNUSED"
      using ji by (simp_all add: still_live [OF o] st(2))
  qed
  moreover have "sleep_ok t"
    unfolding sleep_ok_def no_zombie_def
  proof (intro conjI allI impI)
    show "p_chan (procs t j) \<noteq> None" if "p_state (procs t j) = SLEEPING" for j
      using that g ok'(3) st(4) [of j] by (cases "j = i") (auto simp: sleep_ok_def st(6))
    fix q j assume q: "asleep_wait t q" and j: "j < NPROC" "p_parent (procs t j) = Some q"
    have "q \<noteq> i" using q g by (auto simp: asleep_wait_def)
    then have "asleep_wait s q" using q asleep_still [OF o] by blast
    then show "p_state (procs t j) \<noteq> ZOMBIE"
      using j g ok'(3) by (cases "j = i") (auto simp: sleep_ok_def no_zombie_def par st(1))
  qed
  ultimately show ?thesis using g by (simp add: pt_ok_def)
qed

text \<open>The invariant of the machine, and that each kind of step keeps it.\<close>

definition machine_ok :: "nat \<Rightarrow> machine \<Rightarrow> bool" where
  "machine_ok ini m \<longleftrightarrow> pt_ok ini (mk m) \<and> cpus_ok m"

lemma on_cpu_running: "machine_ok ini m \<Longrightarrow> on_cpu m c = Some p \<Longrightarrow> p_state (procs (mk m) p) = RUNNING"
  by (auto simp: machine_ok_def cpus_ok_def)

lemma cpus_keep:
  assumes "cpus_ok m" "\<And>i. p_state (procs t i) = RUNNING \<longleftrightarrow> p_state (procs (mk m) i) = RUNNING"
  shows "cpus_ok (m\<lparr>mk := t\<rparr>)"
  using assms by (simp add: cpus_ok_def)

lemma cpus_start:
  assumes "cpus_ok m" "on_cpu m c = None" "p_state (procs (mk m) p) \<noteq> RUNNING"
    "\<And>i. p_state (procs t i) = RUNNING \<longleftrightarrow> i = p \<or> p_state (procs (mk m) i) = RUNNING"
  shows "cpus_ok (m\<lparr>mk := t, on_cpu := (on_cpu m)(c := Some p)\<rparr>)"
proof -
  have "(\<exists>d. ((on_cpu m)(c := Some p)) d = Some i) \<longleftrightarrow> i = p \<or> (\<exists>d. on_cpu m d = Some i)" for i
    using assms(2) by (metis fun_upd_apply option.distinct(1) option.inject)
  moreover have "on_cpu m d \<noteq> Some p" for d using assms(1,3) by (auto simp: cpus_ok_def)
  ultimately show ?thesis using assms(1,4) by (auto simp: cpus_ok_def)
qed

lemma cpus_stop:
  assumes "cpus_ok m" "on_cpu m c = Some p"
    "\<And>i. p_state (procs t i) = RUNNING \<longleftrightarrow> i \<noteq> p \<and> p_state (procs (mk m) i) = RUNNING"
  shows "cpus_ok (m\<lparr>mk := t, on_cpu := (on_cpu m)(c := None)\<rparr>)"
proof -
  have "(\<exists>d. ((on_cpu m)(c := None)) d = Some i) \<longleftrightarrow> i \<noteq> p \<and> (\<exists>d. on_cpu m d = Some i)" for i
    using assms(1,2) unfolding cpus_ok_def by (metis fun_upd_apply option.distinct(1) option.inject)
  then show ?thesis using assms(1,3) by (auto simp: cpus_ok_def)
qed

lemma running_mild: "mild s t \<Longrightarrow> p_state (procs t i) = RUNNING \<longleftrightarrow> p_state (procs s i) = RUNNING"
  using mild_pmild [of s t i] pstill_state(3) [of "procs s i" "procs t i"] by (simp add: pmild_pstill)

lemma running_took: "took np st s t \<Longrightarrow> st \<noteq> RUNNING \<Longrightarrow> p_state (procs t i) = RUNNING \<longleftrightarrow> p_state (procs s i) = RUNNING"
  using pstill_state(3) [of "procs s i" "procs t i"] by (cases "i = np") (auto simp: took_def pmild_pstill)

lemma running_reaped: "reaped cur j s t \<Longrightarrow> p_state (procs t i) = RUNNING \<longleftrightarrow> p_state (procs s i) = RUNNING"
  using pstill_state(3) [of "procs s i" "procs t i"] by (cases "i = j") (auto simp: reaped_def pmild_pstill)

lemma running_moved: "moved p st ch s t \<Longrightarrow>
    p_state (procs t i) = RUNNING \<longleftrightarrow> (if i = p then st = RUNNING else p_state (procs s i) = RUNNING)"
  using pstill_state(3) [of "procs s i" "procs t i"] by (auto simp: moved_def pmild_pstill)

lemma running_exited: "exited cur s t \<Longrightarrow> p_state (procs t i) = RUNNING \<longleftrightarrow> i \<noteq> cur \<and> p_state (procs s i) = RUNNING"
  using pstill_state(3) [of "procs s i" "procs t i"] by (cases "i = cur") (simp_all add: exited_def)

lemma machine_compute:
  assumes "machine_ok ini m" "mild (mk m) t"
  shows "machine_ok ini (m\<lparr>mk := t\<rparr>)"
  using assms pt_ok_mild [OF _ assms(2)] cpus_keep [OF _ running_mild [OF assms(2)]] by (simp add: machine_ok_def)

lemma machine_forks:
  assumes "machine_ok ini m" "on_cpu m c = Some p" "nextpid (mk m) < 0x7fffffff" "fork fa ta p (mk m) = Inr (r, t)"
  shows "machine_ok ini (m\<lparr>mk := t\<rparr>)"
proof -
  have lk: "\<not> pt_lock (mk m)" and l: "live (p_state (procs (mk m) p))" and pt: "pt_ok ini (mk m)" "cpus_ok m"
    using assms(1) on_cpu_running [OF assms(1,2)] by (auto simp: machine_ok_def pt_ok_def live_def)
  consider "mild (mk m) t" | np where "took np UNUSED (mk m) t" "p_parent (procs t np) = p_parent (procs (mk m) np)"
    | np where "took np RUNNABLE (mk m) t" "p_parent (procs t np) = Some p"
    using fork_effect [OF assms(4) lk] by (auto simp: forked_def)
  then show ?thesis
  proof cases
    case 1
    with assms(1) show ?thesis by (rule machine_compute)
  next
    case 2
    show ?thesis
      using pt_ok_took [OF pt(1) 2(1) assms(3) l] 2(2) cpus_keep [OF pt(2) running_took [OF 2(1)]] by (simp add: machine_ok_def)
  next
    case 3
    show ?thesis
      using pt_ok_took [OF pt(1) 3(1) assms(3) l] 3(2) cpus_keep [OF pt(2) running_took [OF 3(1)]] by (simp add: machine_ok_def)
  qed
qed

lemma machine_stops:
  assumes "machine_ok ini m" "on_cpu m c = Some p" "moved p st ch (mk m) t" "live st" "st \<noteq> RUNNING"
    "st = SLEEPING \<Longrightarrow> ch \<noteq> None \<and> (ch = Some (ChProc p) \<longrightarrow> no_zombie p (mk m))"
  shows "machine_ok ini (m\<lparr>mk := t, on_cpu := (on_cpu m)(c := None)\<rparr>)"
proof -
  have l: "live (p_state (procs (mk m) p))" and pt: "pt_ok ini (mk m)" "cpus_ok m"
    using assms(1) on_cpu_running [OF assms(1,2)] by (auto simp: machine_ok_def live_def)
  have "cpus_ok (m\<lparr>mk := t, on_cpu := (on_cpu m)(c := None)\<rparr>)"
    by (rule cpus_stop [OF pt(2) assms(2)]) (simp add: running_moved [OF assms(3)] assms(5))
  with pt_ok_moved [OF pt(1) assms(3) l assms(4,6)] show ?thesis by (simp add: machine_ok_def)
qed

lemma machine_starts:
  assumes "machine_ok ini m" "on_cpu m c = None" "moved p RUNNING ch (mk m) t" "p_state (procs (mk m) p) = RUNNABLE"
  shows "machine_ok ini (m\<lparr>mk := t, on_cpu := (on_cpu m)(c := Some p)\<rparr>)"
proof -
  have l: "live (p_state (procs (mk m) p))" and pt: "pt_ok ini (mk m)" "cpus_ok m"
    using assms(1,4) by (auto simp: machine_ok_def live_def)
  have "cpus_ok (m\<lparr>mk := t, on_cpu := (on_cpu m)(c := Some p)\<rparr>)"
    by (rule cpus_start [OF pt(2) assms(2)]) (auto simp: running_moved [OF assms(3)] assms(4))
  moreover have "pt_ok ini t" by (rule pt_ok_moved [OF pt(1) assms(3) l]) (simp_all add: live_def)
  ultimately show ?thesis by (simp add: machine_ok_def)
qed

lemma machine_exits:
  assumes "machine_ok ini m" "on_cpu m c = Some p" "exited p (mk m) t"
  shows "machine_ok ini (m\<lparr>mk := t, on_cpu := (on_cpu m)(c := None)\<rparr>)"
proof -
  have l: "live (p_state (procs (mk m) p))" and pt: "pt_ok ini (mk m)" "cpus_ok m"
    using assms(1) on_cpu_running [OF assms(1,2)] by (auto simp: machine_ok_def live_def)
  have "cpus_ok (m\<lparr>mk := t, on_cpu := (on_cpu m)(c := None)\<rparr>)"
    by (rule cpus_stop [OF pt(2) assms(2)]) (simp add: running_exited [OF assms(3)])
  with pt_ok_exited [OF pt(1) assms(3) l] show ?thesis by (simp add: machine_ok_def)
qed

lemma machine_reaps:
  assumes "machine_ok ini m" "reaped p i (mk m) t"
  shows "machine_ok ini (m\<lparr>mk := t\<rparr>)"
  using assms pt_ok_reaped [OF _ assms(2)] cpus_keep [OF _ running_reaped [OF assms(2)]] by (simp add: machine_ok_def)

lemma wait_resume_round:
  assumes "sq (acquire pt_lock pt_lock_update) (scheduler_try p) s = Inr (True, u)"
  obtains w where "wait_resume p u = wait_round p w" "pt_lock w" "moved p RUNNING None s (w\<lparr>pt_lock := False\<rparr>)"
    "w = s\<lparr>pt_lock := True, procs := (procs s)(p := (procs s p)\<lparr>p_state := RUNNING, p_chan := None\<rparr>)\<rparr>"
proof -
  define w where "w = s\<lparr>pt_lock := True, procs := (procs s)(p := (procs s p)\<lparr>p_state := RUNNING, p_chan := None\<rparr>)\<rparr>"
  note u = scheduler_try_switched [OF assms]
  have "wait_resume p u = wait_round p w"
    by (simp add: wait_resume_def sleep_return_def upd_proc_def run_simps u w_def)
  moreover have "pt_lock w" "moved p RUNNING None s (w\<lparr>pt_lock := False\<rparr>)"
    by (simp_all add: w_def moved_def)
  ultimately show ?thesis using w_def by (rule that)
qed

lemma machine_resumes_wait:
  assumes ok: "machine_ok ini m" and c: "on_cpu m c = None"
    and t: "sq (acquire pt_lock pt_lock_update) (scheduler_try p) (mk m) = Inr (True, u)" "wait_resume p u = Inr (Returned r, t)"
  shows "machine_ok ini (m\<lparr>mk := t, on_cpu := (on_cpu m)(c := Some p)\<rparr>)"
proof -
  obtain w where w: "wait_resume p u = wait_round p w" "pt_lock w" "moved p RUNNING None (mk m) (w\<lparr>pt_lock := False\<rparr>)"
    by (rule wait_resume_round [OF t(1)])
  note m' = machine_starts [OF ok c w(3) scheduler_try_switched(2) [OF t(1)]]
  from wait_round_returned [of p w] t(2) w(1) consider "t = w\<lparr>pt_lock := False\<rparr>" | i where "reaped p i w t" by auto
  then show ?thesis
  proof cases
    case 1
    with m' show ?thesis by simp
  next
    case 2
    then have "reaped p i (w\<lparr>pt_lock := False\<rparr>) t" by (simp add: reaped_def)
    with machine_reaps [OF m'] have "machine_ok ini (m\<lparr>on_cpu := (on_cpu m)(c := Some p), mk := t\<rparr>)" by simp
    moreover have "m\<lparr>on_cpu := (on_cpu m)(c := Some p), mk := t\<rparr> = m\<lparr>mk := t, on_cpu := (on_cpu m)(c := Some p)\<rparr>" by (cases m) simp
    ultimately show ?thesis by simp
  qed
qed

lemma machine_sleeps_again:
  assumes ok: "machine_ok ini m" and t: "sq (acquire pt_lock pt_lock_update) (scheduler_try p) (mk m) = Inr (True, u)"
    "wait_resume p u = Inr (Asleep x, v)" "release pt_lock pt_lock_update v = Inr (y, t)"
  shows "machine_ok ini (m\<lparr>mk := t\<rparr>)"
proof -
  obtain w where w: "wait_resume p u = wait_round p w" "pt_lock w"
    "w = (mk m)\<lparr>pt_lock := True, procs := (procs (mk m))(p := (procs (mk m) p)\<lparr>p_state := RUNNING, p_chan := None\<rparr>)\<rparr>"
    by (rule wait_resume_round [OF t(1)])
  note st = scheduler_try_switched(2) [OF t(1)]
  have v: "v = w\<lparr>procs := (procs w)(p := (procs w p)\<lparr>p_chan := Some (ChProc p), p_state := SLEEPING\<rparr>)\<rparr>" "no_zombie p w"
    using wait_round_asleep [of p w x v] t(2) w(1) by auto
  have mv: "moved p SLEEPING (Some (ChProc p)) (mk m) t" using t(3) by (auto simp: moved_def v w run_simps split: if_splits)
  have nz: "no_zombie p (mk m)" using v(2) st by (auto simp: no_zombie_def w split: if_splits)
  have pt: "pt_ok ini (mk m)" "cpus_ok m" using ok by (simp_all add: machine_ok_def)
  have "pt_ok ini t" by (rule pt_ok_moved [OF pt(1) mv]) (use st nz in \<open>auto simp: live_def\<close>)
  moreover have "cpus_ok (m\<lparr>mk := t\<rparr>)"
    by (rule cpus_keep [OF pt(2)]) (use st in \<open>auto simp: running_moved [OF mv]\<close>)
  ultimately show ?thesis by (simp add: machine_ok_def)
qed

lemma machine_waits:
  assumes ok: "machine_ok ini m" and t: "wait p (mk m) = Inr (Returned r, t)"
  shows "machine_ok ini (m\<lparr>mk := t\<rparr>)"
proof -
  have lk: "\<not> pt_lock (mk m)" using ok by (simp add: machine_ok_def pt_ok_def)
  then have "wait_round p ((mk m)\<lparr>pt_lock := True\<rparr>) = Inr (Returned r, t)" using t by (simp add: wait_def run_simps)
  from wait_round_returned [OF this] lk pt_unlock [OF lk] consider "t = mk m" | i where "reaped p i (mk m) t"
    by (auto simp: reaped_def)
  then show ?thesis using ok machine_reaps [OF ok] by cases auto
qed

lemma machine_waits_asleep:
  assumes ok: "machine_ok ini m" and c: "on_cpu m c = Some p" and t: "wait p (mk m) = Inr (Asleep x, v)" "release pt_lock pt_lock_update v = Inr (y, t)"
  shows "machine_ok ini (m\<lparr>mk := t, on_cpu := (on_cpu m)(c := None)\<rparr>)"
proof -
  have lk: "\<not> pt_lock (mk m)" using ok by (simp add: machine_ok_def pt_ok_def)
  then have "wait_round p ((mk m)\<lparr>pt_lock := True\<rparr>) = Inr (Asleep x, v)" using t by (simp add: wait_def run_simps)
  note v = wait_round_asleep [OF this]
  have mv: "moved p SLEEPING (Some (ChProc p)) (mk m) t" using t(2) by (auto simp: moved_def v run_simps split: if_splits)
  show ?thesis by (rule machine_stops [OF ok c mv]) (use v in \<open>auto simp: live_def no_zombie_def\<close>)
qed

lemma mstep_ok:
  assumes "mstep m n" "machine_ok ini m"
  shows "machine_ok ini n"
  using assms
proof cases
  case (compute r t)
  show ?thesis unfolding compute(1) by (rule machine_compute [OF assms(2) effectD [OF compute(2,3)]])
next
  case (forks c p fa ta r t)
  show ?thesis unfolding forks(1) by (rule machine_forks [OF assms(2) forks(2,3,4)])
next
  case (dispatches c p u k t)
  note d = dispatch_effect [OF dispatches(4,6,5), of None]
  show ?thesis unfolding dispatches(1) by (rule machine_starts [OF assms(2) dispatches(2) conjunct1 [OF d] conjunct2 [OF d]])
next
  case (resumes_wait c p u r t)
  show ?thesis unfolding resumes_wait(1) by (rule machine_resumes_wait [OF assms(2) resumes_wait(2,4,5)])
next
  case (sleeps_again c p u x v y t)
  show ?thesis unfolding sleeps_again(1) by (rule machine_sleeps_again [OF assms(2) sleeps_again(4,5,6)])
next
  case (yields c p x t)
  show ?thesis unfolding yields(1)
    by (rule machine_stops [OF assms(2) yields(2) yield_effect [OF yields(3), of None]]) (simp_all add: live_def)
next
  case (sleeps c p ch rel x t)
  show ?thesis
    unfolding sleeps(1)
    by (rule machine_stops [OF assms(2) sleeps(2) sleep_effect [OF sleeps(5,4)]]) (use sleeps(3) in \<open>auto simp: live_def\<close>)
next
  case (exits c p x t)
  show ?thesis unfolding exits(1) by (rule machine_exits [OF assms(2) exits(2) exit_effect [OF exits(3)]])
next
  case (waits c p r t)
  show ?thesis unfolding waits(1) by (rule machine_waits [OF assms(2) waits(3)])
next
  case (waits_asleep c p x v y t)
  show ?thesis unfolding waits_asleep(1) by (rule machine_waits_asleep [OF assms(2) waits_asleep(2,3,4)])
qed

section \<open>Reachable states\<close>

text \<open>The machine as \<open>userinit\<close> leaves it: the first process is ready and the rest of the table is free.\<close>

definition booted :: "nat \<Rightarrow> machine \<Rightarrow> bool" where
  "booted ini m \<longleftrightarrow> (\<forall>c. on_cpu m c = None) \<and> \<not> pt_lock (mk m) \<and> initproc (mk m) = Some ini \<and> ini < NPROC \<and> nextpid (mk m) = 2 \<and>
     p_state (procs (mk m) ini) = RUNNABLE \<and> p_pid (procs (mk m) ini) = 1 \<and>
     (\<forall>i. p_parent (procs (mk m) i) = None \<and> (i \<noteq> ini \<longrightarrow> p_state (procs (mk m) i) = UNUSED))"

lemma booted_ok:
  assumes b: "booted ini m"
  shows "machine_ok ini m"
proof -
  have p: "p_state (procs (mk m) i) = (if i = ini then RUNNABLE else UNUSED)" "p_parent (procs (mk m) i) = None" for i
    using b by (auto simp: booted_def)
  have g: "\<not> pt_lock (mk m)" "initproc (mk m) = Some ini" "ini < NPROC" "nextpid (mk m) = 2" "p_pid (procs (mk m) ini) = 1"
    "on_cpu m c = None" for c
    using b by (auto simp: booted_def)
  show ?thesis
    by (simp add: machine_ok_def pt_ok_def pids_ok_def parents_ok_def sleep_ok_def cpus_ok_def live_def asleep_wait_def p g split: if_splits)
qed

lemma userinit_rest_effect:
  "effect (around p) (userinit_rest dv code p)" "effect (\<lambda>_ t. p_state (procs t p) = RUNNABLE \<and> \<not> pt_lock t) (userinit_rest dv code p)"
proof -
  show "effect (around p) (userinit_rest dv code p)"
    unfolding userinit_rest_def
    by (intro framed.rules frame_lock frame_upd mild_frame [OF mild_on(1)] mild_frame [OF mild_on(4)]) simp_all
  have last: "effect (\<lambda>_ t. p_state (procs t p) = RUNNABLE \<and> \<not> pt_lock t)
      (sq (acquire pt_lock pt_lock_update) (sq (upd_proc p (\<lambda>q. q\<lparr>p_state := RUNNABLE\<rparr>)) (release pt_lock pt_lock_update)))"
    by (auto simp: effect_def run_simps upd_proc_def split: if_splits)
  have none: "effect R (panic msg)" for R :: "kern \<Rightarrow> kern \<Rightarrow> bool" and msg
    by (simp add: effect_def run_simps)
  show "effect (\<lambda>_ t. p_state (procs t p) = RUNNABLE \<and> \<not> pt_lock t) (userinit_rest dv code p)"
    unfolding userinit_rest_def
    by (intro last none post_sq [of _ _ "upd_proc _ _"] post_sq [of _ _ "on_phys _"] post_bnd post_if)
qed

lemma userinit_boots:
  assumes run: "userinit fa ta dv code s = Inr (x, t)"
    and s: "\<not> pt_lock s" "nextpid s = 1" "\<And>i. p_state (procs s i) = UNUSED \<and> p_parent (procs s i) = None"
  obtains ini where "booted ini \<lparr>mk = t, on_cpu = (\<lambda>_. None)\<rparr>"
proof -
  from run obtain r u where a': "allocproc fa ta s = Inr (r, u)"
    and d: "sq (modify (\<lambda>s. s\<lparr>initproc := r\<rparr>)) (bnd (deref r) (userinit_rest dv code)) u = Inr (x, t)"
    unfolding userinit_def by (rule bndE)
  from d obtain np where n: "r = Some np" and r: "userinit_rest dv code np (u\<lparr>initproc := Some np\<rparr>) = Inr (x, t)"
    by (cases r) (simp_all add: run_simps)
  note a = a' [unfolded n]
  have u: "took np EMBRYO s u" "p_parent (procs u np) = None" using allocproc_effect [OF a s(1)] s(3) by auto
  have f: "around np (u\<lparr>initproc := Some np\<rparr>) t" by (rule effectD [OF userinit_rest_effect(1) r])
  have o: "p_state (procs t i) = UNUSED \<and> p_parent (procs t i) = None" if "i \<noteq> np" for i
    using that u(1) f s(3) by (auto simp: took_def around_def pmild_def)
  have par: "p_parent (procs t i) = None" for i using o [of i] u(2) f by (cases "i = np") (simp_all add: around_def)
  have "booted np \<lparr>mk = t, on_cpu = (\<lambda>_. None)\<rparr>"
    using u f o s(2) effectD [OF userinit_rest_effect(2) r] by (auto simp: booted_def took_def around_def par)
  then show ?thesis by (rule that)
qed

text \<open>A machine just booted, with process \<open>0\<close> as the first.\<close>

definition proc_init :: proc where
  "proc_init = proc_zero\<lparr>p_state := RUNNABLE, p_pid := 1, p_kstack := 0x80400000, p_pgdir := 0x80401000, p_cwd := Some 0\<rparr>"

definition machine_boot :: machine where
  "machine_boot = \<lparr>mk = kern_zero\<lparr>procs := (procs kern_zero)(0 := proc_init), nextpid := 2, initproc := Some 0\<rparr>, on_cpu = (\<lambda>_. None)\<rparr>"

text \<open>C5: The process table is consistent in every state that any number of processors reach from the one that \<open>userinit\<close>
  leaves, by any interleaving of \<open>fork\<close>, scheduling, \<open>yield\<close>, \<open>sleep\<close>, \<open>exit\<close>, \<open>wait\<close> and computing: no processor is left with
  \<open>ptable.lock\<close>; a process is running exactly if one processor, and only one, runs it; pids of used entries are
  positive, below \<open>nextpid\<close> and distinct; every process but the first has a parent, which is neither itself, nor free,
  nor a zombie; every sleeping process has a channel; and no process sleeps in \<open>wait\<close> while one of its children is a zombie.\<close>

theorem process_table_invariant:
  assumes "booted ini m" "mstep\<^sup>*\<^sup>* m n"
  shows "machine_ok ini n"
  using assms(2) booted_ok [OF assms(1)] by (induction rule: rtranclp_induct) (auto intro: mstep_ok)

theorem process_table_invariant_witness:
  "\<exists>n. mstep\<^sup>*\<^sup>* machine_boot n \<and> on_cpu n 3 = Some 0 \<and> machine_ok 0 n"
proof -
  have b: "booted 0 machine_boot"
    by (auto simp: booted_def machine_boot_def kern_zero_def proc_init_def proc_zero_def NPROC_def)
  have "mstep machine_boot (machine_boot\<lparr>mk := (mk machine_boot)\<lparr>procs := (procs (mk machine_boot))(0 := proc_init\<lparr>p_state := RUNNING\<rparr>)\<rparr>,
      on_cpu := (on_cpu machine_boot)(3 := Some 0)\<rparr>)" (is "mstep _ ?n")
    by (rule mstep.dispatches [where p = 0 and k = yield_return, OF _ _ _ in_yield])
      (auto simp: machine_boot_def NPROC_def scheduler_try_def switchuvm_def get_proc_at_def upd_proc_def yield_return_def run_simps
        kern_zero_def proc_init_def proc_zero_def)
  then have s: "mstep\<^sup>*\<^sup>* machine_boot ?n" by blast
  with process_table_invariant [OF b s] show ?thesis by (intro exI [of _ ?n]) simp
qed

text \<open>The first process sleeps in \<open>wait\<close>, its child \<open>1\<close> runs, and \<open>2\<close> is a zombie child of that.\<close>

definition kern_family :: kern where
  "kern_family = kern_zero\<lparr>procs := (procs kern_zero)(
     0 := proc_init\<lparr>p_state := SLEEPING, p_chan := Some (ChProc 0)\<rparr>,
     1 := proc_init\<lparr>p_state := RUNNING, p_pid := 2, p_parent := Some 0\<rparr>,
     2 := proc_init\<lparr>p_state := ZOMBIE, p_pid := 3, p_parent := Some 1\<rparr>), nextpid := 4, initproc := Some 0\<rparr>"

lemma no_files: "(\<And>fd. p_ofile (procs s cur) fd = None) \<Longrightarrow> for_each (exit_file cur) fds s = Inr ((), s)"
  by (induction fds) (simp_all add: exit_file_def get_proc_at_def run_simps)

lemma kern_family_fs:
  "\<exists>f g h. on_log begin_op (k_fs kern_family) = Inr ((), f) \<and> iput 0 f = Inr ((), g) \<and> on_log end_op g = Inr ((), h)"
  by (simp add: kern_family_def kern_zero_def fs_example_def Let_def begin_op_def iput_def end_op_def commit_def on_log_def on_ilock_def
      acquiresleep_def releasesleep_def get_inode_def upd_inode_def inode_zero_def sl_free_def run_simps LOGSIZE_def MAXOPBLOCKS_def)

lemma kern_family_exit: "\<exists>t. sq (exit 1) (release pt_lock pt_lock_update) kern_family = Inr ((), t)"
proof -
  obtain f g h where f: "on_log begin_op (k_fs kern_family) = Inr ((), f)" "iput 0 f = Inr ((), g)" "on_log end_op g = Inr ((), h)"
    using kern_family_fs by blast
  have k: "\<not> pt_lock kern_family" "initproc kern_family = Some 0" "p_cwd (procs kern_family 1) = Some 0" "p_ofile (procs kern_family 1) fd = None" for fd
    by (simp_all add: kern_family_def kern_zero_def proc_init_def proc_zero_def)
  have adopt: "\<exists>t. for_each (adopt 1) [0 ..< NPROC] s = Inr ((), t) \<and> pt_lock t = pt_lock s" for s
    by (rule adopt_loop [of 1 s]) (auto simp: adopted_def)
  have z: "\<exists>t. sq (exit_zombie 1) (release pt_lock pt_lock_update) s = Inr ((), t)" if "\<not> pt_lock s" for s
  proof -
    obtain t where "for_each (adopt 1) [0 ..< NPROC] (s\<lparr>pt_lock := True, procs := (\<lambda>i. if i < NPROC
        then woken (map_option ChProc (p_parent (procs s 1))) (procs s i) else procs s i)\<rparr>) = Inr ((), t)" "pt_lock t"
      using adopt [of "s\<lparr>pt_lock := True, procs := (\<lambda>i. if i < NPROC then woken (map_option ChProc (p_parent (procs s 1))) (procs s i) else procs s i)\<rparr>"]
      by auto
    with that show ?thesis
      by (simp add: exit_zombie_def run_simps get_proc_at_def upd_proc_def wakeup1_run sched_def cong: if_cong)
  qed
  show ?thesis
    using k f z
    by (simp add: exit_def run_simps no_files k_begin_op_def k_end_op_def on_fs_def get_proc_at_def upd_proc_def wakeup_run)
qed

text \<open>C28: \<open>exit\<close>, when it comes to the switch, leaves the process a zombie and its parent, which was asleep in \<open>wait\<close>, runnable;
  the children of the process are children of the first process.\<close>

theorem exit_notifies_parent:
  assumes run: "sq (exit p) (release pt_lock pt_lock_update) s = Inr (x, t)"
    and q: "p_parent (procs s p) = Some q" "q < NPROC" "q \<noteq> p" "p_state (procs s q) = SLEEPING" "p_chan (procs s q) = Some (ChProc q)"
  shows "p_state (procs t p) = ZOMBIE \<and> p_state (procs t q) = RUNNABLE \<and>
     (\<forall>i<NPROC. p_parent (procs s i) = Some p \<longrightarrow> p_parent (procs t i) = initproc s)"
proof -
  note e = exit_effect [OF run]
  then have "\<not> asleep_wait t q" "pstill (procs s q) (procs t q)" using q by (auto simp: exited_def)
  then show ?thesis using e q by (auto simp: asleep_wait_def pstill_def exited_def)
qed

theorem exit_notifies_parent_witness:
  "\<exists>t. sq (exit 1) (release pt_lock pt_lock_update) kern_family = Inr ((), t) \<and>
     p_state (procs t 1) = ZOMBIE \<and> p_state (procs t 0) = RUNNABLE \<and> p_parent (procs t 2) = Some 0"
proof -
  obtain t where t: "sq (exit 1) (release pt_lock pt_lock_update) kern_family = Inr ((), t)" using kern_family_exit by blast
  have "p_parent (procs kern_family 1) = Some 0" "p_parent (procs kern_family 2) = Some 1" "initproc kern_family = Some 0"
    "p_state (procs kern_family 0) = SLEEPING" "p_chan (procs kern_family 0) = Some (ChProc 0)"
    by (simp_all add: kern_family_def)
  with exit_notifies_parent [OF t, of 0] t show ?thesis by (auto simp: NPROC_def)
qed

end
