(* ===== verification/Grep.thy ===== *)
theory Grep
  imports Strings
begin

text \<open>
  The pattern matcher and the line loop of grep.c. A C string is the list of its bytes before the terminating
  zero. The matcher is proved equal to the language of the pattern, and \<open>grep\<close> on a file to print its matching lines.
\<close>

section \<open>The program\<close>

definition star :: u8 where "star = 42"
definition dot :: u8 where "dot = 46"
definition dollar :: u8 where "dollar = 36"
definition caret :: u8 where "caret = 94"
definition newline :: u8 where "newline = 10"

text \<open>\<open>re[1]\<close> at the end of the pattern is its terminating zero, and \<open>*text\<close> at the end of the text is the text's.\<close>

function (sequential) matchhere :: "u8 list \<Rightarrow> u8 list \<Rightarrow> bool" and matchstar :: "u8 \<Rightarrow> u8 list \<Rightarrow> u8 list \<Rightarrow> bool" where
  "matchhere [] text = True"
| "matchhere (c # re) text =
     (if re \<noteq> [] \<and> hd re = star then matchstar c (tl re) text
      else if c = dollar \<and> re = [] then text = []
      else if text \<noteq> [] \<and> (c = dot \<or> c = hd text) then matchhere re (tl text)
      else False)"
| "matchstar c re text =
     (if matchhere re text then True
      else if text \<noteq> [] \<and> (hd text = c \<or> c = dot) then matchstar c re (tl text)
      else False)"
  by pat_completeness auto
termination
  by (relation "measures [\<lambda>x. case x of Inl (re, text) \<Rightarrow> length re | Inr (c, re, text) \<Rightarrow> length re,
      \<lambda>x. case x of Inl (re, text) \<Rightarrow> length text | Inr (c, re, text) \<Rightarrow> length text,
      \<lambda>x. case x of Inl _ \<Rightarrow> 0 | Inr _ \<Rightarrow> 1]") (auto simp: less_diff_conv neq_Nil_conv)

fun match_from :: "u8 list \<Rightarrow> u8 list \<Rightarrow> bool" where
  "match_from re [] = matchhere re []"
| "match_from re (x # text) = (if matchhere re (x # text) then True else match_from re text)"

definition match :: "u8 list \<Rightarrow> u8 list \<Rightarrow> bool" where
  "match re text = (if re \<noteq> [] \<and> hd re = caret then matchhere (tl re) text else match_from re text)"

text \<open>
  The inner loop of \<open>grep\<close> on the bytes from \<open>p\<close> on: \<open>strchr\<close> finds the next newline, unless a zero byte comes first.
  The results are what is written, and where \<open>p\<close> stops.
\<close>

function grep_scan :: "u8 list \<Rightarrow> u8 list \<Rightarrow> u8 list \<times> u8 list" where
  "grep_scan pattern p =
     (if newline \<in> set (takeWhile (\<lambda>x. x \<noteq> 0) p) then
        let line = takeWhile (\<lambda>x. x \<noteq> newline) p;
            (out, p') = grep_scan pattern (drop (length line + 1) p)
        in ((if match pattern line then line @ [newline] else []) @ out, p')
      else ([], p))"
  by pat_completeness auto
termination
proof (relation "measure (\<lambda>(pattern, p). length p)")
  fix pattern p :: "u8 list" and line
  assume "newline \<in> set (takeWhile (\<lambda>x. x \<noteq> 0) p)"
  then have "p \<noteq> []" by auto
  then show "((pattern, drop (length line + 1) p), pattern, p) \<in> measure (\<lambda>(pattern, p). length p)" by simp
qed simp

definition GREPBUF :: nat where "GREPBUF = 1024"

text \<open>
  \<open>grep\<close> with the bytes \<open>buf[0..m)\<close>. \<open>rd\<close> is \<open>read\<close> of the file descriptor: from the state of the file and a bound
  it gives bytes, none at the end of the file or on an error, and the new state. The result is what is written.
\<close>

partial_function (option) grep_loop :: "('f \<Rightarrow> nat \<Rightarrow> u8 list \<times> 'f) \<Rightarrow> u8 list \<Rightarrow> u8 list \<Rightarrow> 'f \<Rightarrow> u8 list \<Rightarrow> u8 list option" where
  "grep_loop rd pattern buf f written =
     (case rd f (GREPBUF - length buf - 1) of (bs, f') \<Rightarrow>
        if bs = [] then Some written
        else (case grep_scan pattern (buf @ bs) of (out, p) \<Rightarrow>
          grep_loop rd pattern (if length p = length (buf @ bs) then [] else p) f' (written @ out)))"

definition grep :: "('f \<Rightarrow> nat \<Rightarrow> u8 list \<times> 'f) \<Rightarrow> u8 list \<Rightarrow> 'f \<Rightarrow> u8 list option" where
  "grep rd pattern f = grep_loop rd pattern [] f []"

declare grep_scan.simps [simp del] matchstar.simps [simp del]

section \<open>The language of a pattern\<close>

text \<open>A pattern is a sequence of items, which may be tied to the end of the text by a final \<open>$\<close>.\<close>

datatype item = One u8 | Star u8

fun items :: "u8 list \<Rightarrow> item list" where
  "items [] = []"
| "items [c] = (if c = dollar then [] else [One c])"
| "items (c # d # re) = (if d = star then Star c # items re else One c # items (d # re))"

fun ends_text :: "u8 list \<Rightarrow> bool" where
  "ends_text [] = False"
| "ends_text [c] = (c = dollar)"
| "ends_text (c # d # re) = (if d = star then ends_text re else ends_text (d # re))"

definition fits :: "u8 \<Rightarrow> u8 \<Rightarrow> bool" where
  "fits c x \<longleftrightarrow> c = dot \<or> c = x"

fun item_lang :: "item \<Rightarrow> u8 list set" where
  "item_lang (One c) = {[x] | x. fits c x}"
| "item_lang (Star c) = {u. \<forall>x \<in> set u. fits c x}"

fun lang :: "item list \<Rightarrow> u8 list set" where
  "lang [] = {[]}"
| "lang (i # is) = {v @ w | v w. v \<in> item_lang i \<and> w \<in> lang is}"

text \<open>The pattern matches a prefix of the text, or the whole text if it ends in \<open>$\<close>.\<close>

definition matches_prefix :: "u8 list \<Rightarrow> u8 list \<Rightarrow> bool" where
  "matches_prefix re text \<longleftrightarrow> (\<exists>u v. text = u @ v \<and> u \<in> lang (items re) \<and> (ends_text re \<longrightarrow> v = []))"

definition matches :: "u8 list \<Rightarrow> u8 list \<Rightarrow> bool" where
  "matches re text \<longleftrightarrow>
     (if re \<noteq> [] \<and> hd re = caret then matches_prefix (tl re) text
      else (\<exists>t u. text = t @ u \<and> matches_prefix re u))"

definition matches_star :: "u8 \<Rightarrow> u8 list \<Rightarrow> u8 list \<Rightarrow> bool" where
  "matches_star c re text \<longleftrightarrow> (\<exists>v w. text = v @ w \<and> (\<forall>x \<in> set v. fits c x) \<and> matches_prefix re w)"

lemma matches_prefix_Nil: "matches_prefix [] text"
  by (simp add: matches_prefix_def)

lemma matches_prefix_dollar: "matches_prefix [dollar] text \<longleftrightarrow> text = []"
  by (auto simp: matches_prefix_def)

lemma matches_prefix_star: "matches_prefix (c # star # re) text \<longleftrightarrow> matches_star c re text"
proof
  assume "matches_prefix (c # star # re) text"
  then obtain u v where u: "text = u @ v" "u \<in> lang (items (c # star # re))" "ends_text re \<longrightarrow> v = []"
    unfolding matches_prefix_def by auto
  from u(2) obtain a b where "u = a @ b" "\<forall>x \<in> set a. fits c x" "b \<in> lang (items re)" by auto
  with u show "matches_star c re text"
    unfolding matches_star_def matches_prefix_def by (intro exI [of _ a] exI [of _ "b @ v"]) auto
next
  assume "matches_star c re text"
  then obtain a b v where a: "text = a @ b @ v" "\<forall>x \<in> set a. fits c x" "b \<in> lang (items re)" "ends_text re \<longrightarrow> v = []"
    unfolding matches_star_def matches_prefix_def by blast
  then have "a @ b \<in> lang (items (c # star # re))" by auto
  with a show "matches_prefix (c # star # re) text"
    unfolding matches_prefix_def by (intro exI [of _ "a @ b"] exI [of _ v]) auto
qed

lemma items_one:
  assumes "\<not> (re \<noteq> [] \<and> hd re = star)" "\<not> (c = dollar \<and> re = [])"
  shows "items (c # re) = One c # items re" "ends_text (c # re) = ends_text re"
  using assms by (cases re; simp)+

lemma matches_prefix_one:
  assumes "\<not> (re \<noteq> [] \<and> hd re = star)" "\<not> (c = dollar \<and> re = [])"
  shows "matches_prefix (c # re) text \<longleftrightarrow> text \<noteq> [] \<and> fits c (hd text) \<and> matches_prefix re (tl text)"
proof
  assume "matches_prefix (c # re) text"
  then obtain u v where u: "text = u @ v" "u \<in> lang (One c # items re)" "ends_text re \<longrightarrow> v = []"
    unfolding matches_prefix_def items_one [OF assms] by blast
  then obtain x w where "u = x # w" "fits c x" "w \<in> lang (items re)" by auto
  with u show "text \<noteq> [] \<and> fits c (hd text) \<and> matches_prefix re (tl text)" by (auto simp: matches_prefix_def)
next
  assume a: "text \<noteq> [] \<and> fits c (hd text) \<and> matches_prefix re (tl text)"
  then obtain u v where u: "tl text = u @ v" "u \<in> lang (items re)" "ends_text re \<longrightarrow> v = []" by (auto simp: matches_prefix_def)
  have "[hd text] @ u \<in> lang (One c # items re)" using a u(2) by (simp only: lang.simps item_lang.simps) blast
  moreover have "text = ([hd text] @ u) @ v" using a u(1) by (metis append_Cons append_Nil list.collapse)
  ultimately show "matches_prefix (c # re) text"
    unfolding matches_prefix_def items_one [OF assms] using u(3) by blast
qed

lemma matches_star_step:
  "matches_star c re text \<longleftrightarrow> matches_prefix re text \<or> text \<noteq> [] \<and> fits c (hd text) \<and> matches_star c re (tl text)"
proof
  assume "matches_star c re text"
  then obtain v w where v: "text = v @ w" "\<forall>x \<in> set v. fits c x" "matches_prefix re w" by (auto simp: matches_star_def)
  then show "matches_prefix re text \<or> text \<noteq> [] \<and> fits c (hd text) \<and> matches_star c re (tl text)"
    by (cases v) (auto simp: matches_star_def)
next
  assume "matches_prefix re text \<or> text \<noteq> [] \<and> fits c (hd text) \<and> matches_star c re (tl text)"
  then show "matches_star c re text"
  proof
    assume "matches_prefix re text"
    then show ?thesis unfolding matches_star_def by (intro exI [of _ "[]"] exI [of _ "text"]) simp
  next
    assume a: "text \<noteq> [] \<and> fits c (hd text) \<and> matches_star c re (tl text)"
    then obtain v w where "tl text = v @ w" "\<forall>x \<in> set v. fits c x" "matches_prefix re w" by (auto simp: matches_star_def)
    with a show ?thesis unfolding matches_star_def
      by (intro exI [of _ "hd text # v"] exI [of _ w]) (auto simp: neq_Nil_conv)
  qed
qed

lemma matchhere_matches:
  "matchhere re text = matches_prefix re text"
  "matchstar c re text = matches_star c re text"
proof (induction re "text" and c re "text" rule: matchhere_matchstar.induct)
  case (2 c re t)
  show ?case
  proof (cases "re \<noteq> [] \<and> hd re = star")
    case True
    with 2 show ?thesis by (auto simp: neq_Nil_conv matches_prefix_star)
  next
    case False
    with 2 show ?thesis
      by (cases "c = dollar \<and> re = []") (auto simp: matches_prefix_dollar matches_prefix_one fits_def)
  qed
next
  case (3 c re t)
  then show ?case by (subst matches_star_step, subst matchstar.simps) (auto simp: fits_def)
qed (simp add: matches_prefix_Nil)

lemma match_from_matches: "match_from re text \<longleftrightarrow> (\<exists>t u. text = t @ u \<and> matches_prefix re u)"
proof (induction "text")
  case (Cons x t)
  have "(\<exists>s u. x # t = s @ u \<and> matches_prefix re u) \<longleftrightarrow> matches_prefix re (x # t) \<or> (\<exists>s u. t = s @ u \<and> matches_prefix re u)"
    by (auto simp: Cons_eq_append_conv)
  with Cons show ?case by (simp add: matchhere_matches)
qed (simp add: matchhere_matches)

lemma match_matches: "match re text \<longleftrightarrow> matches re text"
  by (simp add: match_def matches_def matchhere_matches match_from_matches)

section \<open>The lines of a file\<close>

text \<open>The lines that a newline ends, without it, and what follows the last newline.\<close>

function lines :: "u8 list \<Rightarrow> u8 list list" where
  "lines xs = (if newline \<in> set xs
     then takeWhile (\<lambda>x. x \<noteq> newline) xs # lines (drop (length (takeWhile (\<lambda>x. x \<noteq> newline) xs) + 1) xs) else [])"
  by pat_completeness auto
termination
proof (relation "measure length")
  fix xs :: "u8 list" assume "newline \<in> set xs"
  then have "xs \<noteq> []" by auto
  then show "(drop (length (takeWhile (\<lambda>x. x \<noteq> newline) xs) + 1) xs, xs) \<in> measure length" by simp
qed simp

declare lines.simps [simp del]

lemma lines_none: "newline \<notin> set xs \<Longrightarrow> lines xs = []"
  by (simp add: lines.simps)

lemma line_before: "newline \<notin> set l \<Longrightarrow> takeWhile (\<lambda>x. x \<noteq> newline) (l @ newline # r) = l"
  by (subst takeWhile_append2) auto

lemma lines_line: "newline \<notin> set l \<Longrightarrow> lines (l @ newline # r) = l # lines r"
  by (subst lines.simps) (simp add: line_before)

text \<open>What \<open>grep\<close> should write.\<close>

definition matching :: "u8 list \<Rightarrow> u8 list list \<Rightarrow> u8 list" where
  "matching pattern ls = concat (map (\<lambda>l. l @ [newline]) (filter (matches pattern) ls))"

lemma matching_append: "matching pattern (xs @ ys) = matching pattern xs @ matching pattern ys"
  by (simp add: matching_def)

lemma split_line: "newline \<in> set p \<Longrightarrow> \<exists>l r. p = l @ newline # r \<and> newline \<notin> set l"
  by (meson split_list_first)

lemma scan_none: "newline \<notin> set p \<Longrightarrow> grep_scan pattern p = ([], p)"
  by (auto simp: grep_scan.simps [of pattern p] dest: set_takeWhileD)

lemma scan_line:
  assumes "newline \<notin> set l" "0 \<notin> set l"
  shows "grep_scan pattern (l @ newline # r) =
    ((if match pattern l then l @ [newline] else []) @ fst (grep_scan pattern r), snd (grep_scan pattern r))"
proof -
  have "takeWhile (\<lambda>x. x \<noteq> 0) (l @ newline # r) = l @ newline # takeWhile (\<lambda>x. x \<noteq> 0) r"
    using assms(2) by (subst takeWhile_append2) (auto simp: newline_def)
  then have n: "newline \<in> set (takeWhile (\<lambda>x. x \<noteq> 0) (l @ newline # r))" by simp
  obtain out p where r: "grep_scan pattern r = (out, p)" by fastforce
  have d: "drop (length l + 1) (l @ newline # r) = r" by simp
  show ?thesis
    unfolding grep_scan.simps [of pattern "l @ newline # r"] if_P [OF n] Let_def line_before [OF assms(1)] d r by simp
qed

text \<open>The scan prints the matching lines and stops behind the last newline; the rest belongs to the next line.\<close>

lemma grep_scan_spec:
  assumes "0 \<notin> set p"
  shows "fst (grep_scan pattern p) = matching pattern (lines p) \<and> newline \<notin> set (snd (grep_scan pattern p)) \<and>
    (\<forall>f. lines (p @ f) = lines p @ lines (snd (grep_scan pattern p) @ f)) \<and>
    (newline \<in> set p \<longrightarrow> length (snd (grep_scan pattern p)) < length p) \<and> set (snd (grep_scan pattern p)) \<subseteq> set p"
  using assms
proof (induction "length p" arbitrary: p rule: less_induct)
  case less
  show ?case
  proof (cases "newline \<in> set p")
    case False
    then show ?thesis by (simp add: scan_none lines_none matching_def)
  next
    case True
    then obtain l r where p: "p = l @ newline # r" "newline \<notin> set l" using split_line by blast
    have z: "0 \<notin> set l" "0 \<notin> set r" using less(2) p by auto
    have le: "length (snd (grep_scan pattern r)) \<le> length r"
    proof (cases "newline \<in> set r")
      case True
      then show ?thesis using less(1) [of r] z p by (simp add: less_imp_le)
    qed (simp add: scan_none)
    show ?thesis
      using less(1) [of r] z p le by (auto simp: scan_line lines_line matching_def match_matches)
  qed
qed

text \<open>\<open>read\<close> of a regular file.\<close>

definition read_file :: "u8 list \<Rightarrow> nat \<Rightarrow> u8 list \<times> u8 list" where
  "read_file f n = (take n f, drop n f)"

text \<open>The lines that fit in \<open>grep\<close>'s buffer with their newline and the final zero.\<close>

definition fit :: "u8 list list \<Rightarrow> bool" where
  "fit ls \<longleftrightarrow> (\<forall>l \<in> set ls. length l + 2 \<le> GREPBUF)"

lemma long_start:
  assumes "newline \<notin> set b" "length b + 1 = GREPBUF" "fit (lines (b @ f))"
  shows "lines (b @ f) = []" "lines f = []"
proof -
  have n: "newline \<notin> set f"
  proof
    assume "newline \<in> set f"
    then obtain l r where "f = l @ newline # r" "newline \<notin> set l" using split_line by blast
    then have "lines (b @ f) = (b @ l) # lines r" using assms(1) lines_line [of "b @ l" r] by simp
    with assms(2,3) show False by (simp add: fit_def)
  qed
  with assms(1) show "lines (b @ f) = []" "lines f = []" by (simp_all add: lines_none)
qed

lemma grep_loop_file:
  assumes "newline \<notin> set buf" "length buf + 1 < GREPBUF" "0 \<notin> set buf" "0 \<notin> set f" "fit (lines (buf @ f))"
  shows "grep_loop read_file pattern buf f written = Some (written @ matching pattern (lines (buf @ f)))"
  using assms
proof (induction "length f" arbitrary: buf f written rule: less_induct)
  case less
  define bs where "bs = take (GREPBUF - length buf - 1) f"
  define f' where "f' = drop (GREPBUF - length buf - 1) f"
  define b where "b = buf @ bs"
  obtain out p where s: "grep_scan pattern b = (out, p)" by fastforce
  have rd: "read_file f (GREPBUF - length buf - 1) = (bs, f')" by (simp add: read_file_def bs_def f'_def)
  have f: "f = bs @ f'" by (simp add: bs_def f'_def)
  have step: "grep_loop read_file pattern buf f written = (if bs = [] then Some written
      else grep_loop read_file pattern (if length p = length b then [] else p) f' (written @ out))"
    by (subst grep_loop.simps) (simp only: rd prod.case b_def [symmetric] s)
  show ?case
  proof (cases "f = []")
    case True
    with less(2) show ?thesis unfolding step by (simp add: bs_def lines_none matching_def)
  next
    case False
    then have "0 < length f" by simp
    then have ne: "bs \<noteq> []" "length f' < length f" using less(3) False by (simp_all add: bs_def f'_def del: length_greater_0_conv)
    have z: "0 \<notin> set b" "0 \<notin> set f'" using less(4,5) f by (auto simp: b_def)
    note sp = grep_scan_spec [OF z(1), of pattern, unfolded s fst_conv snd_conv]
    have all: "buf @ f = b @ f'" by (simp add: b_def f)
    note fits_all = less(6) [unfolded all]
    have lb: "length b < GREPBUF" using less(3) by (simp add: b_def bs_def)
    show ?thesis
    proof (cases "newline \<in> set b")
      case True
      then have lp: "length p < length b" using sp by blast
      have "grep_loop read_file pattern p f' (written @ out) = Some ((written @ out) @ matching pattern (lines (p @ f')))"
        by (rule less(1)) (use ne sp lp lb z fits_all in \<open>auto simp: fit_def\<close>)
      with step ne lp sp show ?thesis by (simp add: all matching_append)
    next
      case False
      then have p: "p = b" "out = []" using s by (simp_all add: scan_none)
      have same: "lines (b @ f') = lines f'" and fit: "fit (lines f')"
      proof -
        show "lines (b @ f') = lines f'"
        proof (cases "f' = []")
          case True
          with False show ?thesis by (simp add: lines_none)
        next
          case f': False
          then have full: "length b + 1 = GREPBUF" using less(3) by (simp add: b_def bs_def f'_def)
          show ?thesis using long_start [OF False full fits_all] by simp
        qed
        with fits_all show "fit (lines f')" by simp
      qed
      have "grep_loop read_file pattern [] f' written = Some (written @ matching pattern (lines ([] @ f')))"
        by (rule less(1)) (use ne z fit in \<open>simp_all add: GREPBUF_def\<close>)
      with step ne p show ?thesis by (simp add: all same)
    qed
  qed
qed

text \<open>
  A read that ends inside a line loses the start of the line: when the buffer holds no newline, \<open>grep\<close> empties it. From a pipe
  that delivers \<open>ab\<close> and then \<open>c\<close> and a newline, the line \<open>abc\<close> is not found by the pattern \<open>a\<close>.
\<close>

lemma grep_loses_line_start:
  "grep (\<lambda>f n. case f of [] \<Rightarrow> ([], []) | c # cs \<Rightarrow> (c, cs)) [97] [[97, 98], [99, 10]] = Some []"
  by (simp add: grep_def grep_loop.simps grep_scan.simps match_def match_from.simps newline_def caret_def star_def dollar_def dot_def)

text \<open>C16: \<open>grep\<close> on a file without zero bytes, whose lines fit in the buffer, comes to its end and prints exactly the lines that
  the pattern matches, in the order of the file: those with a part in the language of the pattern, where \<open>^\<close> and \<open>$\<close> tie it to
  the start and the end of the line, \<open>.\<close> stands for any byte and \<open>*\<close> for any number of repetitions. What follows the last
  newline is not looked at.\<close>

theorem grep_prints_matching_lines:
  assumes "0 \<notin> set f" "fit (lines f)"
  shows "grep read_file pattern f = Some (concat (map (\<lambda>l. l @ [newline]) (filter (matches pattern) (lines f))))"
  using grep_loop_file [of "[]" f pattern "[]"] assms by (simp add: grep_def matching_def GREPBUF_def)

theorem grep_prints_matching_lines_witness:
  "grep read_file [98, 42, 99, 36] [97, 98, 98, 99, 10, 99, 97, 10, 99, 10] = Some [97, 98, 98, 99, 10, 99, 10]"
proof -
  let ?f = "[97, 98, 98, 99, 10, 99, 97, 10, 99, 10] :: u8 list"
  have l: "lines ?f = [[97, 98, 98, 99], [99, 97], [99]]"
    by (simp add: lines.simps newline_def)
  have m: "matches [98, 42, 99, 36] [97, 98, 98, 99]" "\<not> matches [98, 42, 99, 36] [99, 97]" "matches [98, 42, 99, 36] [99]"
    unfolding match_matches [symmetric]
    by (simp_all add: match_def matchstar.simps caret_def star_def dollar_def dot_def)
  from grep_prints_matching_lines [of ?f "[98, 42, 99, 36]"] show ?thesis
    by (simp add: l m fit_def GREPBUF_def newline_def)
qed

end
