(* ===== verification/Shell.thy ===== *)
theory Shell
  imports Strings "HOL-Library.Multiset"
begin

unbundle bit_operations_syntax

text \<open>
  The shell, sh.c: the scanner, the recursive descent parser with its commands that point into the line, the routine
  that ends the words of the line with zero bytes, and the system calls that a command makes. The parsers run in
  the state-and-fault monad over the position \<open>*ps\<close> in the line.
\<close>

section \<open>Commands\<close>

definition MAXARGS :: nat where "MAXARGS = 10"

text \<open>Pointers are positions in the line; an argument is the pair of its \<open>argv\<close> and \<open>eargv\<close>.\<close>

datatype cmd =
    Execcmd "(nat \<times> nat) list"
  | Redircmd cmd nat nat u32 nat
  | Pipecmd cmd cmd
  | Listcmd cmd cmd
  | Backcmd cmd

section \<open>The scanner\<close>

definition whitespace :: "u8 list" where "whitespace = [32, 9, 13, 10, 11]"
definition symbols :: "u8 list" where "symbols = [60, 124, 62, 38, 59, 40, 41]"

text \<open>The loops of the scanner: over white space, and over a word.\<close>

function skip_space :: "bytes \<Rightarrow> nat \<Rightarrow> nat \<Rightarrow> nat" where
  "skip_space b s es = (if s < es \<and> b s \<in> set whitespace then skip_space b (s + 1) es else s)"
  by pat_completeness auto
termination
  by (relation "measure (\<lambda>(b, s, es). es - s)") auto

function skip_word :: "bytes \<Rightarrow> nat \<Rightarrow> nat \<Rightarrow> nat" where
  "skip_word b s es = (if s < es \<and> b s \<notin> set whitespace \<and> b s \<notin> set symbols then skip_word b (s + 1) es else s)"
  by pat_completeness auto
termination
  by (relation "measure (\<lambda>(b, s, es). es - s)") auto

declare skip_space.simps [simp del] skip_word.simps [simp del]

text \<open>The token that starts at \<open>s\<close>, and where it ends: \<open>+\<close> for \<open>>>\<close>, and \<open>a\<close> for a word.\<close>

definition token_at :: "bytes \<Rightarrow> nat \<Rightarrow> nat \<Rightarrow> u8 \<times> nat" where
  "token_at b s es =
     (if b s = 0 then (0, s)
      else if b s \<in> {124, 40, 41, 59, 38, 60} then (b s, s + 1)
      else if b s = 62 then (if b (s + 1) = 62 then (43, s + 2) else (62, s + 1))
      else (97, skip_word b s es))"

definition gettoken :: "bytes \<Rightarrow> nat \<Rightarrow> (nat, u8 \<times> nat \<times> nat) km" where
  "gettoken b es =
     bnd (gets (\<lambda>s. skip_space b s es)) (\<lambda>q.
     case token_at b q es of (t, eq) \<Rightarrow>
     sq (modify (\<lambda>_. skip_space b eq es)) (ret (t, q, eq)))"

definition peek :: "bytes \<Rightarrow> nat \<Rightarrow> u8 list \<Rightarrow> (nat, bool) km" where
  "peek b es toks =
     sq (modify (\<lambda>s. skip_space b s es))
        (gets (\<lambda>s. b s \<noteq> 0 \<and> b s \<in> set toks))"

section \<open>The parser\<close>

text \<open>Each round of a \<open>while\<close> loop moves on in the line, so that the loops are bounded by its end.\<close>

fun parseredirs_loop :: "nat \<Rightarrow> bytes \<Rightarrow> nat \<Rightarrow> cmd \<Rightarrow> (nat, cmd) km" where
  "parseredirs_loop 0 b es cmd = fail Diverges"
| "parseredirs_loop (Suc n) b es cmd =
     bnd (peek b es [60, 62]) (\<lambda>more.
     if \<not> more then ret cmd
     else
       bnd (gettoken b es) (\<lambda>(tok, _, _).
       bnd (gettoken b es) (\<lambda>(t, q, eq).
       if t \<noteq> 97 then panic ''missing file for redirection''
       else parseredirs_loop n b es
         (if tok = 60 then Redircmd cmd q eq O_RDONLY 0
          else if tok = 62 then Redircmd cmd q eq (O_WRONLY OR O_CREATE) 1
          else if tok = 43 then Redircmd cmd q eq (O_WRONLY OR O_CREATE) 1
          else cmd))))"

definition parseredirs :: "bytes \<Rightarrow> nat \<Rightarrow> cmd \<Rightarrow> (nat, cmd) km" where
  "parseredirs b es cmd = parseredirs_loop (es + 1) b es cmd"

text \<open>
  \<open>parseexec\<close> keeps a pointer \<open>cmd\<close> to the \<open>execcmd\<close> that the redirections in \<open>ret\<close> have been wrapped around, and stores
  the arguments through it.
\<close>

fun set_argv :: "(nat \<times> nat) list \<Rightarrow> cmd \<Rightarrow> cmd" where
  "set_argv av (Execcmd _) = Execcmd av"
| "set_argv av (Redircmd c q eq mode fd) = Redircmd (set_argv av c) q eq mode fd"
| "set_argv av c = c"

fun parseargs_loop :: "nat \<Rightarrow> bytes \<Rightarrow> nat \<Rightarrow> (nat \<times> nat) list \<Rightarrow> cmd \<Rightarrow> (nat, cmd) km" where
  "parseargs_loop 0 b es argv cmd = fail Diverges"
| "parseargs_loop (Suc n) b es argv cmd =
     bnd (peek b es [124, 41, 38, 59]) (\<lambda>stop.
     if stop then ret (set_argv argv cmd)
     else
       bnd (gettoken b es) (\<lambda>(tok, q, eq).
       if tok = 0 then ret (set_argv argv cmd)
       else if tok \<noteq> 97 then panic ''syntax''
       else if length (argv @ [(q, eq)]) \<ge> MAXARGS then panic ''too many args''
       else
         bnd (parseredirs b es cmd) (\<lambda>cmd.
         parseargs_loop n b es (argv @ [(q, eq)]) cmd)))"

fun parseback_loop :: "nat \<Rightarrow> bytes \<Rightarrow> nat \<Rightarrow> cmd \<Rightarrow> (nat, cmd) km" where
  "parseback_loop 0 b es cmd = fail Diverges"
| "parseback_loop (Suc n) b es cmd =
     bnd (peek b es [38]) (\<lambda>more.
     if more then sq (gettoken b es) (parseback_loop n b es (Backcmd cmd))
     else ret cmd)"

text \<open>The four routines that call one another; the first argument bounds the depth of the calls.\<close>

fun parseline :: "nat \<Rightarrow> bytes \<Rightarrow> nat \<Rightarrow> (nat, cmd) km"
  and parsepipe :: "nat \<Rightarrow> bytes \<Rightarrow> nat \<Rightarrow> (nat, cmd) km"
  and parseexec :: "nat \<Rightarrow> bytes \<Rightarrow> nat \<Rightarrow> (nat, cmd) km"
  and parseblock :: "nat \<Rightarrow> bytes \<Rightarrow> nat \<Rightarrow> (nat, cmd) km" where
  "parseline 0 b es = fail Diverges"
| "parseline (Suc n) b es =
     bnd (parsepipe n b es) (\<lambda>cmd.
     bnd (parseback_loop (es + 1) b es cmd) (\<lambda>cmd.
     bnd (peek b es [59]) (\<lambda>more.
     if more then
       sq (gettoken b es) (
       bnd (parseline n b es) (\<lambda>right.
       ret (Listcmd cmd right)))
     else ret cmd)))"
| "parsepipe 0 b es = fail Diverges"
| "parsepipe (Suc n) b es =
     bnd (parseexec n b es) (\<lambda>cmd.
     bnd (peek b es [124]) (\<lambda>more.
     if more then
       sq (gettoken b es) (
       bnd (parsepipe n b es) (\<lambda>right.
       ret (Pipecmd cmd right)))
     else ret cmd))"
| "parseexec 0 b es = fail Diverges"
| "parseexec (Suc n) b es =
     bnd (peek b es [40]) (\<lambda>block.
     if block then parseblock n b es
     else
       bnd (parseredirs b es (Execcmd [])) (\<lambda>cmd.
       parseargs_loop (es + 1) b es [] cmd))"
| "parseblock 0 b es = fail Diverges"
| "parseblock (Suc n) b es =
     bnd (peek b es [40]) (\<lambda>open.
     if \<not> open then panic ''parseblock''
     else
       sq (gettoken b es) (
       bnd (parseline n b es) (\<lambda>cmd.
       bnd (peek b es [41]) (\<lambda>closed.
       if \<not> closed then panic ''syntax - missing )''
       else
         sq (gettoken b es)
            (parseredirs b es cmd)))))"

fun nulterminate :: "cmd \<Rightarrow> bytes \<Rightarrow> bytes" where
  "nulterminate (Execcmd av) b = fold (\<lambda>(q, eq) b. b(eq := 0)) av b"
| "nulterminate (Redircmd c q eq mode fd) b = (nulterminate c b)(eq := 0)"
| "nulterminate (Pipecmd l r) b = nulterminate r (nulterminate l b)"
| "nulterminate (Listcmd l r) b = nulterminate r (nulterminate l b)"
| "nulterminate (Backcmd c) b = nulterminate c b"

definition parsecmd :: "bytes \<Rightarrow> (nat, cmd \<times> bytes) km" where
  "parsecmd b =
     bnd (gets (\<lambda>s. map_option (\<lambda>n. s + n) (strlen b s))) (\<lambda>e.
     bnd (deref e) (\<lambda>es.
     bnd (parseline (4 * es + 4) b es) (\<lambda>cmd.
     sq (peek b es []) (
     bnd (gets id) (\<lambda>s.
     if s \<noteq> es then panic ''syntax''
     else ret (cmd, nulterminate cmd b))))))"

section \<open>Running commands\<close>

text \<open>
  The system calls that \<open>runcmd\<close> makes in one process, with the calls of its children. \<open>PipeR\<close> and \<open>PipeW\<close> are the
  descriptors of the pipe just made. \<open>fails\<close> says which calls return an error; an \<open>exec\<close> that does not fail does not return.
\<close>

datatype fd = Fd nat | PipeR | PipeW

datatype act =
    Close fd
  | Open nat u32
  | Dup fd
  | MkPipe
  | Fork "act list"
  | Wait
  | ExecProg nat "nat list"
  | Say string
  | Quit

datatype call = COpen nat | CPipe | CFork | CExec nat

text \<open>\<open>panic\<close> prints and exits, and \<open>fork1\<close> panics if \<open>fork\<close> fails.\<close>

definition sh_panic :: "string \<Rightarrow> act list" where
  "sh_panic msg = [Say msg, Quit]"

definition fork1 :: "(call \<Rightarrow> bool) \<Rightarrow> act list \<Rightarrow> act list \<Rightarrow> act list" where
  "fork1 fails child rest = (if fails CFork then sh_panic ''fork'' else Fork child # rest)"

fun runcmd :: "(call \<Rightarrow> bool) \<Rightarrow> cmd \<Rightarrow> act list" where
  "runcmd fails (Execcmd av) =
     (if av = [] then [Quit]
      else ExecProg (fst (hd av)) (map fst av) # (if fails (CExec (fst (hd av))) then [Say ''exec failed'', Quit] else []))"
| "runcmd fails (Redircmd c q eq mode fd) =
     Close (Fd fd) # Open q mode #
     (if fails (COpen q) then [Say ''open failed'', Quit] else runcmd fails c)"
| "runcmd fails (Listcmd l r) =
     fork1 fails (runcmd fails l) (Wait # runcmd fails r)"
| "runcmd fails (Pipecmd l r) =
     (if fails CPipe then sh_panic ''pipe''
      else MkPipe #
        fork1 fails ([Close (Fd 1), Dup PipeW, Close PipeR, Close PipeW] @ runcmd fails l) (
        fork1 fails ([Close (Fd 0), Dup PipeR, Close PipeR, Close PipeW] @ runcmd fails r)
          [Close PipeR, Close PipeW, Wait, Wait, Quit]))"
| "runcmd fails (Backcmd c) =
     fork1 fails (runcmd fails c) [Quit]"

text \<open>\<open>runcmd\<close> does not return: the process ends, or another program runs in it.\<close>

definition ends :: "act list \<Rightarrow> bool" where
  "ends as \<longleftrightarrow> as \<noteq> [] \<and> (last as = Quit \<or> (\<exists>p ps. last as = ExecProg p ps))"

lemma ends_intros [intro]:
  "ends [Quit]" "ends [ExecProg p ps]" "ends as \<Longrightarrow> ends (a # as)" "ends (sh_panic msg)"
  by (auto simp: ends_def sh_panic_def)

lemma fork1_ends [intro]: "ends rest \<Longrightarrow> ends (fork1 fails child rest)"
  by (auto simp: fork1_def)

lemma runcmd_ends: "ends (runcmd fails c)"
proof (induction c)
  case (Pipecmd l r)
  show ?case by (simp add: ends_intros) (intro impI ends_intros fork1_ends)
qed auto

text \<open>
  \<open>getcmd\<close> with the input that is left, after printing the prompt. One line of the loop of \<open>main\<close>: \<open>cd\<close> is done by the
  shell itself, with the newline cut off; any other line is given to a child.
\<close>

definition getcmd :: "nat \<Rightarrow> nat \<Rightarrow> u8 list \<Rightarrow> bytes \<Rightarrow> int \<times> u8 list \<times> bytes" where
  "getcmd buf nbuf inp m =
     (case gets_u buf (int nbuf) inp (memset_u m buf 0 nbuf) of (rest, m') \<Rightarrow>
        (if m' buf = 0 then -1 else 0, rest, m'))"

datatype shline = Cd nat bytes | RunChild nat

definition sh_line :: "nat \<Rightarrow> bytes \<Rightarrow> shline option" where
  "sh_line buf m =
     (if m buf = 99 \<and> m (buf + 1) = 100 \<and> m (buf + 2) = 32 then
        map_option (\<lambda>n. Cd (buf + 3) (m(buf + n - 1 := 0))) (strlen m buf)
      else Some (RunChild buf))"

section \<open>The words of a line\<close>

text \<open>Where the scanner's loops stop.\<close>

lemma skip_space_stays: "\<not> (s < es \<and> b s \<in> set whitespace) \<Longrightarrow> skip_space b s es = s"
  by (subst skip_space.simps) auto

lemma skip_space_step: "s < es \<Longrightarrow> b s \<in> set whitespace \<Longrightarrow> skip_space b s es = skip_space b (s + 1) es"
  by (subst skip_space.simps) simp

lemma skip_space_bounds: "s \<le> skip_space b s es \<and> (s \<le> es \<longrightarrow> skip_space b s es \<le> es)"
proof (induction b s es rule: skip_space.induct)
  case (1 b s es)
  then show ?case
    by (cases "s < es \<and> b s \<in> set whitespace") (auto simp: skip_space_step skip_space_stays)
qed

lemma skip_space_stop: "\<not> (skip_space b s es < es \<and> b (skip_space b s es) \<in> set whitespace)"
proof (induction b s es rule: skip_space.induct)
  case (1 b s es)
  then show ?case
    by (cases "s < es \<and> b s \<in> set whitespace") (auto simp: skip_space_step skip_space_stays)
qed

lemma skip_space_again [simp]: "skip_space b (skip_space b s es) es = skip_space b s es"
  by (rule skip_space_stays) (rule skip_space_stop)

definition plain :: "u8 \<Rightarrow> bool" where
  "plain c \<longleftrightarrow> c \<notin> set whitespace \<and> c \<notin> set symbols"

lemma skip_word_stays: "\<not> (s < es \<and> plain (b s)) \<Longrightarrow> skip_word b s es = s"
  by (subst skip_word.simps) (auto simp: plain_def)

lemma skip_word_step: "s < es \<Longrightarrow> plain (b s) \<Longrightarrow> skip_word b s es = skip_word b (s + 1) es"
  by (subst skip_word.simps) (simp add: plain_def)

lemma skip_word_bounds: "s \<le> skip_word b s es \<and> (s \<le> es \<longrightarrow> skip_word b s es \<le> es)"
proof (induction b s es rule: skip_word.induct)
  case (1 b s es)
  then show ?case
    by (cases "s < es \<and> plain (b s)") (auto simp: skip_word_step skip_word_stays plain_def [symmetric])
qed

lemma skip_word_stop: "\<not> (skip_word b s es < es \<and> plain (b (skip_word b s es)))"
proof (induction b s es rule: skip_word.induct)
  case (1 b s es)
  then show ?case
    by (cases "s < es \<and> plain (b s)") (auto simp: skip_word_step skip_word_stays plain_def [symmetric])
qed

lemma skip_word_plain: "s \<le> i \<Longrightarrow> i < skip_word b s es \<Longrightarrow> plain (b i)"
proof (induction b s es rule: skip_word.induct)
  case (1 b s es)
  show ?case
  proof (cases "s < es \<and> plain (b s) \<and> i \<noteq> s")
    case True
    then have "i < skip_word b (s + 1) es" "s + 1 \<le> i" using 1(2,3) by (simp_all add: skip_word_step)
    with True 1(1) show ?thesis by (simp add: plain_def)
  next
    case False
    with 1(2,3) show ?thesis by (cases "s < es \<and> plain (b s)") (auto simp: skip_word_stays)
  qed
qed

text \<open>A line from \<open>s\<close>, ended by a zero byte at \<open>es\<close>, and a word in it.\<close>

definition wordc :: "u8 \<Rightarrow> bool" where
  "wordc c \<longleftrightarrow> c \<noteq> 0 \<and> plain c"

definition line_at :: "bytes \<Rightarrow> nat \<Rightarrow> nat \<Rightarrow> bool" where
  "line_at b s es \<longleftrightarrow> s \<le> es \<and> b es = 0 \<and> (\<forall>i. s \<le> i \<and> i < es \<longrightarrow> b i \<noteq> 0)"

definition word_at :: "bytes \<Rightarrow> nat \<times> nat \<Rightarrow> bool" where
  "word_at b w \<longleftrightarrow> fst w < snd w \<and> (\<forall>i. fst w \<le> i \<and> i < snd w \<longrightarrow> wordc (b i)) \<and> \<not> wordc (b (snd w))"

lemma line_later: "line_at b s es \<Longrightarrow> s \<le> t \<Longrightarrow> t \<le> es \<Longrightarrow> line_at b t es"
  by (auto simp: line_at_def)

lemma line_skip: "line_at b s es \<Longrightarrow> line_at b (skip_space b s es) es"
  using skip_space_bounds [of s b es] by (auto simp: line_at_def)

lemma token_spec:
  assumes l: "line_at b s es" and k: "skip_space b s es = s" and t: "token_at b s es = (t, e)"
  shows "t = 0 \<longleftrightarrow> s = es" "t = 0 \<Longrightarrow> e = s" "t \<noteq> 0 \<Longrightarrow> s < e" "e \<le> es" "t = 97 \<longleftrightarrow> wordc (b s)" "t = 97 \<Longrightarrow> word_at b (s, e)"
proof -
  have sw: "s < es \<Longrightarrow> b s \<notin> set whitespace" using skip_space_stop [of b s es] by (simp add: k)
  have z: "b s = 0 \<longleftrightarrow> s = es" and zi: "\<And>i. s \<le> i \<Longrightarrow> i < es \<Longrightarrow> b i \<noteq> 0" and le: "s \<le> es" "b es = 0"
    using l by (auto simp: line_at_def)
  have z1: "s < es \<Longrightarrow> b (s + 1) = 62 \<Longrightarrow> s + 1 < es" using le(2) by (cases "s + 1 = es") auto
  show "t = 0 \<longleftrightarrow> s = es" using t z by (auto simp: token_at_def split: if_splits)
  show "t = 0 \<Longrightarrow> e = s" using t z by (auto simp: token_at_def split: if_splits)
  have sym: "b s \<in> set symbols \<longleftrightarrow> b s \<in> {124, 40, 41, 59, 38, 60} \<or> b s = 62" by (auto simp: symbols_def)
  have word: "s < skip_word b s es \<and> skip_word b s es \<le> es \<and> word_at b (s, skip_word b s es)" if "wordc (b s)"
  proof -
    have "s \<noteq> es" using that le by (auto simp: wordc_def)
    then have "s < es" using le by simp
    then have "skip_word b s es = skip_word b (s + 1) es" using that by (simp add: skip_word_step wordc_def)
    then have lt: "s < skip_word b s es" using skip_word_bounds [of "s + 1" b es] by simp
    have top: "skip_word b s es \<le> es" using skip_word_bounds [of s b es] le by simp
    have "\<not> wordc (b (skip_word b s es))"
      using skip_word_stop [of b s es] top le by (cases "skip_word b s es = es") (auto simp: wordc_def)
    with lt top zi show ?thesis by (auto simp: word_at_def wordc_def intro: skip_word_plain [of s])
  qed
  have wc: "wordc (b s) \<longleftrightarrow> b s \<noteq> 0 \<and> \<not> (b s \<in> {124, 40, 41, 59, 38, 60} \<or> b s = 62)"
    using sw le z by (auto simp: wordc_def plain_def sym)
  show "t = 97 \<longleftrightarrow> wordc (b s)" using t unfolding wc by (auto simp: token_at_def split: if_splits)
  show "t = 97 \<Longrightarrow> word_at b (s, e)" using t word wc by (auto simp: token_at_def split: if_splits)
  show "t \<noteq> 0 \<Longrightarrow> s < e" using t word wc by (auto simp: token_at_def split: if_splits)
  show "e \<le> es" using t word wc z z1 le by (auto simp: token_at_def split: if_splits)
qed

text \<open>The words of a line from a position on, as repeated calls of \<open>gettoken\<close> find them.\<close>

function line_words :: "bytes \<Rightarrow> nat \<Rightarrow> nat \<Rightarrow> (nat \<times> nat) multiset" where
  "line_words b s es =
     (let q = skip_space b s es; (t, e) = token_at b q es in
      if q < e \<and> e \<le> es \<and> t \<noteq> 0 then (if t = 97 then {#(q, e)#} else {#}) + line_words b e es else {#})"
  by pat_completeness auto
termination
proof (relation "measure (\<lambda>(b, s, es). es - s)")
  fix b s es q t e and r :: "u8 \<times> nat"
  assume "q = skip_space b s es" "q < e \<and> e \<le> es \<and> t \<noteq> 0"
  then show "((b, e, es), b, s, es) \<in> measure (\<lambda>(b, s, es). es - s)" using skip_space_bounds [of s b es] by auto
qed simp

declare line_words.simps [simp del]

lemma line_words_skip [simp]: "line_words b (skip_space b s es) es = line_words b s es"
  by (subst (1 2) line_words.simps) simp

lemma line_words_end: "b es = 0 \<Longrightarrow> line_words b es es = {#}"
  by (subst line_words.simps) (simp add: skip_space_stays token_at_def)

section \<open>What the parsers do\<close>

text \<open>\<open>parses m Q s\<close>: from \<open>s\<close> the routine ends, in a panic or with a result and a position that satisfy \<open>Q\<close>.\<close>

definition parses :: "('s, 'a) km \<Rightarrow> ('a \<Rightarrow> 's \<Rightarrow> bool) \<Rightarrow> 's \<Rightarrow> bool" where
  "parses m Q s = (case m s of Inl f \<Rightarrow> (\<exists>msg. f = Panic msg) | Inr (x, t) \<Rightarrow> Q x t)"

named_theorems parse_rules \<open>rules for routines that may panic\<close>

lemma parses_ret [parse_rules]: "parses (ret x) Q s = Q x s"
  by (simp add: parses_def run_simps)

lemma parses_bnd [parse_rules]: "parses (bnd m f) Q s = parses m (\<lambda>x t. parses (f x) Q t) s"
  by (auto simp: parses_def run_simps split: sum.splits)

lemma parses_sq [parse_rules]: "parses (sq m n) Q s = parses m (\<lambda>_ t. parses n Q t) s"
  by (auto simp: parses_def run_simps split: sum.splits)

lemma parses_panic [parse_rules]: "parses (panic msg) Q s"
  by (simp add: parses_def run_simps)

lemma parses_gets [parse_rules]: "parses (gets f) Q s = Q (f s) s"
  by (simp add: parses_def run_simps)

lemma parses_deref [parse_rules]: "parses (deref (Some i)) Q s = Q i s"
  by (simp add: parses_def run_simps)

lemma parses_if [parse_rules]: "parses (if c then m else n) Q s = (if c then parses m Q s else parses n Q s)"
  by simp

lemma parses_mono: "parses m P s \<Longrightarrow> (\<And>x t. P x t \<Longrightarrow> Q x t) \<Longrightarrow> parses m Q s"
  by (auto simp: parses_def split: sum.splits)

lemma parses_peek:
  assumes l: "line_at b s es"
    and no: "\<And>t. s \<le> t \<Longrightarrow> line_at b t es \<Longrightarrow> line_words b t es = line_words b s es \<Longrightarrow> Q False t"
    and yes: "\<And>t. s \<le> t \<Longrightarrow> line_at b t es \<Longrightarrow> line_words b t es = line_words b s es \<Longrightarrow>
      skip_space b t es = t \<Longrightarrow> b t \<in> set toks \<Longrightarrow> Q True t"
  shows "parses (peek b es toks) Q s"
proof -
  let ?t = "skip_space b s es"
  have "s \<le> ?t" "line_at b ?t es" using skip_space_bounds [of s b es] line_skip [OF l] by simp_all
  moreover define seen where "seen = (b ?t \<noteq> 0 \<and> b ?t \<in> set toks)"
  ultimately have "Q seen ?t" using no [of ?t] yes [of ?t] by (cases seen) simp_all
  then show ?thesis by (simp add: parses_def peek_def run_simps seen_def)
qed

lemma parses_gettoken:
  assumes l: "line_at b s es"
    and q: "\<And>t p e u. s \<le> u \<Longrightarrow> (t \<noteq> 0 \<Longrightarrow> s < u) \<Longrightarrow> line_at b u es \<Longrightarrow> (t = 97 \<Longrightarrow> word_at b (p, e)) \<Longrightarrow>
      line_words b s es = (if t = 97 then {#(p, e)#} else {#}) + line_words b u es \<Longrightarrow>
      (skip_space b s es = s \<Longrightarrow> token_at b s es = (t, e)) \<Longrightarrow> Q (t, p, e) u"
  shows "parses (gettoken b es) Q s"
proof -
  let ?q = "skip_space b s es"
  obtain t e where t: "token_at b ?q es = (t, e)" by fastforce
  note spec = token_spec [OF line_skip [OF l] _ t, simplified]
  have sq: "s \<le> ?q" using skip_space_bounds by blast
  have e: "?q \<le> e" using spec(2,3) by (cases "t = 0") auto
  have lu: "line_at b (skip_space b e es) es"
    using line_later [OF l, of e] spec(4) sq e by (intro line_skip) simp
  have w: "line_words b s es = (if t = 97 then {#(?q, e)#} else {#}) + line_words b (skip_space b e es) es"
  proof (cases "t = 0")
    case True
    then have "e = es" "?q = es" using spec(1,2) by simp_all
    then show ?thesis using True l line_words_end [of b es] line_words_skip [of b s es] by (simp add: line_at_def)
  next
    case False
    then show ?thesis using spec by (subst line_words.simps) (simp add: t)
  qed
  have "Q (t, ?q, e) (skip_space b e es)"
  proof (rule q)
    show "s \<le> skip_space b e es" "t \<noteq> 0 \<Longrightarrow> s < skip_space b e es"
      using sq e spec(3) skip_space_bounds [of e b es] by auto
    show "token_at b s es = (t, e)" if "?q = s" using that t by simp
  qed (use lu w spec in auto)
  then show ?thesis by (simp add: parses_def gettoken_def run_simps t)
qed

text \<open>The words a command points to, and the commands that the parser may build.\<close>

fun cmd_words :: "cmd \<Rightarrow> (nat \<times> nat) multiset" where
  "cmd_words (Execcmd av) = mset av"
| "cmd_words (Redircmd c q e mode fd) = {#(q, e)#} + cmd_words c"
| "cmd_words (Pipecmd l r) = cmd_words l + cmd_words r"
| "cmd_words (Listcmd l r) = cmd_words l + cmd_words r"
| "cmd_words (Backcmd c) = cmd_words c"

fun cmd_ok :: "cmd \<Rightarrow> bool" where
  "cmd_ok (Execcmd av) = (length av < MAXARGS)"
| "cmd_ok (Redircmd c q e mode fd) = (cmd_ok c \<and> (mode = O_RDONLY \<and> fd = 0 \<or> mode = O_WRONLY OR O_CREATE \<and> fd = 1))"
| "cmd_ok (Pipecmd l r) = (cmd_ok l \<and> cmd_ok r)"
| "cmd_ok (Listcmd l r) = (cmd_ok l \<and> cmd_ok r)"
| "cmd_ok (Backcmd c) = cmd_ok c"

definition well :: "bytes \<Rightarrow> cmd \<Rightarrow> bool" where
  "well b c \<longleftrightarrow> cmd_ok c \<and> (\<forall>w \<in># cmd_words c. word_at b w)"

lemma well_simps [simp]:
  "well b (Execcmd av) \<longleftrightarrow> length av < MAXARGS \<and> (\<forall>w \<in> set av. word_at b w)"
  "well b (Redircmd c q e mode fd) \<longleftrightarrow> well b c \<and> word_at b (q, e) \<and> (mode = O_RDONLY \<and> fd = 0 \<or> mode = O_WRONLY OR O_CREATE \<and> fd = 1)"
  "well b (Pipecmd l r) \<longleftrightarrow> well b l \<and> well b r"
  "well b (Listcmd l r) \<longleftrightarrow> well b l \<and> well b r"
  "well b (Backcmd c) \<longleftrightarrow> well b c"
  by (auto simp: well_def)

text \<open>The command under construction in \<open>parseexec\<close>: redirections around a command without arguments yet.\<close>

fun bare :: "cmd \<Rightarrow> bool" where
  "bare (Execcmd av) = (av = [])"
| "bare (Redircmd c q e mode fd) = bare c"
| "bare c = False"

lemma set_argv_words: "bare c \<Longrightarrow> cmd_words (set_argv av c) = mset av + cmd_words c"
  by (induction c) auto

lemma set_argv_well: "bare c \<Longrightarrow> well b c \<Longrightarrow> length av < MAXARGS \<Longrightarrow> \<forall>w \<in> set av. word_at b w \<Longrightarrow> well b (set_argv av c)"
  by (induction c) auto

text \<open>A parser that starts with the words \<open>w\<close> in hand: it moves on, and no word of the line is lost or made up.\<close>

definition parsed :: "bytes \<Rightarrow> nat \<Rightarrow> (nat \<times> nat) multiset \<Rightarrow> nat \<Rightarrow> cmd \<Rightarrow> nat \<Rightarrow> bool" where
  "parsed b es w s c t \<longleftrightarrow> s \<le> t \<and> line_at b t es \<and> well b c \<and> cmd_words c + line_words b t es = w + line_words b s es"

lemma parsed_later:
  assumes "parsed b es w s c t" "r \<le> s" "w + line_words b s es = v + line_words b r es"
  shows "parsed b es v r c t"
  using assms by (simp add: parsed_def)

text \<open>Taking a symbol that \<open>peek\<close> has seen, and a redirection.\<close>

lemma parses_symbol:
  assumes "line_at b s es" "skip_space b s es = s" "b s \<in> {124, 40, 41, 59, 38}"
    and q: "\<And>x u. s < u \<Longrightarrow> line_at b u es \<Longrightarrow> line_words b u es = line_words b s es \<Longrightarrow> Q x u"
  shows "parses (gettoken b es) Q s"
proof (rule parses_gettoken [OF assms(1)])
  fix t p e u
  assume "t \<noteq> 0 \<Longrightarrow> s < u" "line_at b u es" "line_words b s es = (if t = 97 then {#(p, e)#} else {#}) + line_words b u es"
    "skip_space b s es = s \<Longrightarrow> token_at b s es = (t, e)"
  with assms(2,3) show "Q (t, p, e) u" by (intro q) (auto simp: token_at_def split: if_splits)
qed

lemma parses_redir:
  assumes "line_at b s es" "skip_space b s es = s" "b s \<in> {60, 62}"
    and q: "\<And>tok p e u. tok \<in> {60, 62, 43} \<Longrightarrow> s < u \<Longrightarrow> line_at b u es \<Longrightarrow> word_at b (p, e) \<Longrightarrow>
      line_words b s es = {#(p, e)#} + line_words b u es \<Longrightarrow> parses (k tok p e) Q u"
  shows "parses (bnd (gettoken b es) (\<lambda>(tok, _, _). bnd (gettoken b es) (\<lambda>(t, p, e).
       if t \<noteq> 97 then panic msg else k tok p e))) Q s"
  unfolding parses_bnd
proof (rule parses_gettoken [OF assms(1)])
  fix t p e u
  assume u: "t \<noteq> 0 \<Longrightarrow> s < u" "line_at b u es" "line_words b s es = (if t = 97 then {#(p, e)#} else {#}) + line_words b u es"
    "skip_space b s es = s \<Longrightarrow> token_at b s es = (t, e)"
  have t: "t \<in> {60, 62, 43}" using u(4) assms(2,3) by (auto simp: token_at_def split: if_splits)
  have "parses (gettoken b es) (\<lambda>x v. parses (case x of (t', p, e) \<Rightarrow> if t' \<noteq> 97 then panic msg else k t p e) Q v) u"
  proof (rule parses_gettoken [OF u(2)])
    fix t' p' e' v
    assume "u \<le> v" "line_at b v es" "t' = 97 \<Longrightarrow> word_at b (p', e')"
      "line_words b u es = (if t' = 97 then {#(p', e')#} else {#}) + line_words b v es"
    with t u(1,3) q [of t v p' e']
    show "parses (case (t', p', e') of (t', p, e) \<Rightarrow> if t' \<noteq> 97 then panic msg else k t p e) Q v"
      by (auto simp: parses_panic)
  qed
  then show "parses (case (t, p, e) of (tok, _, _) \<Rightarrow> bnd (gettoken b es) (\<lambda>(t, p, e).
       if t \<noteq> 97 then panic msg else k tok p e)) Q u"
    by (simp add: parses_bnd)
qed

lemma parseredirs_loop_parses:
  assumes "line_at b s es" "well b c" "es - s < n"
  shows "parses (parseredirs_loop n b es c) (\<lambda>d t. parsed b es (cmd_words c) s d t \<and> (bare c \<longrightarrow> bare d)) s"
  using assms
proof (induction n arbitrary: s c)
  case (Suc n)
  show ?case
    unfolding parseredirs_loop.simps parses_bnd [of "peek b es [60, 62]"]
  proof (rule parses_peek [OF Suc.prems(1)], goal_cases)
    case (1 t)
    with Suc.prems show ?case by (simp add: parses_ret parsed_def)
  next
    case (2 t)
    have "parses (bnd (gettoken b es) (\<lambda>(tok, _, _). bnd (gettoken b es) (\<lambda>(t, q, eq).
       if t \<noteq> 97 then panic ''missing file for redirection''
       else parseredirs_loop n b es
         (if tok = 60 then Redircmd c q eq O_RDONLY 0
          else if tok = 62 then Redircmd c q eq (O_WRONLY OR O_CREATE) 1
          else if tok = 43 then Redircmd c q eq (O_WRONLY OR O_CREATE) 1
          else c)))) (\<lambda>d t. parsed b es (cmd_words c) s d t \<and> (bare c \<longrightarrow> bare d)) t"
    proof (rule parses_redir, goal_cases)
      case (4 tok p e u)
      define d where "d = (if tok = 60 then Redircmd c p e O_RDONLY 0 else Redircmd c p e (O_WRONLY OR O_CREATE) 1)"
      have d: "(if tok = 60 then Redircmd c p e O_RDONLY 0
          else if tok = 62 then Redircmd c p e (O_WRONLY OR O_CREATE) 1
          else if tok = 43 then Redircmd c p e (O_WRONLY OR O_CREATE) 1 else c) = d"
        using 4(1) by (auto simp: d_def)
      have w: "cmd_words d = {#(p, e)#} + cmd_words c" "bare d = bare c" "well b d"
        using 4(4) Suc.prems(2) by (auto simp: d_def)
      have "es - u < n" using 4(2,3) 2(1) Suc.prems(3) by (auto simp: line_at_def)
      then have "parses (parseredirs_loop n b es d) (\<lambda>d' t. parsed b es (cmd_words d) u d' t \<and> (bare d \<longrightarrow> bare d')) u"
        using Suc.IH 4(3) w(3) by blast
      then show ?case
        unfolding d by (rule parses_mono) (use 2 4 w in \<open>auto simp: parsed_def\<close>)
    qed (use 2 in auto)
    then show ?case by simp
  qed
qed simp

lemma parseredirs_parses:
  assumes "line_at b s es" "well b c"
  shows "parses (parseredirs b es c) (\<lambda>d t. parsed b es (cmd_words c) s d t \<and> (bare c \<longrightarrow> bare d)) s"
  unfolding parseredirs_def using assms by (intro parseredirs_loop_parses) auto

lemma parseargs_loop_parses:
  assumes "line_at b s es" "well b c" "bare c" "length av < MAXARGS" "\<forall>w \<in> set av. word_at b w" "es - s < n"
  shows "parses (parseargs_loop n b es av c) (parsed b es (mset av + cmd_words c) s) s"
  using assms
proof (induction n arbitrary: s c av)
  case (Suc n)
  have fin: "parsed b es (mset av + cmd_words c) s (set_argv av c) t"
    if "s \<le> t" "line_at b t es" "line_words b t es = line_words b s es" for t
    using that Suc.prems by (simp add: parsed_def set_argv_well set_argv_words)
  show ?case
    unfolding parseargs_loop.simps parses_bnd [of "peek b es _"]
  proof (rule parses_peek [OF Suc.prems(1)], goal_cases)
    case (1 t)
    have "parses (gettoken b es) (\<lambda>x u. parses (case x of (tok, q, eq) \<Rightarrow>
       if tok = 0 then ret (set_argv av c)
       else if tok \<noteq> 97 then panic ''syntax''
       else if length (av @ [(q, eq)]) \<ge> MAXARGS then panic ''too many args''
       else
         bnd (parseredirs b es c) (\<lambda>cmd.
         parseargs_loop n b es (av @ [(q, eq)]) cmd)) (parsed b es (mset av + cmd_words c) s) u) t"
    proof (rule parses_gettoken [OF 1(2)], goal_cases)
      case (1 tok q e u)
      show ?case
      proof (cases "tok = 97 \<and> length av + 1 < MAXARGS")
        case True
        then have u: "s < u" "line_at b u es" "word_at b (q, e)" "line_words b s es = {#(q, e)#} + line_words b u es"
          using 1 \<open>s \<le> t\<close> \<open>line_words b t es = line_words b s es\<close> by auto
        have "parses (bnd (parseredirs b es c) (\<lambda>cmd. parseargs_loop n b es (av @ [(q, e)]) cmd)) (parsed b es (mset av + cmd_words c) s) u"
          unfolding parses_bnd
        proof (rule parses_mono [OF parseredirs_parses [OF u(2) Suc.prems(2)]], goal_cases)
          case (1 d v)
          then have v: "line_at b v es" "well b d" "bare d" "u \<le> v" "cmd_words d + line_words b v es = cmd_words c + line_words b u es"
            using Suc.prems(3) by (auto simp: parsed_def)
          have "es - v < n" using v(1,4) u(1) Suc.prems(1,6) by (auto simp: line_at_def)
          then have "parses (parseargs_loop n b es (av @ [(q, e)]) d) (parsed b es (mset (av @ [(q, e)]) + cmd_words d) v) v"
            using v u(3) Suc.prems(5) True by (intro Suc.IH) auto
          then show ?case
            by (rule parses_mono) (use u v in \<open>auto simp: parsed_def\<close>)
        qed
        with True show ?thesis by simp
      next
        case False
        then show ?thesis using 1 \<open>s \<le> t\<close> \<open>line_words b t es = line_words b s es\<close> fin [of u]
          by (auto simp: parses_ret parses_panic)
      qed
    qed
    then show ?case by (simp only: parses_bnd if_False)
  next
    case (2 t)
    with fin show ?case by (simp add: parses_ret)
  qed
qed simp

lemma parseback_loop_parses:
  assumes "line_at b s es" "well b c" "es - s < n"
  shows "parses (parseback_loop n b es c) (parsed b es (cmd_words c) s) s"
  using assms
proof (induction n arbitrary: s c)
  case (Suc n)
  show ?case
    unfolding parseback_loop.simps parses_bnd [of "peek b es _"]
  proof (rule parses_peek [OF Suc.prems(1)], goal_cases)
    case (1 t)
    with Suc.prems show ?case by (simp add: parses_ret parsed_def)
  next
    case (2 t)
    have "parses (gettoken b es) (\<lambda>_. parses (parseback_loop n b es (Backcmd c)) (parsed b es (cmd_words c) s)) t"
    proof (rule parses_symbol, goal_cases)
      case (4 x u)
      then have "es - u < n" using 2(1) Suc.prems(1,3) by (auto simp: line_at_def)
      then have "parses (parseback_loop n b es (Backcmd c)) (parsed b es (cmd_words (Backcmd c)) u) u"
        using 4 Suc.prems(2) by (intro Suc.IH) auto
      then show ?case by (rule parses_mono) (use 2 4 in \<open>auto simp: parsed_def\<close>)
    qed (use 2 in auto)
    then show ?case by (simp add: parses_sq)
  qed
qed simp

text \<open>One step of the parser after another: what follows a parser that has been dealt with.\<close>

lemma parses_after:
  assumes "parses m (parsed b es w s) s"
    and "\<And>c t. s \<le> t \<Longrightarrow> line_at b t es \<Longrightarrow> well b c \<Longrightarrow> cmd_words c + line_words b t es = w + line_words b s es \<Longrightarrow> parses (f c) Q t"
  shows "parses (bnd m f) Q s"
  unfolding parses_bnd by (rule parses_mono [OF assms(1)]) (use assms(2) in \<open>auto simp: parsed_def\<close>)

lemma parses_right:
  assumes t: "line_at b t es" "skip_space b t es = t" "b t \<in> {124, 59}"
    and m: "\<And>u. t < u \<Longrightarrow> line_at b u es \<Longrightarrow> parses m (parsed b es {#} u) u"
    and q: "\<And>r v. t \<le> v \<Longrightarrow> line_at b v es \<Longrightarrow> well b r \<Longrightarrow> cmd_words r + line_words b v es = line_words b t es \<Longrightarrow> Q (f r) v"
  shows "parses (sq (gettoken b es) (bnd m (\<lambda>r. ret (f r)))) Q t"
  unfolding parses_sq
proof (rule parses_symbol [OF t(1,2)], goal_cases)
  case (2 x u)
  then show ?case using q by (intro parses_after [OF m]) (auto simp: parses_ret)
qed (use t(3) in auto)

lemma parseline_step:
  assumes l: "line_at b s es" and pipe: "parses (parsepipe n b es) (parsed b es {#} s) s"
    and line: "\<And>u. s < u \<Longrightarrow> line_at b u es \<Longrightarrow> parses (parseline n b es) (parsed b es {#} u) u"
  shows "parses (parseline (Suc n) b es) (parsed b es {#} s) s"
  unfolding parseline.simps
proof (rule parses_after [OF pipe], goal_cases)
  case (1 c t)
  have bg: "parses (parseback_loop (es + 1) b es c) (parsed b es (cmd_words c) t) t"
    using 1 by (intro parseback_loop_parses) auto
  from 1 show ?case
  proof (intro parses_after [OF bg], goal_cases)
    case (1 d u)
    from 1 show ?case
      unfolding parses_bnd [of "peek b es _"]
    proof (intro parses_peek [of b u es], goal_cases)
      case (3 v)
      then have "parses (sq (gettoken b es) (bnd (parseline n b es) (\<lambda>r. ret (Listcmd d r)))) (parsed b es {#} s) v"
        using line by (intro parses_right) (auto simp: parsed_def add.assoc)
      then show ?case by simp
    qed (auto simp: parses_ret parsed_def)
  qed
qed

lemma parsepipe_step:
  assumes l: "line_at b s es" and exec: "parses (parseexec n b es) (parsed b es {#} s) s"
    and pipe: "\<And>u. s < u \<Longrightarrow> line_at b u es \<Longrightarrow> parses (parsepipe n b es) (parsed b es {#} u) u"
  shows "parses (parsepipe (Suc n) b es) (parsed b es {#} s) s"
  unfolding parsepipe.simps
proof (rule parses_after [OF exec], goal_cases)
  case (1 c t)
  from 1 show ?case
    unfolding parses_bnd [of "peek b es _"]
  proof (intro parses_peek [of b t es], goal_cases)
    case (3 v)
    then have "parses (sq (gettoken b es) (bnd (parsepipe n b es) (\<lambda>r. ret (Pipecmd c r)))) (parsed b es {#} s) v"
      using pipe by (intro parses_right) (auto simp: parsed_def add.assoc)
    then show ?case by simp
  qed (auto simp: parses_ret parsed_def)
qed

lemma parseexec_step:
  assumes l: "line_at b s es"
    and block: "\<And>u. s \<le> u \<Longrightarrow> line_at b u es \<Longrightarrow> parses (parseblock n b es) (parsed b es {#} u) u"
  shows "parses (parseexec (Suc n) b es) (parsed b es {#} s) s"
  unfolding parseexec.simps parses_bnd [of "peek b es _"]
proof (rule parses_peek [OF l], goal_cases)
  case (1 t)
  have "parses (bnd (parseredirs b es (Execcmd [])) (parseargs_loop (es + 1) b es [])) (parsed b es {#} s) t"
    unfolding parses_bnd
  proof (rule parses_mono [OF parseredirs_parses [OF 1(2)]], goal_cases)
    case (2 d u)
    then have u: "t \<le> u" "line_at b u es" "well b d" "bare d" "cmd_words d + line_words b u es = line_words b t es"
      by (auto simp: parsed_def)
    then have "parses (parseargs_loop (es + 1) b es [] d) (parsed b es (mset [] + cmd_words d) u) u"
      by (intro parseargs_loop_parses) (auto simp: MAXARGS_def)
    then show ?case by (rule parses_mono) (use 1 u in \<open>auto simp: parsed_def\<close>)
  qed (simp add: MAXARGS_def)
  then show ?case by simp
next
  case (2 t)
  then have "parses (parseblock n b es) (parsed b es {#} s) t"
    by (intro parses_mono [OF block]) (auto simp: parsed_def)
  then show ?case by simp
qed

lemma parseblock_step:
  assumes l: "line_at b s es"
    and line: "\<And>u. s < u \<Longrightarrow> line_at b u es \<Longrightarrow> parses (parseline n b es) (parsed b es {#} u) u"
  shows "parses (parseblock (Suc n) b es) (parsed b es {#} s) s"
  unfolding parseblock.simps parses_bnd [of "peek b es _"]
proof (rule parses_peek [OF l], goal_cases)
  case (2 t)
  have "parses (gettoken b es) (\<lambda>_. parses (bnd (parseline n b es) (\<lambda>cmd. bnd (peek b es [41]) (\<lambda>closed.
       if \<not> closed then panic ''syntax - missing )'' else sq (gettoken b es) (parseredirs b es cmd)))) (parsed b es {#} s)) t"
  proof (rule parses_symbol, goal_cases)
    case (4 x u)
    have line_u: "parses (parseline n b es) (parsed b es {#} u) u" using 2 4 by (intro line) auto
    from 4 show ?case
    proof (intro parses_after [OF line_u], goal_cases)
      case (1 c v)
      then have v: "line_at b v es" "well b c" "s \<le> v" "cmd_words c + line_words b v es = line_words b s es" using 2 by auto
      show ?case
        unfolding parses_bnd [of "peek b es _"]
      proof (rule parses_peek [OF v(1)], goal_cases)
        case (2 w)
        have "parses (gettoken b es) (\<lambda>_. parses (parseredirs b es c) (parsed b es {#} s)) w"
        proof (rule parses_symbol, goal_cases)
          case (4 x z)
          then show ?case
            by (intro parses_mono [OF parseredirs_parses [OF _ v(2)]]) (use 2 v in \<open>auto simp: parsed_def\<close>)
        qed (use 2 in auto)
        then show ?case by (simp add: parses_sq)
      qed (simp add: parses_panic)
    qed
  qed (use 2 in auto)
  then show ?case by (simp add: parses_sq)
qed (simp add: parses_panic)

text \<open>Depth \<open>4 (es - s)\<close> is enough: a block takes a parenthesis for each round through the four routines.\<close>

lemma parse_parses:
  "line_at b s es \<Longrightarrow> 4 * (es - s) + 4 \<le> n \<Longrightarrow> parses (parseline n b es) (parsed b es {#} s) s"
  "line_at b s es \<Longrightarrow> 4 * (es - s) + 3 \<le> n \<Longrightarrow> parses (parsepipe n b es) (parsed b es {#} s) s"
  "line_at b s es \<Longrightarrow> 4 * (es - s) + 2 \<le> n \<Longrightarrow> parses (parseexec n b es) (parsed b es {#} s) s"
  "line_at b s es \<Longrightarrow> 4 * (es - s) + 1 \<le> n \<Longrightarrow> parses (parseblock n b es) (parsed b es {#} s) s"
proof (induction n arbitrary: s)
  case (Suc n)
  have le: "u \<le> es" if "line_at b u es" for u using that by (simp add: line_at_def)
  {
    case 1
    then show ?case by (intro parseline_step Suc.IH) (auto dest!: le)
  next
    case 2
    then show ?case by (intro parsepipe_step Suc.IH) (auto dest!: le)
  next
    case 3
    then show ?case by (intro parseexec_step Suc.IH) (auto dest!: le)
  next
    case 4
    then show ?case by (intro parseblock_step Suc.IH) (auto dest!: le)
  }
qed simp_all

section \<open>The strings of a command\<close>

lemma nulterminate_at: "nulterminate c b i = (if i \<in> snd ` set_mset (cmd_words c) then 0 else b i)"
proof (induction c arbitrary: b)
  case (Execcmd av)
  show ?case by (induction av arbitrary: b) auto
qed (auto simp: image_Un)

lemma word_string:
  assumes "well b c" "(q, e) \<in># cmd_words c"
  shows "cstr (nulterminate c b) q (map b [q ..< e])"
proof -
  have w: "word_at b (q, e)" using assms by (auto simp: well_def)
  have "i \<notin> snd ` set_mset (cmd_words c)" if "q \<le> i" "i < e" for i
  proof
    assume "i \<in> snd ` set_mset (cmd_words c)"
    then have "\<not> wordc (b i)" using assms(1) by (auto simp: well_def word_at_def)
    with w that show False by (simp add: word_at_def)
  qed
  moreover have "e \<in> snd ` set_mset (cmd_words c)" using assms(2) by force
  ultimately show ?thesis
    using w by (auto simp: cstr_def nulterminate_at word_at_def wordc_def)
qed

lemma well_strings:
  assumes "well b c"
  shows "cmd_ok c \<and> (\<forall>(q, e) \<in> set_mset (cmd_words c).
    q < e \<and> (\<forall>i. q \<le> i \<and> i < e \<longrightarrow> wordc (b i)) \<and> cstr (nulterminate c b) q (map b [q ..< e]))"
  using assms word_string [OF assms] by (auto simp: well_def word_at_def)

text \<open>C17: Whatever the line, \<open>parsecmd\<close> comes to an end, in a syntax panic or with a command that is well formed: every
  \<open>execcmd\<close> has fewer than \<open>MAXARGS\<close> arguments, every redirection opens standard input for reading or standard output for writing;
  the words of the command are exactly the words of the line, each once; and after \<open>nulterminate\<close> each of its pointers
  points to a string of its own, the word as it stood in the line: no terminating zero falls into another word.\<close>

theorem parsecmd_well_formed:
  assumes "cstr b s cs"
  shows "case parsecmd b s of
      Inl f \<Rightarrow> (\<exists>msg. f = Panic msg)
    | Inr ((c, b'), t) \<Rightarrow> cmd_ok c \<and> cmd_words c = line_words b s (s + length cs) \<and>
        (\<forall>(q, e) \<in> set_mset (cmd_words c). q < e \<and> (\<forall>i. q \<le> i \<and> i < e \<longrightarrow> wordc (b i)) \<and> cstr b' q (map b [q ..< e]))"
proof -
  let ?es = "s + length cs"
  have l: "line_at b s ?es"
    using assms by (auto simp: cstr_def line_at_def) (metis add_diff_inverse_nat less_diff_conv2 nat_less_le not_le nth_mem add.commute)
  have len: "strlen b s = Some (length cs)" using strlen_loop_spec [of b s 0 cs] assms by (simp add: strlen_def)
  have "parses (parsecmd b) (\<lambda>(c, b') t. well b c \<and> cmd_words c = line_words b s ?es \<and> b' = nulterminate c b) s"
    unfolding parsecmd_def parses_bnd [of "gets _"] parses_gets len option.map parses_bnd [of "deref _"] parses_deref
  proof (rule parses_after [OF parse_parses(1) [OF l]], goal_cases)
    case (2 c t)
    then show ?case
      unfolding parses_sq
    proof (intro parses_peek, goal_cases)
      case (2 u)
      then have "u = ?es \<Longrightarrow> line_words b t ?es = {#}" using line_words_end [of b ?es] l by (simp add: line_at_def)
      with 2 show ?case by (auto simp: parse_rules)
    next
      case (3 u)
      then show ?case by simp
    qed simp
  qed simp
  then have p: "case parsecmd b s of Inl f \<Rightarrow> (\<exists>msg. f = Panic msg) | Inr ((c, b'), t) \<Rightarrow>
      well b c \<and> cmd_words c = line_words b s ?es \<and> b' = nulterminate c b"
    by (auto simp: parses_def split: sum.splits)
  show ?thesis
  proof (cases "parsecmd b s")
    case (Inr x)
    then obtain c b' t where x: "parsecmd b s = Inr ((c, b'), t)" by (metis prod.collapse)
    with p well_strings [of b c] show ?thesis by simp
  qed (use p in simp)
qed

text \<open>The line \<open>ab<c|d\<close>.\<close>

definition line_example :: bytes where
  "line_example = (\<lambda>i. if i < 6 then [97, 98, 60, 99, 124, 100] ! i else 0)"

theorem parsecmd_well_formed_witness:
  "\<exists>b'. parsecmd line_example 0 = Inr ((Pipecmd (Redircmd (Execcmd [(0, 2)]) 3 4 O_RDONLY 0) (Execcmd [(5, 6)]), b'), 6) \<and>
     cstr b' 0 [97, 98] \<and> cstr b' 3 [99] \<and> cstr b' 5 [100]"
proof -
  have c: "cstr line_example 0 [97, 98, 60, 99, 124, 100]"
    by (simp add: line_example_def)
  have len: "strlen line_example 0 = Some 6"
    using strlen_loop_spec [of line_example 0 0 "[97, 98, 60, 99, 124, 100]"] c by (simp add: strlen_def del: cstr_Cons)
  have l: "parseline 28 line_example 6 0 = Inr (Pipecmd (Redircmd (Execcmd [(0, 2)]) 3 4 O_RDONLY 0) (Execcmd [(5, 6)]), 6)"
    by code_simp
  obtain b' where p: "parsecmd line_example 0 = Inr ((Pipecmd (Redircmd (Execcmd [(0, 2)]) 3 4 O_RDONLY 0) (Execcmd [(5, 6)]), b'), 6)"
    by (simp add: parsecmd_def run_simps len l peek_def skip_space_stays)
  have m: "map line_example [0 ..< 2] = [97, 98]" "map line_example [3 ..< 4] = [99]" "map line_example [5 ..< 6] = [100]"
    by (simp_all add: line_example_def upt_rec)
  have "cstr b' 0 (map line_example [0 ..< 2]) \<and> cstr b' 3 (map line_example [3 ..< 4]) \<and> cstr b' 5 (map line_example [5 ..< 6])"
    using parsecmd_well_formed [OF c] unfolding p by simp
  with p show ?thesis unfolding m by blast
qed

end
