(* ===== verification/Umalloc.thy ===== *)
theory Umalloc
  imports Prelude
begin

text \<open>
  The memory allocator of user programs, umalloc.c: a circular list of free blocks in the order of their addresses.
  Addresses and sizes count headers of eight bytes. The list is kept sorted, apart and merged, and blocks in use
  are apart from each other and from the list.
\<close>

section \<open>The program\<close>

record header =
  h_ptr :: nat
  h_size :: nat

text \<open>The headers by address, the address of the static \<open>base\<close>, \<open>freep\<close>, and the end of the process's memory with its greatest value.\<close>

record um =
  hdr :: "nat \<Rightarrow> header"
  base :: nat
  freep :: "nat option"
  brk :: nat
  brk_max :: nat

definition upd_hdr :: "nat \<Rightarrow> (header \<Rightarrow> header) \<Rightarrow> (um, unit) km" where
  "upd_hdr a g = modify (\<lambda>s. s\<lparr>hdr := (hdr s)(a := g (hdr s a))\<rparr>)"

text \<open>The system call \<open>sbrk\<close>, on a number of bytes: the old end of the memory, or \<open>None\<close> for -1.\<close>

definition sbrk :: "int \<Rightarrow> (um, nat option) km" where
  "sbrk n =
     bnd (gets brk) (\<lambda>old.
     bnd (gets brk_max) (\<lambda>mx.
     if int old + n div 8 < 0 \<or> int mx < int old + n div 8 then ret None
     else sq (modify (\<lambda>s. s\<lparr>brk := nat (int old + n div 8)\<rparr>)) (ret (Some old))))"

text \<open>The search of \<open>free\<close> for the block before \<open>bp\<close>.\<close>

partial_function (option) free_find :: "(nat \<Rightarrow> header) \<Rightarrow> nat \<Rightarrow> nat \<Rightarrow> nat option" where
  "free_find h bp p =
     (if p < bp \<and> bp < h_ptr (h p) then Some p
      else if h_ptr (h p) \<le> p \<and> (p < bp \<or> bp < h_ptr (h p)) then Some p
      else free_find h bp (h_ptr (h p)))"

definition free :: "nat \<Rightarrow> (um, unit) km" where
  "free ap =
     (let bp = ap - 1 in
     bnd (gets freep) (\<lambda>f.
     bnd (deref f) (\<lambda>f.
     bnd (gets (\<lambda>s. free_find (hdr s) bp f)) (\<lambda>r.
     case r of
       None \<Rightarrow> fail Diverges
     | Some p \<Rightarrow>
         sq (bnd (gets hdr) (\<lambda>h.
             if bp + h_size (h bp) = h_ptr (h p) then
               upd_hdr bp (\<lambda>b. b\<lparr>h_size := h_size b + h_size (h (h_ptr (h p))), h_ptr := h_ptr (h (h_ptr (h p)))\<rparr>)
             else upd_hdr bp (\<lambda>b. b\<lparr>h_ptr := h_ptr (h p)\<rparr>))) (
         sq (bnd (gets hdr) (\<lambda>h.
             if p + h_size (h p) = bp then
               upd_hdr p (\<lambda>b. b\<lparr>h_size := h_size b + h_size (h bp), h_ptr := h_ptr (h bp)\<rparr>)
             else upd_hdr p (\<lambda>b. b\<lparr>h_ptr := bp\<rparr>)))
            (modify (\<lambda>s. s\<lparr>freep := Some p\<rparr>)))))))"

text \<open>\<open>nu * sizeof(Header)\<close> is computed as an \<open>uint\<close> and passed to \<open>sbrk\<close> as an \<open>int\<close>.\<close>

definition morecore :: "nat \<Rightarrow> (um, nat option) km" where
  "morecore nunits =
     (let nu = (if nunits < 4096 then 4096 else nunits) in
     bnd (sbrk (sint (word_of_nat nu * 8 :: u32))) (\<lambda>r.
     case r of
       None \<Rightarrow> ret None
     | Some hp \<Rightarrow>
         sq (upd_hdr hp (\<lambda>b. b\<lparr>h_size := nu\<rparr>)) (
         sq (free (hp + 1))
            (gets freep))))"

text \<open>
  The walk of \<open>malloc\<close> over the list, from \<open>prevp\<close> and \<open>p\<close> on: the first block that is large enough with the one before
  it, or \<open>None\<close> when it comes to \<open>freep\<close> without one.
\<close>

partial_function (option) find_fit :: "(nat \<Rightarrow> header) \<Rightarrow> nat \<Rightarrow> nat \<Rightarrow> nat \<Rightarrow> nat \<Rightarrow> (nat \<times> nat) option option" where
  "find_fit h fp nunits prevp p =
     (if h_size (h p) \<ge> nunits then Some (Some (prevp, p))
      else if p = fp then Some None
      else find_fit h fp nunits p (h_ptr (h p)))"

definition take_block :: "nat \<Rightarrow> nat \<Rightarrow> nat \<Rightarrow> (um, nat) km" where
  "take_block nunits prevp p =
     bnd (gets hdr) (\<lambda>h.
     if h_size (h p) = nunits then
       sq (upd_hdr prevp (\<lambda>b. b\<lparr>h_ptr := h_ptr (h p)\<rparr>)) (
       sq (modify (\<lambda>s. s\<lparr>freep := Some prevp\<rparr>))
          (ret (p + 1)))
     else
       sq (upd_hdr p (\<lambda>b. b\<lparr>h_size := h_size b - nunits\<rparr>)) (
       let q = p + (h_size (h p) - nunits) in
       sq (upd_hdr q (\<lambda>b. b\<lparr>h_size := nunits\<rparr>)) (
       sq (modify (\<lambda>s. s\<lparr>freep := Some prevp\<rparr>))
          (ret (q + 1)))))"

text \<open>The loop of \<open>malloc\<close>, with a bound on the calls of \<open>morecore\<close>; \<open>prevp\<close> is where a round of the walk starts.\<close>

fun malloc_loop :: "nat \<Rightarrow> nat \<Rightarrow> nat \<Rightarrow> (um, nat option) km" where
  "malloc_loop 0 nunits prevp = fail Diverges"
| "malloc_loop (Suc k) nunits prevp =
     bnd (gets freep) (\<lambda>f.
     bnd (deref f) (\<lambda>fp.
     bnd (gets (\<lambda>s. find_fit (hdr s) fp nunits prevp (h_ptr (hdr s prevp)))) (\<lambda>r.
     case r of
       None \<Rightarrow> fail Diverges
     | Some (Some (prevp, p)) \<Rightarrow> bnd (take_block nunits prevp p) (\<lambda>a. ret (Some a))
     | Some None \<Rightarrow>
         bnd (morecore nunits) (\<lambda>m.
         case m of
           None \<Rightarrow> ret None
         | Some p \<Rightarrow> malloc_loop k nunits p))))"

definition units :: "u32 \<Rightarrow> nat" where
  "units nbytes = unat ((nbytes + 8 - 1) div 8 + 1)"

text \<open>\<open>malloc\<close> as a whole: one call of \<open>morecore\<close> is enough, so that the loop is bounded by two walks.\<close>

definition malloc :: "u32 \<Rightarrow> (um, nat option) km" where
  "malloc nbytes =
     bnd (gets freep) (\<lambda>f.
     bnd (gets base) (\<lambda>b.
     sq (if f = None then
           sq (upd_hdr b (\<lambda>_. \<lparr>h_ptr = b, h_size = 0\<rparr>))
              (modify (\<lambda>s. s\<lparr>freep := Some b\<rparr>))
         else ret ())
        (malloc_loop 2 (units nbytes) (case f of None \<Rightarrow> b | Some p \<Rightarrow> p))))"

section \<open>Chains of blocks\<close>

text \<open>The links of the list \<open>xs\<close>, whose last one points to \<open>z\<close>.\<close>

primrec chain :: "(nat \<Rightarrow> header) \<Rightarrow> nat list \<Rightarrow> nat \<Rightarrow> bool" where
  "chain h [] z = True"
| "chain h (x # xs) z = (h_ptr (h x) = hd (xs @ [z]) \<and> chain h xs z)"

lemma chain_append: "chain h (xs @ ys) z \<longleftrightarrow> chain h xs (hd (ys @ [z])) \<and> chain h ys z"
  by (induction xs) (auto simp: hd_append)

lemma chain_cong: "(\<And>x. x \<in> set xs \<Longrightarrow> h_ptr (h x) = h_ptr (g x)) \<Longrightarrow> chain h xs z = chain g xs z"
  by (induction xs) auto

text \<open>Blocks in the order of their addresses, with a gap after each, and below \<open>lim\<close>.\<close>

primrec laid :: "(nat \<Rightarrow> header) \<Rightarrow> nat list \<Rightarrow> nat \<Rightarrow> bool" where
  "laid h [] lim = True"
| "laid h (x # xs) lim =
     ((case xs of [] \<Rightarrow> x + h_size (h x) \<le> lim | y # _ \<Rightarrow> x + h_size (h x) < y) \<and> laid h xs lim)"

lemma laid_cong: "(\<And>x. x \<in> set xs \<Longrightarrow> h_size (h x) = h_size (g x)) \<Longrightarrow> laid h xs lim = laid g xs lim"
  by (induction xs) (auto split: list.splits)

lemma laid_later: "laid h (x # xs) lim \<Longrightarrow> y \<in> set xs \<Longrightarrow> x + h_size (h x) < y"
proof (induction xs arbitrary: x)
  case (Cons z xs)
  from Cons.prems(1) have "x + h_size (h x) < z" "laid h (z # xs) lim" by simp_all
  with Cons.IH [of z] Cons.prems(2) show ?case by force
qed simp

lemma laid_append:
  "laid h (xs @ y # ys) lim \<longleftrightarrow> laid h (y # ys) lim \<and> laid h xs y \<and> (xs \<noteq> [] \<longrightarrow> last xs + h_size (h (last xs)) < y)"
proof (induction xs)
  case (Cons x xs)
  then show ?case by (cases xs) auto
qed simp

lemma laid_sorted: "laid h xs lim \<Longrightarrow> sorted_wrt (<) xs"
proof (induction xs)
  case (Cons x xs)
  have "x < y" if "y \<in> set xs" for y using laid_later [OF Cons.prems that] by simp
  with Cons show ?case by simp
qed simp

lemma laid_lim: "laid h xs lim \<Longrightarrow> x \<in> set xs \<Longrightarrow> x + h_size (h x) \<le> lim"
proof (induction xs arbitrary: x)
  case (Cons y ys)
  show ?case
  proof (cases "x = y \<and> ys \<noteq> []")
    case True
    then have "x + h_size (h x) < hd ys" "hd ys + h_size (h (hd ys)) \<le> lim"
      using Cons.prems Cons.IH [of "hd ys"] by (auto simp: neq_Nil_conv)
    then show ?thesis by simp
  qed (use Cons in \<open>auto split: list.splits\<close>)
qed simp

section \<open>The search of free\<close>

text \<open>The list of free blocks \<open>xs\<close> starts with \<open>base\<close>, which is below all others; \<open>bp\<close> lies between \<open>us @ [p]\<close> and \<open>vs\<close>.\<close>

lemma free_find_here:
  assumes "chain h (us @ p # vs) b" "p < bp" "\<forall>v \<in> set vs. bp < v" "b \<le> p"
  shows "free_find h bp p = Some p"
  using assms by (subst free_find.simps) (cases vs, auto simp: chain_append)

lemma free_find_forward:
  assumes "chain h (us @ x # ms @ p # vs) b" "sorted_wrt (<) (us @ x # ms @ p # vs)" "p < bp" "\<forall>v \<in> set vs. bp < v" "b \<le> p"
  shows "free_find h bp x = Some p"
  using assms(1,2)
proof (induction ms arbitrary: us x)
  case Nil
  then have "h_ptr (h x) = p" "x < p" by (auto simp: chain_append sorted_wrt_append)
  moreover have "free_find h bp p = Some p" using free_find_here [of h "us @ [x]" p vs b bp] Nil assms(3-5) by simp
  ultimately show ?case using assms(3) by (subst free_find.simps) simp
next
  case (Cons y ms)
  then have "h_ptr (h x) = y" "x < y" "y < p" by (auto simp: chain_append sorted_wrt_append)
  moreover have "free_find h bp y = Some p" using Cons.IH [of "us @ [x]" y] Cons.prems by simp
  ultimately show ?case using assms(3) by (subst free_find.simps) simp
qed

lemma free_find_around:
  assumes "chain h (us @ x # ms) b" "sorted_wrt (<) (us @ x # ms)" "bp < x" "b < bp" "free_find h bp b = Some p"
  shows "free_find h bp x = Some p"
  using assms(1,2,3)
proof (induction ms arbitrary: us x)
  case Nil
  then show ?case using assms(4,5) by (subst free_find.simps) (simp add: chain_append)
next
  case (Cons y ms)
  then have "h_ptr (h x) = y" "x < y" by (auto simp: chain_append sorted_wrt_append)
  moreover have "free_find h bp y = Some p" using Cons.IH [of "us @ [x]" y] Cons.prems calculation by simp
  ultimately show ?case using Cons.prems(3) by (subst free_find.simps) simp
qed

lemma free_find_spec:
  assumes c: "chain h (b # bs) b" and s: "sorted_wrt (<) (b # bs)" and bp: "b < bp" "bp \<notin> set bs" and x: "x \<in> set (b # bs)"
  obtains us p vs where "free_find h bp x = Some p" "b # bs = us @ p # vs" "p < bp" "\<forall>v \<in> set vs. bp < v"
proof -
  define us' where "us' = takeWhile (\<lambda>y. y < bp) (b # bs)"
  define vs where "vs = dropWhile (\<lambda>y. y < bp) (b # bs)"
  have ne: "us' \<noteq> []" using bp by (simp add: us'_def)
  define us p where "us = butlast us'" and "p = last us'"
  have up: "us' = us @ [p]" by (simp add: us_def p_def ne)
  have "b # bs = us' @ vs" by (simp only: us'_def vs_def takeWhile_dropWhile_id)
  then have split: "b # bs = us @ p # vs" by (simp add: up)
  have p: "p < bp" using set_takeWhileD [of p "\<lambda>y. y < bp" "b # bs"] last_in_set [OF ne] by (simp add: p_def us'_def)
  have v: "\<forall>v \<in> set vs. bp < v"
  proof (cases vs)
    case (Cons v vs')
    then have "\<not> v < bp" using hd_dropWhile [of "\<lambda>y. y < bp" "b # bs"] by (simp add: vs_def)
    moreover have "v \<in> set (b # bs)" unfolding split by (simp add: Cons)
    then have "v \<noteq> bp" using bp by auto
    moreover have "\<forall>w \<in> set vs'. v < w" using s unfolding split by (simp add: sorted_wrt_append Cons)
    ultimately show ?thesis using Cons by force
  qed simp
  have lo: "b \<le> y" if "y \<in> set (b # bs)" for y using s that by auto
  note c' = c [unfolded split] and s' = s [unfolded split]
  have bp': "b \<le> p" using lo [of p] split by simp
  have fwd: "free_find h bp y = Some p" if "y \<in> set (us @ [p])" for y
  proof (cases "y = p")
    case True
    with free_find_here [OF c' p v bp'] show ?thesis by simp
  next
    case False
    with that obtain as ms where "us = as @ y # ms" by (auto dest: split_list)
    with free_find_forward [of h as y ms p vs b bp] c' s' p v bp' show ?thesis by simp
  qed
  have "b \<in> set (us @ [p])" using split by (cases us) auto
  then have b: "free_find h bp b = Some p" by (rule fwd)
  have "free_find h bp x = Some p"
  proof (cases "x \<in> set (us @ [p])")
    case False
    then have "x \<in> set vs" using x split by auto
    then obtain as ms where vs: "vs = as @ x # ms" by (auto dest: split_list)
    then show ?thesis
      using free_find_around [of h "us @ p # as" x ms b bp p] c' s' v bp(1) b by simp
  qed (rule fwd)
  then show ?thesis using split p v by (rule that)
qed

section \<open>The invariant\<close>

definition apart :: "nat \<Rightarrow> nat \<Rightarrow> nat \<Rightarrow> nat \<Rightarrow> bool" where
  "apart a n b m \<longleftrightarrow> a + n \<le> b \<or> b + m \<le> a"

lemma apart_join: "apart a m x k \<Longrightarrow> apart a m (x + k) j \<Longrightarrow> 0 < m \<Longrightarrow> apart a m x (k + j)"
  by (auto simp: apart_def)

text \<open>
  \<open>um_ok s bs A\<close>: the free list is \<open>base\<close> followed by \<open>bs\<close>, sorted and merged, and \<open>A\<close> are the blocks in use, each with its size
  in its header, apart from each other and from the free ones.
\<close>

definition um_ok :: "um \<Rightarrow> nat list \<Rightarrow> (nat \<times> nat) set \<Rightarrow> bool" where
  "um_ok s bs A \<longleftrightarrow>
     (\<exists>f \<in> set (base s # bs). freep s = Some f) \<and> chain (hdr s) (base s # bs) (base s) \<and> laid (hdr s) (base s # bs) (brk s) \<and>
     h_size (hdr s (base s)) = 0 \<and> base s < brk s \<and> (\<forall>b \<in> set bs. 0 < h_size (hdr s b)) \<and>
     (\<forall>(a, n) \<in> A. 0 < n \<and> h_size (hdr s a) = n \<and> base s < a \<and> a + n \<le> brk s \<and> (\<forall>b \<in> set bs. apart a n b (h_size (hdr s b)))) \<and>
     (\<forall>(a, n) \<in> A. \<forall>(c, m) \<in> A. (a, n) \<noteq> (c, m) \<longrightarrow> apart a n c m)"

text \<open>The headers after \<open>free\<close> of the block \<open>bp\<close>, of size \<open>n\<close>, between \<open>p\<close> and \<open>vs\<close>.\<close>

definition merged :: "(nat \<Rightarrow> header) \<Rightarrow> nat \<Rightarrow> nat \<Rightarrow> nat list \<Rightarrow> bool" where
  "merged h bp n vs \<longleftrightarrow> vs \<noteq> [] \<and> bp + n = hd vs"

definition tail_size :: "(nat \<Rightarrow> header) \<Rightarrow> nat \<Rightarrow> nat \<Rightarrow> nat list \<Rightarrow> nat" where
  "tail_size h bp n vs = (if merged h bp n vs then n + h_size (h (hd vs)) else n)"

definition tail_list :: "(nat \<Rightarrow> header) \<Rightarrow> nat \<Rightarrow> nat \<Rightarrow> nat list \<Rightarrow> nat list" where
  "tail_list h bp n vs = (if merged h bp n vs then tl vs else vs)"

definition freed_hdr :: "(nat \<Rightarrow> header) \<Rightarrow> nat \<Rightarrow> nat \<Rightarrow> nat \<Rightarrow> nat \<Rightarrow> nat list \<Rightarrow> nat \<Rightarrow> header" where
  "freed_hdr h b p bp n vs =
     (let h1 = h(bp := \<lparr>h_ptr = hd (tail_list h bp n vs @ [b]), h_size = tail_size h bp n vs\<rparr>) in
      if p + h_size (h p) = bp then h1(p := \<lparr>h_ptr = hd (tail_list h bp n vs @ [b]), h_size = h_size (h p) + tail_size h bp n vs\<rparr>)
      else h1(p := \<lparr>h_ptr = bp, h_size = h_size (h p)\<rparr>))"

definition freed_list :: "(nat \<Rightarrow> header) \<Rightarrow> nat list \<Rightarrow> nat \<Rightarrow> nat \<Rightarrow> nat \<Rightarrow> nat list \<Rightarrow> nat list" where
  "freed_list h us p bp n vs = us @ p # (if p + h_size (h p) = bp then [] else [bp]) @ tail_list h bp n vs"

lemma free_run:
  assumes "freep s = Some f" "free_find (hdr s) bp f = Some p" "chain (hdr s) (us @ p # vs) b" "b < bp" "p < bp" "h_size (hdr s bp) = n"
  shows "free (bp + 1) s = Inr ((), s\<lparr>hdr := freed_hdr (hdr s) b p bp n vs, freep := Some p\<rparr>)"
proof -
  have nx: "h_ptr (hdr s p) = hd (vs @ [b])" using assms(3) by (simp add: chain_append)
  have m: "bp + n = h_ptr (hdr s p) \<longleftrightarrow> merged (hdr s) bp n vs"
    using assms(4) by (cases vs) (auto simp: nx merged_def)
  have nn: "h_ptr (hdr s (hd vs)) = hd (tl vs @ [b])" if "vs \<noteq> []"
    using that assms(3) by (auto simp: chain_append neq_Nil_conv)
  show ?thesis
    using assms nn m
    by (auto simp: free_def Let_def run_simps upd_hdr_def freed_hdr_def tail_list_def tail_size_def nx merged_def fun_upd_twist
        intro!: arg_cong [of _ _ "\<lambda>h. s\<lparr>hdr := h, freep := Some p\<rparr>"])
qed

text \<open>The list after \<open>free\<close> is linked, in order and merged.\<close>

lemma freed_same: "x \<noteq> p \<Longrightarrow> x \<noteq> bp \<Longrightarrow> freed_hdr h b p bp n vs x = h x"
  by (simp add: freed_hdr_def Let_def)

lemma tail_subset: "set (tail_list h bp n vs) \<subseteq> set vs"
  by (cases vs) (auto simp: tail_list_def)

lemma freed_chain:
  assumes c: "chain h (us @ p # vs) b" and d: "distinct (us @ p # vs)" "bp \<notin> set (us @ p # vs)"
  shows "chain (freed_hdr h b p bp n vs) (freed_list h us p bp n vs) b"
proof -
  let ?g = "freed_hdr h b p bp n vs" and ?r = "tail_list h bp n vs"
  note r = tail_subset [of h bp n vs]
  have "chain h ?r b" using c by (cases vs) (auto simp: chain_append tail_list_def merged_def)
  moreover have same: "?g v = h v" if "v \<in> set us \<union> set vs" for v
    using that d by (intro freed_same) auto
  ultimately have "chain ?g ?r b" using r by (subst chain_cong [of _ _ h]) (auto simp: subset_iff)
  moreover have "chain h us p" using c by (simp add: chain_append)
  then have "chain ?g us p" using same by (subst chain_cong [of _ _ h]) auto
  moreover have "p \<noteq> bp" using d by auto
  ultimately show ?thesis by (simp add: freed_list_def chain_append freed_hdr_def Let_def)
qed

lemma tail_laid:
  assumes l: "laid h vs lim" and bp: "\<forall>v \<in> set vs. bp < v \<and> 0 < h_size (h v) \<and> apart bp n v (h_size (h v))" "bp + n \<le> lim" "0 < n"
    and g: "h_size (g bp) = tail_size h bp n vs" "\<And>v. v \<in> set vs \<Longrightarrow> h_size (g v) = h_size (h v)"
  shows "laid g (bp # tail_list h bp n vs) lim"
proof (cases vs)
  case (Cons v vs')
  have le: "bp + n \<le> v" using bp Cons by (auto simp: apart_def)
  have l': "laid g vs lim" using l g(2) by (subst laid_cong [of _ _ h]) auto
  then show ?thesis
  proof (cases "bp + n = v")
    case True
    then show ?thesis using l' Cons g by (auto simp: tail_list_def tail_size_def merged_def split: list.splits)
  next
    case False
    then show ?thesis using l' Cons g le by (auto simp: tail_list_def tail_size_def merged_def)
  qed
qed (use bp g in \<open>simp add: tail_list_def tail_size_def merged_def\<close>)

lemma freed_laid:
  assumes l: "laid h (us @ p # vs) lim" and d: "bp \<notin> set (us @ p # vs)" and p: "p + h_size (h p) \<le> bp"
    and bp: "\<forall>v \<in> set vs. bp < v \<and> 0 < h_size (h v) \<and> apart bp n v (h_size (h v))" "bp + n \<le> lim" "0 < n"
  shows "laid (freed_hdr h b p bp n vs) (freed_list h us p bp n vs) lim"
proof -
  let ?g = "freed_hdr h b p bp n vs" and ?r = "tail_list h bp n vs"
  have dist: "distinct (us @ p # vs)" using laid_sorted [OF l] by (metis strict_sorted_iff)
  have np: "p \<noteq> bp" using d by auto
  have same: "h_size (?g v) = h_size (h v)" if "v \<in> set us \<union> set vs" for v
    using that dist d by (subst freed_same) auto
  have "laid h vs lim" using l by (cases vs) (auto simp: laid_append)
  then have t: "laid (h(bp := \<lparr>h_ptr = 0, h_size = tail_size h bp n vs\<rparr>)) (bp # ?r) lim"
    by (rule tail_laid [OF _ bp]) (use d in auto)
  note rs = tail_subset [of h bp n vs]
  have r: "laid ?g ?r lim"
    using t by (subst laid_cong [of _ _ "h(bp := \<lparr>h_ptr = 0, h_size = tail_size h bp n vs\<rparr>)"]) (use same rs d in auto)
  have us: "laid ?g us p \<and> (us \<noteq> [] \<longrightarrow> last us + h_size (?g (last us)) < p)"
    using l same by (auto simp: laid_append laid_cong [of us ?g h])
  show ?thesis
  proof (cases "p + h_size (h p) = bp")
    case True
    have "h_size (?g p) = h_size (h p) + tail_size h bp n vs" using True by (simp add: freed_hdr_def Let_def)
    then have "laid ?g (p # ?r) lim" using t r True by (cases ?r) auto
    with us True show ?thesis by (simp add: freed_list_def laid_append)
  next
    case False
    have "h_size (?g p) = h_size (h p)" "h_size (?g bp) = tail_size h bp n vs" using False np by (simp_all add: freed_hdr_def Let_def)
    then have "laid ?g (p # bp # ?r) lim" using t r p False by (cases ?r) auto
    with us False show ?thesis by (simp add: freed_list_def laid_append)
  qed
qed

lemma tail_apart:
  assumes "apart a m bp n" "0 < m" "\<forall>v \<in> set vs. apart a m v (h_size (h v))"
  shows "apart a m bp (tail_size h bp n vs)"
proof (cases "merged h bp n vs")
  case True
  then have v: "vs \<noteq> []" "bp + n = hd vs" by (simp_all add: merged_def)
  then have "apart a m (bp + n) (h_size (h (hd vs)))" using assms(3) by simp
  with True assms(1,2) show ?thesis by (simp add: tail_size_def apart_join)
qed (use assms in \<open>simp add: tail_size_def\<close>)

lemma freed_apart:
  assumes x: "x \<in> set (freed_list h us p bp n vs)" "x \<noteq> b" and d: "distinct (us @ p # vs)" "bp \<notin> set (us @ p # vs)"
    and free: "\<forall>y \<in> set (us @ p # vs) - {b}. apart a m y (h_size (h y))" and bp: "apart a m bp n" "0 < m" and b: "b \<notin> set vs"
  shows "apart a m x (h_size (freed_hdr h b p bp n vs x))"
proof -
  let ?g = "freed_hdr h b p bp n vs"
  have tail: "apart a m bp (tail_size h bp n vs)" using free b by (intro tail_apart [OF bp]) auto
  have np: "p \<noteq> bp" using d by auto
  consider "x = p" | "x = bp" "p + h_size (h p) \<noteq> bp" | "x \<in> set us \<union> set vs"
    using x tail_subset [of h bp n vs] by (auto simp: freed_list_def split: if_splits)
  then show ?thesis
  proof cases
    case 1
    then have p: "apart a m p (h_size (h p))" using free x(2) by simp
    show ?thesis
    proof (cases "p + h_size (h p) = bp")
      case True
      then have "apart a m (p + h_size (h p)) (tail_size h bp n vs)" using tail by simp
      with p bp(2) True 1 show ?thesis by (simp add: freed_hdr_def Let_def apart_join)
    qed (use p 1 in \<open>simp add: freed_hdr_def Let_def\<close>)
  next
    case 2
    with tail np show ?thesis by (simp add: freed_hdr_def Let_def)
  next
    case 3
    then have "?g x = h x" using d by (intro freed_same) auto
    with 3 free x(2) show ?thesis by auto
  qed
qed

lemma freed_positive:
  assumes "x \<in> set (freed_list h us p bp n vs)" "x \<noteq> b" "distinct (us @ p # vs)" "bp \<notin> set (us @ p # vs)"
    "\<forall>y \<in> set (us @ p # vs) - {b}. 0 < h_size (h y)" "0 < n"
  shows "0 < h_size (freed_hdr h b p bp n vs x)"
proof -
  have np: "p \<noteq> bp" using assms by auto
  have t: "0 < tail_size h bp n vs" using assms by (simp add: tail_size_def)
  consider "x = p" | "x = bp" "p + h_size (h p) \<noteq> bp" | "x \<in> set us \<union> set vs"
    using assms(1) tail_subset [of h bp n vs] by (auto simp: freed_list_def split: if_splits)
  then show ?thesis
  proof cases
    case 3
    then have "freed_hdr h b p bp n vs x = h x" using assms(3,4) by (intro freed_same) auto
    with 3 assms(2,5) show ?thesis by auto
  qed (use assms t np in \<open>auto simp: freed_hdr_def Let_def\<close>)
qed

lemma freed_covers:
  assumes hd: "freed_list h us p bp n vs = b # tl (freed_list h us p bp n vs)" and p: "p + h_size (h p) \<le> bp"
    and b: "h_size (h b) = 0" "b < bp" "p \<noteq> bp"
  shows "\<exists>x \<in> set (tl (freed_list h us p bp n vs)). x \<le> bp \<and> bp + n \<le> x + h_size (freed_hdr h b p bp n vs x)"
proof -
  have n: "n \<le> tail_size h bp n vs" by (simp add: tail_size_def)
  have t: "x \<in> set (tl (freed_list h us p bp n vs))" if "x \<in> set (freed_list h us p bp n vs)" "x \<noteq> b" for x
    using that hd by (metis set_ConsD)
  show ?thesis
  proof (cases "p + h_size (h p) = bp")
    case True
    then have "p \<noteq> b" using b by auto
    with True n show ?thesis by (intro bexI [OF _ t [of p]]) (auto simp: freed_hdr_def Let_def freed_list_def)
  next
    case False
    with n b show ?thesis by (intro bexI [OF _ t [of bp]]) (auto simp: freed_hdr_def Let_def freed_list_def)
  qed
qed

text \<open>\<open>free\<close> keeps the invariant: the block is no longer in use, and lies in one of the free ones.\<close>

lemma free_ok:
  assumes ok: "um_ok s bs A" and a: "(bp, n) \<in> A"
  shows "wp (free (bp + 1)) (\<lambda>_ t. base t = base s \<and> brk t = brk s \<and> brk_max t = brk_max s \<and>
    (\<exists>bs'. um_ok t bs' (A - {(bp, n)}) \<and> (\<exists>b \<in> set bs'. b \<le> bp \<and> bp + n \<le> b + h_size (hdr t b)))) s"
proof -
  let ?h = "hdr s" and ?b = "base s"
  have c: "chain ?h (?b # bs) ?b" and l: "laid ?h (?b # bs) (brk s)" and b0: "h_size (?h ?b) = 0" and bk: "?b < brk s" and pos: "\<forall>b \<in> set bs. 0 < h_size (?h b)"
    and use_: "\<And>a n. (a, n) \<in> A \<Longrightarrow> 0 < n \<and> h_size (?h a) = n \<and> ?b < a \<and> a + n \<le> brk s \<and> (\<forall>b \<in> set bs. apart a n b (h_size (?h b)))"
    and two: "\<And>a n c m. (a, n) \<in> A \<Longrightarrow> (c, m) \<in> A \<Longrightarrow> (a, n) \<noteq> (c, m) \<Longrightarrow> apart a n c m"
    using ok by (auto simp: um_ok_def)
  obtain f where f: "freep s = Some f" "f \<in> set (?b # bs)" using ok by (auto simp: um_ok_def)
  have bp: "0 < n" "h_size (?h bp) = n" "?b < bp" "bp + n \<le> brk s" "\<forall>b \<in> set bs. apart bp n b (h_size (?h b))"
    using use_ [OF a] by auto
  have nb: "bp \<notin> set bs"
  proof
    assume "bp \<in> set bs"
    then have "apart bp n bp n" using bp by auto
    with bp(1) show False by (simp add: apart_def)
  qed
  note srt = laid_sorted [OF l]
  obtain us p vs where find: "free_find ?h bp f = Some p" and split: "?b # bs = us @ p # vs" and p: "p < bp" and vs: "\<forall>v \<in> set vs. bp < v"
    by (rule free_find_spec [OF c srt bp(3) nb f(2)])
  have dist: "distinct (us @ p # vs)" using srt unfolding split by (metis strict_sorted_iff)
  have bd: "bp \<notin> set (us @ p # vs)" unfolding split [symmetric] using nb bp(3) by simp
  have bs: "set (us @ p # vs) - {?b} = set bs"
  proof -
    have "distinct (?b # bs)" using dist unfolding split .
    then show ?thesis unfolding split [symmetric] by auto
  qed
  have bv: "?b \<notin> set vs" using vs bp(3) by auto
  have pb: "p + h_size (?h p) \<le> bp"
  proof (cases "p = ?b")
    case False
    then have "p \<in> set bs" using bs by auto
    with bp p show ?thesis by (auto simp: apart_def)
  qed (use b0 bp in simp)
  let ?g = "freed_hdr ?h ?b p bp n vs" and ?xs = "freed_list ?h us p bp n vs"
  have run: "free (bp + 1) s = Inr ((), s\<lparr>hdr := ?g, freep := Some p\<rparr>)"
    by (rule free_run [OF f(1) find c [unfolded split] bp(3) p bp(2)])
  have hd: "?xs = ?b # tl ?xs" using split by (cases us) (auto simp: freed_list_def)
  have ch: "chain ?g ?xs ?b" by (rule freed_chain [OF c [unfolded split] dist bd])
  have vv: "\<forall>v \<in> set vs. bp < v \<and> 0 < h_size (?h v) \<and> apart bp n v (h_size (?h v))"
    using vs bp(5) pos bs bv by auto
  have la: "laid ?g ?xs (brk s)" by (rule freed_laid [OF l [unfolded split] bd pb vv bp(4,1)])
  have dx: "distinct (?b # tl ?xs)" using laid_sorted [OF la] hd by (metis strict_sorted_iff)
  have tl: "x \<in> set ?xs" "x \<noteq> ?b" if "x \<in> set (tl ?xs)" for x
    using that dx hd by (metis list.set_intros(2), metis distinct.simps(2))
  have ps: "0 < h_size (?g x)" if "x \<in> set (tl ?xs)" for x
    by (rule freed_positive [OF tl [OF that] dist bd]) (use pos bs bp(1) in auto)
  have us': "0 < m \<and> h_size (?g d) = m \<and> ?b < d \<and> d + m \<le> brk s \<and> (\<forall>x \<in> set (tl ?xs). apart d m x (h_size (?g x)))"
    if dm: "(d, m) \<in> A - {(bp, n)}" for d m
  proof -
    have u: "0 < m" "h_size (?h d) = m" "?b < d" "d + m \<le> brk s" "\<forall>b \<in> set bs. apart d m b (h_size (?h b))" using use_ dm by auto
    have ap: "apart d m bp n" using two a dm by auto
    have "d \<noteq> p"
    proof (cases "p = ?b")
      case False
      then have "p \<in> set bs" using bs by auto
      then have "apart d m p (h_size (?h p))" "0 < h_size (?h p)" using u(5) pos by auto
      then show ?thesis using u(1) by (auto simp: apart_def)
    qed (use u in auto)
    moreover have "d \<noteq> bp" using ap u(1) bp(1) by (auto simp: apart_def)
    ultimately have "?g d = ?h d" by (rule freed_same)
    moreover have "apart d m x (h_size (?g x))" if "x \<in> set (tl ?xs)" for x
      by (rule freed_apart [OF tl [OF that] dist bd _ ap u(1) bv]) (use u(5) bs in auto)
    ultimately show ?thesis using u by simp
  qed
  have cov: "\<exists>x \<in> set (tl ?xs). x \<le> bp \<and> bp + n \<le> x + h_size (?g x)"
    by (rule freed_covers [OF hd pb]) (use b0 bp bd in auto)
  have "um_ok (s\<lparr>hdr := ?g, freep := Some p\<rparr>) (tl ?xs) (A - {(bp, n)})"
  proof -
    have "p \<in> set (?b # tl ?xs)" unfolding hd [symmetric] by (simp add: freed_list_def)
    moreover have "h_size (?g ?b) = 0" using b0 bp(3) by (auto simp: freed_hdr_def Let_def)
    ultimately show ?thesis
      using ch la ps us' two bk unfolding um_ok_def by (simp add: hd [symmetric]) blast
  qed
  with cov run show ?thesis by (auto simp: wp_def)
qed

section \<open>The walk of malloc\<close>

lemma find_fit_walk:
  assumes "chain h (q # ms) fp" "fp \<notin> set ms"
  shows "case find_fit h fp n q (hd (ms @ [fp])) of
      None \<Rightarrow> False
    | Some None \<Rightarrow> \<forall>y \<in> set (ms @ [fp]). h_size (h y) < n
    | Some (Some (x, y)) \<Rightarrow> x \<in> set (q # ms) \<and> h_ptr (h x) = y \<and> n \<le> h_size (h y) \<and> y \<in> set (ms @ [fp])"
  using assms
proof (induction ms arbitrary: q)
  case Nil
  then show ?case by (subst find_fit.simps) simp
next
  case (Cons m ms)
  then have q: "h_ptr (h q) = m" "h_ptr (h m) = hd (ms @ [fp])" "m \<noteq> fp" by auto
  show ?case
  proof (cases "n \<le> h_size (h m)")
    case True
    then show ?thesis using q by (subst find_fit.simps) simp
  next
    case False
    then have "find_fit h fp n q m = find_fit h fp n m (hd (ms @ [fp]))" using q by (subst find_fit.simps) simp
    with False Cons.IH [of m] Cons.prems show ?thesis by (auto split: option.splits)
  qed
qed

text \<open>The walk goes once around the list, from \<open>freep\<close> to \<open>freep\<close>.\<close>

lemma find_fit_spec:
  assumes ok: "um_ok s bs A" and f: "freep s = Some fp"
  shows "case find_fit (hdr s) fp n fp (h_ptr (hdr s fp)) of
      None \<Rightarrow> False
    | Some None \<Rightarrow> \<forall>y \<in> set bs. h_size (hdr s y) < n
    | Some (Some (x, y)) \<Rightarrow> x \<in> set (base s # bs) \<and> h_ptr (hdr s x) = y \<and> n \<le> h_size (hdr s y) \<and> y \<in> set (base s # bs)"
proof -
  let ?h = "hdr s" and ?b = "base s"
  have c: "chain ?h (?b # bs) ?b" and l: "laid ?h (?b # bs) (brk s)" and fp: "fp \<in> set (?b # bs)"
    using ok f by (auto simp: um_ok_def)
  obtain us vs where x: "?b # bs = us @ fp # vs" using split_list [OF fp] by blast
  have d: "distinct (us @ fp # vs)" using laid_sorted [OF l] unfolding x by (metis strict_sorted_iff)
  have b: "?b = hd (us @ [fp])" using x by (cases us) auto
  have c': "chain ?h ((fp # vs) @ us) fp"
    using c unfolding x by (cases us) (auto simp: chain_append b hd_append)
  have "h_ptr (?h fp) = hd ((vs @ us) @ [fp])" using c' by simp
  moreover have "set (?b # bs) = set ((vs @ us) @ [fp])" unfolding x by auto
  ultimately show ?thesis
    using find_fit_walk [of ?h fp "vs @ us" fp n] c' d by (auto split: option.splits)
qed

section \<open>Taking a block\<close>

lemma apart_sub: "apart a m y k \<Longrightarrow> y \<le> q \<Longrightarrow> q + n \<le> y + k \<Longrightarrow> apart a m q n"
  by (auto simp: apart_def)

lemma laid_Cons_iff: "laid h (x # xs) lim \<longleftrightarrow> laid h xs lim \<and> (\<forall>y \<in> set xs. x + h_size (h x) < y) \<and> x + h_size (h x) \<le> lim"
proof
  assume l: "laid h (x # xs) lim"
  then show "laid h xs lim \<and> (\<forall>y \<in> set xs. x + h_size (h x) < y) \<and> x + h_size (h x) \<le> lim"
    using laid_later [OF l] laid_lim [OF l, of x] by simp
qed (auto split: list.splits)

lemma laid_mono: "laid h xs lim \<Longrightarrow> (\<And>x. x \<in> set xs \<Longrightarrow> h_size (g x) \<le> h_size (h x)) \<Longrightarrow> laid g xs lim"
proof (induction xs)
  case (Cons x xs)
  have "h_size (g x) \<le> h_size (h x)" using Cons.prems(2) by simp
  with Cons show ?case unfolding laid_Cons_iff by fastforce
qed simp

lemma laid_grow: "laid h xs lim \<Longrightarrow> lim \<le> lim' \<Longrightarrow> laid h xs lim'"
  by (induction xs) (auto simp: laid_Cons_iff simp del: laid.simps(2))

lemma laid_remove: "laid h (xs @ y # ws) lim \<Longrightarrow> laid h (xs @ ws) lim"
  by (induction xs) (auto simp: laid_Cons_iff simp del: laid.simps(2))

lemma laid_apart: "laid h xs lim \<Longrightarrow> x \<in> set xs \<Longrightarrow> y \<in> set xs \<Longrightarrow> x \<noteq> y \<Longrightarrow> apart x (h_size (h x)) y (h_size (h y))"
  by (induction xs) (auto simp: laid_Cons_iff apart_def less_imp_le simp del: laid.simps(2))

text \<open>The parts of the invariant.\<close>

lemma um_okD:
  assumes "um_ok s bs A"
  shows "chain (hdr s) (base s # bs) (base s)" "laid (hdr s) (base s # bs) (brk s)" "h_size (hdr s (base s)) = 0"
    "\<And>b. b \<in> set bs \<Longrightarrow> 0 < h_size (hdr s b)"
    "\<And>a n. (a, n) \<in> A \<Longrightarrow> 0 < n \<and> h_size (hdr s a) = n \<and> base s < a \<and> a + n \<le> brk s"
    "\<And>a n b. (a, n) \<in> A \<Longrightarrow> b \<in> set bs \<Longrightarrow> apart a n b (h_size (hdr s b))"
    "\<And>a n c m. (a, n) \<in> A \<Longrightarrow> (c, m) \<in> A \<Longrightarrow> (a, n) \<noteq> (c, m) \<Longrightarrow> apart a n c m"
    "base s < brk s"
  using assms by (auto simp: um_ok_def)

lemma um_okI:
  assumes "base t = b" "hdr t = g" "brk t = k" "freep t = Some f" "f \<in> set (b # bs)" "chain g (b # bs) b" "laid g (b # bs) k"
    "h_size (g b) = 0" "\<And>x. x \<in> set bs \<Longrightarrow> 0 < h_size (g x)"
    "\<And>a n. (a, n) \<in> A \<Longrightarrow> 0 < n \<and> h_size (g a) = n \<and> b < a \<and> a + n \<le> k"
    "\<And>a n x. (a, n) \<in> A \<Longrightarrow> x \<in> set bs \<Longrightarrow> apart a n x (h_size (g x))"
    "\<And>a n c m. (a, n) \<in> A \<Longrightarrow> (c, m) \<in> A \<Longrightarrow> (a, n) \<noteq> (c, m) \<Longrightarrow> apart a n c m"
    "b < k"
  shows "um_ok t bs A"
  using assms unfolding um_ok_def by blast

lemma apart_sym: "apart a n c m \<Longrightarrow> apart c m a n"
  by (auto simp: apart_def)

text \<open>A block of the list that is handed out whole.\<close>

lemma take_whole_ok:
  assumes ok: "um_ok s (vs @ y # ws) A"
    and x: "x = last (base s # vs)"
  shows "um_ok (s\<lparr>hdr := (hdr s)(x := (hdr s x)\<lparr>h_ptr := h_ptr (hdr s y)\<rparr>), freep := Some x\<rparr>) (vs @ ws) (insert (y, h_size (hdr s y)) A)"
proof -
  let ?h = "hdr s" and ?b = "base s"
  let ?g = "?h(x := (?h x)\<lparr>h_ptr := h_ptr (?h y)\<rparr>)"
  note D = um_okD [OF ok]
  define us where "us = butlast (?b # vs)"
  have bv: "?b # vs = us @ [x]" by (simp add: us_def x)
  have sz: "h_size (?g a) = h_size (?h a)" for a by simp
  have dist: "distinct (us @ x # y # ws)" using laid_sorted [OF D(2)] bv by (metis append.assoc append_Cons append_Nil strict_sorted_iff)
  have c: "chain ?h (us @ x # y # ws) ?b" using D(1) bv by (metis append.assoc append_Cons append_Nil)
  have "chain ?g us x" using c dist by (subst chain_cong [of _ _ ?h]) (auto simp: chain_append)
  moreover have "chain ?g ws ?b" using c dist by (subst chain_cong [of _ _ ?h]) (auto simp: chain_append)
  ultimately have "chain ?g (us @ x # ws) ?b" using c by (simp add: chain_append)
  then have ch: "chain ?g (?b # vs @ ws) ?b" using bv by (metis append.assoc append_Cons append_Nil)
  have la: "laid ?g (?b # vs @ ws) (brk s)"
    using laid_remove [of ?h "?b # vs" y ws] D(2) by (subst laid_cong [of _ _ ?h]) auto
  have lt: "?b < y" "y + h_size (?h y) \<le> brk s" using laid_later [OF D(2)] D(3) laid_lim [OF D(2)] by auto
  have bd: "distinct (?b # vs @ y # ws)" using laid_sorted [OF D(2)] by (metis strict_sorted_iff)
  have fr: "apart y (h_size (?h y)) b (h_size (?h b))" if "b \<in> set (vs @ ws)" for b
    by (rule laid_apart [OF D(2)]) (use that bd in auto)
  have old: "apart a n y (h_size (?h y))" if "(a, n) \<in> A" for a n using D(6) that by simp
  have xin: "x \<in> set (?b # vs @ ws)" using bv by (metis Un_iff append_Cons in_set_conv_decomp set_append)
  show ?thesis
  proof (rule um_okI [OF _ _ _ _ xin ch la])
    show "0 < n \<and> h_size (?g a) = n \<and> ?b < a \<and> a + n \<le> brk s" if "(a, n) \<in> insert (y, h_size (?h y)) A" for a n
      using that D(4,5) lt by auto
    show "apart a n b (h_size (?g b))" if "(a, n) \<in> insert (y, h_size (?h y)) A" "b \<in> set (vs @ ws)" for a n b
      using that D(6) fr by auto
    show "apart a n c m" if "(a, n) \<in> insert (y, h_size (?h y)) A" "(c, m) \<in> insert (y, h_size (?h y)) A" "(a, n) \<noteq> (c, m)" for a n c m
      using that D(7) old apart_sym by auto
  qed (use D(3,4,8) in auto)
qed

text \<open>A block that is cut in two, of which the upper part is handed out.\<close>

lemma take_part_ok:
  assumes ok: "um_ok s bs A" and y: "y \<in> set bs" and n: "0 < n" "n < h_size (hdr s y)" and x: "x \<in> set (base s # bs)"
  defines "q \<equiv> y + (h_size (hdr s y) - n)"
  shows "um_ok (s\<lparr>hdr := (hdr s)(y := (hdr s y)\<lparr>h_size := h_size (hdr s y) - n\<rparr>, q := (hdr s q)\<lparr>h_size := n\<rparr>), freep := Some x\<rparr>) bs (insert (q, n) A)"
proof -
  let ?h = "hdr s" and ?b = "base s"
  let ?g = "?h(y := (?h y)\<lparr>h_size := h_size (?h y) - n\<rparr>, q := (?h q)\<lparr>h_size := n\<rparr>)"
  note D = um_okD [OF ok]
  have yq: "y < q" "q + n = y + h_size (?h y)" using n by (auto simp: q_def)
  have other: "z \<noteq> q" if "apart z m y (h_size (?h y))" "0 < m" for z m using that yq n by (auto simp: apart_def)
  have bs: "apart z (h_size (?h z)) y (h_size (?h y))" if "z \<in> set bs" "z \<noteq> y" for z
    by (rule laid_apart [OF D(2)]) (use that y in auto)
  have qb: "z \<noteq> q" if "z \<in> set bs" for z
  proof (cases "z = y")
    case False
    show ?thesis by (rule other [OF bs [OF that False] D(4) [OF that]])
  qed (use yq in simp)
  have b: "?b < y" using laid_later [OF D(2) y] by simp
  have gs: "h_size (?g z) = (if z = y then h_size (?h y) - n else h_size (?h z))" if "z \<in> set (?b # bs)" for z
    using that qb b yq by auto
  have qA: "a \<noteq> q \<and> a \<noteq> y" if "(a, m) \<in> A" for a m
    using D(5) [OF that] D(6) [OF that y] D(4) [OF y] other [of a m] by (auto simp: apart_def)
  show ?thesis
  proof (rule um_okI [OF _ _ _ _ x])
    show "chain ?g (?b # bs) ?b" using D(1) by (subst chain_cong [of _ _ ?h]) auto
    show "laid ?g (?b # bs) (brk s)" by (rule laid_mono [OF D(2)], subst gs) auto
    show "0 < h_size (?g z)" if "z \<in> set bs" for z using gs [of z] that D(4) n by auto
    show "0 < m \<and> h_size (?g a) = m \<and> ?b < a \<and> a + m \<le> brk s" if "(a, m) \<in> insert (q, n) A" for a m
      using that D(5) qA n b yq laid_lim [OF D(2), of y] y by auto
    show "apart a m z (h_size (?g z))" if am: "(a, m) \<in> insert (q, n) A" and z: "z \<in> set bs" for a m z
    proof (cases "(a, m) = (q, n)")
      case True
      have "apart z (h_size (?g z)) q n"
        using gs [of z] z bs apart_sub [of z "h_size (?h z)" y "h_size (?h y)" q n] yq by (cases "z = y") (auto simp: apart_def)
      with True show ?thesis by (auto intro: apart_sym)
    next
      case False
      then have am': "(a, m) \<in> A" using am by auto
      show ?thesis
        using gs [of z] z D(6) [OF am' z] apart_sub [of a m z "h_size (?h z)" z "h_size (?g z)"] by auto
    qed
    show "apart a m c k" if "(a, m) \<in> insert (q, n) A" "(c, k) \<in> insert (q, n) A" "(a, m) \<noteq> (c, k)" for a m c k
    proof -
      have "apart c k q n" if "(c, k) \<in> A" for c k using apart_sub [OF D(6) [OF that y], of q n] yq by simp
      then show ?thesis using that D(7) apart_sym by blast
    qed
    show "h_size (?g ?b) = 0" using gs [of ?b] b D(3) by simp
  qed (use D(8) in auto)
qed

lemma take_block_ok:
  assumes ok: "um_ok s bs A" and x: "x \<in> set (base s # bs)" "h_ptr (hdr s x) = y" "y \<in> set (base s # bs)" and n: "0 < n" "n \<le> h_size (hdr s y)"
  shows "wp (take_block n x y) (\<lambda>a t. base t = base s \<and> brk_max t = brk_max s \<and> brk t = brk s \<and>
    (\<exists>q bs'. a = q + 1 \<and> um_ok t bs' (insert (q, n) A) \<and> (\<forall>(c, m) \<in> A. apart c m q n))) s"
proof -
  note D = um_okD [OF ok]
  have yb: "y \<in> set bs" "y \<noteq> base s" using x(3) n D(3) by auto
  have ap: "apart c m q n" if "(c, m) \<in> A" "y \<le> q" "q + n \<le> y + h_size (hdr s y)" for c m q
    using apart_sub [OF D(6) [OF that(1) yb(1)]] that(2,3) by blast
  show ?thesis
  proof (cases "h_size (hdr s y) = n")
    case True
    obtain us rest where s1: "base s # bs = us @ x # rest" using split_list [OF x(1)] by blast
    then have "y = hd (rest @ [base s])" using D(1) x(2) by (simp add: chain_append)
    then obtain ws where rest: "rest = y # ws" using yb(2) by (cases rest) auto
    define vs where "vs = tl (us @ [x])"
    have vs: "base s # vs = us @ [x]" "bs = vs @ y # ws" using s1 rest by (cases us; simp add: vs_def)+
    have "x = last (base s # vs)" by (simp only: vs(1) last_snoc)
    from take_whole_ok [OF ok [unfolded vs(2)] this] True
    have "um_ok (s\<lparr>hdr := (hdr s)(x := (hdr s x)\<lparr>h_ptr := h_ptr (hdr s y)\<rparr>), freep := Some x\<rparr>) (vs @ ws) (insert (y, n) A)" by simp
    then show ?thesis using True ap by (auto simp: take_block_def wp_rules upd_hdr_def intro!: exI [of _ y])
  next
    case False
    with n have lt: "n < h_size (hdr s y)" by simp
    let ?q = "y + (h_size (hdr s y) - n)"
    have "y \<noteq> ?q" using lt by simp
    moreover have "um_ok (s\<lparr>hdr := (hdr s)(y := (hdr s y)\<lparr>h_size := h_size (hdr s y) - n\<rparr>, ?q := (hdr s ?q)\<lparr>h_size := n\<rparr>), freep := Some x\<rparr>) bs (insert (?q, n) A)"
      by (rule take_part_ok [OF ok yb(1) n(1) lt x(1)])
    ultimately show ?thesis using False lt ap [of _ _ ?q] by (auto simp: take_block_def wp_rules upd_hdr_def Let_def intro!: exI [of _ ?q])
  qed
qed

section \<open>More memory\<close>

lemma grown_ok:
  assumes ok: "um_ok s bs A" and n: "0 < n"
  shows "um_ok (s\<lparr>brk := brk s + n, hdr := (hdr s)(brk s := (hdr s (brk s))\<lparr>h_size := n\<rparr>)\<rparr>) bs (insert (brk s, n) A)"
proof -
  let ?h = "hdr s" and ?b = "base s"
  let ?g = "?h(brk s := (?h (brk s))\<lparr>h_size := n\<rparr>)"
  note D = um_okD [OF ok]
  obtain f where f: "freep s = Some f" "f \<in> set (?b # bs)" using ok by (auto simp: um_ok_def)
  have below: "z + h_size (?h z) \<le> brk s" "z \<noteq> brk s" if "z \<in> set (?b # bs)" for z
    using laid_lim [OF D(2) that] D(4) [of z] D(8) that by auto
  have same: "?g z = ?h z" if "z \<in> set (?b # bs)" for z using below [OF that] by simp
  have lm: "laid ?g (?b # bs) (brk s + n)"
    using laid_grow [OF D(2), of "brk s + n"] same by (subst laid_cong [of _ _ ?h]) auto
  have ch: "chain ?g (?b # bs) ?b" using D(1) same by (subst chain_cong [of _ _ ?h]) auto
  have new: "apart a m (brk s) n" if "(a, m) \<in> A" for a m using D(5) [OF that] by (simp add: apart_def)
  have anew: "a \<noteq> brk s" if "(a, m) \<in> A" for a m using D(5) [OF that] by auto
  show ?thesis
  proof (rule um_okI [OF _ _ _ _ f(2) ch lm])
    show "0 < m \<and> h_size (?g a) = m \<and> ?b < a \<and> a + m \<le> brk s + n" if "(a, m) \<in> insert (brk s, n) A" for a m
      using that D(5,8) n anew by force
    show "apart a m z (h_size (?g z))" if "(a, m) \<in> insert (brk s, n) A" "z \<in> set bs" for a m z
      using that D(6) same [of z] below [of z] by (auto simp: apart_def)
    show "apart a m c k" if "(a, m) \<in> insert (brk s, n) A" "(c, k) \<in> insert (brk s, n) A" "(a, m) \<noteq> (c, k)" for a m c k
      using that D(7) new apart_sym by auto
  qed (use D(3,4,8) same f in auto)
qed

lemma bytes_of_units: "nu < 2 ^ 28 \<Longrightarrow> sint (word_of_nat nu * 8 :: u32) div 8 = int nu"
proof -
  assume nu: "nu < 2 ^ 28"
  then have "(word_of_nat nu * 8 :: u32) = word_of_nat (nu * 8)" by simp
  moreover have "sint (word_of_nat (nu * 8) :: u32) = int (nu * 8)"
    using nu by (simp add: signed_of_nat signed_take_bit_int_eq_self del: of_nat_mult)
  ultimately show ?thesis by simp
qed

definition core_units :: "nat \<Rightarrow> nat" where
  "core_units n = (if n < 4096 then 4096 else n)"

lemma morecore_ok:
  assumes ok: "um_ok s bs A" and n: "0 < n" "n < 2 ^ 28"
  shows "wp (morecore n) (\<lambda>r t. base t = base s \<and> brk_max t = brk_max s \<and>
    (case r of
       None \<Rightarrow> t = s \<and> brk_max s < brk s + core_units n
     | Some f \<Rightarrow> freep t = Some f \<and> (\<exists>bs'. um_ok t bs' A \<and> (\<exists>b \<in> set bs'. n \<le> h_size (hdr t b))))) s"
proof -
  let ?nu = "core_units n"
  have nu: "0 < ?nu" "n \<le> ?nu" "?nu < 2 ^ 28" using n by (auto simp: core_units_def)
  show ?thesis
  proof (cases "brk_max s < brk s + ?nu")
    case True
    then show ?thesis
      using bytes_of_units [OF nu(3)] by (simp add: morecore_def sbrk_def core_units_def [symmetric] Let_def wp_rules)
  next
    case False
    let ?t = "s\<lparr>brk := brk s + ?nu, hdr := (hdr s)(brk s := (hdr s (brk s))\<lparr>h_size := ?nu\<rparr>)\<rparr>"
    have fresh: "(brk s, ?nu) \<notin> A" using um_okD(5) [OF ok, of "brk s" ?nu] nu by auto
    have "wp (free (brk s + 1)) (\<lambda>_ u. base u = base s \<and> brk_max u = brk_max s \<and>
        (\<exists>bs'. um_ok u bs' A \<and> (\<exists>b \<in> set bs'. n \<le> h_size (hdr u b)))) ?t"
    proof (rule wp_mono [OF free_ok [OF grown_ok [OF ok nu(1)], of "brk s" ?nu]], goal_cases)
      case (2 x u)
      then obtain bs' b where "um_ok u bs' A" "b \<in> set bs'" "b \<le> brk s" "brk s + ?nu \<le> b + h_size (hdr u b)"
        using fresh by auto
      moreover from this have "n \<le> h_size (hdr u b)" using nu(2) by linarith
      ultimately show ?case using 2 by auto
    qed simp
    then obtain u where u: "free (brk s + 1) ?t = Inr ((), u)" "base u = base s" "brk_max u = brk_max s"
      "\<exists>bs'. um_ok u bs' A \<and> (\<exists>b \<in> set bs'. n \<le> h_size (hdr u b))"
      by (rule wpE) auto
    then obtain f where "freep u = Some f" by (auto simp: um_ok_def)
    moreover have "wp (free (brk s + 1)) Q ?t = Q () u" for Q using u(1) by (rule wp_run)
    ultimately show ?thesis
      using u False bytes_of_units [OF nu(3)]
      by (simp add: morecore_def sbrk_def core_units_def [symmetric] Let_def wp_rules upd_hdr_def nat_int_add)
  qed
qed

section \<open>malloc\<close>

text \<open>\<open>got s A n r t\<close>: what \<open>malloc\<close> of \<open>n\<close> units leaves, with the blocks \<open>A\<close> in use before.\<close>

definition got :: "um \<Rightarrow> (nat \<times> nat) set \<Rightarrow> nat \<Rightarrow> nat option \<Rightarrow> um \<Rightarrow> bool" where
  "got s A n r t \<longleftrightarrow>
     (case r of
        None \<Rightarrow> (\<exists>bs. um_ok t bs A) \<and> brk_max s < brk s + core_units n
      | Some a \<Rightarrow> \<exists>q bs. a = q + 1 \<and> um_ok t bs (insert (q, n) A) \<and> (\<forall>(c, m) \<in> A. apart c m q n))"

lemma malloc_round:
  assumes ok: "um_ok s bs A" and f: "freep s = Some fp" and n: "0 < n"
  shows "(\<exists>x y. find_fit (hdr s) fp n fp (h_ptr (hdr s fp)) = Some (Some (x, y)) \<and> wp (bnd (take_block n x y) (\<lambda>a. ret (Some a))) (got s' A n) s) \<or>
    find_fit (hdr s) fp n fp (h_ptr (hdr s fp)) = Some None \<and> (\<forall>b \<in> set bs. h_size (hdr s b) < n)"
proof -
  have "case find_fit (hdr s) fp n fp (h_ptr (hdr s fp)) of
      None \<Rightarrow> False
    | Some None \<Rightarrow> \<forall>y \<in> set bs. h_size (hdr s y) < n
    | Some (Some (x, y)) \<Rightarrow> x \<in> set (base s # bs) \<and> h_ptr (hdr s x) = y \<and> n \<le> h_size (hdr s y) \<and> y \<in> set (base s # bs)"
    by (rule find_fit_spec [OF ok f])
  then consider "find_fit (hdr s) fp n fp (h_ptr (hdr s fp)) = Some None" "\<forall>b \<in> set bs. h_size (hdr s b) < n"
    | x y where "find_fit (hdr s) fp n fp (h_ptr (hdr s fp)) = Some (Some (x, y))" "x \<in> set (base s # bs)" "h_ptr (hdr s x) = y"
      "n \<le> h_size (hdr s y)" "y \<in> set (base s # bs)"
    by (auto split: option.splits)
  then show ?thesis
  proof cases
    case (2 x y)
    have "wp (take_block n x y) (\<lambda>a t. got s' A n (Some a) t) s"
      by (rule wp_mono [OF take_block_ok [OF ok 2(2,3,5) n 2(4)]]) (auto simp: got_def)
    with 2 show ?thesis by (auto simp: wp_rules)
  qed simp
qed

lemma malloc_loop_ok:
  assumes ok: "um_ok s bs A" and f: "freep s = Some fp" and n: "0 < n" "n < 2 ^ 28"
  shows "wp (malloc_loop 2 n fp) (got s A n) s"
proof (cases "find_fit (hdr s) fp n fp (h_ptr (hdr s fp)) = Some None")
  case False
  with malloc_round [OF ok f n(1), of s] show ?thesis by (auto simp: numeral_2_eq_2 wp_rules f)
next
  case True
  have "wp (morecore n) (\<lambda>m t. wp (case m of None \<Rightarrow> ret None | Some p \<Rightarrow> malloc_loop (Suc 0) n p) (got s A n) t) s"
  proof (rule wp_mono [OF morecore_ok [OF ok n]], goal_cases)
    case (1 r t)
    show ?case
    proof (cases r)
      case None
      with 1 ok show ?thesis by (auto simp: wp_rules got_def)
    next
      case (Some g)
      then obtain bs' where t: "freep t = Some g" "um_ok t bs' A" "\<exists>b \<in> set bs'. n \<le> h_size (hdr t b)" using 1 by auto
      with malloc_round [OF t(2,1) n(1), of s] show ?thesis
        by (auto simp: Some wp_rules not_le [symmetric])
    qed
  qed
  with True f show ?thesis by (simp add: numeral_2_eq_2 wp_rules)
qed

lemma units_spec:
  assumes "nbytes \<le> 0x7fffff00"
  shows "units nbytes = (unat nbytes + 7) div 8 + 1" "unat nbytes \<le> 8 * (units nbytes - 1)" "0 < units nbytes" "units nbytes < 2 ^ 28"
proof -
  have b: "unat nbytes \<le> 0x7fffff00" using assms by (simp add: word_le_nat_alt)
  have "unat (nbytes + 8 - 1) = unat nbytes + 7" using b by (simp add: unat_word_ariths)
  then show u: "units nbytes = (unat nbytes + 7) div 8 + 1"
    using b by (simp add: units_def unat_word_ariths unat_div)
  show "unat nbytes \<le> 8 * (units nbytes - 1)" "0 < units nbytes" by (simp_all add: u)
  show "units nbytes < 2 ^ 28" unfolding u using b by simp
qed

text \<open>Before the first call the list is not there yet.\<close>

definition um_rep :: "um \<Rightarrow> (nat \<times> nat) set \<Rightarrow> bool" where
  "um_rep s A \<longleftrightarrow> (\<exists>bs. um_ok s bs A) \<or> freep s = None \<and> base s < brk s \<and> A = {}"

lemma malloc_ok:
  assumes r: "um_rep s A" and n: "nbytes \<le> 0x7fffff00"
  shows "wp (malloc nbytes) (got s A (units nbytes)) s"
proof (cases "freep s")
  case (Some fp)
  then obtain bs where "um_ok s bs A" using r by (auto simp: um_rep_def)
  from malloc_loop_ok [OF this Some units_spec(3,4) [OF n]] Some show ?thesis
    by (simp add: malloc_def wp_rules)
next
  case None
  then have s: "base s < brk s" "A = {}" using r by (auto simp: um_rep_def um_ok_def)
  let ?t = "s\<lparr>hdr := (hdr s)(base s := \<lparr>h_ptr = base s, h_size = 0\<rparr>), freep := Some (base s)\<rparr>"
  have "um_ok ?t [] A" using s by (auto simp: um_ok_def)
  then have "wp (malloc_loop 2 (units nbytes) (base s)) (got ?t A (units nbytes)) ?t"
    by (rule malloc_loop_ok [OF _ _ units_spec(3,4) [OF n]]) simp
  moreover have "got ?t A (units nbytes) = got s A (units nbytes)" by (auto simp: got_def fun_eq_iff split: option.splits)
  ultimately show ?thesis using None by (simp add: malloc_def wp_rules upd_hdr_def)
qed

text \<open>A request near the top of the 32-bit range wraps around, and is granted a single header with no room behind it.\<close>

lemma malloc_wraps: "units 0xFFFFFFFF = 1"
  by (simp add: units_def)

text \<open>C18: The user allocator. Let the blocks \<open>A\<close> be in use. Then \<open>malloc\<close> of up to \<open>0x7fffff00\<close> bytes ends, and either returns a block
  with room for as many bytes, which is apart from every block in use and from the free ones, or returns 0, when the memory that
  \<open>sbrk\<close> can give is not enough for it; \<open>free\<close> of a block in use ends and takes it out of the blocks in use. Both keep the
  invariant: the free blocks are linked in a ring in the order of their addresses, no two of them touch, and no block in
  use overlaps another or a free one.\<close>

theorem user_allocator:
  assumes "um_rep s A"
  shows "(nbytes \<le> 0x7fffff00 \<longrightarrow> wp (malloc nbytes) (\<lambda>r t. um_rep t (case r of None \<Rightarrow> A | Some a \<Rightarrow> insert (a - 1, units nbytes) A) \<and>
       (case r of
          None \<Rightarrow> brk_max s < brk s + core_units (units nbytes)
        | Some a \<Rightarrow> 0 < a \<and> unat nbytes \<le> 8 * (units nbytes - 1) \<and> (\<forall>(c, m) \<in> A. apart c m (a - 1) (units nbytes)))) s) \<and>
    (\<forall>(bp, n) \<in> A. wp (free (bp + 1)) (\<lambda>_ t. um_rep t (A - {(bp, n)})) s)"
proof (intro conjI impI ballI)
  assume n: "nbytes \<le> 0x7fffff00"
  show "wp (malloc nbytes) (\<lambda>r t. um_rep t (case r of None \<Rightarrow> A | Some a \<Rightarrow> insert (a - 1, units nbytes) A) \<and>
       (case r of
          None \<Rightarrow> brk_max s < brk s + core_units (units nbytes)
        | Some a \<Rightarrow> 0 < a \<and> unat nbytes \<le> 8 * (units nbytes - 1) \<and> (\<forall>(c, m) \<in> A. apart c m (a - 1) (units nbytes)))) s"
    by (rule wp_mono [OF malloc_ok [OF assms n]])
      (use units_spec(2) [OF n] in \<open>auto simp: got_def um_rep_def split: option.splits\<close>)
next
  fix w assume w: "w \<in> A"
  obtain bp n where w': "w = (bp, n)" by fastforce
  with w assms obtain bs where ok: "um_ok s bs A" by (auto simp: um_rep_def)
  have "wp (free (bp + 1)) (\<lambda>_ t. um_rep t (A - {(bp, n)})) s"
    by (rule wp_mono [OF free_ok [OF ok w [unfolded w']]]) (auto simp: um_rep_def)
  then show "case w of (bp, n) \<Rightarrow> wp (free (bp + 1)) (\<lambda>_ t. um_rep t (A - {(bp, n)})) s" by (simp add: w')
qed

text \<open>A program that has just started, with 100000 units of memory to be had.\<close>

definition um_start :: um where
  "um_start = \<lparr>hdr = (\<lambda>_. \<lparr>h_ptr = 0, h_size = 0\<rparr>), base = 10, freep = None, brk = 512, brk_max = 100000\<rparr>"

theorem user_allocator_witness:
  "um_rep um_start {} \<and> wp (malloc 100) (\<lambda>r t. \<exists>a. r = Some a \<and> um_rep t {(a - 1, 14)} \<and> wp (free a) (\<lambda>_ u. um_rep u {}) t) um_start"
proof -
  have r: "um_rep um_start {}" by (simp add: um_rep_def um_start_def)
  have u: "units 100 = 14" by (simp add: units_def)
  have "wp (malloc 100) (\<lambda>r t. \<exists>a. r = Some a \<and> um_rep t {(a - 1, 14)} \<and> wp (free a) (\<lambda>_ u. um_rep u {}) t) um_start"
  proof (rule wp_mono [of _ "\<lambda>r t. um_rep t (case r of None \<Rightarrow> {} | Some a \<Rightarrow> insert (a - 1, units 100) {}) \<and>
       (case r of
          None \<Rightarrow> brk_max um_start < brk um_start + core_units (units 100)
        | Some a \<Rightarrow> 0 < a \<and> unat (100 :: u32) \<le> 8 * (units 100 - 1) \<and> (\<forall>(c, m) \<in> {}. apart c m (a - 1) (units 100)))"], goal_cases)
    case 1
    show ?case using user_allocator [OF r, of 100] by simp
  next
    case (2 r t)
    then obtain a where a: "r = Some a" "um_rep t {(a - 1, 14)}" "0 < a" by (cases r) (auto simp: u core_units_def um_start_def)
    moreover have "wp (free (a - 1 + 1)) (\<lambda>_ u. um_rep u ({(a - 1, 14)} - {(a - 1, 14)})) t"
      using user_allocator [OF a(2), of 0] by simp
    ultimately show ?case by simp
  qed
  with r show ?thesis by blast
qed

end
