(* ===== verification/Printf.thy ===== *)
theory Printf
  imports Strings
begin

text \<open>
  Formatted output: \<open>printint\<close> and \<open>cprintf\<close> of console.c, and \<open>printint\<close> and \<open>printf\<close> of the user library's printf.c, as
  the bytes they put out. A printed number reads back as the number, and fits in the buffer it is built in.
\<close>

section \<open>Numbers\<close>

text \<open>The digits of the kernel and those of the user library.\<close>

definition digits_k :: "u8 list" where
  "digits_k = [48, 49, 50, 51, 52, 53, 54, 55, 56, 57, 97, 98, 99, 100, 101, 102]"

definition digits_u :: "u8 list" where
  "digits_u = [48, 49, 50, 51, 52, 53, 54, 55, 56, 57, 65, 66, 67, 68, 69, 70]"

text \<open>The loop that fills \<open>buf\<close>, from the last digit on. Bases below two, for which it would not end, are not used.\<close>

function printint_loop :: "u8 list \<Rightarrow> nat \<Rightarrow> nat \<Rightarrow> u8 list" where
  "printint_loop digits bs x =
     digits ! (x mod bs) # (if 2 \<le> bs \<and> x div bs \<noteq> 0 then printint_loop digits bs (x div bs) else [])"
  by pat_completeness auto
termination
proof (relation "measure (\<lambda>(digits, bs, x). x)")
  fix digits :: "u8 list" and bs x :: nat
  assume "2 \<le> bs \<and> x div bs \<noteq> 0"
  then have "x div bs < x" by (cases x) (auto intro: div_less_dividend)
  then show "((digits, bs, x div bs), digits, bs, x) \<in> measure (\<lambda>(digits, bs, x). x)" by simp
qed simp

declare printint_loop.simps [simp del]

definition printint_buf :: "u8 list \<Rightarrow> u32 \<Rightarrow> nat \<Rightarrow> bool \<Rightarrow> u8 list" where
  "printint_buf digits xx bs sign =
     (let neg = (sign \<and> sint xx < 0);
          x = (if neg then - xx else xx)
      in printint_loop digits bs (unat x) @ (if neg then [45] else []))"

definition printint_k :: "u32 \<Rightarrow> nat \<Rightarrow> bool \<Rightarrow> u8 list" where
  "printint_k xx bs sign = rev (printint_buf digits_k xx bs sign)"

definition printint_u :: "u32 \<Rightarrow> nat \<Rightarrow> bool \<Rightarrow> u8 list" where
  "printint_u xx bs sign = rev (printint_buf digits_u xx bs sign)"

section \<open>Formats\<close>

text \<open>
  \<open>ap\<close> are the words of the stack from the first argument on, \<open>str\<close> the string at an address; a null pointer prints as
  \<open>(null)\<close>.
\<close>

definition null_text :: "u8 list" where
  "null_text = [40, 110, 117, 108, 108, 41]"

definition string_arg :: "(u32 \<Rightarrow> u8 list) \<Rightarrow> u32 \<Rightarrow> u8 list" where
  "string_arg str a = (if a = 0 then null_text else str a)"

fun cprintf :: "(u32 \<Rightarrow> u8 list) \<Rightarrow> (nat \<Rightarrow> u32) \<Rightarrow> nat \<Rightarrow> u8 list \<Rightarrow> u8 list" where
  "cprintf str ap k [] = []"
| "cprintf str ap k [c] = (if c \<noteq> 37 then [c] else [])"
| "cprintf str ap k (c # d # fmt) =
     (if c \<noteq> 37 then c # cprintf str ap k (d # fmt)
      else if d = 100 then printint_k (ap k) 10 True @ cprintf str ap (k + 1) fmt
      else if d = 120 \<or> d = 112 then printint_k (ap k) 16 False @ cprintf str ap (k + 1) fmt
      else if d = 115 then string_arg str (ap k) @ cprintf str ap (k + 1) fmt
      else if d = 37 then 37 # cprintf str ap k fmt
      else 37 # d # cprintf str ap k fmt)"

text \<open>\<open>printf\<close> goes over the format with a state, 0 or a percent sign.\<close>

fun printf :: "(u32 \<Rightarrow> u8 list) \<Rightarrow> (nat \<Rightarrow> u32) \<Rightarrow> nat \<Rightarrow> bool \<Rightarrow> u8 list \<Rightarrow> u8 list" where
  "printf str ap k state [] = []"
| "printf str ap k state (c # fmt) =
     (if \<not> state then
        (if c = 37 then printf str ap k True fmt else c # printf str ap k False fmt)
      else if c = 100 then printint_u (ap k) 10 True @ printf str ap (k + 1) False fmt
      else if c = 120 \<or> c = 112 then printint_u (ap k) 16 False @ printf str ap (k + 1) False fmt
      else if c = 115 then string_arg str (ap k) @ printf str ap (k + 1) False fmt
      else if c = 99 then ucast (ap k) # printf str ap (k + 1) False fmt
      else if c = 37 then c # printf str ap k False fmt
      else [37, c] @ printf str ap k False fmt)"

section \<open>Reading a number back\<close>

definition decimal :: "u8 \<Rightarrow> nat" where
  "decimal c = unat c - 48"

lemma digit_table: "x < 10 \<Longrightarrow> digits_u ! x = word_of_nat (48 + x) \<and> digits_k ! x = word_of_nat (48 + x)"
  by (auto simp: digits_u_def digits_k_def less_Suc_eq numeral_eq_Suc)

lemma digit_value:
  assumes "x < 10" shows "digits_u ! x \<ge> 48" "digits_u ! x \<le> 57" "decimal (digits_u ! x) = x"
proof -
  have d: "unat (digits_u ! x) = 48 + x" using assms by (simp add: digit_table unat_of_nat take_bit_nat_eq_self del: of_nat_add)
  show "digits_u ! x \<ge> 48" "digits_u ! x \<le> 57" "decimal (digits_u ! x) = x"
    using assms d by (simp_all add: word_le_nat_alt decimal_def)
qed

lemma printint_loop_digits: "\<forall>c \<in> set (printint_loop digits_u 10 x). 48 \<le> c \<and> c \<le> 57"
proof (induction x rule: less_induct)
  case (less x)
  show ?case
  proof (cases "x div 10 = 0")
    case False
    then have "x div 10 < x" by simp
    then show ?thesis using less [of "x div 10"] by (subst printint_loop.simps) (simp add: digit_value)
  qed (subst printint_loop.simps, simp add: digit_value)
qed

lemma printint_loop_value: "foldr (\<lambda>c v. v * 10 + decimal c) (printint_loop digits_u 10 x) 0 = x"
proof (induction x rule: less_induct)
  case (less x)
  show ?case
  proof (cases "x div 10 = 0")
    case True
    then show ?thesis by (subst printint_loop.simps) (simp add: digit_value)
  next
    case False
    then have "foldr (\<lambda>c v. v * 10 + decimal c) (printint_loop digits_u 10 (x div 10)) 0 = x div 10"
      by (intro less) simp
    with False show ?thesis by (subst printint_loop.simps) (simp add: digit_value)
  qed
qed

lemma printint_loop_length: "x < 10 ^ n \<Longrightarrow> 0 < n \<Longrightarrow> length (printint_loop digits 10 x) \<le> n"
proof (induction n arbitrary: x)
  case (Suc n)
  show ?case
  proof (cases "x div 10 = 0")
    case True
    then show ?thesis by (subst printint_loop.simps) simp
  next
    case False
    then have n: "0 < n" using Suc.prems by (cases n) auto
    have "x div 10 < 10 ^ n" using Suc.prems(1) by (simp add: less_mult_imp_div_less)
    with False Suc.IH [OF _ n] show ?thesis by (subst printint_loop.simps) simp
  qed
qed simp

text \<open>Ten digits and a sign at most: \<open>buf[16]\<close> is never overrun.\<close>

lemma printint_fits: "length (printint_buf digits xx 10 sign) \<le> 11"
proof -
  have l: "length (printint_loop digits 10 (unat x)) \<le> 10" for x :: u32
  proof -
    have "unat x < 2 ^ LENGTH(32)" by (rule unsigned_less)
    then show ?thesis by (intro printint_loop_length) simp_all
  qed
  show ?thesis using l [of xx] l [of "- xx"] by (simp add: printint_buf_def Let_def)
qed

text \<open>\<open>atoi\<close> of a number printed by \<open>printf\<close>.\<close>

lemma atoi_digits:
  assumes "cstr m s cs" "\<forall>c \<in> set cs. 48 \<le> c \<and> c \<le> 57"
  shows "atoi_loop m s n = Some (foldl (\<lambda>v c. v * 10 + ucast c - 48) n cs)"
  using assms
proof (induction cs arbitrary: s n)
  case Nil
  then show ?case by (subst atoi_loop.simps) simp
next
  case (Cons c cs)
  then show ?case by (subst atoi_loop.simps) simp
qed

lemma foldl_decimal:
  assumes "\<forall>c \<in> set cs. 48 \<le> c \<and> c \<le> 57"
  shows "foldl (\<lambda>v c. v * 10 + ucast c - 48) (word_of_nat n) cs = (word_of_nat (foldl (\<lambda>v c. v * 10 + decimal c) n cs) :: u32)"
  using assms
proof (induction cs arbitrary: n)
  case (Cons c cs)
  have step: "word_of_nat n * 10 + ucast c - 48 = (word_of_nat (n * 10 + decimal c) :: u32)"
  proof -
    have "48 \<le> unat c" using Cons.prems by (simp add: word_le_nat_alt)
    then have "(ucast c :: u32) = word_of_nat (decimal c + 48)"
      by (simp add: decimal_def del: of_nat_add)
    then show ?thesis by simp
  qed
  have "\<forall>c \<in> set cs. 48 \<le> c \<and> c \<le> 57" using Cons.prems by simp
  then show ?case unfolding foldl.simps step by (rule Cons.IH)
qed simp

lemma printint_atoi:
  assumes "0 \<le> sint xx" "cstr m s (printint_u xx 10 True)"
  shows "atoi m s = Some (sint xx)"
proof -
  let ?ds = "printint_loop digits_u 10 (unat xx)"
  have p: "printint_u xx 10 True = rev ?ds" using assms(1) by (simp add: printint_u_def printint_buf_def Let_def)
  have d: "\<forall>c \<in> set (rev ?ds). 48 \<le> c \<and> c \<le> 57" using printint_loop_digits by simp
  have "atoi_loop m s 0 = Some (foldl (\<lambda>v c. v * 10 + ucast c - 48) 0 (rev ?ds))"
    using atoi_digits [of m s "rev ?ds" 0] assms(2) d p by simp
  also have "foldl (\<lambda>v c. v * 10 + ucast c - 48) 0 (rev ?ds) = (xx :: u32)"
    using foldl_decimal [OF d, of 0] by (simp add: foldl_conv_foldr printint_loop_value)
  finally show ?thesis by (simp add: atoi_def)
qed

section \<open>Properties\<close>



end
