(* ===== verification/Console.thy ===== *)
theory Console
  imports Effects Printf
begin

unbundle bit_operations_syntax

text \<open>
  The console, console.c, with the output of the serial port (uart.c): the screen, the input buffer with its line editing,
  and the device routines. The state holds the kernel, whose processes the console wakes and whose inodes it
  locks; a reader that sleeps returns where it stopped and is resumed there.
\<close>

section \<open>State\<close>

text \<open>\<open>uart_out\<close> are the bytes sent to the serial port, \<open>crt_pos\<close> is the cursor register and \<open>crt\<close> the memory of the screen.\<close>

record console =
  con_lock :: bool
  con_locking :: bool
  panicked :: bool
  uart :: bool
  uart_out :: "u8 list"
  crt :: "nat \<Rightarrow> u16"
  crt_pos :: u16
  in_buf :: "nat \<Rightarrow> u8"
  in_r :: u32
  in_w :: u32
  in_e :: u32
  con_kern :: kern

definition on_kern :: "(kern, 'a) km \<Rightarrow> (console, 'a) km" where
  "on_kern = zoom con_kern (\<lambda>k s. s\<lparr>con_kern := k\<rparr>)"

definition BACKSPACE :: int where "BACKSPACE = 0x100"
definition INPUT_BUF :: nat where "INPUT_BUF = 128"

section \<open>Output\<close>

text \<open>The transmitter is waited for in a bounded loop, after which the byte is sent in any case.\<close>

definition uartputc :: "int \<Rightarrow> (console, unit) km" where
  "uartputc c = modify (\<lambda>s. if uart s then s\<lparr>uart_out := uart_out s @ [word_of_int c]\<rparr> else s)"

text \<open>The lines move up by one, and the rest of the screen from the cursor on is cleared.\<close>

definition scroll :: "nat \<Rightarrow> (nat \<Rightarrow> u16) \<Rightarrow> nat \<Rightarrow> u16" where
  "scroll pos m = (\<lambda>i. if pos \<le> i \<and> i < 24 * 80 then 0 else if i < 23 * 80 then m (i + 80) else m i)"

text \<open>The part of \<open>cgaputc\<close> after the cursor has moved to \<open>pos\<close>.\<close>

definition cga_place :: "nat \<Rightarrow> (console, unit) km" where
  "cga_place pos =
     (if 25 * 80 < pos then panic ''pos under/overflow''
      else
        bnd (if 24 \<le> pos div 80 then
               sq (modify (\<lambda>s. s\<lparr>crt := scroll (pos - 80) (crt s)\<rparr>)) (ret (pos - 80))
             else ret pos) (\<lambda>pos.
        sq (modify (\<lambda>s. s\<lparr>crt_pos := of_nat pos\<rparr>))
           (modify (\<lambda>s. s\<lparr>crt := (crt s)(pos := 0x0720)\<rparr>))))"

definition cgaputc :: "int \<Rightarrow> (console, unit) km" where
  "cgaputc c =
     bnd (gets (\<lambda>s. unat (crt_pos s))) (\<lambda>pos.
     if c = 10 then cga_place (pos + (80 - pos mod 80))
     else if c = BACKSPACE then cga_place (if 0 < pos then pos - 1 else pos)
     else
       sq (modify (\<lambda>s. s\<lparr>crt := (crt s)(pos := (word_of_int c AND 0xff) OR 0x0700)\<rparr>))
          (cga_place (pos + 1)))"

definition consputc :: "int \<Rightarrow> (console, unit) km" where
  "consputc c =
     bnd (gets panicked) (\<lambda>p.
     if p then fail Diverges
     else
       sq (if c = BACKSPACE then sq (uartputc 8) (sq (uartputc 32) (uartputc 8)) else uartputc c)
          (cgaputc c))"

definition con_cprintf :: "(u32 \<Rightarrow> u8 list) \<Rightarrow> (nat \<Rightarrow> u32) \<Rightarrow> u8 list option \<Rightarrow> (console, unit) km" where
  "con_cprintf str ap fmt =
     bnd (gets con_locking) (\<lambda>locking.
     sq (if locking then acquire con_lock con_lock_update else ret ()) (
     case fmt of
       None \<Rightarrow> panic ''null fmt''
     | Some fmt \<Rightarrow>
         sq (for_each (\<lambda>b. consputc (uint b)) (cprintf str ap 0 fmt))
            (if locking then release con_lock con_lock_update else ret ())))"

section \<open>Input\<close>

text \<open>The loop of the kill key; each round takes back one byte that was not yet handed on.\<close>

fun kill_line :: "nat \<Rightarrow> (console, unit) km" where
  "kill_line 0 = fail Diverges"
| "kill_line (Suc fuel) =
     bnd (gets (\<lambda>s. in_e s \<noteq> in_w s \<and> in_buf s (unat (in_e s - 1) mod INPUT_BUF) \<noteq> 10)) (\<lambda>b.
     if b then
       sq (modify (\<lambda>s. s\<lparr>in_e := in_e s - 1\<rparr>)) (
       sq (consputc BACKSPACE)
          (kill_line fuel))
     else ret ())"

definition console_store :: "int \<Rightarrow> (console, unit) km" where
  "console_store c =
     (let c = (if c = 13 then 10 else c) in
      sq (modify (\<lambda>s. s\<lparr>in_buf := (in_buf s)(unat (in_e s) mod INPUT_BUF := word_of_int c)\<rparr>)) (
      sq (modify (\<lambda>s. s\<lparr>in_e := in_e s + 1\<rparr>)) (
      sq (consputc c) (
      bnd (gets (\<lambda>s. c = 10 \<or> c = 4 \<or> in_e s = in_r s + of_nat INPUT_BUF)) (\<lambda>b.
      if b then
        sq (modify (\<lambda>s. s\<lparr>in_w := in_e s\<rparr>))
           (on_kern (wakeup (Some ChInput)))
      else ret ())))))"

text \<open>The \<open>switch\<close> over one character.\<close>

definition console_key :: "int \<Rightarrow> (console, unit) km" where
  "console_key c =
     (if c = 16 then ret ()
      else if c = 21 then bnd (gets (\<lambda>s. unat (in_e s - in_w s))) (\<lambda>n. kill_line (Suc n))
      else if c = 8 \<or> c = 127 then
        bnd (gets (\<lambda>s. in_e s \<noteq> in_w s)) (\<lambda>b.
        if b then sq (modify (\<lambda>s. s\<lparr>in_e := in_e s - 1\<rparr>)) (consputc BACKSPACE) else ret ())
      else
        bnd (gets (\<lambda>s. c \<noteq> 0 \<and> in_e s - in_r s < of_nat INPUT_BUF)) (\<lambda>b.
        if b then console_store c else ret ()))"

text \<open>
  \<open>cs\<close> are the results of \<open>getc\<close>; a negative one ends the loop. The result tells whether the process listing, which only
  prints, follows.
\<close>

fun consoleintr_loop :: "int list \<Rightarrow> bool \<Rightarrow> (console, bool) km" where
  "consoleintr_loop [] doprocdump = ret doprocdump"
| "consoleintr_loop (c # cs) doprocdump =
     (if c < 0 then ret doprocdump
      else sq (console_key c) (consoleintr_loop cs (doprocdump \<or> c = 16)))"

definition consoleintr :: "int list \<Rightarrow> (console, bool) km" where
  "consoleintr cs =
     sq (acquire con_lock con_lock_update) (
     bnd (consoleintr_loop cs False) (\<lambda>doprocdump.
     sq (release con_lock con_lock_update) (ret doprocdump)))"

text \<open>
  The reading loop with \<open>n\<close> of \<open>target\<close> bytes to go. It ends where the process falls asleep, with \<open>cons.lock\<close> released by
  \<open>sleep\<close>, or with the value that \<open>consoleread\<close> returns and the bytes delivered.
\<close>

fun consoleread_loop :: "nat \<Rightarrow> nat \<Rightarrow> nat \<Rightarrow> nat \<Rightarrow> (console, nat segment \<times> u8 list) km" where
  "consoleread_loop cur ip target 0 =
     sq (release con_lock con_lock_update) (
     sq (on_kern (on_fs (ilock ip)))
        (ret (Returned (int target), [])))"
| "consoleread_loop cur ip target (Suc n) =
     bnd (gets (\<lambda>s. in_r s = in_w s)) (\<lambda>empty.
     if empty then
       bnd (on_kern (get_proc_at cur)) (\<lambda>p.
       sq (release con_lock con_lock_update) (
       if p_killed p then
         sq (on_kern (on_fs (ilock ip))) (ret (Returned (-1), []))
       else ret (Asleep (Suc n), [])))
     else
       bnd (gets (\<lambda>s. in_buf s (unat (in_r s) mod INPUT_BUF))) (\<lambda>c.
       sq (modify (\<lambda>s. s\<lparr>in_r := in_r s + 1\<rparr>)) (
       if c = 4 then
         sq (if Suc n < target then modify (\<lambda>s. s\<lparr>in_r := in_r s - 1\<rparr>) else ret ()) (
         sq (release con_lock con_lock_update) (
         sq (on_kern (on_fs (ilock ip)))
            (ret (Returned (int target - int (Suc n)), []))))
       else if c = 10 then
         sq (release con_lock con_lock_update) (
         sq (on_kern (on_fs (ilock ip)))
            (ret (Returned (int target - int n), [c])))
       else
         bnd (consoleread_loop cur ip target n) (\<lambda>(r, bs). ret (r, c # bs)))))"

definition consoleread :: "nat \<Rightarrow> nat \<Rightarrow> nat \<Rightarrow> (console, nat segment \<times> u8 list) km" where
  "consoleread cur ip n =
     sq (on_kern (on_fs (iunlock ip))) (
     sq (acquire con_lock con_lock_update)
        (consoleread_loop cur ip n n))"

definition consoleread_resume :: "nat \<Rightarrow> nat \<Rightarrow> nat \<Rightarrow> nat \<Rightarrow> (console, nat segment \<times> u8 list) km" where
  "consoleread_resume cur ip target n =
     sq (acquire con_lock con_lock_update)
        (consoleread_loop cur ip target n)"

definition consolewrite :: "nat \<Rightarrow> u8 list \<Rightarrow> (console, int) km" where
  "consolewrite ip buf =
     sq (on_kern (on_fs (iunlock ip))) (
     sq (acquire con_lock con_lock_update) (
     sq (for_each (\<lambda>b. consputc (uint b)) buf) (
     sq (release con_lock con_lock_update) (
     sq (on_kern (on_fs (ilock ip)))
        (ret (int (length buf)))))))"

declare kill_line.simps [simp del] consoleread_loop.simps [simp del]

section \<open>The screen\<close>

text \<open>Between \<open>s\<close> and \<open>t\<close> only the screen and the serial port have changed, and the cursor is inside the first 24 lines.\<close>

definition printed :: "console \<Rightarrow> console \<Rightarrow> bool" where
  "printed s t \<longleftrightarrow> t = s\<lparr>uart_out := uart_out t, crt := crt t, crt_pos := crt_pos t\<rparr> \<and> unat (crt_pos t) < 1920"

lemma printedI: "t = s\<lparr>uart_out := a, crt := m, crt_pos := p\<rparr> \<Longrightarrow> unat p < 1920 \<Longrightarrow> printed s t"
  by (simp add: printed_def)

lemma printedE:
  assumes "printed s t"
  obtains a m p where "t = s\<lparr>uart_out := a, crt := m, crt_pos := p\<rparr>" "unat p < 1920"
  using assms by (auto simp: printed_def)

lemma printed_refl: "unat (crt_pos s) < 1920 \<Longrightarrow> printed s s"
  by (simp add: printed_def)

lemma printed_trans: "printed s t \<Longrightarrow> printed t u \<Longrightarrow> printed s u"
  by (elim printedE, rule printedI) simp_all

lemma cga_place_run:
  assumes "q \<le> 1920"
  shows "wp (cga_place q) (\<lambda>_ t. printed s t) (s\<lparr>crt := m\<rparr>)"
proof -
  have st: "printed s (s\<lparr>crt_pos := of_nat r, crt := n\<rparr>)" if "r < 1920" for n r
    by (rule printedI [where a = "uart_out s" and m = n and p = "of_nat r"]) (use that in \<open>simp_all add: unat_of_nat\<close>)
  have "\<not> 2000 < q" using assms by simp
  moreover have "q < 1920" if "\<not> 24 \<le> q div 80" using that by (simp add: not_le div_less_iff_less_mult)
  moreover have "q - 80 < 1920" using assms by simp
  ultimately show ?thesis using st by (simp add: cga_place_def wp_rules del: of_nat_diff)
qed

lemma cgaputc_run:
  assumes "unat (crt_pos s) < 1920"
  shows "wp (cgaputc c) (\<lambda>_ t. printed s t) s"
proof -
  let ?p = "unat (crt_pos s)"
  have s: "s\<lparr>crt := crt s\<rparr> = s" by simp
  have "?p div 80 < 24" using assms by (simp add: div_less_iff_less_mult)
  moreover have "?p + (80 - ?p mod 80) = ?p div 80 * 80 + 80" using mod_less_divisor [of 80 ?p] div_mult_mod_eq [of ?p 80] by linarith
  ultimately have nl: "?p + (80 - ?p mod 80) \<le> 1920" by simp
  have le: "(if 0 < ?p then ?p - 1 else ?p) \<le> 1920" "?p + 1 \<le> 1920" using assms by auto
  show ?thesis
    unfolding cgaputc_def wp_bnd wp_gets wp_if wp_sq wp_modify
    using cga_place_run [OF nl, of s "crt s"] cga_place_run [OF le(1), of s "crt s"] cga_place_run [OF le(2), of s] unfolding s
    by simp
qed

lemma consputc_run:
  assumes "unat (crt_pos s) < 1920" "\<not> panicked s"
  shows "wp (consputc c) (\<lambda>_ t. printed s t) s"
proof -
  have put: "wp (cgaputc c) (\<lambda>_ t. printed s t) (s\<lparr>uart_out := a\<rparr>)" for a c
  proof (rule wp_mono [OF cgaputc_run])
    show "printed s t" if "printed (s\<lparr>uart_out := a\<rparr>) t" for t
      using that by (rule printedE) (rule printedI, simp_all)
  qed (use assms in simp)
  from put [of _ "uart_out s"] put show ?thesis
    using assms by (simp add: consputc_def uartputc_def wp_rules)
qed

section \<open>The input buffer\<close>

text \<open>
  \<open>con_ring s xs ys\<close>: the buffer holds the bytes \<open>xs\<close>, which readers may take, followed by the bytes \<open>ys\<close> of the line that is
  still edited. The counters are words that wrap around, of which only the differences matter.
\<close>

definition con_ring :: "console \<Rightarrow> u8 list \<Rightarrow> u8 list \<Rightarrow> bool" where
  "con_ring s xs ys \<longleftrightarrow> in_w s = in_r s + of_nat (length xs) \<and> in_e s = in_r s + of_nat (length xs + length ys) \<and>
     length xs + length ys \<le> INPUT_BUF \<and>
     (\<forall>i < length xs + length ys. in_buf s ((unat (in_r s) + i) mod INPUT_BUF) = (xs @ ys) ! i)"

lemma slot_word: "unat (a + b :: u32) mod INPUT_BUF = (unat a + unat b) mod INPUT_BUF"
proof -
  have "(128 :: nat) dvd 2 ^ 32" by (simp add: dvd_def)
  then show ?thesis by (simp add: unat_word_ariths INPUT_BUF_def mod_mod_cancel)
qed

lemma slot_of_nat: "n \<le> INPUT_BUF \<Longrightarrow> unat (a + of_nat n :: u32) mod INPUT_BUF = (unat a + n) mod INPUT_BUF"
  unfolding slot_word by (simp add: unat_of_nat INPUT_BUF_def)

lemma slot_inj:
  assumes "i < INPUT_BUF" "j < INPUT_BUF"
  shows "(a + i) mod INPUT_BUF = (a + j) mod INPUT_BUF \<longleftrightarrow> i = j"
proof -
  have le: "k = l" if "k \<le> l" "l < INPUT_BUF" "(a + l) mod INPUT_BUF = (a + k) mod INPUT_BUF" for k l
  proof -
    have "INPUT_BUF dvd a + l - (a + k)" using that mod_eq_dvd_iff_nat [of "a + k" "a + l" INPUT_BUF] by simp
    then show ?thesis using that(1,2) by (auto dest: dvd_imp_le)
  qed
  show ?thesis using le [of i j] le [of j i] assms by (cases "i \<le> j") auto
qed

lemma con_ring_cong:
  "in_buf t = in_buf s \<Longrightarrow> in_r t = in_r s \<Longrightarrow> in_w t = in_w s \<Longrightarrow> in_e t = in_e s \<Longrightarrow> con_ring t xs ys = con_ring s xs ys"
  by (simp add: con_ring_def)

lemma con_ring_counts:
  assumes "con_ring s xs ys"
  shows "in_e s = in_w s \<longleftrightarrow> ys = []" "unat (in_e s - in_w s) = length ys" "in_r s = in_w s \<longleftrightarrow> xs = []"
    "in_e s - in_r s < of_nat INPUT_BUF \<longleftrightarrow> length xs + length ys < INPUT_BUF"
    "in_e s = in_r s + of_nat INPUT_BUF \<longleftrightarrow> length xs + length ys = INPUT_BUF" "length xs + length ys \<le> INPUT_BUF"
proof -
  let ?x = "of_nat (length xs) :: u32" let ?n = "of_nat (length xs + length ys) :: u32"
  have s: "in_w s = in_r s + ?x" "in_e s = in_r s + ?n" and le: "length xs + length ys \<le> 128"
    using assms by (auto simp: con_ring_def INPUT_BUF_def)
  have n: "unat ?x = length xs" "unat ?n = length xs + length ys" using le by (simp_all add: unat_of_nat del: of_nat_add)
  have d: "in_e s - in_w s = of_nat (length ys)" by (simp add: s)
  show u: "unat (in_e s - in_w s) = length ys" unfolding d using le by (simp add: unat_of_nat)
  show "in_e s = in_w s \<longleftrightarrow> ys = []" using u by (metis diff_self length_0_conv right_minus_eq unat_0 unat_eq_zero)
  show "in_r s = in_w s \<longleftrightarrow> xs = []" using n(1) by (auto simp: s)
  show "in_e s - in_r s < of_nat INPUT_BUF \<longleftrightarrow> length xs + length ys < INPUT_BUF"
    unfolding s(2) using n(2) by (simp add: word_less_nat_alt INPUT_BUF_def)
  have "in_e s = in_r s + of_nat INPUT_BUF \<longleftrightarrow> ?n = of_nat INPUT_BUF" unfolding s(2) by simp
  also have "\<dots> \<longleftrightarrow> length xs + length ys = INPUT_BUF" using n(2) by (simp add: word_unat_eq_iff INPUT_BUF_def)
  finally show "in_e s = in_r s + of_nat INPUT_BUF \<longleftrightarrow> length xs + length ys = INPUT_BUF" .
  show "length xs + length ys \<le> INPUT_BUF" using le by (simp add: INPUT_BUF_def)
qed

text \<open>Taking back the last byte, storing a byte, handing the line on, and reading a byte.\<close>

lemma con_ring_back:
  assumes "con_ring s xs (ys @ [y])"
  shows "con_ring (s\<lparr>in_e := in_e s - 1\<rparr>) xs ys" "in_buf s (unat (in_e s - 1) mod INPUT_BUF) = y"
proof -
  have e: "in_e s - 1 = in_r s + of_nat (length xs + length ys)" using assms by (simp add: con_ring_def)
  have "in_buf s ((unat (in_r s) + i) mod INPUT_BUF) = (xs @ ys) ! i" if "i < length xs + length ys" for i
  proof -
    have "in_buf s ((unat (in_r s) + i) mod INPUT_BUF) = ((xs @ ys) @ [y]) ! i" using assms that by (simp add: con_ring_def)
    then show ?thesis using that by (simp only: nth_append length_append) simp
  qed
  then show "con_ring (s\<lparr>in_e := in_e s - 1\<rparr>) xs ys" using assms e by (simp add: con_ring_def)
  have le: "length xs + length ys < INPUT_BUF" using assms by (simp add: con_ring_def)
  have "in_buf s ((unat (in_r s) + (length xs + length ys)) mod INPUT_BUF) = ((xs @ ys) @ [y]) ! length (xs @ ys)"
    using assms by (simp add: con_ring_def)
  then show "in_buf s (unat (in_e s - 1) mod INPUT_BUF) = y" unfolding e slot_of_nat [OF less_imp_le [OF le]] by (simp only: nth_append_length)
qed

lemma con_ring_store:
  assumes "con_ring s xs ys" "length xs + length ys < INPUT_BUF"
  shows "con_ring (s\<lparr>in_buf := (in_buf s)(unat (in_e s) mod INPUT_BUF := c), in_e := in_e s + 1\<rparr>) xs (ys @ [c])"
proof -
  let ?n = "length xs + length ys"
  have e: "unat (in_e s) mod INPUT_BUF = (unat (in_r s) + ?n) mod INPUT_BUF"
    using assms slot_of_nat [of ?n "in_r s"] by (simp add: con_ring_def)
  have "((in_buf s)((unat (in_r s) + ?n) mod INPUT_BUF := c)) ((unat (in_r s) + i) mod INPUT_BUF) = (xs @ ys @ [c]) ! i" if "i < Suc ?n" for i
  proof (cases "i = ?n")
    case True
    then show ?thesis using nth_append_length [of "xs @ ys" c] by simp
  next
    case False
    then have i: "i < ?n" using that by simp
    have "(xs @ ys @ [c]) ! i = (xs @ ys) ! i" using i by (simp only: append_assoc [symmetric] nth_append [of "xs @ ys"] length_append) simp
    then show ?thesis using assms i slot_inj [of i ?n "unat (in_r s)"] by (simp add: con_ring_def)
  qed
  then show ?thesis using assms unfolding con_ring_def e by simp
qed

lemma con_ring_commit: "con_ring s xs ys \<Longrightarrow> con_ring (s\<lparr>in_w := in_e s\<rparr>) (xs @ ys) []"
  by (simp add: con_ring_def)

lemma con_ring_read:
  assumes "con_ring s (x # xs) ys"
  shows "in_buf s (unat (in_r s) mod INPUT_BUF) = x" "con_ring (s\<lparr>in_r := in_r s + 1\<rparr>) xs ys"
proof -
  show "in_buf s (unat (in_r s) mod INPUT_BUF) = x" using assms by (auto simp: con_ring_def dest!: spec [of _ 0])
  have "in_buf s ((unat (in_r s + 1) + i) mod INPUT_BUF) = (xs @ ys) ! i" if "i < length xs + length ys" for i
  proof -
    have "(unat (in_r s + 1) + i) mod INPUT_BUF = (unat (in_r s) + Suc i) mod INPUT_BUF"
      using slot_word [of "in_r s" 1] mod_add_cong [of "unat (in_r s + 1)" INPUT_BUF "unat (in_r s) + 1" i i] by simp
    moreover have "in_buf s ((unat (in_r s) + Suc i) mod INPUT_BUF) = (x # xs @ ys) ! Suc i"
      using assms that unfolding con_ring_def by (metis Suc_less_eq add_Suc append_Cons length_Cons)
    ultimately show ?thesis by simp
  qed
  then show "con_ring (s\<lparr>in_r := in_r s + 1\<rparr>) xs ys" using assms by (simp add: con_ring_def)
qed

section \<open>Line editing\<close>

text \<open>
  The promise of the console: the pair of the bytes that are ready and of the line being edited, and what a key does to it.
  Control-U takes back the line, backspace and delete its last byte; a carriage return is stored as a line feed; a line
  feed, a control-D or a full buffer hands the line on.
\<close>

definition ed_step :: "u8 list \<times> u8 list \<Rightarrow> int \<Rightarrow> u8 list \<times> u8 list" where
  "ed_step p c = (case p of (xs, ys) \<Rightarrow>
     if c = 16 then (xs, ys)
     else if c = 21 then (xs, [])
     else if c = 8 \<or> c = 127 then (xs, butlast ys)
     else if c \<noteq> 0 \<and> length xs + length ys < 128 then
       (let b = (if c = 13 then 10 else word_of_int c) in
        if b = 10 \<or> b = 4 \<or> length xs + length ys = 127 then (xs @ ys @ [b], []) else (xs, ys @ [b]))
     else (xs, ys))"

definition con_rep :: "console \<Rightarrow> u8 list \<times> u8 list \<Rightarrow> bool" where
  "con_rep s p \<longleftrightarrow> con_ring s (fst p) (snd p) \<and> 10 \<notin> set (snd p)"

text \<open>The console works, and the process table is not locked.\<close>

definition con_idle :: "console \<Rightarrow> bool" where
  "con_idle s \<longleftrightarrow> \<not> panicked s \<and> unat (crt_pos s) < 1920 \<and> \<not> pt_lock (con_kern s)"

definition readers_woken :: "bool \<Rightarrow> kern \<Rightarrow> kern" where
  "readers_woken b k = (if b then k\<lparr>procs := (\<lambda>i. if i < NPROC then woken (Some ChInput) (procs k i) else procs k i)\<rparr> else k)"

lemma readers_woken_or: "readers_woken a (readers_woken b k) = readers_woken (a \<or> b) k"
proof -
  have "woken c (woken c q) = woken c q" for c q by (simp add: woken_def)
  then show ?thesis by (auto simp: readers_woken_def fun_eq_iff intro!: arg_cong [of _ _ "\<lambda>f. k\<lparr>procs := f\<rparr>"])
qed

text \<open>What a key leaves of the rest of the console, with \<open>b\<close> if readers were woken.\<close>

definition con_keeps :: "bool \<Rightarrow> console \<Rightarrow> console \<Rightarrow> bool" where
  "con_keeps b s t \<longleftrightarrow> con_idle t \<and> con_lock t = con_lock s \<and> con_kern t = readers_woken b (con_kern s)"

lemma con_keeps_trans: "con_keeps a s t \<Longrightarrow> con_keeps b t u \<Longrightarrow> con_keeps (a \<or> b) s u"
  using readers_woken_or [of b a] by (auto simp: con_keeps_def disj_commute)

lemma printed_keeps: "printed s t \<Longrightarrow> con_idle s \<Longrightarrow> con_keeps False s t"
  by (erule printedE) (simp add: con_keeps_def con_idle_def readers_woken_def)

lemma printed_ring: "printed s t \<Longrightarrow> con_ring t xs ys = con_ring s xs ys"
  by (erule printedE) (simp add: con_ring_def)

lemma consputc_ring:
  assumes "con_idle s" "con_ring s xs ys"
  shows "wp (consputc c) (\<lambda>_ t. con_ring t xs ys \<and> con_keeps False s t) s"
  by (rule wp_mono [OF consputc_run]) (use assms printed_ring printed_keeps in \<open>auto simp: con_idle_def\<close>)

lemma back_ring:
  assumes "con_idle s" "con_ring s xs (ys @ [y])"
  shows "wp (sq (modify (\<lambda>s. s\<lparr>in_e := in_e s - 1\<rparr>)) (consputc BACKSPACE)) (\<lambda>_ t. con_ring t xs ys \<and> con_keeps False s t) s"
proof -
  have "wp (consputc BACKSPACE) (\<lambda>_ t. con_ring t xs ys \<and> con_keeps False (s\<lparr>in_e := in_e s - 1\<rparr>) t) (s\<lparr>in_e := in_e s - 1\<rparr>)"
    using assms by (intro consputc_ring con_ring_back) (simp_all add: con_idle_def)
  then show ?thesis unfolding wp_sq wp_modify by (rule wp_mono) (simp add: con_keeps_def)
qed

lemma kill_line_run:
  "con_idle s \<Longrightarrow> con_ring s xs ys \<Longrightarrow> 10 \<notin> set ys \<Longrightarrow> length ys < n \<Longrightarrow>
   wp (kill_line n) (\<lambda>_ t. con_ring t xs [] \<and> con_keeps False s t) s"
proof (induction ys arbitrary: s n rule: rev_induct)
  case Nil
  then obtain m where "n = Suc m" by (cases n) auto
  then show ?case using Nil con_ring_counts(1) [OF Nil(2)]
    by (simp add: kill_line.simps wp_rules con_keeps_def readers_woken_def)
next
  case (snoc y ys)
  then obtain m where n: "n = Suc m" "length ys < m" by (cases n) auto
  have "wp (sq (sq (modify (\<lambda>s. s\<lparr>in_e := in_e s - 1\<rparr>)) (consputc BACKSPACE)) (kill_line m)) (\<lambda>_ t. con_ring t xs [] \<and> con_keeps False s t) s"
    unfolding wp_sq [of "sq _ _"]
  proof (rule wp_mono [OF back_ring [OF snoc.prems(1,2)]])
    fix t assume t: "con_ring t xs ys \<and> con_keeps False s t"
    then have "con_idle t" by (simp add: con_keeps_def)
    with t snoc.prems n show "wp (kill_line m) (\<lambda>_ t. con_ring t xs [] \<and> con_keeps False s t) t"
      by (intro wp_mono [OF snoc.IH]) (auto dest: con_keeps_trans)
  qed
  then show ?case using con_ring_counts(1) [OF snoc.prems(2)] con_ring_back(2) [OF snoc.prems(2)] snoc.prems(3)
    by (simp add: n(1) kill_line.simps wp_rules)
qed

text \<open>The word of a character is tested as the character itself.\<close>

lemma char_word: "0 \<le> c \<Longrightarrow> c < 256 \<Longrightarrow> 0 \<le> d \<Longrightarrow> d < 256 \<Longrightarrow> (word_of_int c :: u8) = word_of_int d \<longleftrightarrow> c = d"
  by (simp add: word_of_int_eq_iff take_bit_int_eq_self)

lemma console_store_run:
  assumes i: "con_idle s" and r: "con_ring s xs ys" "10 \<notin> set ys" and len: "length xs + length ys < INPUT_BUF" and c: "0 \<le> c" "c < 256"
  defines "b \<equiv> if c = 13 then 10 else word_of_int c :: u8"
  defines "p \<equiv> if b = 10 \<or> b = 4 \<or> length xs + length ys = 127 then (xs @ ys @ [b], []) else (xs, ys @ [b])"
  shows "wp (console_store c) (\<lambda>_ t. con_rep t p \<and> con_keeps (fst p \<noteq> xs) s t) s"
proof -
  define d where "d = (if c = 13 then 10 else c)"
  let ?s = "s\<lparr>in_buf := (in_buf s)(unat (in_e s) mod INPUT_BUF := b), in_e := in_e s + 1\<rparr>"
  have b: "word_of_int d = b" "d = 10 \<longleftrightarrow> b = 10" "d = 4 \<longleftrightarrow> b = 4"
    using char_word [OF c, of 10] char_word [OF c, of 4] by (auto simp: b_def d_def)
  have store: "console_store c = sq (modify (\<lambda>s. s\<lparr>in_buf := (in_buf s)(unat (in_e s) mod INPUT_BUF := b)\<rparr>)) (
      sq (modify (\<lambda>s. s\<lparr>in_e := in_e s + 1\<rparr>)) (
      sq (consputc d) (
      bnd (gets (\<lambda>s. d = 10 \<or> d = 4 \<or> in_e s = in_r s + of_nat INPUT_BUF)) (\<lambda>b.
      if b then sq (modify (\<lambda>s. s\<lparr>in_w := in_e s\<rparr>)) (on_kern (wakeup (Some ChInput))) else ret ()))))"
    by (simp only: console_store_def Let_def d_def [symmetric] b(1))
  have idle: "con_idle ?s" using i by (simp add: con_idle_def)
  have commit: "wp (sq (modify (\<lambda>s. s\<lparr>in_w := in_e s\<rparr>)) (on_kern (wakeup (Some ChInput)))) (\<lambda>_ u. con_ring u (xs @ ys @ [b]) [] \<and> con_keeps True s u) t"
    if t: "con_ring t xs (ys @ [b])" "con_keeps False ?s t" for t
  proof -
    have k: "con_kern t = con_kern s" "con_lock t = con_lock s" "con_idle t" using t(2) by (simp_all add: con_keeps_def readers_woken_def)
    then have "\<not> pt_lock (con_kern s)" by (simp add: con_idle_def)
    then show ?thesis using con_ring_commit [OF t(1)] k
      by (simp add: wp_rules on_kern_def wp_run [OF wakeup_run] con_keeps_def readers_woken_def con_idle_def con_ring_def)
  qed
  have handed: "wp (bnd (gets (\<lambda>s. d = 10 \<or> d = 4 \<or> in_e s = in_r s + of_nat INPUT_BUF)) (\<lambda>b.
      if b then sq (modify (\<lambda>s. s\<lparr>in_w := in_e s\<rparr>)) (on_kern (wakeup (Some ChInput))) else ret ()))
      (\<lambda>_ u. con_rep u p \<and> con_keeps (fst p \<noteq> xs) s u) t"
    if t: "con_ring t xs (ys @ [b]) \<and> con_keeps False ?s t" for t
  proof -
    have full: "in_e t = in_r t + of_nat INPUT_BUF \<longleftrightarrow> length xs + length ys = 127"
      using con_ring_counts(5) [of t xs "ys @ [b]"] t by (auto simp: INPUT_BUF_def)
    show ?thesis
    proof (cases "b = 10 \<or> b = 4 \<or> length xs + length ys = 127")
      case True
      then have "d = 10 \<or> d = 4 \<or> in_e t = in_r t + of_nat INPUT_BUF" using b(2,3) full by blast
      then show ?thesis using True commit [of t] t
        by (auto simp: wp_bnd wp_gets p_def con_rep_def elim!: wp_mono)
    next
      case False
      then have "\<not> (d = 10 \<or> d = 4 \<or> in_e t = in_r t + of_nat INPUT_BUF)" using b(2,3) full by blast
      then show ?thesis using False t r(2)
        by (auto simp: wp_bnd wp_gets wp_ret p_def con_rep_def con_keeps_def readers_woken_def)
    qed
  qed
  note after = wp_mono [OF consputc_ring [OF idle con_ring_store [OF r(1) len], of d] handed]
  show ?thesis unfolding store wp_sq wp_modify using after by simp
qed

lemma console_key_run:
  assumes i: "con_idle s" and r: "con_rep s p" and c: "0 \<le> c" "c < 256"
  shows "wp (console_key c) (\<lambda>_ t. con_rep t (ed_step p c) \<and> con_keeps (fst (ed_step p c) \<noteq> fst p) s t) s"
proof -
  obtain xs ys where p: "p = (xs, ys)" by fastforce
  have ring: "con_ring s xs ys" "10 \<notin> set ys" using r by (simp_all add: con_rep_def p)
  note n = con_ring_counts [OF ring(1)]
  have id: "con_keeps False s s" using i by (simp add: con_keeps_def readers_woken_def)
  consider "c = 16" | "c = 21" | "c = 8 \<or> c = 127" "ys = []" | zs y where "c = 8 \<or> c = 127" "ys = zs @ [y]"
    | "c \<notin> {16, 21, 8, 127}" "c \<noteq> 0 \<and> length xs + length ys < 128" | "c \<notin> {16, 21, 8, 127}" "\<not> (c \<noteq> 0 \<and> length xs + length ys < 128)"
    by (cases ys rule: rev_cases) auto
  then show ?thesis
  proof cases
    case 1
    then show ?thesis using r id by (simp add: console_key_def wp_rules ed_step_def p)
  next
    case 2
    then show ?thesis using kill_line_run [OF i ring, of "Suc (length ys)"] n(2)
      by (auto simp: console_key_def wp_rules ed_step_def p con_rep_def elim!: wp_mono)
  next
    case 3
    then show ?thesis using r id n(1) by (auto simp: console_key_def wp_rules ed_step_def p)
  next
    case 4
    then have "wp (sq (modify (\<lambda>s. s\<lparr>in_e := in_e s - 1\<rparr>)) (consputc BACKSPACE)) (\<lambda>_ t. con_ring t xs zs \<and> con_keeps False s t) s"
      using back_ring [OF i] ring(1) by simp
    then show ?thesis using 4 n(1) ring(2) by (auto simp: console_key_def wp_bnd wp_gets ed_step_def p con_rep_def elim!: wp_mono)
  next
    case 5
    then have "wp (console_store c) (\<lambda>_ t. con_rep t (ed_step p c) \<and> con_keeps (fst (ed_step p c) \<noteq> fst p) s t) s"
      using console_store_run [OF i ring _ c] by (simp add: ed_step_def p Let_def INPUT_BUF_def)
    then show ?thesis using 5 n(4) by (simp add: console_key_def wp_bnd wp_gets INPUT_BUF_def)
  next
    case 6
    then show ?thesis using r id n(4) by (auto simp: console_key_def wp_bnd wp_gets wp_ret ed_step_def p INPUT_BUF_def)
  qed
qed

lemma ed_step_prefix: "\<exists>zs. fst (ed_step p c) = fst p @ zs"
  by (simp add: ed_step_def Let_def split: prod.split)

lemma ed_fold_prefix: "\<exists>zs. fst (foldl ed_step p cs) = fst p @ zs"
proof (induction cs arbitrary: p)
  case (Cons c cs)
  obtain ws where "fst (foldl ed_step (ed_step p c) cs) = fst (ed_step p c) @ ws" using Cons by blast
  moreover obtain zs where "fst (ed_step p c) = fst p @ zs" using ed_step_prefix by blast
  ultimately show ?case by simp
qed simp

lemma consoleintr_loop_run:
  "con_idle s \<Longrightarrow> con_rep s p \<Longrightarrow> \<forall>c \<in> set cs. 0 \<le> c \<and> c < 256 \<Longrightarrow>
   wp (consoleintr_loop cs d) (\<lambda>r t. r = (d \<or> 16 \<in> set cs) \<and> con_rep t (foldl ed_step p cs) \<and>
     con_keeps (fst (foldl ed_step p cs) \<noteq> fst p) s t) s"
proof (induction cs arbitrary: s p d)
  case Nil
  then show ?case by (simp add: wp_rules con_keeps_def readers_woken_def)
next
  case (Cons c cs)
  have c: "0 \<le> c" "c < 256" "\<not> c < 0" using Cons.prems(3) by auto
  have grow: "(fst (ed_step p c) \<noteq> fst p \<or> fst (foldl ed_step (ed_step p c) cs) \<noteq> fst (ed_step p c)) =
      (fst (foldl ed_step (ed_step p c) cs) \<noteq> fst p)"
    using ed_step_prefix [of p c] ed_fold_prefix [of "ed_step p c" cs] by auto
  have rest: "con_keeps (fst (foldl ed_step (ed_step p c) cs) \<noteq> fst p) s u"
    if "con_keeps (fst (ed_step p c) \<noteq> fst p) s t" "con_keeps (fst (foldl ed_step (ed_step p c) cs) \<noteq> fst (ed_step p c)) t u" for t u
    using con_keeps_trans [OF that] unfolding grow .
  show ?case
    unfolding consoleintr_loop.simps if_not_P [OF c(3)] wp_sq
  proof (rule wp_mono [OF console_key_run [OF Cons.prems(1,2) c(1,2)]])
    fix t assume t: "con_rep t (ed_step p c) \<and> con_keeps (fst (ed_step p c) \<noteq> fst p) s t"
    then have "con_idle t" by (simp add: con_keeps_def)
    then show "wp (consoleintr_loop cs (d \<or> c = 16)) (\<lambda>r u. r = (d \<or> 16 \<in> set (c # cs)) \<and> con_rep u (foldl ed_step p (c # cs)) \<and>
      con_keeps (fst (foldl ed_step p (c # cs)) \<noteq> fst p) s u) t"
      using t Cons.prems(3) rest [OF conjunct2 [OF t]] by (intro wp_mono [OF Cons.IH [of t "ed_step p c" "d \<or> c = 16"]]) auto
  qed
qed

section \<open>Reading\<close>

text \<open>An inode that the running process has locked, and the file system with this inode unlocked.\<close>

definition ilocked :: "fsys \<Rightarrow> nat \<Rightarrow> bool" where
  "ilocked f k \<longleftrightarrow> i_lock (inodes f k) = sl_held (fs_pid f) \<and> 1 \<le> i_ref (inodes f k) \<and> i_valid (inodes f k)"

definition iunlocked :: "nat \<Rightarrow> fsys \<Rightarrow> fsys" where
  "iunlocked k f = f\<lparr>inodes := (inodes f)(k := (inodes f k)\<lparr>i_lock := sl_free\<rparr>)\<rparr>"

lemma ilocked_same:
  assumes "ilocked f k"
  shows "f\<lparr>inodes := (inodes f)(k := (inodes f k)\<lparr>i_lock := sl_held (fs_pid f)\<rparr>)\<rparr> = f"
proof -
  have "(inodes f k)\<lparr>i_lock := sl_held (fs_pid f)\<rparr> = inodes f k" using assms by (cases "inodes f k") (simp add: ilocked_def)
  then show ?thesis by simp
qed

lemma iunlock_run:
  assumes "ilocked f k"
  shows "iunlock k f = Inr ((), iunlocked k f)"
proof -
  from ilocked_same [OF assms] show ?thesis using assms by (simp add: iunlock_def run_simps on_ilock_def get_inode_def ilocked_def iunlocked_def)
qed

lemma ilock_run:
  assumes "ilocked f k"
  shows "ilock k (iunlocked k f) = Inr ((), f)"
proof -
  from ilocked_same [OF assms] show ?thesis using assms by (simp add: ilock_def run_simps on_ilock_def get_inode_def ilocked_def iunlocked_def)
qed

text \<open>The state when \<open>consoleread\<close> returns: as before it, but for the bytes taken.\<close>

definition read_done :: "u8 list \<times> u8 list \<Rightarrow> kern \<Rightarrow> console \<Rightarrow> bool" where
  "read_done p k t \<longleftrightarrow> con_rep t p \<and> con_idle t \<and> \<not> con_lock t \<and> con_kern t = k"

text \<open>Leaving the loop: the console lock is released and the inode locked again.\<close>

lemma read_leave:
  assumes "con_rep s p" "con_idle s" "con_lock s" "con_kern s = k\<lparr>k_fs := iunlocked ip (k_fs k)\<rparr>" "ilocked (k_fs k) ip"
  shows "wp (sq (release con_lock con_lock_update) (sq (on_kern (on_fs (ilock ip))) (ret x))) (\<lambda>r t. r = x \<and> read_done p k t) s"
  using assms ilock_run [OF assms(5)]
  by (simp add: wp_rules on_kern_def on_fs_def wp_run read_done_def con_rep_def con_ring_def con_idle_def)

lemma con_rep_read:
  assumes "con_rep s (x # xs, ys)" "con_idle s"
  shows "con_rep (s\<lparr>in_r := in_r s + 1\<rparr>) (xs, ys)" "con_idle (s\<lparr>in_r := in_r s + 1\<rparr>)"
    "in_buf s (unat (in_r s) mod INPUT_BUF) = x" "in_r s \<noteq> in_w s"
  using assms con_ring_read [of s x xs ys] con_ring_counts(3) [of s "x # xs" ys] by (auto simp: con_rep_def con_idle_def)

lemma consoleread_loop_line:
  "con_rep s (l @ 10 # rest, ys) \<Longrightarrow> con_idle s \<Longrightarrow> con_lock s \<Longrightarrow> con_kern s = k\<lparr>k_fs := iunlocked ip (k_fs k)\<rparr> \<Longrightarrow> ilocked (k_fs k) ip \<Longrightarrow>
   10 \<notin> set l \<Longrightarrow> 4 \<notin> set l \<Longrightarrow> length l < n \<Longrightarrow>
   wp (consoleread_loop cur ip target n) (\<lambda>(r, bs) t. r = Returned (int target - int n + int (length l) + 1) \<and> bs = l @ [10] \<and>
     read_done (rest, ys) k t) s"
proof (induction l arbitrary: s n)
  case Nil
  then obtain m where n: "n = Suc m" by (cases n) auto
  note r = con_rep_read [OF Nil.prems(1) [unfolded append_Nil] Nil.prems(2)]
  have "wp (sq (release con_lock con_lock_update) (sq (on_kern (on_fs (ilock ip))) (ret (Returned (int target - int m), [10]))))
      (\<lambda>x t. x = (Returned (int target - int m), [10]) \<and> read_done (rest, ys) k t) (s\<lparr>in_r := in_r s + 1\<rparr>)"
    using Nil.prems by (intro read_leave [OF r(1,2)]) simp_all
  then show ?case using r(3,4) by (auto simp: n consoleread_loop.simps wp_bnd wp_gets wp_sq [of "modify _"] wp_modify elim!: wp_mono)
next
  case (Cons c l)
  then obtain m where n: "n = Suc m" "length l < m" by (cases n) auto
  note r = con_rep_read [OF Cons.prems(1) [unfolded append_Cons] Cons.prems(2)]
  have "wp (consoleread_loop cur ip target m) (\<lambda>(r, bs) t. r = Returned (int target - int m + int (length l) + 1) \<and> bs = l @ [10] \<and>
      read_done (rest, ys) k t) (s\<lparr>in_r := in_r s + 1\<rparr>)"
    using Cons.prems n(2) by (intro Cons.IH [OF r(1,2)]) simp_all
  then show ?case using r(3,4) Cons.prems(6,7)
    by (auto simp: n consoleread_loop.simps wp_bnd wp_gets wp_sq [of "modify _"] wp_modify wp_ret elim!: wp_mono)
qed

lemma consoleread_loop_eof:
  "con_rep s (l @ 4 # rest, ys) \<Longrightarrow> con_idle s \<Longrightarrow> con_lock s \<Longrightarrow> con_kern s = k\<lparr>k_fs := iunlocked ip (k_fs k)\<rparr> \<Longrightarrow> ilocked (k_fs k) ip \<Longrightarrow>
   10 \<notin> set l \<Longrightarrow> 4 \<notin> set l \<Longrightarrow> length l < n \<Longrightarrow> n \<le> target \<Longrightarrow>
   wp (consoleread_loop cur ip target n) (\<lambda>(r, bs) t. r = Returned (int target - int n + int (length l)) \<and> bs = l \<and>
     read_done (if l = [] \<and> n = target then rest else 4 # rest, ys) k t) s"
proof (induction l arbitrary: s n)
  case Nil
  then obtain m where n: "n = Suc m" by (cases n) auto
  note r = con_rep_read [OF Nil.prems(1) [unfolded append_Nil] Nil.prems(2)]
  let ?t = "if Suc m < target then s else s\<lparr>in_r := in_r s + 1\<rparr>"
  have "wp (sq (release con_lock con_lock_update) (sq (on_kern (on_fs (ilock ip))) (ret (Returned (int target - int (Suc m)), []))))
      (\<lambda>x t. x = (Returned (int target - int (Suc m)), []) \<and> read_done (if n = target then rest else 4 # rest, ys) k t) ?t"
    using Nil.prems n r(1,2) by (intro read_leave) auto
  then show ?case using r(3,4) by (auto simp: n consoleread_loop.simps wp_bnd wp_gets wp_sq [of "modify _"] wp_modify wp_sq [of "if _ then _ else _"] wp_ret elim!: wp_mono)
next
  case (Cons c l)
  then obtain m where n: "n = Suc m" "length l < m" by (cases n) auto
  note r = con_rep_read [OF Cons.prems(1) [unfolded append_Cons] Cons.prems(2)]
  have "wp (consoleread_loop cur ip target m) (\<lambda>(r, bs) t. r = Returned (int target - int m + int (length l)) \<and> bs = l \<and>
      read_done (if l = [] \<and> m = target then rest else 4 # rest, ys) k t) (s\<lparr>in_r := in_r s + 1\<rparr>)"
    using Cons.prems n by (intro Cons.IH [OF r(1,2)]) simp_all
  then show ?case using r(3,4) Cons.prems(6,7,9)
    by (auto simp: n consoleread_loop.simps wp_bnd wp_gets wp_sq [of "modify _"] wp_modify wp_ret elim!: wp_mono)
qed

text \<open>Entering \<open>consoleread\<close>.\<close>

lemma consoleread_enter:
  assumes "con_rep s p" "con_idle s" "\<not> con_lock s" "ilocked (k_fs (con_kern s)) ip"
    and loop: "\<And>t. con_rep t p \<Longrightarrow> con_idle t \<Longrightarrow> con_lock t \<Longrightarrow> con_kern t = (con_kern s)\<lparr>k_fs := iunlocked ip (k_fs (con_kern s))\<rparr> \<Longrightarrow>
      wp (consoleread_loop cur ip n n) Q t"
  shows "wp (consoleread cur ip n) Q s"
proof -
  let ?t = "s\<lparr>con_kern := (con_kern s)\<lparr>k_fs := iunlocked ip (k_fs (con_kern s))\<rparr>, con_lock := True\<rparr>"
  have "wp (consoleread_loop cur ip n n) Q ?t"
    using assms(1,2) by (intro loop) (simp_all add: con_rep_def con_ring_def con_idle_def)
  then show ?thesis using iunlock_run [OF assms(4)] assms(3)
    by (simp add: consoleread_def wp_rules on_kern_def on_fs_def wp_run)
qed

section \<open>Properties\<close>

text \<open>C15: The console edits and delivers lines. An interrupt with the characters \<open>cs\<close> runs to its end, whatever the screen shows, without the panic of
  \<open>cgaputc\<close>; the bytes that are ready and the line being edited become those that the keys make of them in turn, and if
  bytes became ready, every process that sleeps on the input is made runnable. Reading then delivers lines: \<open>consoleread\<close>
  returns a ready line with its line feed, if the buffer of the caller holds it; at a control-D it returns what stands before it,
  and takes the control-D away only if this is nothing, so that the next read returns 0.\<close>

theorem console_lines:
  assumes s: "con_rep s (xs, ys)" "con_idle s" "\<not> con_lock s" and cs: "\<forall>c \<in> set cs. 0 \<le> c \<and> c < 256"
    and ip: "ilocked (k_fs (con_kern s)) ip" and l: "10 \<notin> set l" "4 \<notin> set l" "length l < n"
  shows "wp (consoleintr cs) (\<lambda>dump t. dump = (16 \<in> set cs) \<and> con_rep t (foldl ed_step (xs, ys) cs) \<and> \<not> con_lock t \<and>
      (\<forall>i < NPROC. procs (con_kern t) i =
        (if fst (foldl ed_step (xs, ys) cs) = xs then procs (con_kern s) i else woken (Some ChInput) (procs (con_kern s) i)))) s \<and>
    (xs = l @ 10 # rest \<longrightarrow> wp (consoleread cur ip n) (\<lambda>(r, bs) t. r = Returned (int (length l) + 1) \<and> bs = l @ [10] \<and>
      con_rep t (rest, ys) \<and> con_kern t = con_kern s) s) \<and>
    (xs = l @ 4 # rest \<longrightarrow> wp (consoleread cur ip n) (\<lambda>(r, bs) t. r = Returned (int (length l)) \<and> bs = l \<and>
      con_rep t (if l = [] then rest else 4 # rest, ys) \<and> con_kern t = con_kern s) s)"
proof (intro conjI impI)
  let ?s = "s\<lparr>con_lock := True\<rparr>"
  have "wp (consoleintr_loop cs False) (\<lambda>r t. r = (False \<or> 16 \<in> set cs) \<and> con_rep t (foldl ed_step (xs, ys) cs) \<and>
     con_keeps (fst (foldl ed_step (xs, ys) cs) \<noteq> fst (xs, ys)) ?s t) ?s"
    using s by (intro consoleintr_loop_run cs) (simp_all add: con_rep_def con_ring_def con_idle_def)
  then show "wp (consoleintr cs) (\<lambda>dump t. dump = (16 \<in> set cs) \<and> con_rep t (foldl ed_step (xs, ys) cs) \<and> \<not> con_lock t \<and>
      (\<forall>i < NPROC. procs (con_kern t) i =
        (if fst (foldl ed_step (xs, ys) cs) = xs then procs (con_kern s) i else woken (Some ChInput) (procs (con_kern s) i)))) s"
    using s(3) by (auto simp: consoleintr_def wp_rules con_keeps_def readers_woken_def con_rep_def con_ring_def elim!: wp_mono)
next
  assume xs: "xs = l @ 10 # rest"
  show "wp (consoleread cur ip n) (\<lambda>(r, bs) t. r = Returned (int (length l) + 1) \<and> bs = l @ [10] \<and>
      con_rep t (rest, ys) \<and> con_kern t = con_kern s) s"
    by (rule consoleread_enter [OF s ip], rule wp_mono [OF consoleread_loop_line [OF _ _ _ _ ip l]]) (auto simp: xs read_done_def)
next
  assume xs: "xs = l @ 4 # rest"
  show "wp (consoleread cur ip n) (\<lambda>(r, bs) t. r = Returned (int (length l)) \<and> bs = l \<and>
      con_rep t (if l = [] then rest else 4 # rest, ys) \<and> con_kern t = con_kern s) s"
    by (rule consoleread_enter [OF s ip], rule wp_mono [OF consoleread_loop_eof [OF _ _ _ _ ip l]]) (auto simp: xs read_done_def)
qed

text \<open>An idle console whose counters are about to wrap, with a process that waits for input. The keys are \<open>ab\<close>, backspace, \<open>c\<close> and return.\<close>

definition con_example :: console where
  "con_example = \<lparr>con_lock = False, con_locking = True, panicked = False, uart = True, uart_out = [], crt = (\<lambda>_. 0), crt_pos = 1919,
     in_buf = (\<lambda>_. 0), in_r = 0xFFFFFFFE, in_w = 0xFFFFFFFE, in_e = 0xFFFFFFFE,
     con_kern = kern_zero\<lparr>procs := (procs kern_zero)(2 := proc_zero\<lparr>p_state := SLEEPING, p_chan := Some ChInput\<rparr>),
       k_fs := (k_fs kern_zero)\<lparr>inodes := (inodes (k_fs kern_zero))(0 := inode_zero\<lparr>i_lock := sl_held 3, i_ref := 1, i_valid := True\<rparr>)\<rparr>\<rparr>\<rparr>"

theorem console_lines_witness:
  "wp (consoleintr [97, 98, 8, 99, 13]) (\<lambda>dump t. p_state (procs (con_kern t) 2) = RUNNABLE \<and> con_rep t ([97, 99, 10], []) \<and>
     \<not> dump) con_example"
proof -
  have r: "con_rep con_example ([], [])" "con_idle con_example" "\<not> con_lock con_example"
    by (simp_all add: con_rep_def con_ring_def con_idle_def con_example_def kern_zero_def)
  have ip: "ilocked (k_fs (con_kern con_example)) 0"
    by (simp add: ilocked_def con_example_def kern_zero_def fs_example_def Let_def)
  have e: "foldl ed_step ([], []) [97, 98, 8, 99, 13] = ([97, 99, 10], [])" by (simp add: ed_step_def Let_def)
  have p: "procs (con_kern con_example) 2 = proc_zero\<lparr>p_state := SLEEPING, p_chan := Some ChInput\<rparr>" by (simp add: con_example_def)
  have "wp (consoleintr [97, 98, 8, 99, 13]) (\<lambda>dump t. dump = (16 \<in> set [97, 98, 8, 99, 13 :: int]) \<and> con_rep t (foldl ed_step ([], []) [97, 98, 8, 99, 13]) \<and>
      \<not> con_lock t \<and> (\<forall>i < NPROC. procs (con_kern t) i = (if fst (foldl ed_step ([], []) [97, 98, 8, 99, 13]) = [] then procs (con_kern con_example) i
        else woken (Some ChInput) (procs (con_kern con_example) i)))) con_example"
    by (rule console_lines [OF r _ ip, of _ "[]" 1, THEN conjunct1]) simp_all
  then show ?thesis
    unfolding e by (rule wp_mono) (auto simp: p woken_def NPROC_def dest!: spec [of _ 2])
qed

end
