(* ===== verification/Keyboard.thy ===== *)
theory Keyboard
  imports Console
begin

unbundle bit_operations_syntax

text \<open>
  The keyboard driver, kbd.c with the tables of kbd.h: from the bytes that the keyboard sends to the characters that the console
  gets. A table is the list of its first entries and the entries given by index; the others are zero.
\<close>

definition SHIFT :: u32 where "SHIFT = 1"
definition CTL :: u32 where "CTL = 2"
definition ALT :: u32 where "ALT = 4"
definition CAPSLOCK :: u32 where "CAPSLOCK = 8"
definition NUMLOCK :: u32 where "NUMLOCK = 16"
definition SCROLLLOCK :: u32 where "SCROLLLOCK = 32"
definition E0ESC :: u32 where "E0ESC = 64"

definition table :: "u8 list \<Rightarrow> (nat \<times> u8) list \<Rightarrow> nat \<Rightarrow> u8" where
  "table xs ps i = (if i < length xs then xs ! i else case map_of ps i of Some c \<Rightarrow> c | None \<Rightarrow> 0)"

definition shiftcode :: "nat \<Rightarrow> u32" where
  "shiftcode i = (if i = 0x1D \<or> i = 0x9D then CTL else if i = 0x2A \<or> i = 0x36 then SHIFT else if i = 0x38 \<or> i = 0xB8 then ALT else 0)"

definition togglecode :: "nat \<Rightarrow> u32" where
  "togglecode i = (if i = 0x3A then CAPSLOCK else if i = 0x45 then NUMLOCK else if i = 0x46 then SCROLLLOCK else 0)"

definition normalmap :: "nat \<Rightarrow> u8" where
  "normalmap = table
    [0, 27, 49, 50, 51, 52, 53, 54, 55, 56, 57, 48, 45, 61, 8, 9,
     113, 119, 101, 114, 116, 121, 117, 105, 111, 112, 91, 93, 10, 0, 97, 115,
     100, 102, 103, 104, 106, 107, 108, 59, 39, 96, 0, 92, 122, 120, 99, 118,
     98, 110, 109, 44, 46, 47, 0, 42, 0, 32, 0, 0, 0, 0, 0, 0,
     0, 0, 0, 0, 0, 0, 0, 55, 56, 57, 45, 52, 53, 54, 43, 49,
     50, 51, 48, 46, 0, 0, 0, 0]
    [(0x97, 0xE0), (0x9C, 0xA), (0xB5, 0x2F), (0xC8, 0xE2), (0xC9, 0xE6), (0xCB, 0xE4), (0xCD, 0xE5),
     (0xCF, 0xE1), (0xD0, 0xE3), (0xD1, 0xE7), (0xD2, 0xE8), (0xD3, 0xE9)]"

definition shiftmap :: "nat \<Rightarrow> u8" where
  "shiftmap = table
    [0, 27, 33, 64, 35, 36, 37, 94, 38, 42, 40, 41, 95, 43, 8, 9,
     81, 87, 69, 82, 84, 89, 85, 73, 79, 80, 123, 125, 10, 0, 65, 83,
     68, 70, 71, 72, 74, 75, 76, 58, 34, 126, 0, 124, 90, 88, 67, 86,
     66, 78, 77, 60, 62, 63, 0, 42, 0, 32, 0, 0, 0, 0, 0, 0,
     0, 0, 0, 0, 0, 0, 0, 55, 56, 57, 45, 52, 53, 54, 43, 49,
     50, 51, 48, 46, 0, 0, 0, 0]
    [(0x97, 0xE0), (0x9C, 0xA), (0xB5, 0x2F), (0xC8, 0xE2), (0xC9, 0xE6), (0xCB, 0xE4), (0xCD, 0xE5),
     (0xCF, 0xE1), (0xD0, 0xE3), (0xD1, 0xE7), (0xD2, 0xE8), (0xD3, 0xE9)]"

definition ctlmap :: "nat \<Rightarrow> u8" where
  "ctlmap = table
    [0, 0, 0, 0, 0, 0, 0, 0, 0, 0, 0, 0, 0, 0, 0, 0,
     17, 23, 5, 18, 20, 25, 21, 9, 15, 16, 0, 0, 13, 0, 1, 19,
     4, 6, 7, 8, 10, 11, 12, 0, 0, 0, 0, 28, 26, 24, 3, 22,
     2, 14, 13, 0, 0, 239, 0, 0]
    [(0x97, 0xE0), (0x9C, 0xD), (0xB5, 0xEF), (0xC8, 0xE2), (0xC9, 0xE6), (0xCB, 0xE4), (0xCD, 0xE5),
     (0xCF, 0xE1), (0xD0, 0xE3), (0xD1, 0xE7), (0xD2, 0xE8), (0xD3, 0xE9)]"

definition charcode :: "u32 \<Rightarrow> nat \<Rightarrow> u8" where
  "charcode k = (if k = 0 then normalmap else if k = 1 then shiftmap else ctlmap)"

text \<open>
  \<open>kbdgetc\<close> on the byte \<open>data\<close> of the keyboard: the new value of its variable \<open>shift\<close>, and the character. Without a byte it
  returns -1.
\<close>

definition kbdgetc :: "u32 \<Rightarrow> u8 option \<Rightarrow> u32 \<times> int" where
  "kbdgetc shift inp =
     (case inp of
        None \<Rightarrow> (shift, -1)
      | Some data \<Rightarrow>
          if data = 0xE0 then (shift OR E0ESC, 0)
          else if data AND 0x80 \<noteq> 0 then
            (let data = (if shift AND E0ESC \<noteq> 0 then data else data AND 0x7F) in
             (shift AND NOT (shiftcode (unat data) OR E0ESC), 0))
          else
            (let (data, shift) = (if shift AND E0ESC \<noteq> 0 then (data OR 0x80, shift AND NOT E0ESC) else (data, shift));
                 shift = shift OR shiftcode (unat data);
                 shift = shift XOR togglecode (unat data);
                 c = uint (charcode (shift AND (CTL OR SHIFT)) (unat data))
             in (shift,
                 if shift AND CAPSLOCK \<noteq> 0 then
                   (if 97 \<le> c \<and> c \<le> 122 then c - 32 else if 65 \<le> c \<and> c \<le> 90 then c + 32 else c)
                 else c)))"

text \<open>The interrupt handler takes the bytes that are there, and ends at the -1 after them.\<close>

fun kbd_chars :: "u32 \<Rightarrow> u8 list \<Rightarrow> u32 \<times> int list" where
  "kbd_chars shift [] = (fst (kbdgetc shift None), [snd (kbdgetc shift None)])"
| "kbd_chars shift (b # bs) =
     (case kbdgetc shift (Some b) of (shift, c) \<Rightarrow>
      case kbd_chars shift bs of (shift, cs) \<Rightarrow> (shift, c # cs))"

definition kbdintr :: "u32 \<Rightarrow> u8 list \<Rightarrow> (console, u32 \<times> bool) km" where
  "kbdintr shift bs =
     (case kbd_chars shift bs of (shift, cs) \<Rightarrow>
      bnd (consoleintr cs) (\<lambda>dump. ret (shift, dump)))"

text \<open>The serial port: \<open>bs\<close> are the bytes that have arrived.\<close>

definition uartgetc :: "bool \<Rightarrow> u8 option \<Rightarrow> int" where
  "uartgetc has inp = (if \<not> has then -1 else case inp of None \<Rightarrow> -1 | Some b \<Rightarrow> uint b)"

definition uartintr :: "u8 list \<Rightarrow> (console, bool) km" where
  "uartintr bs = bnd (gets uart) (\<lambda>has. consoleintr (map (\<lambda>b. uartgetc has (Some b)) bs @ [uartgetc has None]))"

section \<open>Characters\<close>

text \<open>Every byte of the keyboard gives a character in the range of a byte.\<close>

lemma kbdgetc_range: "0 \<le> snd (kbdgetc shift (Some b)) \<and> snd (kbdgetc shift (Some b)) < 256"
proof -
  have "0 \<le> uint c \<and> uint c < 256" for c :: u8 using uint_lt2p [of c] by simp
  then show ?thesis by (auto simp: kbdgetc_def Let_def split: prod.splits)
qed

lemma kbd_chars_last:
  "\<exists>cs. snd (kbd_chars shift bs) = cs @ [-1] \<and> (\<forall>c \<in> set cs. 0 \<le> c \<and> c < 256)"
proof (induction bs arbitrary: shift)
  case Nil
  show ?case by (simp add: kbdgetc_def)
next
  case (Cons b bs)
  obtain sh c where k: "kbdgetc shift (Some b) = (sh, c)" by fastforce
  obtain cs where "snd (kbd_chars sh bs) = cs @ [-1]" "\<forall>c \<in> set cs. 0 \<le> c \<and> c < 256" using Cons by blast
  with kbdgetc_range [of shift b] k show ?case by (intro exI [of _ "c # cs"]) (auto split: prod.splits)
qed

lemma consoleintr_loop_end: "\<forall>c \<in> set cs. 0 \<le> c \<Longrightarrow> consoleintr_loop (cs @ [-1]) d = consoleintr_loop cs d"
  by (induction cs arbitrary: d) auto

text \<open>
  Typing on the keyboard edits the line: the interrupt handler feeds the characters of the bytes to the line editor.
\<close>

lemma kbdintr_edits:
  assumes "con_rep s p" "con_idle s" "\<not> con_lock s"
  shows "wp (kbdintr shift bs) (\<lambda>(sh, dump) t. sh = fst (kbd_chars shift bs) \<and>
    con_rep t (foldl ed_step p (butlast (snd (kbd_chars shift bs)))) \<and> con_idle t \<and> \<not> con_lock t) s"
proof -
  obtain cs where cs: "snd (kbd_chars shift bs) = cs @ [-1]" "\<forall>c \<in> set cs. 0 \<le> c \<and> c < 256" using kbd_chars_last by blast
  let ?s = "s\<lparr>con_lock := True\<rparr>"
  have "wp (consoleintr_loop cs False) (\<lambda>r t. r = (False \<or> 16 \<in> set cs) \<and> con_rep t (foldl ed_step p cs) \<and>
      con_keeps (fst (foldl ed_step p cs) \<noteq> fst p) ?s t) ?s"
    using assms by (intro consoleintr_loop_run cs(2)) (simp_all add: con_rep_def con_ring_def con_idle_def)
  then show ?thesis
    using cs assms(3) consoleintr_loop_end [of cs]
    by (auto simp: kbdintr_def consoleintr_def wp_rules con_keeps_def con_rep_def con_ring_def con_idle_def split: prod.split elim!: wp_mono)
qed

text \<open>Shift and the key of the letter a, their release, and return: the line \<open>A\<close>.\<close>

lemma kbd_example: "kbd_chars 0 [0x2A, 0x1E, 0x9E, 0xAA, 0x1C, 0x9C] = (0, [0, 65, 0, 0, 10, 0, -1])"
  by code_simp

end
