(* ===== verification/Ide.thy ===== *)
theory Ide
  imports Memory Pipe
begin

unbundle bit_operations_syntax

text \<open>
  The disk driver ide.c: the queue of buffers, linked through their \<open>qnext\<close> fields, and the requests it programs into the
  registers of the controller. The driver sees the disk through the controller, which addresses a sector by 28 bits of its
  registers and a drive by one bit; a write stores the sector when its data is sent, a read delivers the sector
  that the registers name. The buffers are served in the order of the requests, as the in-memory driver serves them at once.
\<close>

section \<open>State\<close>

record ibuf =
  q_dev :: u32
  q_blockno :: u32
  q_valid :: bool
  q_dirty :: bool
  q_data :: "nat \<Rightarrow> u8"
  q_next :: "nat option"

text \<open>\<open>reg i\<close> is the register at port 0x1f0 + i; \<open>ide_ready\<close> tells whether the controller reports no error; \<open>locked\<close> are the buffers that the running process has locked,
  and \<open>wakeups\<close> the buffers whose sleepers were woken.\<close>

record ide =
  idelock :: bool
  idequeue :: "nat option"
  ibufs :: "nat \<Rightarrow> ibuf"
  havedisk1 :: bool
  reg :: "nat \<Rightarrow> u8"
  disks :: "u32 \<Rightarrow> u32 \<Rightarrow> nat \<Rightarrow> u8"
  ide_ready :: bool
  locked :: "nat set"
  wakeups :: "nat list"

definition IDE_CMD_READ :: u8 where "IDE_CMD_READ = 0x20"
definition IDE_CMD_WRITE :: u8 where "IDE_CMD_WRITE = 0x30"

definition outb :: "nat \<Rightarrow> u8 \<Rightarrow> (ide, unit) km" where
  "outb i v = modify (\<lambda>s. s\<lparr>reg := (reg s)(i := v)\<rparr>)"

definition get_ibuf :: "nat \<Rightarrow> (ide, ibuf) km" where
  "get_ibuf b = gets (\<lambda>s. ibufs s b)"

definition upd_ibuf :: "nat \<Rightarrow> (ibuf \<Rightarrow> ibuf) \<Rightarrow> (ide, unit) km" where
  "upd_ibuf b g = modify (\<lambda>s. s\<lparr>ibufs := (ibufs s)(b := g (ibufs s b))\<rparr>)"

text \<open>The sector and the drive that the controller reads from its registers.\<close>

definition lba :: "(nat \<Rightarrow> u8) \<Rightarrow> u32" where
  "lba r = ucast (r 3) OR push_bit 8 (ucast (r 4)) OR push_bit 16 (ucast (r 5)) OR push_bit 24 (ucast (r 6) AND 0x0f)"

definition drive :: "(nat \<Rightarrow> u8) \<Rightarrow> u32" where
  "drive r = drop_bit 4 (ucast (r 6)) AND 1"

definition outsl :: "(nat \<Rightarrow> u8) \<Rightarrow> (ide, unit) km" where
  "outsl d = modify (\<lambda>s. s\<lparr>disks := (disks s)(drive (reg s) := (disks s (drive (reg s)))(lba (reg s) := d))\<rparr>)"

definition insl :: "(ide, nat \<Rightarrow> u8) km" where
  "insl = gets (\<lambda>s. disks s (drive (reg s)) (lba (reg s)))"

section \<open>The driver\<close>

text \<open>A block is one sector, so one sector is read or written. The wait for the controller has no effect here.\<close>

definition idestart :: "nat option \<Rightarrow> (ide, unit) km" where
  "idestart bp =
     (case bp of
        None \<Rightarrow> panic ''idestart''
      | Some b \<Rightarrow>
          bnd (get_ibuf b) (\<lambda>bf.
          let sector = q_blockno bf in
          sq (outb 0x206 0) (
          sq (outb 2 1) (
          sq (outb 3 (ucast (sector AND 0xff))) (
          sq (outb 4 (ucast (drop_bit 8 sector AND 0xff))) (
          sq (outb 5 (ucast (drop_bit 16 sector AND 0xff))) (
          sq (outb 6 (0xe0 OR push_bit 4 (ucast (q_dev bf AND 1)) OR ucast (drop_bit 24 sector AND 0x0f))) (
          if q_dirty bf then sq (outb 7 IDE_CMD_WRITE) (outsl (q_data bf))
          else outb 7 IDE_CMD_READ))))))))"

definition ideintr :: "(ide, unit) km" where
  "ideintr =
     sq (acquire idelock idelock_update) (
     bnd (gets idequeue) (\<lambda>q.
     case q of
       None \<Rightarrow> release idelock idelock_update
     | Some b \<Rightarrow>
         bnd (get_ibuf b) (\<lambda>bf.
         sq (modify (\<lambda>s. s\<lparr>idequeue := q_next bf\<rparr>)) (
         bnd (gets ide_ready) (\<lambda>ok.
         sq (if \<not> q_dirty bf \<and> ok then bnd insl (\<lambda>d. upd_ibuf b (\<lambda>f. f\<lparr>q_data := d\<rparr>)) else ret ()) (
         sq (upd_ibuf b (\<lambda>f. f\<lparr>q_valid := True\<rparr>)) (
         sq (upd_ibuf b (\<lambda>f. f\<lparr>q_dirty := False\<rparr>)) (
         sq (modify (\<lambda>s. s\<lparr>wakeups := wakeups s @ [b]\<rparr>)) (
         bnd (gets idequeue) (\<lambda>q.
         sq (if q \<noteq> None then idestart q else ret ())
            (release idelock idelock_update)))))))))))"

text \<open>The walk to the end of the queue: from buffer \<open>b\<close> to the last one.\<close>

fun queue_last :: "nat \<Rightarrow> nat \<Rightarrow> (ide, nat) km" where
  "queue_last 0 b = fail Diverges"
| "queue_last (Suc fuel) b =
     bnd (get_ibuf b) (\<lambda>bf.
     case q_next bf of None \<Rightarrow> ret b | Some b' \<Rightarrow> queue_last fuel b')"

text \<open>
  \<open>iderw\<close> up to the point where the process sleeps for the buffer, which it does in any case: \<open>idestart\<close> completes no
  request. \<open>nbuf\<close> bounds the length of the queue.
\<close>

definition iderw_enter :: "nat \<Rightarrow> nat \<Rightarrow> (ide, unit segment) km" where
  "iderw_enter nbuf b =
     bnd (gets locked) (\<lambda>lk.
     bnd (get_ibuf b) (\<lambda>bf.
     bnd (gets havedisk1) (\<lambda>have.
     if b \<notin> lk then panic ''iderw: buf not locked''
     else if q_valid bf \<and> \<not> q_dirty bf then panic ''iderw: nothing to do''
     else if q_dev bf \<noteq> 0 \<and> \<not> have then panic ''iderw: ide disk 1 not present''
     else
       sq (acquire idelock idelock_update) (
       sq (upd_ibuf b (\<lambda>f. f\<lparr>q_next := None\<rparr>)) (
       bnd (gets idequeue) (\<lambda>q.
       sq (case q of
             None \<Rightarrow> modify (\<lambda>s. s\<lparr>idequeue := Some b\<rparr>)
           | Some h \<Rightarrow> bnd (queue_last nbuf h) (\<lambda>l. upd_ibuf l (\<lambda>f. f\<lparr>q_next := Some b\<rparr>))) (
       bnd (gets idequeue) (\<lambda>q.
       sq (if q = Some b then idestart q else ret ()) (
       sq (release idelock idelock_update)
          (ret (Asleep ())))))))))))"

text \<open>The process woken for its buffer: it returns if the request is done, and sleeps again otherwise.\<close>

definition iderw_resume :: "nat \<Rightarrow> (ide, unit segment) km" where
  "iderw_resume b =
     sq (acquire idelock idelock_update) (
     bnd (get_ibuf b) (\<lambda>bf.
     sq (release idelock idelock_update)
        (ret (if q_valid bf \<and> \<not> q_dirty bf then Returned 0 else Asleep ()))))"

declare queue_last.simps [simp del]

section \<open>Programming a request\<close>

lemma bit_sector: "unat (x :: u32) < 2 ^ 28 \<Longrightarrow> bit x n \<Longrightarrow> n < 28"
proof (rule ccontr)
  assume x: "unat x < 2 ^ 28" "bit x n" "\<not> n < 28"
  have "take_bit 28 x = x" using x(1) by (simp add: word_unat_eq_iff unsigned_take_bit_eq take_bit_nat_eq_self)
  then have "bit (take_bit 28 x) n" using x(2) by simp
  then show False using x(3) by (simp add: bit_take_bit_iff)
qed

lemma bit_consts: "bit (0xff :: u32) n \<longleftrightarrow> n < 8" "bit (0x0f :: u32) n \<longleftrightarrow> n < 4" "bit (0xe0 :: u8) n \<longleftrightarrow> 5 \<le> n \<and> n < 8"
proof -
  have e: "(0xff :: u32) = mask 8" "(0x0f :: u32) = mask 4" "(0xe0 :: u8) = push_bit 5 (mask 3)"
    by (simp_all add: mask_eq_exp_minus_1 push_bit_eq_mult)
  show "bit (0xff :: u32) n \<longleftrightarrow> n < 8" "bit (0x0f :: u32) n \<longleftrightarrow> n < 4" "bit (0xe0 :: u8) n \<longleftrightarrow> 5 \<le> n \<and> n < 8"
    unfolding e bit_push_bit_iff bit_mask_iff by auto
qed

lemma bit_u8: "bit (x :: u8) n \<Longrightarrow> n < 8"
  by (drule bit_imp_le_length) simp

lemma bit_lba: "bit (lba r) n \<longleftrightarrow> n < 8 \<and> bit (r 3) n \<or> 8 \<le> n \<and> n < 16 \<and> bit (r 4) (n - 8) \<or> 16 \<le> n \<and> n < 24 \<and> bit (r 5) (n - 16) \<or>
    24 \<le> n \<and> n < 28 \<and> bit (r 6) (n - 24)"
  unfolding lba_def bit_or_iff bit_push_bit_iff bit_and_iff bit_unsigned_iff bit_consts by (auto dest: bit_u8)

lemma bit_part: "bit (ucast (drop_bit k x AND 0xff :: u32) :: u8) n \<longleftrightarrow> n < 8 \<and> bit x (k + n)"
  unfolding bit_unsigned_iff bit_and_iff bit_consts bit_drop_bit_eq by auto

lemma bit_reg6:
  "bit (0xe0 OR push_bit 4 (ucast (d AND 1 :: u32)) OR ucast (drop_bit 24 (x :: u32) AND 0x0f) :: u8) n \<longleftrightarrow>
     5 \<le> n \<and> n < 8 \<or> n = 4 \<and> bit d 0 \<or> n < 4 \<and> bit x (24 + n)"
  unfolding bit_or_iff bit_push_bit_iff bit_unsigned_iff bit_and_iff bit_consts bit_drop_bit_eq bit_1_iff by auto

lemma address_regs:
  assumes x: "unat (x :: u32) < 2 ^ 28" and r: "r 3 = ucast (x AND 0xff)" "r 4 = ucast (drop_bit 8 x AND 0xff)" "r 5 = ucast (drop_bit 16 x AND 0xff)"
    "r 6 = 0xe0 OR push_bit 4 (ucast (d AND 1)) OR ucast (drop_bit 24 x AND 0x0f)"
  shows "lba r = x" "drive r = (d :: u32) AND 1"
proof -
  have r3: "bit (r 3) n \<longleftrightarrow> n < 8 \<and> bit x n" for n using bit_part [of 0 x n] by (simp add: r(1))
  show "lba r = x"
  proof (rule bit_word_eqI)
    fix n :: nat
    consider "n < 8" | "8 \<le> n" "n < 16" | "16 \<le> n" "n < 24" | "24 \<le> n" "n < 28" | "28 \<le> n" by linarith
    then show "bit (lba r) n = bit x n"
    proof cases
      case 4
      then have "n - 24 < 4" "\<not> 5 \<le> n - 24" "n - 24 \<noteq> 4" by auto
      with 4 show ?thesis by (simp add: bit_lba r(4) bit_reg6)
    next
      case 5
      then have "\<not> bit x n" using bit_sector [OF x, of n] by linarith
      with 5 show ?thesis by (simp add: bit_lba)
    qed (auto simp: bit_lba r3 r(2,3) bit_part)
  qed
  show "drive r = d AND 1"
    by (rule bit_word_eqI) (auto simp: drive_def r(4) bit_and_iff bit_drop_bit_eq bit_unsigned_iff bit_reg6 bit_1_iff)
qed

text \<open>The disks after the request of a buffer.\<close>

definition done_with :: "ibuf \<Rightarrow> (u32 \<Rightarrow> u32 \<Rightarrow> nat \<Rightarrow> u8) \<Rightarrow> u32 \<Rightarrow> u32 \<Rightarrow> nat \<Rightarrow> u8" where
  "done_with f D = (if q_dirty f then D(q_dev f AND 1 := (D (q_dev f AND 1))(q_blockno f := q_data f)) else D)"

lemma idestart_run:
  assumes "unat (q_blockno (ibufs s b)) < 2 ^ 28"
  shows "\<exists>r. idestart (Some b) s = Inr ((), s\<lparr>reg := r, disks := done_with (ibufs s b) (disks s)\<rparr>) \<and>
    lba r = q_blockno (ibufs s b) \<and> drive r = q_dev (ibufs s b) AND 1"
proof -
  let ?f = "ibufs s b"
  define r3 r4 r5 r6 :: u8 where "r3 = ucast (q_blockno ?f AND 0xff)" and "r4 = ucast (drop_bit 8 (q_blockno ?f) AND 0xff)"
    and "r5 = ucast (drop_bit 16 (q_blockno ?f) AND 0xff)"
    and "r6 = 0xe0 OR push_bit 4 (ucast (q_dev ?f AND 1)) OR ucast (drop_bit 24 (q_blockno ?f) AND 0x0f)"
  note regs = r3_def r4_def r5_def r6_def
  let ?r = "\<lambda>c. (reg s)(0x206 := 0, 2 := 1, 3 := r3, 4 := r4, 5 := r5, 6 := r6, 7 := c)"
  have "?r c 3 = r3" "?r c 4 = r4" "?r c 5 = r5" "?r c 6 = r6" for c by simp_all
  then have r: "lba (?r c) = q_blockno ?f" "drive (?r c) = q_dev ?f AND 1" for c
    unfolding regs by (rule address_regs [OF assms])+
  have "idestart (Some b) s = (if q_dirty ?f then sq (outb 7 IDE_CMD_WRITE) (outsl (q_data ?f)) else outb 7 IDE_CMD_READ)
      (s\<lparr>reg := (reg s)(0x206 := 0, 2 := 1, 3 := r3, 4 := r4, 5 := r5, 6 := r6)\<rparr>)"
    unfolding idestart_def option.case bnd_run get_ibuf_def gets_run sum.case prod.case Let_def regs [symmetric]
    by (simp add: sq_run outb_def modify_run)
  also have "\<dots> = Inr ((), s\<lparr>reg := ?r (if q_dirty ?f then IDE_CMD_WRITE else IDE_CMD_READ), disks := done_with ?f (disks s)\<rparr>)"
    using r [of IDE_CMD_WRITE] by (cases "q_dirty ?f") (simp_all add: run_simps outb_def outsl_def done_with_def)
  finally show ?thesis using r by blast
qed

section \<open>The queue\<close>

fun qpath :: "(nat \<Rightarrow> ibuf) \<Rightarrow> nat option \<Rightarrow> nat list \<Rightarrow> bool" where
  "qpath f h [] \<longleftrightarrow> h = None"
| "qpath f h (b # bs) \<longleftrightarrow> h = Some b \<and> qpath f (q_next (f b)) bs"

text \<open>
  \<open>ide_rep s qs D\<close>: the requests of the buffers \<open>qs\<close> are queued, in this order, and \<open>D\<close> are the disks before the first of them, which the
  controller is working on.
\<close>

definition ide_rep :: "ide \<Rightarrow> nat list \<Rightarrow> (u32 \<Rightarrow> u32 \<Rightarrow> nat \<Rightarrow> u8) \<Rightarrow> bool" where
  "ide_rep s qs D \<longleftrightarrow> \<not> idelock s \<and> distinct qs \<and> qpath (ibufs s) (idequeue s) qs \<and> (\<forall>b \<in> set qs. unat (q_blockno (ibufs s b)) < 2 ^ 28) \<and>
     (case qs of
        [] \<Rightarrow> disks s = D
      | b # _ \<Rightarrow> drive (reg s) = q_dev (ibufs s b) AND 1 \<and> lba (reg s) = q_blockno (ibufs s b) \<and> disks s = done_with (ibufs s b) D)"

lemma qpath_cong: "(\<And>b. b \<in> set bs \<Longrightarrow> q_next (g b) = q_next (f b)) \<Longrightarrow> qpath g h bs = qpath f h bs"
  by (induction bs arbitrary: h) auto

lemma qpath_snoc: "qpath f h bs \<Longrightarrow> b \<notin> set bs \<Longrightarrow> bs \<noteq> [] \<Longrightarrow> distinct bs \<Longrightarrow> q_next (f b) = None \<Longrightarrow>
    qpath (f(last bs := (f (last bs))\<lparr>q_next := Some b\<rparr>)) h (bs @ [b])"
proof (induction bs arbitrary: h)
  case (Cons c bs)
  show ?case
  proof (cases "bs = []")
    case False
    then have "last bs \<in> set bs" by simp
    then have "last bs \<noteq> c" using Cons.prems(4) by auto
    with False Cons show ?thesis by simp
  qed (use Cons in simp)
qed simp

lemma queue_last_run: "qpath (ibufs s) (Some h) bs \<Longrightarrow> length bs \<le> n \<Longrightarrow> queue_last n h s = Inr (last bs, s)"
proof (induction n arbitrary: h bs)
  case 0
  then show ?case by simp
next
  case (Suc n)
  then obtain cs where bs: "bs = h # cs" "qpath (ibufs s) (q_next (ibufs s h)) cs" by (cases bs) auto
  show ?case
  proof (cases cs)
    case Nil
    with bs show ?thesis by (simp add: queue_last.simps run_simps get_ibuf_def)
  next
    case (Cons c ds)
    then have "q_next (ibufs s h) = Some c" using bs(2) by simp
    with Suc.IH [of c cs] Suc.prems(2) bs Cons show ?thesis by (simp add: queue_last.simps run_simps get_ibuf_def)
  qed
qed

text \<open>The buffer when its request is done, on the disks \<open>D\<close>.\<close>

definition served :: "(u32 \<Rightarrow> u32 \<Rightarrow> nat \<Rightarrow> u8) \<Rightarrow> ibuf \<Rightarrow> ibuf" where
  "served D f = f\<lparr>q_data := if q_dirty f then q_data f else D (q_dev f AND 1) (q_blockno f), q_valid := True, q_dirty := False\<rparr>"

lemma ideintr_run:
  assumes rep: "ide_rep s (b # qs) D" and ok: "ide_ready s"
  shows "wp ideintr (\<lambda>_ t. ide_rep t qs (done_with (ibufs s b) D) \<and> ibufs t = (ibufs s)(b := served D (ibufs s b)) \<and>
    wakeups t = wakeups s @ [b] \<and> locked t = locked s \<and> ide_ready t) s"
proof -
  let ?f = "ibufs s b" let ?D = "done_with (ibufs s b) D"
  have q: "idequeue s = Some b" "qpath (ibufs s) (q_next ?f) qs" "b \<notin> set qs" "distinct qs" "\<not> idelock s" "disks s = ?D"
    "drive (reg s) = q_dev ?f AND 1" "lba (reg s) = q_blockno ?f" "\<forall>c \<in> set qs. unat (q_blockno (ibufs s c)) < 2 ^ 28"
    using rep by (auto simp: ide_rep_def)
  define u where "u = s\<lparr>idelock := True, idequeue := q_next ?f, ibufs := (ibufs s)(b := served D ?f), wakeups := wakeups s @ [b]\<rparr>"
  have data: "\<not> q_dirty ?f \<Longrightarrow> disks s (q_dev ?f AND 1) (q_blockno ?f) = D (q_dev ?f AND 1) (q_blockno ?f)"
    using q(6) by (simp add: done_with_def)
  have run: "ideintr s = sq (if idequeue u \<noteq> None then idestart (idequeue u) else ret ()) (release idelock idelock_update) u"
    using q ok data
    by (cases "q_dirty ?f") (simp_all add: ideintr_def run_simps get_ibuf_def upd_ibuf_def insl_def u_def served_def del: not_None_eq)
  have "qpath (ibufs u) (idequeue u) qs = qpath (ibufs s) (idequeue u) qs" by (rule qpath_cong) (use q(3) in \<open>auto simp: u_def\<close>)
  then have path: "qpath (ibufs u) (idequeue u) qs" using q(2) by (simp add: u_def)
  show ?thesis
  proof (cases qs)
    case Nil
    then have "idequeue u = None" using path by simp
    then show ?thesis using q Nil ok by (simp add: wp_def run run_simps) (simp add: u_def ide_rep_def)
  next
    case (Cons c cs)
    then have n: "idequeue u = Some c" "c \<noteq> b" using path q(3) by auto
    have "unat (q_blockno (ibufs u c)) < 2 ^ 28" using q(9) n(2) Cons by (simp add: u_def)
    then obtain r where r: "idestart (Some c) u = Inr ((), u\<lparr>reg := r, disks := done_with (ibufs u c) (disks u)\<rparr>)"
      "lba r = q_blockno (ibufs u c)" "drive r = q_dev (ibufs u c) AND 1" using idestart_run by blast
    have "disks u = ?D" using q(6) by (simp add: u_def)
    then show ?thesis using q n r path Cons ok by (simp add: wp_def run run_simps) (auto simp: u_def ide_rep_def)
  qed
qed

lemma iderw_enter_run:
  assumes rep: "ide_rep s qs D" and b: "b \<notin> set qs" "b \<in> locked s" "\<not> (q_valid (ibufs s b) \<and> \<not> q_dirty (ibufs s b))"
    "q_dev (ibufs s b) = 0 \<or> havedisk1 s" "unat (q_blockno (ibufs s b)) < 2 ^ 28" and n: "length qs \<le> nbuf"
  shows "wp (iderw_enter nbuf b) (\<lambda>r t. r = Asleep () \<and> ide_rep t (qs @ [b]) D \<and>
    (\<forall>c. (ibufs t c)\<lparr>q_next := None\<rparr> = (ibufs s c)\<lparr>q_next := None\<rparr>) \<and> wakeups t = wakeups s \<and> locked t = locked s) s"
proof -
  define u where "u = s\<lparr>idelock := True, ibufs := (ibufs s)(b := (ibufs s b)\<lparr>q_next := None\<rparr>)\<rparr>"
  have q: "qpath (ibufs s) (idequeue s) qs" "distinct qs" "\<not> idelock s" using rep by (auto simp: ide_rep_def)
  have "qpath (ibufs u) (idequeue u) qs = qpath (ibufs s) (idequeue u) qs" by (rule qpath_cong) (use b(1) in \<open>auto simp: u_def\<close>)
  then have path: "qpath (ibufs u) (idequeue u) qs" using q(1) by (simp add: u_def)
  show ?thesis
  proof (cases qs)
    case Nil
    let ?v = "u\<lparr>idequeue := Some b\<rparr>"
    have "unat (q_blockno (ibufs ?v b)) < 2 ^ 28" using b(5) by (simp add: u_def)
    then obtain r where r: "idestart (Some b) ?v = Inr ((), ?v\<lparr>reg := r, disks := done_with (ibufs ?v b) (disks ?v)\<rparr>)"
      "lba r = q_blockno (ibufs ?v b)" "drive r = q_dev (ibufs ?v b) AND 1" using idestart_run by blast
    have "idequeue s = None" "disks s = D" using rep Nil by (simp_all add: ide_rep_def)
    then have "iderw_enter nbuf b s = Inr (Asleep (), ?v\<lparr>reg := r, disks := done_with (ibufs ?v b) (disks ?v), idelock := False\<rparr>)"
      using b q r(1) by (auto simp: iderw_enter_def run_simps get_ibuf_def upd_ibuf_def u_def)
    then show ?thesis using Nil r b(5) \<open>disks s = D\<close> by (simp add: wp_def ide_rep_def u_def done_with_def)
  next
    case (Cons h cs)
    then have h: "idequeue s = Some h" "h \<noteq> b" using q(1) b(1) by auto
    then have last: "queue_last nbuf h u = Inr (last qs, u)" using queue_last_run [of u h qs nbuf] path n by (simp add: u_def)
    let ?l = "last qs"
    let ?v = "u\<lparr>ibufs := (ibufs u)(?l := (ibufs u ?l)\<lparr>q_next := Some b\<rparr>)\<rparr>"
    have l: "?l \<noteq> b" "?l \<in> set qs" using Cons b(1) by (metis last_in_set list.discI)+
    have "iderw_enter nbuf b s = Inr (Asleep (), ?v\<lparr>idelock := False\<rparr>)"
      using b q h last by (auto simp: iderw_enter_def run_simps get_ibuf_def upd_ibuf_def u_def)
    moreover have "qpath (ibufs ?v) (idequeue ?v) (qs @ [b])"
      using qpath_snoc [OF path b(1)] Cons q(2) by (simp add: u_def)
    ultimately show ?thesis
      using rep b(1,5) l Cons by (auto simp: wp_def ide_rep_def u_def done_with_def)
  qed
qed

section \<open>Properties\<close>

text \<open>C14: The queueing driver serves requests as the in-memory driver does, one after the other. With the requests \<open>qs\<close> queued and \<open>D\<close> the disks before the
  first of them, \<open>iderw\<close> of another locked buffer comes to sleep with its request queued last and nothing else of any buffer changed. An interrupt
  completes the first request: the buffer becomes valid and clean, a read has brought the block of the buffer from \<open>D\<close> and a write
  has stored the buffer in its block and nowhere else; its sleepers are woken, the controller is programmed for the next request, and a process
  that resumes returns from \<open>iderw\<close> exactly if its request has been served.\<close>

theorem ide_serves_in_order:
  assumes rep: "ide_rep s qs D" and b: "b \<notin> set qs" "b \<in> locked s" "\<not> (q_valid (ibufs s b) \<and> \<not> q_dirty (ibufs s b))"
    "q_dev (ibufs s b) = 0 \<or> havedisk1 s" "unat (q_blockno (ibufs s b)) < 2 ^ 28" and n: "length qs \<le> nbuf"
  shows "wp (iderw_enter nbuf b) (\<lambda>r t. r = Asleep () \<and> ide_rep t (qs @ [b]) D \<and>
      (\<forall>c. (ibufs t c)\<lparr>q_next := None\<rparr> = (ibufs s c)\<lparr>q_next := None\<rparr>)) s \<and>
    (ide_ready s \<and> qs \<noteq> [] \<longrightarrow> wp ideintr (\<lambda>_ t. ide_rep t (tl qs) (done_with (ibufs s (hd qs)) D) \<and>
      ibufs t = (ibufs s)(hd qs := served D (ibufs s (hd qs))) \<and> wakeups t = wakeups s @ [hd qs] \<and>
      wp (iderw_resume (hd qs)) (\<lambda>r _. r = Returned 0) t \<and> wp (iderw_resume b) (\<lambda>r _. r = Asleep ()) t) s)"
proof (intro conjI impI)
  show "wp (iderw_enter nbuf b) (\<lambda>r t. r = Asleep () \<and> ide_rep t (qs @ [b]) D \<and>
      (\<forall>c. (ibufs t c)\<lparr>q_next := None\<rparr> = (ibufs s c)\<lparr>q_next := None\<rparr>)) s"
    by (rule wp_mono [OF iderw_enter_run [OF rep b n]]) blast
next
  assume a: "ide_ready s \<and> qs \<noteq> []"
  then have rep': "ide_rep s (hd qs # tl qs) D" using rep by simp
  have "hd qs \<noteq> b" using b(1) hd_in_set [of qs] a by blast
  then have "wp (iderw_resume (hd qs)) (\<lambda>r _. r = Returned 0) t \<and> wp (iderw_resume b) (\<lambda>r _. r = Asleep ()) t"
    if "ide_rep t (tl qs) (done_with (ibufs s (hd qs)) D)" "ibufs t = (ibufs s)(hd qs := served D (ibufs s (hd qs)))" for t
    using that b(3) by (auto simp: iderw_resume_def wp_rules get_ibuf_def served_def ide_rep_def)
  then show "wp ideintr (\<lambda>_ t. ide_rep t (tl qs) (done_with (ibufs s (hd qs)) D) \<and>
      ibufs t = (ibufs s)(hd qs := served D (ibufs s (hd qs))) \<and> wakeups t = wakeups s @ [hd qs] \<and>
      wp (iderw_resume (hd qs)) (\<lambda>r _. r = Returned 0) t \<and> wp (iderw_resume b) (\<lambda>r _. r = Asleep ()) t) s"
    using a by (intro wp_mono [OF ideintr_run [OF rep']]) auto
qed

text \<open>A disk with one read request at block 5, to which a write of block 0x1234567 is added.\<close>

definition ide_example :: ide where
  "ide_example = \<lparr>idelock = False, idequeue = Some 0,
     ibufs = (\<lambda>b. \<lparr>q_dev = 1, q_blockno = (if b = 0 then 5 else 0x1234567), q_valid = (b \<noteq> 0), q_dirty = (b \<noteq> 0), q_data = (\<lambda>_. 7), q_next = None\<rparr>),
     havedisk1 = True, reg = (\<lambda>i. if i = 3 then 5 else if i = 6 then 0xf0 else 0), disks = (\<lambda>_ n _. if n = 5 then 9 else 0), ide_ready = True,
     locked = {1}, wakeups = []\<rparr>"

theorem ide_serves_in_order_witness:
  "wp (iderw_enter 30 1) (\<lambda>r t. r = Asleep () \<and> ide_rep t [0, 1] (disks ide_example)) ide_example \<and>
   wp ideintr (\<lambda>_ t. q_data (ibufs t 0) = (\<lambda>_. 9) \<and> q_valid (ibufs t 0)) ide_example"
proof -
  have "ide_rep ide_example [0] (disks ide_example)"
    by (simp add: ide_rep_def ide_example_def drive_def lba_def done_with_def)
  note run = ide_serves_in_order [OF this, of 1 30]
  have "wp (iderw_enter 30 1) (\<lambda>r t. r = Asleep () \<and> ide_rep t [0, 1] (disks ide_example)) ide_example"
    by (rule wp_mono [OF run [THEN conjunct1]]) (simp_all add: ide_example_def)
  moreover have "wp ideintr (\<lambda>_ t. q_data (ibufs t 0) = (\<lambda>_. 9) \<and> q_valid (ibufs t 0)) ide_example"
    by (rule wp_mono [OF run [THEN conjunct2, THEN mp]]) (simp_all add: ide_example_def served_def)
  ultimately show ?thesis by blast
qed

end
