(* ===== verification/Utils.thy ===== *)
theory Utils
  imports Printf Dir
begin

text \<open>
  The user programs wc and cat, and the names that ls prints. \<open>rd\<close> is \<open>read\<close> of the file descriptor: from the state of the file and a bound it
  gives bytes, none at the end of the file and \<open>None\<close> on an error, and the new state. Both programs are proved for every way in
  which a file may be cut into the pieces that \<open>read\<close> returns.
\<close>

section \<open>wc\<close>

text \<open>The counters are machine words.\<close>

record counts =
  wc_l :: u32
  wc_w :: u32
  wc_c :: u32
  inword :: bool

definition wc_blank :: "u8 \<Rightarrow> bool" where
  "wc_blank x \<longleftrightarrow> x \<in> set [32, 13, 9, 10, 11]"

fun wc_scan :: "u8 list \<Rightarrow> counts \<Rightarrow> counts" where
  "wc_scan [] s = s"
| "wc_scan (x # buf) s =
     (let s = s\<lparr>wc_c := wc_c s + 1\<rparr>;
          s = (if x = 10 then s\<lparr>wc_l := wc_l s + 1\<rparr> else s);
          s = (if wc_blank x then s\<lparr>inword := False\<rparr>
               else if \<not> inword s then s\<lparr>wc_w := wc_w s + 1, inword := True\<rparr>
               else s)
      in wc_scan buf s)"

partial_function (option) wc_loop :: "('f \<Rightarrow> nat \<Rightarrow> u8 list option \<times> 'f) \<Rightarrow> counts \<Rightarrow> 'f \<Rightarrow> counts option option" where
  "wc_loop rd s f =
     (case rd f 512 of
        (None, f') \<Rightarrow> Some None
      | (Some buf, f') \<Rightarrow> if buf = [] then Some (Some s) else wc_loop rd (wc_scan buf s) f')"

text \<open>The format of the line that is printed, and the two outcomes: the message of a read error, after which the program exits,
  or the line. \<open>name\<close> is the address of the name.\<close>

definition wc_format :: "u8 list" where
  "wc_format = [37, 100, 32, 37, 100, 32, 37, 100, 32, 37, 115, 10]"

definition wc_error :: "u8 list" where
  "wc_error = [119, 99, 58, 32, 114, 101, 97, 100, 32, 101, 114, 114, 111, 114, 10]"

definition wc :: "('f \<Rightarrow> nat \<Rightarrow> u8 list option \<times> 'f) \<Rightarrow> (u32 \<Rightarrow> u8 list) \<Rightarrow> u32 \<Rightarrow> 'f \<Rightarrow> (u8 list + u8 list) option" where
  "wc rd str name f =
     (case wc_loop rd \<lparr>wc_l = 0, wc_w = 0, wc_c = 0, inword = False\<rparr> f of
        None \<Rightarrow> None
      | Some None \<Rightarrow> Some (Inl (printf str (\<lambda>_. 0) 0 False wc_error))
      | Some (Some s) \<Rightarrow> Some (Inr (printf str (\<lambda>i. [wc_l s, wc_w s, wc_c s, name] ! i) 0 False wc_format)))"

section \<open>cat\<close>

text \<open>\<open>wr\<close> is \<open>write\<close> to the standard output. The result is the output, and whether the program goes on; it exits after the message
  of an error, which \<open>printf\<close> writes byte by byte.\<close>

definition cat_write_error :: "u8 list" where
  "cat_write_error = [99, 97, 116, 58, 32, 119, 114, 105, 116, 101, 32, 101, 114, 114, 111, 114, 10]"

definition cat_read_error :: "u8 list" where
  "cat_read_error = [99, 97, 116, 58, 32, 114, 101, 97, 100, 32, 101, 114, 114, 111, 114, 10]"

definition putc_all :: "(u8 list \<Rightarrow> 'o \<Rightarrow> int \<times> 'o) \<Rightarrow> u8 list \<Rightarrow> 'o \<Rightarrow> 'o" where
  "putc_all wr msg out = fold (\<lambda>c out. snd (wr [c] out)) msg out"

partial_function (option) cat :: "('f \<Rightarrow> nat \<Rightarrow> u8 list option \<times> 'f) \<Rightarrow> (u8 list \<Rightarrow> 'o \<Rightarrow> int \<times> 'o) \<Rightarrow> 'f \<Rightarrow> 'o \<Rightarrow> (bool \<times> 'o) option" where
  "cat rd wr f out =
     (case rd f 512 of
        (None, f') \<Rightarrow> Some (False, putc_all wr cat_read_error out)
      | (Some buf, f') \<Rightarrow>
          if buf = [] then Some (True, out)
          else (case wr buf out of (k, out') \<Rightarrow>
            if k \<noteq> int (length buf) then Some (False, putc_all wr cat_write_error out') else cat rd wr f' out'))"

section \<open>The names that ls prints\<close>

text \<open>The first character after the last slash: the walk down from position \<open>i\<close> of the path and its terminating zero.\<close>

fun after_slash :: "u8 list \<Rightarrow> nat \<Rightarrow> nat" where
  "after_slash path 0 = (if (path @ [0]) ! 0 \<noteq> 47 then 0 else 1)"
| "after_slash path (Suc i) = (if (path @ [0]) ! Suc i \<noteq> 47 then after_slash path i else Suc (Suc i))"

definition fmtname :: "u8 list \<Rightarrow> u8 list" where
  "fmtname path =
     (let p = drop (after_slash path (length path)) path in
      if DIRSIZ \<le> length p then p else p @ replicate (DIRSIZ - length p) 32)"

section \<open>Files in pieces\<close>

text \<open>A file that \<open>read\<close> gives in the pieces \<open>ps\<close>.\<close>

fun read_pieces :: "u8 list list \<Rightarrow> nat \<Rightarrow> u8 list option \<times> u8 list list" where
  "read_pieces [] n = (Some [], [])"
| "read_pieces (p # ps) n = (Some (take n p), if n < length p then drop n p # ps else ps)"

text \<open>The words of a text: its longest parts without blanks.\<close>

function wc_words :: "u8 list \<Rightarrow> u8 list list" where
  "wc_words cs =
     (if dropWhile wc_blank cs = [] then []
      else takeWhile (\<lambda>x. \<not> wc_blank x) (dropWhile wc_blank cs) # wc_words (dropWhile (\<lambda>x. \<not> wc_blank x) (dropWhile wc_blank cs)))"
  by pat_completeness auto
termination
proof (relation "measure length")
  fix cs
  assume ne: "dropWhile wc_blank cs \<noteq> []"
  then have "\<not> wc_blank (hd (dropWhile wc_blank cs))" by (rule hd_dropWhile)
  with ne have "length (dropWhile (\<lambda>x. \<not> wc_blank x) (dropWhile wc_blank cs)) < length (dropWhile wc_blank cs)"
    by (cases "dropWhile wc_blank cs") (auto intro: le_imp_less_Suc length_dropWhile_le)
  also have "\<dots> \<le> length cs" by (rule length_dropWhile_le)
  finally show "(dropWhile (\<lambda>x. \<not> wc_blank x) (dropWhile wc_blank cs), cs) \<in> measure length" by simp
qed simp

declare wc_words.simps [simp del]

lemma wc_words_Nil: "wc_words [] = []"
  by (subst wc_words.simps) simp

lemma wc_words_blank: "wc_blank x \<Longrightarrow> wc_words (x # cs) = wc_words cs"
  by (subst wc_words.simps, subst (2) wc_words.simps) simp

lemma wc_words_word: "\<not> wc_blank x \<Longrightarrow> length (wc_words (x # cs)) = Suc (length (wc_words (dropWhile (\<lambda>x. \<not> wc_blank x) cs)))"
  by (subst wc_words.simps) simp

lemma wc_scan_append: "wc_scan (as @ bs) s = wc_scan bs (wc_scan as s)"
  by (induction as arbitrary: s) (simp_all add: Let_def)

lemma wc_scan_counts:
  "wc_c (wc_scan cs s) = wc_c s + of_nat (length cs) \<and> wc_l (wc_scan cs s) = wc_l s + of_nat (count_list cs 10) \<and>
   wc_w (wc_scan cs s) = wc_w s + of_nat (length (wc_words (if inword s then dropWhile (\<lambda>x. \<not> wc_blank x) cs else cs)))"
proof (induction cs arbitrary: s)
  case (Cons x cs)
  have "wc_blank 10" by (simp add: wc_blank_def)
  then show ?case
    by (cases "wc_blank x"; cases "inword s") (auto simp: Cons.IH Let_def wc_words_blank wc_words_word)
qed (simp add: wc_words_Nil)

text \<open>A program that reads a file in pieces, none of them empty, sees the pieces cut to its buffer.\<close>

lemma read_pieces_step:
  assumes "[] \<notin> set ps" "0 < n" "ps \<noteq> []"
  obtains bs ps' where "read_pieces ps n = (Some bs, ps')" "bs \<noteq> []" "[] \<notin> set ps'" "concat ps = bs @ concat ps'"
    "length (concat ps') < length (concat ps)"
proof -
  from assms(3) obtain p qs where ps: "ps = p # qs" by (cases ps) auto
  then have "take n p \<noteq> []" using assms(1,2) by auto
  then show ?thesis
    by (intro that [of "take n p" "if n < length p then drop n p # qs else qs"]) (use assms ps in auto)
qed

lemma wc_loop_pieces: "[] \<notin> set ps \<Longrightarrow> wc_loop read_pieces s ps = Some (Some (wc_scan (concat ps) s))"
proof (induction "length (concat ps)" arbitrary: ps s rule: less_induct)
  case less
  show ?case
  proof (cases "ps = []")
    case True
    then show ?thesis by (subst wc_loop.simps) simp
  next
    case False
    then obtain bs qs where r: "read_pieces ps 512 = (Some bs, qs)" "bs \<noteq> []" "[] \<notin> set qs" "concat ps = bs @ concat qs"
      "length (concat qs) < length (concat ps)"
      using read_pieces_step [OF less(2), of 512] by auto
    have "wc_loop read_pieces s ps = wc_loop read_pieces (wc_scan bs s) qs"
      using r(1,2) by (subst wc_loop.simps) simp
    also have "\<dots> = Some (Some (wc_scan (concat qs) (wc_scan bs s)))" by (rule less(1) [OF r(5,3)])
    finally show ?thesis by (simp add: r(4) wc_scan_append)
  qed
qed

text \<open>\<open>wc\<close> ends and prints the numbers of newlines, words and bytes of the file, however it is read.\<close>

lemma wc_counts:
  assumes "[] \<notin> set ps"
  shows "wc read_pieces str name ps = Some (Inr (printf str
    (\<lambda>i. [of_nat (count_list (concat ps) 10), of_nat (length (wc_words (concat ps))), of_nat (length (concat ps)), name] ! i) 0 False wc_format))"
  using wc_loop_pieces [OF assms] wc_scan_counts [of "concat ps" "\<lparr>wc_l = 0, wc_w = 0, wc_c = 0, inword = False\<rparr>"]
  by (simp add: wc_def)

text \<open>\<open>cat\<close> writes the file.\<close>

lemma cat_copies: "[] \<notin> set ps \<Longrightarrow> cat read_pieces (\<lambda>b out. (int (length b), out @ b)) ps out = Some (True, out @ concat ps)"
proof (induction "length (concat ps)" arbitrary: ps out rule: less_induct)
  case less
  show ?case
  proof (cases "ps = []")
    case True
    then show ?thesis by (subst cat.simps) simp
  next
    case False
    then obtain bs qs where r: "read_pieces ps 512 = (Some bs, qs)" "bs \<noteq> []" "[] \<notin> set qs" "concat ps = bs @ concat qs"
      "length (concat qs) < length (concat ps)"
      using read_pieces_step [OF less(2), of 512] by auto
    have "cat read_pieces (\<lambda>b out. (int (length b), out @ b)) ps out = cat read_pieces (\<lambda>b out. (int (length b), out @ b)) qs (out @ bs)"
      using r(1,2) by (subst cat.simps) simp
    then show ?thesis using less(1) [OF r(5,3)] by (simp add: r(4))
  qed
qed

text \<open>\<open>fmtname\<close> gives the last part of the path, padded with blanks to the width of a name.\<close>

lemma after_slash_last:
  assumes "47 \<notin> set p" "q = [] \<or> last q = 47"
  shows "j \<le> length p \<Longrightarrow> after_slash (q @ p) (length q + j) = length q"
proof (induction j)
  case 0
  have at: "(q @ p @ [0]) ! length q \<noteq> 47" using assms(1) by (cases p) auto
  show ?case
  proof (cases q rule: rev_cases)
    case Nil
    then show ?thesis using at by simp
  next
    case (snoc r x)
    then have "after_slash (q @ p) (length r) = length q" using assms(2) by (cases "length r") (auto simp: nth_append)
    then show ?thesis using at snoc by simp
  qed
next
  case (Suc j)
  then have "(q @ p @ [0]) ! Suc (length q + j) \<noteq> 47"
    using assms(1) by (auto simp: nth_append in_set_conv_nth)
  with Suc show ?case by simp
qed

lemma fmtname_last:
  assumes "47 \<notin> set p" "q = [] \<or> last q = 47"
  shows "fmtname (q @ p) = p @ replicate (DIRSIZ - length p) 32"
  using after_slash_last [OF assms, of "length p"] by (simp add: fmtname_def Let_def)

end
